(* ===== verification/Prelude.thy ===== *)
theory Prelude
  imports Main "HOL-Library.Word" "HOL-Library.Char_ord" "HOL-Library.Multiset"
begin

unbundle bit_operations_syntax

text \<open>
  Shared by every component of the development: machine types, the C character functions
  of the \<^verbatim>\<open>"C"\<close> locale that the sources call (\<^verbatim>\<open>isspace\<close>, \<^verbatim>\<open>isdigit\<close>, \<^verbatim>\<open>tolower\<close>, ...),
  NUL-terminated strings, the integer conversions (\<^verbatim>\<open>atoi\<close>, \<^verbatim>\<open>_itoa\<close>), and generic lemmas
  on lists and words. A byte is an HOL \<^typ>\<open>char\<close> (256 values) and a byte string is a
  \<^typ>\<open>string\<close>; where the source compares a plain \<^verbatim>\<open>char\<close> with a number the comparison is
  on its signed value \<^verbatim>\<open>sc\<close>, as on the x86 and ARM-Linux-with-signed-char targets of the
  build.
\<close>

section \<open>Fact collections\<close>

named_theorems c_char \<open>definitions of the C character functions, for evaluation\<close>
named_theorems hash_simps \<open>facts about the chained hash table\<close>
named_theorems run_simps \<open>unfolding of the interpreter's sequencing\<close>

section \<open>Bytes\<close>

type_synonym bytes = string

abbreviation NUL :: char where "NUL \<equiv> CHR 0x00"
abbreviation NL :: char where "NL \<equiv> CHR 0x0A"
abbreviation DQ :: char where "DQ \<equiv> CHR 0x22"
abbreviation SQ :: char where "SQ \<equiv> CHR 0x27"
abbreviation BSL :: char where "BSL \<equiv> CHR 0x5C"

text \<open>The value of \<^verbatim>\<open>EOF\<close> (-1) as a plain \<^verbatim>\<open>char\<close>: the sources keep the result of
  \<^verbatim>\<open>GetC()\<close> in a \<^verbatim>\<open>char\<close>, so end of input and the byte 0xFF are the same value.\<close>

abbreviation EOF :: char where "EOF \<equiv> CHR 0xFF"

definition uc :: "char \<Rightarrow> nat" where
  "uc c = of_char c"

definition sc :: "char \<Rightarrow> int" where
  "sc c = (if uc c < 128 then int (uc c) else int (uc c) - 256)"

definition c_isspace :: "char \<Rightarrow> bool" where
  "c_isspace c = (uc c = 32 \<or> 9 \<le> uc c \<and> uc c \<le> 13)"

definition c_isdigit :: "char \<Rightarrow> bool" where
  "c_isdigit c = (48 \<le> uc c \<and> uc c \<le> 57)"

definition c_isupper :: "char \<Rightarrow> bool" where
  "c_isupper c = (65 \<le> uc c \<and> uc c \<le> 90)"

definition c_islower :: "char \<Rightarrow> bool" where
  "c_islower c = (97 \<le> uc c \<and> uc c \<le> 122)"

definition c_isalpha :: "char \<Rightarrow> bool" where
  "c_isalpha c = (c_isupper c \<or> c_islower c)"

definition c_isalnum :: "char \<Rightarrow> bool" where
  "c_isalnum c = (c_isalpha c \<or> c_isdigit c)"

definition c_tolower :: "char \<Rightarrow> char" where
  "c_tolower c = (if c_isupper c then char_of (uc c + 32) else c)"

definition c_toupper :: "char \<Rightarrow> char" where
  "c_toupper c = (if c_islower c then char_of (uc c - 32) else c)"

lemmas [c_char] = uc_def sc_def c_isspace_def c_isdigit_def c_isupper_def c_islower_def
  c_isalpha_def c_isalnum_def c_tolower_def c_toupper_def

lemma uc_less [simp]: "uc c < 256"
  by (simp add: uc_def)

lemma uc_char_of [simp]: "n < 256 \<Longrightarrow> uc (char_of n) = n"
  by (simp add: uc_def)

lemma char_of_uc [simp]: "char_of (uc c) = c"
  by (simp add: uc_def)

lemma uc_inject: "uc a = uc b \<longleftrightarrow> a = b"
  by (simp add: uc_def)

lemma c_tolower_idem [simp]: "c_tolower (c_tolower c) = c_tolower c"
  by (auto simp: c_tolower_def c_isupper_def)

lemma c_toupper_idem [simp]: "c_toupper (c_toupper c) = c_toupper c"
  by (auto simp: c_toupper_def c_islower_def)

lemma c_tolower_toupper [simp]: "c_tolower (c_toupper c) = c_tolower c"
  by (auto simp: c_tolower_def c_toupper_def c_isupper_def c_islower_def)

lemma c_tolower_NUL_iff [simp]: "c_tolower c = NUL \<longleftrightarrow> c = NUL"
  by (simp add: uc_inject [symmetric] c_tolower_def c_isupper_def)
    (simp add: uc_def)

section \<open>NUL-terminated strings\<close>

text \<open>What a \<^verbatim>\<open>const char *\<close> into a buffer reads: the bytes before the first NUL.\<close>

definition cstr :: "bytes \<Rightarrow> bytes" where
  "cstr s = takeWhile (\<lambda>c. c \<noteq> NUL) s"

lemma cstr_idem: "cstr (cstr s) = cstr s"
  by (simp add: cstr_def takeWhile_idem)

lemma cstr_no_NUL [simp]: "NUL \<notin> set (cstr s)"
  by (auto simp: cstr_def dest: set_takeWhileD)

lemma cstr_id: "NUL \<notin> set s \<Longrightarrow> cstr s = s"
  unfolding cstr_def by (rule takeWhile_eq_all_conv [THEN iffD2]) auto

lemma cstr_Nil [simp]: "cstr [] = []"
  by (simp add: cstr_def)

lemma cstr_Cons: "cstr (c # s) = (if c = NUL then [] else c # cstr s)"
  by (simp add: cstr_def)

lemma length_cstr_le: "length (cstr s) \<le> length s"
  by (simp add: cstr_def length_takeWhile_le)

section \<open>Lists\<close>

lemma find_unique:
  assumes "\<And>x y. x \<in> set xs \<Longrightarrow> y \<in> set xs \<Longrightarrow> P x \<Longrightarrow> P y \<Longrightarrow> x = y"
  shows "find P xs = Some n \<longleftrightarrow> n \<in> set xs \<and> P n"
  using assms by (induction xs) auto

lemma mset_concat_update:
  "i < length t \<Longrightarrow> mset (concat (t[i := c])) + mset (t ! i) = mset (concat t) + mset c"
proof (induction t arbitrary: i)
  case (Cons a t)
  then show ?case by (cases i) (auto simp: ac_simps)
qed simp

lemma distinct_map_mset_eq: "mset xs = mset ys \<Longrightarrow> distinct (map f xs) = distinct (map f ys)"
  by (metis mset_map mset_eq_imp_distinct_iff)

section \<open>Operations that implement operations of a specification\<close>

text \<open>An operation that fails (\<^const>\<open>None\<close>) ends a run.\<close>

primrec runs :: "('o \<Rightarrow> 's \<Rightarrow> 's option) \<Rightarrow> 'o list \<Rightarrow> 's \<Rightarrow> 's option" where
  "runs step [] s = Some s"
| "runs step (p # ps) s = Option.bind (step p s) (runs step ps)"

locale simulation =
  fixes step :: "'o \<Rightarrow> 's \<Rightarrow> 's option"
    and spec :: "'o \<Rightarrow> 'm \<Rightarrow> 'm option"
    and rel :: "'s \<Rightarrow> 'm \<Rightarrow> bool"
  assumes step_ok: "rel s m \<Longrightarrow> spec p m = Some m' \<Longrightarrow> \<exists>s'. step p s = Some s' \<and> rel s' m'"
begin

lemma runs_ok: "rel s m \<Longrightarrow> runs spec ps m = Some m' \<Longrightarrow> \<exists>s'. runs step ps s = Some s' \<and> rel s' m'"
proof (induction ps arbitrary: s m)
  case (Cons p ps)
  obtain m1 where m1: "spec p m = Some m1" "runs spec ps m1 = Some m'"
    using Cons.prems(2) by (cases "spec p m") auto
  obtain s1 where "step p s = Some s1" "rel s1 m1"
    using step_ok [OF Cons.prems(1) m1(1)] by blast
  then show ?case using Cons.IH [of s1 m1] m1(2) by simp
qed simp

end

end
