(* ===== verification/HashTable.thy ===== *)
theory HashTable
  imports Prelude
begin

text \<open>
  \<^verbatim>\<open>libsmx/hash.c\<close>: the extendible chained hash table behind every name map of the
  program. A chain is the list of the nodes its pointers link, in link order; a node keeps
  its address, because deletion and scanning compare pointers. Counters, marks, masks and
  hash values are \<^typ>\<open>64 word\<close> (\<^verbatim>\<open>unsigned long\<close>). An operation returns \<^const>\<open>None\<close>
  where the C code fails an \<^verbatim>\<open>assert\<close> or follows a null or dangling pointer. The outcome
  of \<^verbatim>\<open>realloc\<close> is a Boolean argument. The lemmas show that the chains always verify, that
  no assertion can fail below the size bound, and that the table behaves as a map on
  keys modulo its comparison function, whatever resizing happens.
\<close>

section \<open>Data\<close>

type_synonym hval = "64 word"

record ('k, 'd) hnode =
  hn_addr :: nat
  hn_key :: 'k
  hn_data :: 'd
  hn_hkey :: hval

record ('k, 'd) hash =
  h_table :: "('k, 'd) hnode list list"
  h_nchains :: hval
  h_nodecount :: hval
  h_maxcount :: hval
  h_highmark :: hval
  h_lowmark :: hval
  h_compare :: "'k \<Rightarrow> 'k \<Rightarrow> int"
  h_function :: "'k \<Rightarrow> hval"
  h_mask :: hval
  h_dynamic :: bool

record hscan =
  sc_chain :: nat
  sc_next :: "nat option"

definition INIT_BITS :: nat where
  "INIT_BITS = 6"

definition INIT_SIZE :: hval where
  "INIT_SIZE = push_bit INIT_BITS 1"

definition INIT_MASK :: hval where
  "INIT_MASK = INIT_SIZE - 1"

section \<open>Operations\<close>

function strip_zeros :: "hval \<Rightarrow> hval" where
  "strip_zeros arg = (if arg = 0 \<or> arg AND 1 \<noteq> 0 then arg else strip_zeros (drop_bit 1 arg))"
  by pat_completeness auto
termination
proof (relation "measure unat", goal_cases)
  case (2 arg)
  then have "0 < unat arg" by (simp add: word_gt_0 unat_gt_0)
  then show ?case by (simp add: drop_bit_eq_div unat_div)
qed simp

declare strip_zeros.simps [simp del]

definition is_power_of_two :: "hval \<Rightarrow> bool" where
  "is_power_of_two arg = (if arg = 0 then False else strip_zeros arg = 1)"

definition clear_table :: "('k, 'd) hash \<Rightarrow> ('k, 'd) hash" where
  "clear_table h = h\<lparr>h_table := map (\<lambda>i. []) [0..<unat (h_nchains h)]\<rparr>"

definition hash_verify :: "('k, 'd) hash \<Rightarrow> bool" where
  "hash_verify h =
    ((h_dynamic h \<longrightarrow>
        \<not> h_lowmark h \<ge> h_highmark h \<and> is_power_of_two (h_highmark h) \<and>
        is_power_of_two (h_lowmark h)) \<and>
     (\<forall>chain \<in> set [0..<unat (h_nchains h)]. \<forall>hptr \<in> set (h_table h ! chain).
        hn_hkey hptr AND h_mask h = of_nat chain) \<and>
     of_nat (length (concat (take (unat (h_nchains h)) (h_table h)))) = h_nodecount h)"

definition checked :: "('k, 'd) hash \<Rightarrow> ('k, 'd) hash option" where
  "checked h = (if hash_verify h then Some h else None)"

fun split_chain :: "hval \<Rightarrow> ('k, 'd) hnode list \<Rightarrow> ('k, 'd) hnode list \<Rightarrow> ('k, 'd) hnode list
    \<Rightarrow> ('k, 'd) hnode list \<times> ('k, 'd) hnode list" where
  "split_chain exposed_bit [] low_chain high_chain = (low_chain, high_chain)"
| "split_chain exposed_bit (hptr # rest) low_chain high_chain =
     (if hn_hkey hptr AND exposed_bit \<noteq> 0
      then split_chain exposed_bit rest low_chain (hptr # high_chain)
      else split_chain exposed_bit rest (hptr # low_chain) high_chain)"

text \<open>The loop over \<^verbatim>\<open>chain < nchains\<close> reads slot \<^verbatim>\<open>chain\<close> and writes the slots \<^verbatim>\<open>chain\<close> and
  \<^verbatim>\<open>chain + nchains\<close>; no slot is read after it was written, so the lower half of the new
  table is the list of the low chains and the upper half that of the high chains.\<close>

definition grow_table :: "bool \<Rightarrow> ('k, 'd) hash \<Rightarrow> ('k, 'd) hash option" where
  "grow_table realloc_ok h =
    (if \<not> 2 * h_nchains h > h_nchains h then None
     else if realloc_ok then
       (let mask = push_bit 1 (h_mask h) OR 1;
            exposed_bit = mask XOR h_mask h;
            halves = map (\<lambda>c. split_chain exposed_bit c [] []) (h_table h)
        in if mask = h_mask h then None
           else checked (h\<lparr>h_table := map fst halves @ map snd halves,
                    h_mask := mask, h_nchains := h_nchains h * 2,
                    h_lowmark := h_lowmark h * 2, h_highmark := h_highmark h * 2\<rparr>))
     else checked h)"

definition shrink_table :: "('k, 'd) hash \<Rightarrow> ('k, 'd) hash option" where
  "shrink_table h =
    (if \<not> h_nchains h \<ge> 2 then None
     else let nchains = h_nchains h div 2
          in checked (h\<lparr>h_table := map (\<lambda>chain. h_table h ! chain @ h_table h ! (chain + unat nchains))
                                [0..<unat nchains],
                h_mask := drop_bit 1 (h_mask h), h_nchains := nchains,
                h_lowmark := h_lowmark h div 2, h_highmark := h_highmark h div 2\<rparr>))"

definition hash_create :: "hval \<Rightarrow> ('k \<Rightarrow> 'k \<Rightarrow> int) \<Rightarrow> ('k \<Rightarrow> hval) \<Rightarrow> ('k, 'd) hash option" where
  "hash_create maxcount compfun hashfun =
     checked (clear_table
       \<lparr>h_table = [], h_nchains = INIT_SIZE, h_nodecount = 0, h_maxcount = maxcount,
        h_highmark = INIT_SIZE * 2, h_lowmark = INIT_SIZE div 2,
        h_compare = compfun, h_function = hashfun, h_mask = INIT_MASK, h_dynamic = True\<rparr>)"

definition hash_lookup :: "('k, 'd) hash \<Rightarrow> 'k \<Rightarrow> ('k, 'd) hnode option" where
  "hash_lookup h key =
     (let hkey = h_function h key; chain = hkey AND h_mask h
      in find (\<lambda>nptr. hn_hkey nptr = hkey \<and> h_compare h (hn_key nptr) key = 0)
           (h_table h ! unat chain))"

definition hash_insert ::
  "bool \<Rightarrow> ('k, 'd) hash \<Rightarrow> nat \<Rightarrow> 'd \<Rightarrow> 'k \<Rightarrow> ('k, 'd) hash option" where
  "hash_insert realloc_ok h node data key =
    (if \<not> h_nodecount h < h_maxcount h then None
     else if hash_lookup h key \<noteq> None then None
     else case (if h_dynamic h \<and> h_nodecount h \<ge> h_highmark h then grow_table realloc_ok h
                else Some h) of
       None \<Rightarrow> None
     | Some h' \<Rightarrow>
         (let hkey = h_function h' key; chain = unat (hkey AND h_mask h');
              n = \<lparr>hn_addr = node, hn_key = key, hn_data = data, hn_hkey = hkey\<rparr>
          in checked (h'\<lparr>h_table := (h_table h')[chain := n # h_table h' ! chain],
                         h_nodecount := h_nodecount h' + 1\<rparr>)))"

text \<open>Both unlinking cases of the deletions: the head pointer, or the predecessor's
  \<^verbatim>\<open>next\<close>. Running off the chain follows a null pointer.\<close>

fun unlink :: "nat \<Rightarrow> ('k, 'd) hnode list \<Rightarrow> ('k, 'd) hnode list option" where
  "unlink node [] = None"
| "unlink node (hptr # rest) =
     (if hn_addr hptr = node then Some rest else map_option ((#) hptr) (unlink node rest))"

definition hash_scan_delete :: "('k, 'd) hash \<Rightarrow> ('k, 'd) hnode \<Rightarrow> ('k, 'd) hash option" where
  "hash_scan_delete h node =
    (if map_option hn_addr (hash_lookup h (hn_key node)) \<noteq> Some (hn_addr node) then None
     else let chain = unat (hn_hkey node AND h_mask h)
          in case unlink (hn_addr node) (h_table h ! chain) of
               None \<Rightarrow> None
             | Some c \<Rightarrow> checked (h\<lparr>h_table := (h_table h)[chain := c],
                                   h_nodecount := h_nodecount h - 1\<rparr>))"

definition hash_delete :: "('k, 'd) hash \<Rightarrow> ('k, 'd) hnode \<Rightarrow> ('k, 'd) hash option" where
  "hash_delete h node =
    (if map_option hn_addr (hash_lookup h (hn_key node)) \<noteq> Some (hn_addr node) then None
     else case (if h_dynamic h \<and> h_nodecount h \<le> h_lowmark h \<and> h_nodecount h > INIT_SIZE
                then shrink_table h else Some h) of
       None \<Rightarrow> None
     | Some h' \<Rightarrow>
         (let chain = unat (hn_hkey node AND h_mask h')
          in case unlink (hn_addr node) (h_table h' ! chain) of
               None \<Rightarrow> None
             | Some c \<Rightarrow> checked (h'\<lparr>h_table := (h_table h')[chain := c],
                                    h_nodecount := h_nodecount h' - 1\<rparr>)))"

text \<open>Scanning. The cursor holds the address of the node to return next; its \<^verbatim>\<open>next\<close>
  pointer is read from the live table when the node is returned, so a cursor left on a node
  that has been unlinked is a dangling pointer (\<^const>\<open>None\<close>).\<close>

fun first_chain :: "('k, 'd) hnode list list \<Rightarrow> nat \<Rightarrow> (nat \<times> ('k, 'd) hnode) option" where
  "first_chain [] chain = None"
| "first_chain ([] # t) chain = first_chain t (Suc chain)"
| "first_chain ((n # ns) # t) chain = Some (chain, n)"

definition seek :: "('k, 'd) hash \<Rightarrow> nat \<Rightarrow> hscan \<Rightarrow> hscan" where
  "seek h from s =
    (case first_chain (drop from (take (unat (h_nchains h)) (h_table h))) from of
       Some (chain, n) \<Rightarrow> s\<lparr>sc_chain := chain, sc_next := Some (hn_addr n)\<rparr>
     | None \<Rightarrow> s\<lparr>sc_next := None\<rparr>)"

definition hash_scan_begin :: "('k, 'd) hash \<Rightarrow> hscan" where
  "hash_scan_begin h = seek h 0 \<lparr>sc_chain = 0, sc_next = None\<rparr>"

fun at_addr :: "nat \<Rightarrow> ('k, 'd) hnode list \<Rightarrow> ('k, 'd) hnode list" where
  "at_addr a [] = []"
| "at_addr a (n # ns) = (if hn_addr n = a then n # ns else at_addr a ns)"

definition hash_scan_next ::
  "('k, 'd) hash \<Rightarrow> hscan \<Rightarrow> (('k, 'd) hnode option \<times> hscan) option" where
  "hash_scan_next h s =
    (case sc_next s of
       None \<Rightarrow> Some (None, s)
     | Some a \<Rightarrow>
         (case at_addr a (h_table h ! sc_chain s) of
            [] \<Rightarrow> None
          | [n] \<Rightarrow> Some (Some n, seek h (Suc (sc_chain s)) s)
          | n # m # _ \<Rightarrow> Some (Some n, s\<lparr>sc_next := Some (hn_addr m)\<rparr>)))"

text \<open>The loop of \<^verbatim>\<open>hash_free_nodes\<close>, with the list of the nodes handed to \<^verbatim>\<open>freenode\<close>. Each
  turn unlinks one node, so the number of nodes plus one is enough fuel.\<close>

fun free_loop :: "nat \<Rightarrow> ('k, 'd) hash \<Rightarrow> hscan \<Rightarrow> (('k, 'd) hash \<times> ('k, 'd) hnode list) option" where
  "free_loop 0 h s = None"
| "free_loop (Suc fuel) h s =
    (case hash_scan_next h s of
       None \<Rightarrow> None
     | Some (None, s') \<Rightarrow> Some (h, [])
     | Some (Some node, s') \<Rightarrow>
         (case hash_scan_delete h node of
            None \<Rightarrow> None
          | Some h' \<Rightarrow> map_option (\<lambda>(h'', freed). (h'', node # freed)) (free_loop fuel h' s')))"

definition hash_free_nodes ::
  "('k, 'd) hash \<Rightarrow> (('k, 'd) hash \<times> ('k, 'd) hnode list) option" where
  "hash_free_nodes h =
    map_option (\<lambda>(h', freed). (clear_table (h'\<lparr>h_nodecount := 0\<rparr>), freed))
      (free_loop (Suc (length (concat (h_table h)))) h (hash_scan_begin h))"

definition hash_isfull :: "('k, 'd) hash \<Rightarrow> bool" where
  "hash_isfull h = (h_nodecount h = h_maxcount h)"

definition hash_isempty :: "('k, 'd) hash \<Rightarrow> bool" where
  "hash_isempty h = (h_nodecount h = 0)"

section \<open>Powers of two and masks\<close>

lemma unat_and_mask: "unat (w AND mask k :: hval) = unat w mod 2 ^ k"
proof -
  have "unat (w AND mask k) = take_bit k (unat w)"
    by (simp add: take_bit_eq_mask [symmetric] unsigned_take_bit_eq)
  then show ?thesis by (simp add: take_bit_eq_mod)
qed

lemma and_exposed_bit: "(w AND (2 ^ k :: hval) \<noteq> 0) = odd (unat w div 2 ^ k)"
proof -
  have "(w AND (2 ^ k :: hval) = 0) = (\<not> bit w k)"
    by (rule and_exp_eq_0_iff_not_bit)
  also have "bit w k = bit (unat w) k"
    by (auto simp: bit_unsigned_iff dest: bit_imp_le_length)
  finally show ?thesis by (simp add: bit_iff_odd)
qed

lemma grow_mask: "push_bit 1 (mask k :: hval) OR 1 = mask (Suc k)"
  by (simp add: mask_Suc_double or.commute mult.commute)

lemma grow_exposed_bit: "(mask (Suc k) :: hval) XOR mask k = 2 ^ k"
  by (rule bit_eqI) (auto simp: bit_simps)

lemma mod_Suc_exp:
  "x mod 2 ^ Suc k = (if odd (x div 2 ^ k) then 2 ^ k + x mod 2 ^ k else x mod 2 ^ k)" for x :: nat
proof -
  have "x mod (2 ^ k * 2) = 2 ^ k * (x div 2 ^ k mod 2) + x mod 2 ^ k"
    by (rule mod_mult2_eq)
  then show ?thesis by (simp add: mult.commute parity_cases odd_iff_mod_2_eq_one)
qed

lemma unat_exp:
  assumes "k < 64"
  shows "unat (2 ^ k :: hval) = 2 ^ k"
proof -
  have "(2::nat) ^ k < 2 ^ 64" using assms by (intro power_strict_increasing) auto
  then have "unat (of_nat (2 ^ k) :: hval) = 2 ^ k" by (simp add: unat_of_nat del: of_nat_power)
  then show ?thesis by simp
qed

lemma strip_zeros_exp: "k < 64 \<Longrightarrow> strip_zeros (2 ^ k) = 1"
proof (induction k)
  case 0
  then show ?case by (simp add: strip_zeros.simps [of 1])
next
  case (Suc k)
  have "drop_bit 1 (2 ^ Suc k :: hval) = 2 ^ k"
    using Suc.prems by (intro bit_eqI) (auto simp: bit_simps)
  moreover have "(2 ^ Suc k :: hval) AND 1 = 0"
    using and_exposed_bit [of "2 ^ Suc k" 0] unat_exp [of "Suc k"] Suc.prems by auto
  moreover have "(2 ^ Suc k :: hval) \<noteq> 0"
    using Suc.prems unat_exp [of "Suc k"] by (metis power_not_zero unat_0 zero_neq_numeral)
  ultimately show ?case
    using Suc by (simp add: strip_zeros.simps [of "2 ^ Suc k"] del: power_Suc)
qed

lemma is_power_of_two_exp [simp]: "k < 64 \<Longrightarrow> is_power_of_two (2 ^ k)"
  using unat_exp [of k] by (auto simp: is_power_of_two_def strip_zeros_exp)

lemma is_power_of_two_iff: "is_power_of_two w \<longleftrightarrow> (\<exists>k < 64. w = 2 ^ k)"
proof
  have "w \<noteq> 0 \<Longrightarrow> strip_zeros w = 1 \<Longrightarrow> \<exists>k. unat w = 2 ^ k" for w
  proof (induction w rule: strip_zeros.induct)
    case (1 w)
    show ?case
    proof (cases "w AND 1 = 0")
      case False
      with 1 have "w = 1" by (simp add: strip_zeros.simps [of w])
      then show ?thesis by (intro exI [of _ 0]) simp
    next
      case True
      then have "even (unat w)" using and_exposed_bit [of w 0] by simp
      then have d: "unat w = 2 * unat (drop_bit 1 w)"
        by (simp add: drop_bit_eq_div unat_div)
      with 1(2) have "drop_bit 1 w \<noteq> 0" by (metis mult_0_right unat_0 unat_eq_zero)
      with 1 True obtain k where "unat (drop_bit 1 w) = 2 ^ k"
        by (auto simp: strip_zeros.simps [of w])
      with d show ?thesis by (intro exI [of _ "Suc k"]) simp
    qed
  qed
  moreover assume "is_power_of_two w"
  ultimately obtain k where k: "unat w = 2 ^ k" by (auto simp: is_power_of_two_def split: if_splits)
  moreover have "unat w < 2 ^ LENGTH(64)" by (rule unsigned_less)
  ultimately have "(2::nat) ^ k < 2 ^ 64" by simp
  then have "k < 64" using power_less_imp_less_exp [of "2::nat" k 64] by simp
  with k show "\<exists>k < 64. w = 2 ^ k" by (metis unat_exp word_unat_eq_iff)
qed auto

section \<open>The table invariant\<close>

definition nodes :: "('k, 'd) hash \<Rightarrow> ('k, 'd) hnode list" where
  "nodes h = concat (h_table h)"

text \<open>A dynamic table of \<^verbatim>\<open>2 ^ k\<close> chains, every node in the chain its hash value selects.\<close>

definition shape :: "nat \<Rightarrow> ('k, 'd) hash \<Rightarrow> bool" where
  "shape k h \<longleftrightarrow> INIT_BITS \<le> k \<and> k \<le> 62 \<and> h_dynamic h \<and>
     h_nchains h = 2 ^ k \<and> h_mask h = mask k \<and>
     h_highmark h = 2 ^ Suc k \<and> h_lowmark h = 2 ^ (k - 1) \<and>
     length (h_table h) = 2 ^ k \<and>
     (\<forall>i < 2 ^ k. \<forall>n \<in> set (h_table h ! i). unat (hn_hkey n) mod 2 ^ k = i) \<and>
     unat (h_nodecount h) = length (nodes h)"

definition hash_inv :: "('k, 'd) hash \<Rightarrow> bool" where
  "hash_inv h \<longleftrightarrow> (\<exists>k. shape k h) \<and>
     (\<forall>n \<in> set (nodes h). hn_hkey n = h_function h (hn_key n)) \<and>
     distinct (map hn_addr (nodes h)) \<and>
     (\<forall>n \<in> set (nodes h). \<forall>m \<in> set (nodes h).
        h_compare h (hn_key n) (hn_key m) = 0 \<longrightarrow> n = m)"

lemma shape_bits: "shape k h \<Longrightarrow> 6 \<le> k \<and> k \<le> 62"
  by (simp add: shape_def INIT_BITS_def)

lemma shape_verify:
  assumes "shape k h"
  shows "hash_verify h"
proof -
  from assms have k: "6 \<le> k" "k \<le> 62" by (auto dest: shape_bits)
  then have u: "unat (2 ^ k :: hval) = 2 ^ k" "unat (2 ^ Suc k :: hval) = 2 ^ Suc k"
    "unat (2 ^ (k - 1) :: hval) = 2 ^ (k - 1)"
    by (auto simp del: power_Suc intro!: unat_exp)
  have "\<not> (2 ^ (k - 1) :: hval) \<ge> 2 ^ Suc k"
    using k u by (simp add: word_le_nat_alt del: power_Suc)
  moreover have "hn_hkey n AND mask k = (of_nat i :: hval)"
    if "i < 2 ^ k" "n \<in> set (h_table h ! i)" for i n
  proof -
    have "(2::nat) ^ k \<le> 2 ^ 64" using k by (intro power_increasing) auto
    with that have "i < 2 ^ 64" by simp
    with that assms show ?thesis
      by (auto simp: shape_def unat_and_mask word_unat_eq_iff unat_of_nat)
  qed
  moreover have "of_nat (length (concat (h_table h))) = h_nodecount h"
  proof -
    have "of_nat (unat (h_nodecount h)) = h_nodecount h" by simp
    moreover have "unat (h_nodecount h) = length (concat (h_table h))"
      using assms by (simp only: shape_def nodes_def)
    ultimately show ?thesis by (simp only:)
  qed
  ultimately show ?thesis
    using assms k u by (simp add: hash_verify_def shape_def del: power_Suc length_concat)
qed

lemma checked_shape: "shape k h \<Longrightarrow> checked h = Some h"
  by (simp add: checked_def shape_verify)

lemma in_nodes_iff:
  "length (h_table h) = n \<Longrightarrow> m \<in> set (nodes h) \<longleftrightarrow> (\<exists>i < n. m \<in> set (h_table h ! i))"
  by (fastforce simp: nodes_def set_conv_nth [of "h_table h"])

lemma shape_slot:
  assumes "shape k h"
  shows "unat (w AND h_mask h) = unat w mod 2 ^ k" "unat w mod 2 ^ k < length (h_table h)"
  using assms by (auto simp: shape_def unat_and_mask)

lemma in_nodes_slot:
  assumes "shape k h"
  shows "m \<in> set (nodes h) \<longleftrightarrow> m \<in> set (h_table h ! (unat (hn_hkey m) mod 2 ^ k))"
  using assms in_nodes_iff [of h "2 ^ k" m] by (auto simp: shape_def)

section \<open>Resizing\<close>

lemma set_split_chain:
  "split_chain b c lo hi = (l, r) \<Longrightarrow>
     set l = set lo \<union> {n \<in> set c. hn_hkey n AND b = 0} \<and>
     set r = set hi \<union> {n \<in> set c. hn_hkey n AND b \<noteq> 0}"
  by (induction b c lo hi rule: split_chain.induct) (auto split: if_splits)

lemma mset_split_chain:
  "split_chain b c lo hi = (l, r) \<Longrightarrow> mset l + mset r = mset lo + mset hi + mset c"
  by (induction b c lo hi arbitrary: l r rule: split_chain.induct) (auto split: if_splits)

lemma mset_concat_split:
  "mset (concat (map (\<lambda>c. fst (split_chain b c [] [])) t)) +
   mset (concat (map (\<lambda>c. snd (split_chain b c [] [])) t)) = mset (concat t)"
proof (induction t)
  case (Cons c t)
  then show ?case
    using mset_split_chain [of b c "[]" "[]" "fst (split_chain b c [] [])" "snd (split_chain b c [] [])"]
    by (simp add: ac_simps)
qed simp

definition grown :: "('k, 'd) hash \<Rightarrow> ('k, 'd) hash" where
  "grown h = (let halves = map (\<lambda>c. split_chain (h_nchains h) c [] []) (h_table h)
     in h\<lparr>h_table := map fst halves @ map snd halves, h_mask := push_bit 1 (h_mask h) OR 1,
          h_nchains := h_nchains h * 2, h_lowmark := h_lowmark h * 2,
          h_highmark := h_highmark h * 2\<rparr>)"

lemma mset_nodes_grown: "mset (nodes (grown h)) = mset (nodes h)"
  by (simp add: grown_def nodes_def Let_def comp_def mset_concat_split)

lemma shape_grown:
  assumes "shape k h" "k < 62"
  shows "shape (Suc k) (grown h)"
proof -
  let ?lo = "\<lambda>c. fst (split_chain (2 ^ k) c [] [])"
  let ?hi = "\<lambda>c. snd (split_chain (2 ^ k) c [] [])"
  have len: "length (h_table h) = 2 ^ k" using assms by (simp add: shape_def)
  have sel: "set (?lo c) = {n \<in> set c. even (unat (hn_hkey n) div 2 ^ k)}"
    "set (?hi c) = {n \<in> set c. odd (unat (hn_hkey n) div 2 ^ k)}" for c :: "('a, 'b) hnode list"
    using set_split_chain [of "2 ^ k" c "[]" "[]" "?lo c" "?hi c"] and_exposed_bit [of _ k]
    by auto
  have slot: "unat (hn_hkey n) mod 2 ^ Suc k = i"
    if i: "i < 2 ^ Suc k" and n: "n \<in> set ((map ?lo (h_table h) @ map ?hi (h_table h)) ! i)" for i n
  proof (cases "i < 2 ^ k")
    case True
    with n len have "n \<in> set (?lo (h_table h ! i))" by (simp add: nth_append)
    then have "n \<in> set (h_table h ! i)" "even (unat (hn_hkey n) div 2 ^ k)" using sel by auto
    with True assms show ?thesis by (auto simp: shape_def mod_Suc_exp simp del: power_Suc)
  next
    case False
    with n len i have "n \<in> set (?hi (h_table h ! (i - 2 ^ k)))" by (simp add: nth_append)
    then have "n \<in> set (h_table h ! (i - 2 ^ k))" "odd (unat (hn_hkey n) div 2 ^ k)" using sel by auto
    moreover have "i - 2 ^ k < 2 ^ k" using i False by simp
    ultimately show ?thesis using False assms by (auto simp: shape_def mod_Suc_exp simp del: power_Suc)
  qed
  have cnt: "length (nodes (grown h)) = length (nodes h)"
    using mset_nodes_grown [of h] by (metis size_mset)
  have h: "h_nchains h = 2 ^ k" "h_mask h = mask k" "h_highmark h = 2 ^ Suc k"
    "h_lowmark h = 2 ^ (k - 1)" "h_dynamic h" "unat (h_nodecount h) = length (nodes h)"
    and k: "6 \<le> k"
    using assms by (auto simp: shape_def INIT_BITS_def)
  have low: "(2 ^ (k - 1) * 2 :: hval) = 2 ^ k" using k by (cases k) auto
  show ?thesis
    unfolding shape_def
    using h k assms(2) len slot cnt low
    by (auto simp: grown_def Let_def comp_def grow_mask [unfolded One_nat_def] INIT_BITS_def simp del: push_bit_Suc)
qed

lemma grow_table_grown:
  assumes "shape k h" "k < 62"
  shows "grow_table True h = Some (grown h)"
proof -
  have n: "h_nchains h = 2 ^ k" "h_mask h = mask k" using assms by (auto simp: shape_def)
  have u: "unat (2 ^ k :: hval) = 2 ^ k" "unat (2 ^ Suc k :: hval) = 2 ^ Suc k"
    using assms by (auto simp del: power_Suc intro!: unat_exp)
  have "2 * (2 ^ k :: hval) > 2 ^ k" using u by (simp add: word_less_nat_alt)
  moreover have "(mask (Suc k) :: hval) \<noteq> mask k"
    using assms(2) by (metis grow_exposed_bit xor_self_eq unat_0 u(1) power_not_zero zero_neq_numeral)
  ultimately show ?thesis
    using checked_shape [OF shape_grown [OF assms]] n
    unfolding grow_table_def grown_def Let_def n grow_mask grow_exposed_bit by simp
qed

definition shrunk :: "('k, 'd) hash \<Rightarrow> ('k, 'd) hash" where
  "shrunk h = (let n = unat (h_nchains h div 2)
     in h\<lparr>h_table := map (\<lambda>chain. h_table h ! chain @ h_table h ! (chain + n)) [0..<n],
          h_mask := drop_bit 1 (h_mask h), h_nchains := h_nchains h div 2,
          h_lowmark := h_lowmark h div 2, h_highmark := h_highmark h div 2\<rparr>)"

lemma mset_concat_halves:
  "length t = 2 * n \<Longrightarrow> mset (concat (map (\<lambda>i. t ! i @ t ! (i + n)) [0..<n])) = mset (concat t)"
proof -
  assume len: "length t = 2 * n"
  have split: "mset (concat (map (\<lambda>i. f i @ g i) xs)) =
      mset (concat (map f xs)) + mset (concat (map g xs))" for f g :: "nat \<Rightarrow> 'a list" and xs
    by (induction xs) auto
  have "map ((!) t) [0..<n] = take n t" "map (\<lambda>i. t ! (i + n)) [0..<n] = drop n t"
    using len by (auto intro!: nth_equalityI simp: add.commute)
  then have "mset (concat (map (\<lambda>i. t ! i @ t ! (i + n)) [0..<n])) =
      mset (concat (take n t)) + mset (concat (drop n t))"
    by (simp only: split)
  also have "\<dots> = mset (concat t)"
    by (metis append_take_drop_id concat_append mset_append)
  finally show ?thesis .
qed

lemma exp_halves:
  assumes "0 < k" "k < 64"
  shows "(2 ^ k :: hval) div 2 = 2 ^ (k - 1)" "drop_bit 1 (mask k :: hval) = mask (k - 1)"
proof -
  have "unat ((2 ^ k :: hval) div 2) = unat (2 ^ (k - 1) :: hval)"
    using assms unat_exp [of k] unat_exp [of "k - 1"]
    by (cases k) (simp_all add: unat_div)
  then show "(2 ^ k :: hval) div 2 = 2 ^ (k - 1)" by (simp add: word_unat_eq_iff)
  show "drop_bit 1 (mask k :: hval) = mask (k - 1)"
    using assms by (intro bit_eqI) (auto simp: bit_simps)
qed

lemma mset_nodes_shrunk:
  assumes "shape k h"
  shows "mset (nodes (shrunk h)) = mset (nodes h)"
proof -
  have k: "6 \<le> k" "k \<le> 62" using assms by (auto dest: shape_bits)
  then have "unat (h_nchains h div 2) = 2 ^ (k - 1)"
    using assms exp_halves [of k] unat_exp [of "k - 1"] by (auto simp: shape_def)
  moreover have "length (h_table h) = 2 * 2 ^ (k - 1)"
    using assms k by (cases k) (simp_all add: shape_def)
  ultimately show ?thesis
    by (simp add: shrunk_def nodes_def Let_def mset_concat_halves)
qed

lemma shape_shrunk:
  assumes "shape k h" "INIT_BITS < k"
  shows "shape (k - 1) (shrunk h)"
proof -
  obtain j where j: "k = Suc j" using assms(2) by (cases k) auto
  have k: "6 \<le> j" "k \<le> 62" using assms j by (auto simp: INIT_BITS_def dest: shape_bits)
  have n: "unat (h_nchains h div 2) = 2 ^ j" "h_nchains h div 2 = 2 ^ j"
    using assms exp_halves [of k] unat_exp [of j] j k by (auto simp: shape_def)
  have len: "length (h_table h) = 2 * 2 ^ j" using assms j by (simp add: shape_def)
  have slot: "unat (hn_hkey m) mod 2 ^ j = i"
    if i: "i < 2 ^ j" and m: "m \<in> set (h_table h ! i) \<union> set (h_table h ! (i + 2 ^ j))" for i m
  proof -
    have "unat (hn_hkey m) mod 2 ^ k = i \<or> unat (hn_hkey m) mod 2 ^ k = i + 2 ^ j"
      using assms i m j by (auto simp: shape_def)
    then have "unat (hn_hkey m) mod 2 ^ k mod 2 ^ j = i" using i by auto
    then show ?thesis by (simp add: j mod_mod_cancel)
  qed
  have cnt: "length (nodes (shrunk h)) = length (nodes h)"
    using mset_nodes_shrunk [OF assms(1)] by (metis size_mset)
  have marks: "h_highmark h div 2 = 2 ^ Suc j" "h_lowmark h div 2 = 2 ^ (j - 1)"
    "drop_bit 1 (h_mask h) = mask j"
    using assms exp_halves [of "Suc (Suc j)"] exp_halves [of j] exp_halves [of "Suc j"] j k
    by (auto simp: shape_def simp del: power_Suc)
  show ?thesis
    unfolding shape_def
    using assms j k n len slot cnt marks
    by (auto simp: shrunk_def Let_def shape_def INIT_BITS_def)
qed

lemma shrink_table_shrunk:
  assumes "shape k h" "INIT_BITS < k"
  shows "shrink_table h = Some (shrunk h)"
proof -
  have "unat (h_nchains h) = 2 ^ k" "6 \<le> k"
    using assms unat_exp [of k] by (auto simp: shape_def INIT_BITS_def)
  moreover have "(2::nat) ^ 6 \<le> 2 ^ k" using \<open>6 \<le> k\<close> by (intro power_increasing) auto
  ultimately have "h_nchains h \<ge> 2" by (simp add: word_le_nat_alt)
  with checked_shape [OF shape_shrunk [OF assms]] show ?thesis
    by (simp add: shrink_table_def shrunk_def Let_def)
qed

lemma shrunk_simps [hash_simps]:
  "h_compare (shrunk h) = h_compare h" "h_function (shrunk h) = h_function h"
  "h_nodecount (shrunk h) = h_nodecount h" "h_maxcount (shrunk h) = h_maxcount h"
  by (simp_all add: shrunk_def Let_def)

lemma grown_simps [hash_simps]:
  "h_compare (grown h) = h_compare h" "h_function (grown h) = h_function h"
  "h_nodecount (grown h) = h_nodecount h" "h_maxcount (grown h) = h_maxcount h"
  by (simp_all add: grown_def Let_def)

section \<open>Updating one chain\<close>

definition put_chain :: "('k, 'd) hash \<Rightarrow> nat \<Rightarrow> ('k, 'd) hnode list \<Rightarrow> hval \<Rightarrow> ('k, 'd) hash" where
  "put_chain h chain c cnt = h\<lparr>h_table := (h_table h)[chain := c], h_nodecount := cnt\<rparr>"

lemma put_chain_simps [hash_simps]:
  "h_compare (put_chain h i c n) = h_compare h" "h_function (put_chain h i c n) = h_function h"
  "h_nodecount (put_chain h i c n) = n" "h_maxcount (put_chain h i c n) = h_maxcount h"
  by (simp_all add: put_chain_def)

lemma shape_put_chain:
  assumes "shape k h" "i < 2 ^ k" "\<forall>n \<in> set c. unat (hn_hkey n) mod 2 ^ k = i"
    and "unat cnt = length (nodes (put_chain h i c cnt))"
  shows "shape k (put_chain h i c cnt)"
  using assms by (auto simp: shape_def put_chain_def nth_list_update)

lemma mset_nodes_put_chain:
  assumes "shape k h" "i < 2 ^ k"
  shows "mset (nodes (put_chain h i c cnt)) + mset (h_table h ! i) = mset (nodes h) + mset c"
  using assms mset_concat_update [of i "h_table h" c] by (simp add: shape_def nodes_def put_chain_def)

lemma hash_inv_cong:
  assumes "hash_inv h" "shape k h'" "mset (nodes h') = mset (nodes h)"
    and "h_function h' = h_function h" "h_compare h' = h_compare h"
  shows "hash_inv h'"
  using assms distinct_map_mset_eq [OF assms(3), of hn_addr] mset_eq_setD [OF assms(3)]
  unfolding hash_inv_def by auto

lemma unlink_remove1:
  "node \<in> set c \<Longrightarrow> distinct (map hn_addr c) \<Longrightarrow> unlink (hn_addr node) c = Some (remove1 node c)"
  by (induction c) auto

lemma distinct_slot:
  assumes "distinct (map hn_addr (nodes h))" "i < length (h_table h)"
  shows "distinct (map hn_addr (h_table h ! i))"
proof -
  have "nodes h = concat (take i (h_table h)) @ h_table h ! i @ concat (drop (Suc i) (h_table h))"
    unfolding nodes_def using assms(2)
    by (metis concat.simps(2) concat_append id_take_nth_drop)
  with assms(1) show ?thesis by simp
qed

section \<open>The table as a map on keys\<close>

text \<open>What the table asks of the two functions its client supplies: comparing equal is an
  equivalence, and equal keys hash alike.\<close>

locale key_laws =
  fixes hashf :: "'k \<Rightarrow> hval"
    and cmp :: "'k \<Rightarrow> 'k \<Rightarrow> int"
  assumes cmp_refl: "cmp a a = 0"
    and cmp_sym: "cmp a b = 0 \<Longrightarrow> cmp b a = 0"
    and cmp_trans: "cmp a b = 0 \<Longrightarrow> cmp b c = 0 \<Longrightarrow> cmp a c = 0"
    and cmp_hash: "cmp a b = 0 \<Longrightarrow> hashf a = hashf b"
begin

definition table_ok :: "('k, 'd) hash \<Rightarrow> bool" where
  "table_ok h \<longleftrightarrow> hash_inv h \<and> h_compare h = cmp \<and> h_function h = hashf"

lemma table_okD:
  assumes "table_ok h"
  shows "hash_inv h" "h_compare h = cmp" "h_function h = hashf"
  using assms by (auto simp: table_ok_def)

lemma lookup_iff:
  assumes "table_ok h"
  shows "hash_lookup h key = Some n \<longleftrightarrow> n \<in> set (nodes h) \<and> cmp (hn_key n) key = 0"
proof -
  obtain k where k: "shape k h" using assms by (auto simp: table_ok_def hash_inv_def)
  let ?P = "\<lambda>nptr. hn_hkey nptr = hashf key \<and> cmp (hn_key nptr) key = 0"
  let ?c = "h_table h ! (unat (hashf key) mod 2 ^ k)"
  have sub: "set ?c \<subseteq> set (nodes h)"
    using nth_mem [OF shape_slot(2) [OF k, of "hashf key"]] by (auto simp: nodes_def)
  have "x = y" if "x \<in> set ?c" "y \<in> set ?c" "?P x" "?P y" for x y
  proof -
    have "cmp (hn_key x) (hn_key y) = 0" using that cmp_sym cmp_trans by blast
    with that sub assms show ?thesis unfolding table_ok_def hash_inv_def by auto
  qed
  then have "find ?P ?c = Some n \<longleftrightarrow> n \<in> set ?c \<and> ?P n" by (rule find_unique)
  moreover have "hash_lookup h key = find ?P ?c"
    using table_okD [OF assms] shape_slot(1) [OF k, of "hashf key"]
    by (simp add: hash_lookup_def Let_def)
  ultimately have "hash_lookup h key = Some n \<longleftrightarrow> n \<in> set ?c \<and> ?P n" by simp
  also have "\<dots> \<longleftrightarrow> n \<in> set (nodes h) \<and> cmp (hn_key n) key = 0"
  proof
    assume "n \<in> set ?c \<and> ?P n"
    with sub show "n \<in> set (nodes h) \<and> cmp (hn_key n) key = 0" by blast
  next
    assume n: "n \<in> set (nodes h) \<and> cmp (hn_key n) key = 0"
    then have "hn_hkey n = hashf key"
      using assms cmp_hash [of "hn_key n" key] by (auto simp: table_ok_def hash_inv_def)
    with n in_nodes_slot [OF k, of n] show "n \<in> set ?c \<and> ?P n" by simp
  qed
  finally show ?thesis .
qed

lemma lookup_None_iff:
  assumes "table_ok h"
  shows "hash_lookup h key = None \<longleftrightarrow> (\<forall>n \<in> set (nodes h). cmp (hn_key n) key \<noteq> 0)"
  using lookup_iff [OF assms, of key] by (metis not_None_eq)

lemma table_ok_cong:
  assumes "table_ok h" "shape k h'" "mset (nodes h') = mset (nodes h)"
    and "h_function h' = h_function h" "h_compare h' = h_compare h"
  shows "table_ok h'"
  using assms hash_inv_cong by (metis table_ok_def)

lemma lookup_cong:
  assumes "table_ok h" "table_ok h'" "mset (nodes h') = mset (nodes h)"
  shows "hash_lookup h' key = hash_lookup h key"
proof (cases "hash_lookup h key")
  case None
  then have "hash_lookup h' key = None"
    using lookup_None_iff [OF assms(1)] lookup_None_iff [OF assms(2)] mset_eq_setD [OF assms(3)]
    by simp
  with None show ?thesis by simp
next
  case (Some n)
  then have "hash_lookup h' key = Some n"
    using lookup_iff [OF assms(1)] lookup_iff [OF assms(2)] mset_eq_setD [OF assms(3)] by simp
  with Some show ?thesis by simp
qed

lemma grow_ok:
  assumes "table_ok h" "length (nodes h) < 2 ^ 62" "h_nodecount h \<ge> h_highmark h"
  shows "\<exists>h'. grow_table ok h = Some h' \<and> table_ok h' \<and> mset (nodes h') = mset (nodes h) \<and>
    h_nodecount h' = h_nodecount h \<and> h_maxcount h' = h_maxcount h"
proof -
  obtain k where k: "shape k h" using assms by (auto simp: table_ok_def hash_inv_def)
  have "2 ^ Suc k \<le> length (nodes h)"
    using assms(3) k unat_exp [of "Suc k"] by (auto simp: shape_def word_le_nat_alt simp del: power_Suc)
  with assms(2) have "(2::nat) ^ Suc k < 2 ^ 62" by simp
  then have k62: "k < 62" using power_less_imp_less_exp [of "2::nat" "Suc k" 62] by simp
  show ?thesis
  proof (cases ok)
    case True
    have "table_ok (grown h)"
      by (rule table_ok_cong [OF assms(1) shape_grown [OF k k62]])
        (simp_all add: mset_nodes_grown hash_simps)
    with True show ?thesis
      by (simp add: grow_table_grown [OF k k62] mset_nodes_grown hash_simps)
  next
    case False
    have "2 * (2 ^ k :: hval) > 2 ^ k"
      using k62 unat_exp [of k] unat_exp [of "Suc k"] by (simp add: word_less_nat_alt)
    with False k show ?thesis
      by (auto simp: grow_table_def checked_shape [OF k] assms shape_def)
  qed
qed

lemma insert_ok:
  assumes "table_ok h" "h_nodecount h < h_maxcount h" "hash_lookup h key = None"
    and "addr \<notin> hn_addr ` set (nodes h)" "length (nodes h) < 2 ^ 62"
  shows "\<exists>h'. hash_insert ok h addr data key = Some h' \<and> table_ok h' \<and>
    mset (nodes h') = add_mset \<lparr>hn_addr = addr, hn_key = key, hn_data = data, hn_hkey = hashf key\<rparr>
      (mset (nodes h)) \<and> h_maxcount h' = h_maxcount h"
proof -
  let ?n = "\<lparr>hn_addr = addr, hn_key = key, hn_data = data, hn_hkey = hashf key\<rparr>"
  obtain g where g: "(if h_dynamic h \<and> h_nodecount h \<ge> h_highmark h then grow_table ok h else Some h) = Some g"
    and ok: "table_ok g" and mg: "mset (nodes g) = mset (nodes h)"
    and cnt: "h_nodecount g = h_nodecount h" and mx: "h_maxcount g = h_maxcount h"
  proof (cases "h_dynamic h \<and> h_nodecount h \<ge> h_highmark h")
    case True
    with grow_ok [OF assms(1,5), of ok] that show ?thesis by fastforce
  next
    case False
    with assms(1) show ?thesis by (intro that [of h]) auto
  qed
  obtain k where k: "shape k g" using ok by (auto simp: table_ok_def hash_inv_def)
  let ?i = "unat (hashf key) mod 2 ^ k"
  let ?g = "put_chain g ?i (?n # h_table g ! ?i) (h_nodecount g + 1)"
  have i: "?i < 2 ^ k" by simp
  have ms: "mset (nodes ?g) = add_mset ?n (mset (nodes g))"
    using mset_nodes_put_chain [OF k i, of "?n # h_table g ! ?i" "h_nodecount g + 1"] by simp
  have len: "length (nodes ?g) = Suc (length (nodes g))"
    by (metis ms size_mset size_add_mset)
  have "length (nodes g) < 2 ^ 62" using assms(5) mg by (metis size_mset)
  then have "unat (h_nodecount g + 1) = Suc (length (nodes g))"
    using k by (simp add: shape_def unat_word_ariths)
  then have sh: "shape k ?g"
    using k len by (intro shape_put_chain) (auto simp: shape_def)
  have key: "hash_lookup g key = None" using lookup_cong [OF assms(1) ok mg] assms(3) by simp
  have sg: "set (nodes ?g) = insert ?n (set (nodes g))"
    using ms by (metis set_mset_add_mset_insert set_mset_mset)
  have dist: "distinct (map hn_addr (nodes ?g))"
  proof -
    have "mset (nodes ?g) = mset (?n # nodes g)" using ms by simp
    moreover have "distinct (map hn_addr (?n # nodes g))"
      using ok assms(4) mset_eq_setD [OF mg] by (auto simp: table_ok_def hash_inv_def)
    ultimately show ?thesis using distinct_map_mset_eq by blast
  qed
  have "hash_inv ?g"
    unfolding hash_inv_def
    using sh dist sg ok key lookup_None_iff [OF ok, of key] cmp_sym
    by (fastforce simp: hash_simps table_ok_def hash_inv_def)
  then have "table_ok ?g" using ok by (simp add: table_ok_def hash_simps)
  moreover have "hash_insert ok h addr data key = Some ?g"
    using assms(2,3) g ok shape_slot [OF k] checked_shape [OF sh]
    by (simp add: hash_insert_def Let_def table_ok_def put_chain_def)
  ultimately show ?thesis using ms mg mx by (auto simp: hash_simps)
qed

lemma remove_node_ok:
  assumes "table_ok g" "shape k g" "node \<in> set (nodes g)"
  defines "i \<equiv> unat (hn_hkey node) mod 2 ^ k"
  defines "g' \<equiv> put_chain g i (remove1 node (h_table g ! i)) (h_nodecount g - 1)"
  shows "unlink (hn_addr node) (h_table g ! i) = Some (remove1 node (h_table g ! i))"
    and "checked g' = Some g'" and "table_ok g'" and "mset (nodes g') = mset (nodes g) - {#node#}"
    and "shape k g'"
proof -
  have i: "i < 2 ^ k" "i < length (h_table g)" using assms(2) by (auto simp: i_def shape_def)
  have n: "node \<in> set (h_table g ! i)" using in_nodes_slot [OF assms(2)] assms(3) by (simp add: i_def)
  have inv: "hash_inv g" using assms(1) by (simp add: table_ok_def)
  show "unlink (hn_addr node) (h_table g ! i) = Some (remove1 node (h_table g ! i))"
    using n inv i by (intro unlink_remove1 distinct_slot) (auto simp: hash_inv_def)
  have "mset (nodes g') + mset (h_table g ! i) = mset (nodes g) + (mset (h_table g ! i) - {#node#})"
    using mset_nodes_put_chain [OF assms(2) i(1)] by (simp add: g'_def)
  moreover obtain M where "mset (h_table g ! i) = add_mset node M"
    using n by (metis mset_add set_mset_mset)
  ultimately have "add_mset node (mset (nodes g')) = mset (nodes g)" by (simp add: ac_simps)
  then show ms: "mset (nodes g') = mset (nodes g) - {#node#}"
    by (metis add_mset_remove_trivial)
  have len: "Suc (length (nodes g')) = length (nodes g)"
    using \<open>add_mset node (mset (nodes g')) = mset (nodes g)\<close> by (metis size_add_mset size_mset)
  have "unat (h_nodecount g) = length (nodes g)" using assms(2) by (simp add: shape_def)
  then have "unat (h_nodecount g - 1) = length (nodes g')"
    using len by (subst unat_minus_one) auto
  then show sh: "shape k g'"
    unfolding g'_def using i assms(2)
    by (intro shape_put_chain) (auto simp: shape_def g'_def dest: in_set_remove1 notin_set_remove1)
  show "checked g' = Some g'" by (rule checked_shape [OF sh])
  have sub: "set (nodes g') \<subseteq> set (nodes g)" using ms by (metis in_diffD set_mset_mset subsetI)
  have "distinct (map hn_addr (node # nodes g'))"
    using distinct_map_mset_eq [of "node # nodes g'" "nodes g" hn_addr] inv
      \<open>add_mset node (mset (nodes g')) = mset (nodes g)\<close> by (auto simp: hash_inv_def)
  with sub inv sh show "table_ok g'"
    using assms(1) unfolding table_ok_def hash_inv_def
    by (auto simp: g'_def hash_simps subset_iff)
qed

lemma scan_delete_ok:
  assumes "table_ok h" "node \<in> set (nodes h)"
  shows "\<exists>h'. hash_scan_delete h node = Some h' \<and> table_ok h' \<and>
    mset (nodes h') = mset (nodes h) - {#node#} \<and> h_maxcount h' = h_maxcount h \<and>
    (\<exists>k. shape k h \<and> h' = put_chain h (unat (hn_hkey node) mod 2 ^ k)
       (remove1 node (h_table h ! (unat (hn_hkey node) mod 2 ^ k))) (h_nodecount h - 1))"
proof -
  obtain k where k: "shape k h" using assms by (auto simp: table_ok_def hash_inv_def)
  have "hash_lookup h (hn_key node) = Some node" using assms(2) lookup_iff [OF assms(1)] cmp_refl by simp
  with remove_node_ok [OF assms(1) k assms(2)] show ?thesis
    using shape_slot(1) [OF k] k
    by (auto simp: hash_scan_delete_def Let_def put_chain_def hash_simps)
qed

lemma delete_ok:
  assumes "table_ok h" "node \<in> set (nodes h)"
  shows "\<exists>h'. hash_delete h node = Some h' \<and> table_ok h' \<and>
    mset (nodes h') = mset (nodes h) - {#node#} \<and> h_maxcount h' = h_maxcount h"
proof -
  let ?c = "h_dynamic h \<and> h_nodecount h \<le> h_lowmark h \<and> h_nodecount h > INIT_SIZE"
  obtain k where k: "shape k h" using assms by (auto simp: table_ok_def hash_inv_def)
  have big: "INIT_BITS < k" if ?c
  proof (rule ccontr)
    assume "\<not> INIT_BITS < k"
    then have "k = 6" using k by (simp add: shape_def INIT_BITS_def)
    with that k show False
      by (auto simp: shape_def INIT_SIZE_def INIT_BITS_def word_le_nat_alt word_less_nat_alt)
  qed
  obtain g where g: "(if ?c then shrink_table h else Some h) = Some g" and ok: "table_ok g"
    and mg: "mset (nodes g) = mset (nodes h)" and mx: "h_maxcount g = h_maxcount h"
  proof (cases ?c)
    case True
    then have "table_ok (shrunk h)"
      using k by (intro table_ok_cong [OF assms(1) shape_shrunk [OF k big]])
        (simp_all add: mset_nodes_shrunk [OF k] hash_simps)
    with True show ?thesis
      by (intro that [of "shrunk h"])
        (simp_all add: shrink_table_shrunk [OF k big] mset_nodes_shrunk [OF k] hash_simps)
  next
    case False
    with assms(1) show ?thesis by (intro that [of h]) auto
  qed
  obtain j where j: "shape j g" using ok by (auto simp: table_ok_def hash_inv_def)
  have n: "node \<in> set (nodes g)" using assms(2) mset_eq_setD [OF mg] by simp
  have "hash_lookup h (hn_key node) = Some node" using assms(2) lookup_iff [OF assms(1)] cmp_refl by simp
  with remove_node_ok [OF ok j n] g mg mx show ?thesis
    using shape_slot(1) [OF j] by (auto simp: hash_delete_def Let_def put_chain_def hash_simps)
qed

end

section \<open>Scanning\<close>

text \<open>The loop every client of the scanner runs (\<^verbatim>\<open>CMap::Next\<close>, \<^verbatim>\<open>CMap::Enum\<close>).\<close>

fun scan_loop :: "nat \<Rightarrow> ('k, 'd) hash \<Rightarrow> hscan \<Rightarrow> ('k, 'd) hnode list option" where
  "scan_loop 0 h s = None"
| "scan_loop (Suc fuel) h s =
    (case hash_scan_next h s of
       None \<Rightarrow> None
     | Some (None, s') \<Rightarrow> Some []
     | Some (Some node, s') \<Rightarrow> map_option ((#) node) (scan_loop fuel h s'))"

text \<open>What a cursor still has to return.\<close>

definition pending :: "('k, 'd) hash \<Rightarrow> hscan \<Rightarrow> ('k, 'd) hnode list" where
  "pending h s = (case sc_next s of None \<Rightarrow> []
     | Some a \<Rightarrow> at_addr a (h_table h ! sc_chain s) @ concat (drop (Suc (sc_chain s)) (h_table h)))"

definition cursor_ok :: "('k, 'd) hash \<Rightarrow> hscan \<Rightarrow> bool" where
  "cursor_ok h s \<longleftrightarrow> (\<forall>a. sc_next s = Some a \<longrightarrow>
     sc_chain s < length (h_table h) \<and> at_addr a (h_table h ! sc_chain s) \<noteq> [])"

lemma at_addr_split: "at_addr a c = n # ns \<Longrightarrow> hn_addr n = a \<and> (\<exists>pre. c = pre @ n # ns)"
  by (induction c) (auto split: if_splits intro: exI [of _ "[]"] exI [of _ "_ # _"])

lemma at_addr_mid:
  "distinct (map hn_addr (pre @ m # ns)) \<Longrightarrow> at_addr (hn_addr m) (pre @ m # ns) = m # ns"
  by (induction pre) auto

lemma first_chain_None: "first_chain t i = None \<Longrightarrow> concat t = []"
  by (induction t i rule: first_chain.induct) auto

lemma first_chain_Some:
  "first_chain t i = Some (j, n) \<Longrightarrow> i \<le> j \<and> j - i < length t \<and>
     (\<exists>ns. t ! (j - i) = n # ns \<and> concat t = n # ns @ concat (drop (Suc (j - i)) t))"
proof (induction t i rule: first_chain.induct)
  case (2 t chain)
  then show ?case by (auto simp: nth_Cons' drop_Cons' Suc_le_eq Suc_diff_Suc)
qed auto

lemma shape_take: "shape k h \<Longrightarrow> take (unat (h_nchains h)) (h_table h) = h_table h"
  using unat_exp [of k] by (auto simp: shape_def)

lemma seek_ok:
  assumes "shape k h"
  shows "pending h (seek h from s) = concat (drop from (h_table h)) \<and> cursor_ok h (seek h from s)"
proof (cases "first_chain (drop from (h_table h)) from")
  case None
  then show ?thesis
    using first_chain_None [OF None] shape_take [OF assms]
    by (simp add: seek_def pending_def cursor_ok_def)
next
  case (Some p)
  obtain j n where p: "p = (j, n)" by (cases p)
  from first_chain_Some [OF Some [unfolded p]] obtain ns where
    "from \<le> j" "j < length (h_table h)" "h_table h ! j = n # ns"
    "concat (drop from (h_table h)) = n # ns @ concat (drop (Suc j) (h_table h))"
    by auto
  then show ?thesis
    using Some p shape_take [OF assms] by (simp add: seek_def pending_def cursor_ok_def)
qed

lemma seek_chain: "sc_next (seek h from s) \<noteq> None \<Longrightarrow> from \<le> sc_chain (seek h from s)"
  by (auto simp: seek_def split: option.splits prod.splits dest!: first_chain_Some)

lemma scan_next_ok:
  assumes "shape k h" "distinct (map hn_addr (nodes h))" "cursor_ok h s"
  shows "case pending h s of
      [] \<Rightarrow> hash_scan_next h s = Some (None, s)
    | n # ns \<Rightarrow> \<exists>s'. hash_scan_next h s = Some (Some n, s') \<and> pending h s' = ns \<and> cursor_ok h s' \<and>
        n \<in> set (h_table h ! sc_chain s) \<and> sc_chain s < length (h_table h) \<and>
        (sc_chain s' = sc_chain s \<longrightarrow> sc_next s' \<noteq> None \<longrightarrow>
          (\<exists>pre m rest. h_table h ! sc_chain s = pre @ n # m # rest \<and> sc_next s' = Some (hn_addr m)))"
proof (cases "sc_next s")
  case None
  then show ?thesis by (simp add: pending_def hash_scan_next_def)
next
  case (Some a)
  let ?c = "h_table h ! sc_chain s"
  have lt: "sc_chain s < length (h_table h)" and "at_addr a ?c \<noteq> []"
    using Some assms(3) by (auto simp: cursor_ok_def)
  then obtain n ns where at: "at_addr a ?c = n # ns" by (cases "at_addr a ?c") auto
  obtain pre where c: "?c = pre @ n # ns" using at_addr_split [OF at] by auto
  have dc: "distinct (map hn_addr ?c)" by (rule distinct_slot [OF assms(2) lt])
  show ?thesis
  proof (cases ns)
    case Nil
    have "sc_chain s' \<noteq> sc_chain s \<or> sc_next s' = None" if "s' = seek h (Suc (sc_chain s)) s" for s'
      using that seek_chain [of h "Suc (sc_chain s)" s] by fastforce
    with Nil at Some c lt seek_ok [OF assms(1), of "Suc (sc_chain s)" s] show ?thesis
      by (auto simp: pending_def hash_scan_next_def)
  next
    case (Cons m rest)
    have "at_addr (hn_addr m) ?c = m # rest"
      using at_addr_mid [of "pre @ [n]" m rest] dc c Cons by simp
    with Cons at Some c lt show ?thesis
      by (auto simp: pending_def hash_scan_next_def cursor_ok_def)
  qed
qed

lemma scan_loop_ok:
  assumes "shape k h" "distinct (map hn_addr (nodes h))"
  shows "cursor_ok h s \<Longrightarrow> length (pending h s) < fuel \<Longrightarrow> scan_loop fuel h s = Some (pending h s)"
proof (induction fuel arbitrary: s)
  case (Suc fuel)
  show ?case
  proof (cases "pending h s")
    case Nil
    with scan_next_ok [OF assms Suc.prems(1)] show ?thesis by simp
  next
    case (Cons n ns)
    with scan_next_ok [OF assms Suc.prems(1)] obtain s' where
      "hash_scan_next h s = Some (Some n, s')" "pending h s' = ns" "cursor_ok h s'" by auto
    with Suc Cons show ?thesis by simp
  qed
qed simp

lemma scan_begin_ok:
  assumes "shape k h"
  shows "pending h (hash_scan_begin h) = nodes h" "cursor_ok h (hash_scan_begin h)"
  using seek_ok [OF assms, of 0] by (auto simp: hash_scan_begin_def nodes_def)

lemma scan_all:
  assumes "hash_inv h"
  shows "scan_loop (Suc (length (nodes h))) h (hash_scan_begin h) = Some (nodes h)"
proof -
  obtain k where k: "shape k h" and d: "distinct (map hn_addr (nodes h))"
    using assms by (auto simp: hash_inv_def)
  from scan_loop_ok [OF k d scan_begin_ok(2) [OF k], of "Suc (length (nodes h))"] show ?thesis
    by (simp add: scan_begin_ok(1) [OF k] del: scan_loop.simps)
qed

text \<open>Deleting the node just returned leaves the cursor on the same remaining nodes.\<close>

lemma cursor_after_delete:
  assumes k: "shape k h" and d: "distinct (map hn_addr (nodes h))" and s: "cursor_ok h s"
    and p: "pending h s = n # ns" and nx: "hash_scan_next h s = Some (Some n, s')"
    and h'_def: "h' = put_chain h (unat (hn_hkey n) mod 2 ^ k)
      (remove1 n (h_table h ! (unat (hn_hkey n) mod 2 ^ k))) cnt"
  shows "pending h' s' = ns \<and> cursor_ok h' s'"
proof -
  let ?i = "sc_chain s" and ?c = "h_table h ! sc_chain s"
  from scan_next_ok [OF k d s] p nx have ps: "pending h s' = ns" "cursor_ok h s'"
    and n: "n \<in> set ?c" and lt: "?i < length (h_table h)"
    and nxt: "sc_chain s' = ?i \<Longrightarrow> sc_next s' \<noteq> None \<Longrightarrow>
      \<exists>pre m rest. ?c = pre @ n # m # rest \<and> sc_next s' = Some (hn_addr m)"
    by auto
  have i: "unat (hn_hkey n) mod 2 ^ k = ?i" using k n lt by (auto simp: shape_def)
  have dc: "distinct (map hn_addr ?c)" by (rule distinct_slot [OF d lt])
  show ?thesis
  proof (cases "sc_next s'")
    case None
    with ps show ?thesis by (simp add: pending_def cursor_ok_def)
  next
    case (Some a)
    have far: "?i \<le> sc_chain s'"
      using nx Some seek_chain [of h "Suc ?i" s]
      by (auto simp: hash_scan_next_def split: option.splits list.splits)
    show ?thesis
    proof (cases "sc_chain s' = ?i")
      case True
      with nxt Some obtain pre m rest where c: "?c = pre @ n # m # rest" and a: "a = hn_addr m"
        by auto
      have "n \<notin> set pre" using dc c by auto
      then have r: "remove1 n ?c = pre @ m # rest" by (simp add: c remove1_append)
      have "at_addr a ?c = m # rest" using at_addr_mid [of "pre @ [n]" m rest] dc c a by simp
      moreover have "at_addr a (pre @ m # rest) = m # rest"
        using at_addr_mid [of pre m rest] dc c a by simp
      ultimately show ?thesis
        using True Some ps lt i r by (auto simp: pending_def cursor_ok_def h'_def put_chain_def)
    next
      case False
      with far have "?i < sc_chain s'" by simp
      with Some ps i show ?thesis
        by (auto simp: pending_def cursor_ok_def h'_def put_chain_def)
    qed
  qed
qed

context key_laws begin

lemma free_loop_ok:
  "table_ok h \<Longrightarrow> cursor_ok h s \<Longrightarrow> length (pending h s) < fuel \<Longrightarrow> set (pending h s) \<subseteq> set (nodes h) \<Longrightarrow>
   distinct (pending h s) \<Longrightarrow>
     \<exists>h'. free_loop fuel h s = Some (h', pending h s) \<and> table_ok h' \<and> h_maxcount h' = h_maxcount h"
proof (induction fuel arbitrary: h s)
  case (Suc fuel)
  obtain k where k: "shape k h" and d: "distinct (map hn_addr (nodes h))"
    using Suc.prems(1) by (auto simp: table_ok_def hash_inv_def)
  show ?case
  proof (cases "pending h s")
    case Nil
    with scan_next_ok [OF k d Suc.prems(2)] Suc.prems(1) show ?thesis by simp
  next
    case (Cons n ns)
    with scan_next_ok [OF k d Suc.prems(2)] obtain s' where
      nx: "hash_scan_next h s = Some (Some n, s')" by auto
    have n: "n \<in> set (nodes h)" using Cons Suc.prems(4) by simp
    from scan_delete_ok [OF Suc.prems(1) n] obtain h' j where
      del: "hash_scan_delete h n = Some h'" "table_ok h'" "mset (nodes h') = mset (nodes h) - {#n#}"
        "h_maxcount h' = h_maxcount h" and j: "shape j h"
      and h': "h' = put_chain h (unat (hn_hkey n) mod 2 ^ j)
        (remove1 n (h_table h ! (unat (hn_hkey n) mod 2 ^ j))) (h_nodecount h - 1)"
      by auto
    have cur: "pending h' s' = ns" "cursor_ok h' s'"
      using cursor_after_delete [OF j d Suc.prems(2) Cons nx] h' by auto
    have "set ns \<subseteq> set (nodes h')"
    proof
      fix x assume "x \<in> set ns"
      then have "x \<noteq> n" "x \<in> set (nodes h)" using Cons Suc.prems(4,5) by auto
      then have "x \<in># mset (nodes h')" using del(3) by (simp add: in_diff_count)
      then show "x \<in> set (nodes h')" by simp
    qed
    with Suc.IH [OF del(2) cur(2)] cur(1) Cons Suc.prems(3,5) obtain h'' where
      "free_loop fuel h' s' = Some (h'', ns)" "table_ok h''" "h_maxcount h'' = h_maxcount h'"
      by auto
    with nx del Cons show ?thesis by simp
  qed
qed simp

lemma clear_ok:
  assumes "table_ok h"
  shows "table_ok (clear_table (h\<lparr>h_nodecount := 0\<rparr>)) \<and>
    nodes (clear_table (h\<lparr>h_nodecount := 0\<rparr>)) = []"
proof -
  obtain k where k: "shape k h" using assms by (auto simp: table_ok_def hash_inv_def)
  then have "unat (h_nchains h) = 2 ^ k" using unat_exp [of k] by (auto simp: shape_def)
  moreover have nil: "nodes (clear_table (h\<lparr>h_nodecount := 0\<rparr>)) = []"
    by (simp add: nodes_def clear_table_def)
  ultimately have "shape k (clear_table (h\<lparr>h_nodecount := 0\<rparr>))"
    using k by (simp add: shape_def clear_table_def)
  with nil assms show ?thesis by (auto simp: table_ok_def hash_inv_def clear_table_def)
qed

lemma free_nodes_ok:
  assumes "table_ok h"
  shows "\<exists>h'. hash_free_nodes h = Some (h', nodes h) \<and> table_ok h' \<and> nodes h' = [] \<and>
    h_maxcount h' = h_maxcount h"
proof -
  obtain k where k: "shape k h" and d: "distinct (map hn_addr (nodes h))"
    using assms by (auto simp: table_ok_def hash_inv_def)
  have "\<exists>h'. free_loop (Suc (length (concat (h_table h)))) h (hash_scan_begin h) = Some (h', nodes h) \<and>
      table_ok h' \<and> h_maxcount h' = h_maxcount h"
    using free_loop_ok [OF assms scan_begin_ok(2) [OF k], of "Suc (length (nodes h))"]
      scan_begin_ok(1) [OF k] d by (simp add: nodes_def distinct_map)
  then show ?thesis using clear_ok
    by (fastforce simp: hash_free_nodes_def clear_table_def)
qed

lemma create_ok:
  "\<exists>h. hash_create maxcount cmp hashf = Some h \<and> table_ok h \<and> nodes h = [] \<and> h_maxcount h = maxcount"
proof -
  let ?h = "clear_table \<lparr>h_table = [], h_nchains = INIT_SIZE, h_nodecount = 0, h_maxcount = maxcount,
        h_highmark = INIT_SIZE * 2, h_lowmark = INIT_SIZE div 2,
        h_compare = cmp, h_function = hashf, h_mask = INIT_MASK, h_dynamic = True\<rparr> :: ('k, 'd) hash"
  have sh: "shape 6 ?h"
    by (simp add: shape_def clear_table_def INIT_SIZE_def INIT_MASK_def INIT_BITS_def nodes_def
        mask_eq_exp_minus_1)
  have nil: "nodes ?h = []" by (simp add: nodes_def clear_table_def)
  with sh have "table_ok ?h" unfolding table_ok_def hash_inv_def nil by (auto simp: clear_table_def)
  with checked_shape [OF sh] nil show ?thesis
    by (auto simp: hash_create_def clear_table_def)
qed

text \<open>Data found under a key.\<close>

definition find_data :: "('k, 'd) hash \<Rightarrow> 'k \<Rightarrow> 'd option" where
  "find_data h key = map_option hn_data (hash_lookup h key)"

lemma find_data_insert:
  assumes "table_ok h" "table_ok h'"
    and "mset (nodes h') = add_mset \<lparr>hn_addr = a, hn_key = k, hn_data = d, hn_hkey = hashf k\<rparr> (mset (nodes h))"
  shows "find_data h' key = (if cmp k key = 0 then Some d else find_data h key)"
proof -
  let ?n = "\<lparr>hn_addr = a, hn_key = k, hn_data = d, hn_hkey = hashf k\<rparr>"
  have sg: "set (nodes h') = insert ?n (set (nodes h))"
    using assms(3) by (metis set_mset_add_mset_insert set_mset_mset)
  show ?thesis
  proof (cases "cmp k key = 0")
    case True
    with sg lookup_iff [OF assms(2)] have "hash_lookup h' key = Some ?n" by simp
    with True show ?thesis by (simp add: find_data_def)
  next
    case False
    with sg lookup_iff [OF assms(2)] lookup_iff [OF assms(1)]
    have "hash_lookup h' key = Some n \<longleftrightarrow> hash_lookup h key = Some n" for n by auto
    then have "hash_lookup h' key = hash_lookup h key" by (metis not_None_eq)
    with False show ?thesis by (simp add: find_data_def)
  qed
qed

lemma find_data_delete:
  assumes "table_ok h" "table_ok h'" "node \<in> set (nodes h)"
    and "mset (nodes h') = mset (nodes h) - {#node#}"
  shows "find_data h' key = (if cmp (hn_key node) key = 0 then None else find_data h key)"
proof -
  have dn: "distinct (nodes h)"
    using assms(1) by (auto simp: table_ok_def hash_inv_def distinct_map)
  then have sg: "set (nodes h') = set (nodes h) - {node}"
    using assms(4) by (metis mset_remove1 set_mset_mset set_remove1_eq)
  show ?thesis
  proof (cases "cmp (hn_key node) key = 0")
    case True
    have "hash_lookup h' key = None"
    proof (rule ccontr)
      assume "hash_lookup h' key \<noteq> None"
      then obtain n where "hash_lookup h' key = Some n" by auto
      then have "n \<in> set (nodes h) - {node}" "cmp (hn_key n) key = 0"
        using lookup_iff [OF assms(2)] sg by auto
      moreover have "cmp (hn_key n) (hn_key node) = 0"
        using calculation True cmp_sym cmp_trans by blast
      ultimately show False using assms(1,3) by (auto simp: table_ok_def hash_inv_def)
    qed
    with True show ?thesis by (simp add: find_data_def)
  next
    case False
    have "hash_lookup h' key = Some n \<longleftrightarrow> hash_lookup h key = Some n" for n
      using sg lookup_iff [OF assms(2)] lookup_iff [OF assms(1)] False by auto
    then have "hash_lookup h' key = hash_lookup h key" by (metis not_None_eq)
    with False show ?thesis by (simp add: find_data_def)
  qed
qed

end

end
