(* ===== verification/NameMap.thy ===== *)
theory NameMap
  imports HashTable
begin

text \<open>
  \<^verbatim>\<open>libsmx/mapstr.cpp\<close>, \<^verbatim>\<open>mapstr.h\<close> and \<^verbatim>\<open>map.h\<close>: the case-insensitive string map
  (\<^verbatim>\<open>CMapStr\<close> over \<^verbatim>\<open>CMap\<close>) in which contexts keep their objects. The hash function and the
  comparison are interpreted as the functions of the chained table, and the map's operations
  are shown to satisfy the interface \<^verbatim>\<open>name_map\<close> that the context component relies on:
  a finite map on case-folded names.
\<close>

section \<open>Comparing and hashing names\<close>

text \<open>\<^verbatim>\<open>strcasecmp\<close> on the characters before the terminators; a missing character is the
  terminator, 0.\<close>

fun stricmp_chars :: "bytes \<Rightarrow> bytes \<Rightarrow> int" where
  "stricmp_chars [] [] = 0"
| "stricmp_chars (a # as) [] = int (uc (c_tolower a))"
| "stricmp_chars [] (b # bs) = - int (uc (c_tolower b))"
| "stricmp_chars (a # as) (b # bs) =
     (if c_tolower a = c_tolower b then stricmp_chars as bs
      else int (uc (c_tolower a)) - int (uc (c_tolower b)))"

definition stricmp :: "bytes \<Rightarrow> bytes \<Rightarrow> int" where
  "stricmp x y = stricmp_chars (cstr x) (cstr y)"

definition fold_case :: "bytes \<Rightarrow> bytes" where
  "fold_case s = map c_tolower (cstr s)"

definition randbox :: "hval list" where
  "randbox = [0x49848f1b, 0xe6255dba, 0x36da5bdc, 0x47bf94e9,
              0x8cbcce22, 0x559fc06a, 0xd268f536, 0xe10af79a,
              0xc1af4d69, 0x1d2917b5, 0xec4c304d, 0x9ee5016c,
              0x69232f74, 0xfead7bb3, 0xe9089ab6, 0xf012f6ae]"

text \<open>The body of the loop, on the value \<^verbatim>\<open>tolower(*str)\<close>.\<close>

definition hash_round :: "int \<Rightarrow> hval \<Rightarrow> hval" where
  "hash_round t acc =
    (let acc = acc XOR randbox ! unat ((word_of_int t + acc) AND 0xf);
         acc = push_bit 1 acc OR drop_bit 31 acc;
         acc = acc AND 0xffffffff;
         acc = acc XOR randbox ! unat ((word_of_int (t div 16) + acc) AND 0xf);
         acc = push_bit 2 acc OR drop_bit 30 acc
     in acc AND 0xffffffff)"

definition hash_char :: "char \<Rightarrow> hval \<Rightarrow> hval" where
  "hash_char c acc = hash_round (sc (c_tolower c)) acc"

definition HashCaseCharPtr :: "bytes option \<Rightarrow> hval" where
  "HashCaseCharPtr key = (case key of None \<Rightarrow> 0 | Some str \<Rightarrow> fold hash_char (cstr str) 0)"

definition EqualCaseCharPtr :: "bytes option \<Rightarrow> bytes option \<Rightarrow> int" where
  "EqualCaseCharPtr x y =
    (case (x, y) of (None, None) \<Rightarrow> 1 | (Some a, Some b) \<Rightarrow> stricmp a b | _ \<Rightarrow> 0)"

text \<open>Keys stored in the table are never null (\<^verbatim>\<open>CopyKey\<close>), and neither are the keys of the
  operations below.\<close>

abbreviation key_hash :: "bytes \<Rightarrow> hval" where
  "key_hash k \<equiv> HashCaseCharPtr (Some k)"

abbreviation key_cmp :: "bytes \<Rightarrow> bytes \<Rightarrow> int" where
  "key_cmp a b \<equiv> EqualCaseCharPtr (Some a) (Some b)"

lemma stricmp_chars_eq_0:
  "NUL \<notin> set xs \<Longrightarrow> NUL \<notin> set ys \<Longrightarrow> stricmp_chars xs ys = 0 \<longleftrightarrow> map c_tolower xs = map c_tolower ys"
proof (induction xs ys rule: stricmp_chars.induct)
  case (2 a as)
  then have "c_tolower a \<noteq> NUL" by auto
  then have "uc (c_tolower a) \<noteq> uc NUL" by (simp add: uc_inject)
  then show ?case by (simp add: uc_def)
next
  case (3 b bs)
  then have "c_tolower b \<noteq> NUL" by auto
  then have "uc (c_tolower b) \<noteq> uc NUL" by (simp add: uc_inject)
  then show ?case by (simp add: uc_def)
qed (auto simp: uc_inject)

lemma stricmp_eq_0: "stricmp x y = 0 \<longleftrightarrow> fold_case x = fold_case y"
  by (simp add: stricmp_def fold_case_def stricmp_chars_eq_0)

lemma key_cmp_eq_0 [simp]: "key_cmp a b = 0 \<longleftrightarrow> fold_case a = fold_case b"
  by (simp add: EqualCaseCharPtr_def stricmp_eq_0)

lemma hash_char_tolower: "hash_char (c_tolower c) acc = hash_char c acc"
  by (simp add: hash_char_def)

lemma fold_hash_char: "fold hash_char (map c_tolower xs) acc = fold hash_char xs acc"
  by (induction xs arbitrary: acc) (simp_all add: hash_char_tolower)

lemma key_hash_map: "key_hash a = fold hash_char (fold_case a) 0"
  by (simp add: HashCaseCharPtr_def fold_case_def fold_hash_char)

lemma key_hash_fold_case: "fold_case a = fold_case b \<Longrightarrow> key_hash a = key_hash b"
  by (simp only: key_hash_map)

interpretation names: key_laws key_hash key_cmp
  by unfold_locales (simp_all, rule key_hash_fold_case)

section \<open>The map\<close>

text \<open>The allocator is a counter of node addresses handed out (\<^verbatim>\<open>MapAlloc\<close>: \<^verbatim>\<open>new hnode_t\<close>).\<close>

record 'd cmap =
  m_H :: "(bytes, 'd) hash"
  m_brk :: nat

definition CMapStr :: "'d cmap option" where
  "CMapStr = map_option (\<lambda>h. \<lparr>m_H = h, m_brk = 0\<rparr>) (hash_create (- 1) key_cmp key_hash)"

definition CopyKey :: "bytes \<Rightarrow> bytes" where
  "CopyKey k = cstr k"

definition AddNotFound :: "bool \<Rightarrow> 'd cmap \<Rightarrow> bytes \<Rightarrow> 'd \<Rightarrow> 'd cmap option" where
  "AddNotFound realloc_ok m k d =
    map_option (\<lambda>h. \<lparr>m_H = h, m_brk = Suc (m_brk m)\<rparr>)
      (hash_insert realloc_ok (m_H m) (m_brk m) d (CopyKey k))"

definition CMap_Find :: "'d cmap \<Rightarrow> bytes \<Rightarrow> 'd option" where
  "CMap_Find m k = map_option hn_data (hash_lookup (m_H m) k)"

definition set_data :: "nat \<Rightarrow> 'd \<Rightarrow> ('k, 'd) hnode \<Rightarrow> ('k, 'd) hnode" where
  "set_data a d n = (if hn_addr n = a then n\<lparr>hn_data := d\<rparr> else n)"

text \<open>\<^verbatim>\<open>Set(k, d, &old)\<close>: overwrites the data of a node found, else adds one.\<close>

definition CMap_Set :: "bool \<Rightarrow> 'd cmap \<Rightarrow> bytes \<Rightarrow> 'd \<Rightarrow> ('d option \<times> 'd cmap) option" where
  "CMap_Set realloc_ok m k d =
    (case hash_lookup (m_H m) k of
       Some node \<Rightarrow>
         Some (Some (hn_data node),
           m\<lparr>m_H := (m_H m)\<lparr>h_table := map (map (set_data (hn_addr node) d)) (h_table (m_H m))\<rparr>\<rparr>)
     | None \<Rightarrow> map_option (Pair None) (AddNotFound realloc_ok m k d))"

definition CMap_Del :: "'d cmap \<Rightarrow> bytes \<Rightarrow> ('d option \<times> 'd cmap) option" where
  "CMap_Del m k =
    (case hash_lookup (m_H m) k of
       Some node \<Rightarrow>
         map_option (\<lambda>h. (Some (hn_data node), m\<lparr>m_H := h\<rparr>)) (hash_delete (m_H m) node)
     | None \<Rightarrow> Some (None, m))"

definition CMap_Clear :: "'d cmap \<Rightarrow> 'd cmap option" where
  "CMap_Clear m = map_option (\<lambda>(h, freed). m\<lparr>m_H := h\<rparr>) (hash_free_nodes (m_H m))"

definition CMap_Count :: "'d cmap \<Rightarrow> nat" where
  "CMap_Count m = unat (h_nodecount (m_H m))"

text \<open>\<^verbatim>\<open>First\<close>/\<^verbatim>\<open>Next\<close> run to the end, as the loops of \<^verbatim>\<open>qCtx::Clear\<close> and \<^verbatim>\<open>qCtx::Dump\<close> do.\<close>

definition CMap_enum :: "'d cmap \<Rightarrow> (bytes \<times> 'd) list option" where
  "CMap_enum m = map_option (map (\<lambda>n. (hn_key n, hn_data n)))
    (scan_loop (Suc (length (nodes (m_H m)))) (m_H m) (hash_scan_begin (m_H m)))"

section \<open>Sequences of operations\<close>

datatype 'd map_op = SetOp bytes 'd | DelOp bytes | ClearOp

text \<open>One operation on an implementation given by its three functions, and on a partial map over
  case-folded names.\<close>

fun map_step :: "('m \<Rightarrow> bytes \<Rightarrow> 'd \<Rightarrow> ('d option \<times> 'm) option) \<Rightarrow>
    ('m \<Rightarrow> bytes \<Rightarrow> ('d option \<times> 'm) option) \<Rightarrow> ('m \<Rightarrow> 'm option) \<Rightarrow> 'd map_op \<Rightarrow> 'm \<Rightarrow> 'm option" where
  "map_step st dl cl (SetOp k d) m = map_option snd (st m k d)"
| "map_step st dl cl (DelOp k) m = map_option snd (dl m k)"
| "map_step st dl cl ClearOp m = cl m"

fun map_run :: "('m \<Rightarrow> bytes \<Rightarrow> 'd \<Rightarrow> ('d option \<times> 'm) option) \<Rightarrow>
    ('m \<Rightarrow> bytes \<Rightarrow> ('d option \<times> 'm) option) \<Rightarrow> ('m \<Rightarrow> 'm option) \<Rightarrow> 'd map_op list \<Rightarrow> 'm \<Rightarrow> 'm option" where
  "map_run st dl cl [] m = Some m"
| "map_run st dl cl (x # xs) m =
     (case map_step st dl cl x m of None \<Rightarrow> None | Some m' \<Rightarrow> map_run st dl cl xs m')"

fun spec_step :: "'d map_op \<Rightarrow> (bytes \<Rightarrow> 'd option) \<Rightarrow> bytes \<Rightarrow> 'd option" where
  "spec_step (SetOp k d) f = f(fold_case k \<mapsto> d)"
| "spec_step (DelOp k) f = f(fold_case k := None)"
| "spec_step ClearOp f = (\<lambda>k. None)"

section \<open>The interface the contexts use\<close>

text \<open>A fallible implementation of a finite map on case-folded names; \<^verbatim>\<open>cap\<close> bounds the number
  of names for which growing cannot overflow the counters.\<close>

locale name_map =
  fixes empty :: "'m option"
    and find :: "'m \<Rightarrow> bytes \<Rightarrow> 'd option"
    and set :: "'m \<Rightarrow> bytes \<Rightarrow> 'd \<Rightarrow> ('d option \<times> 'm) option"
    and del :: "'m \<Rightarrow> bytes \<Rightarrow> ('d option \<times> 'm) option"
    and clear :: "'m \<Rightarrow> 'm option"
    and count :: "'m \<Rightarrow> nat"
    and cap :: nat
    and invar :: "'m \<Rightarrow> bool"
  assumes empty_ok: "\<exists>m. empty = Some m \<and> invar m \<and> count m = 0 \<and> (\<forall>k. find m k = None)"
    and set_ok: "invar m \<Longrightarrow> count m < cap \<Longrightarrow>
      \<exists>m'. set m k d = Some (find m k, m') \<and> invar m' \<and>
        count m' = (if find m k = None then Suc (count m) else count m) \<and>
        (\<forall>k'. find m' k' = (if fold_case k' = fold_case k then Some d else find m k'))"
    and del_ok: "invar m \<Longrightarrow>
      \<exists>m'. del m k = Some (find m k, m') \<and> invar m' \<and>
        count m' = (if find m k = None then count m else count m - 1) \<and>
        (\<forall>k'. find m' k' = (if fold_case k' = fold_case k then None else find m k'))"
    and clear_ok: "invar m \<Longrightarrow> \<exists>m'. clear m = Some m' \<and> invar m' \<and> count m' = 0 \<and> (\<forall>k. find m' k = None)"
begin

lemma set_find_same:
  assumes "invar m" "count m < cap" "set m k d = Some (old, m')"
  shows "find m' k = Some d" "old = find m k" "invar m'"
  using set_ok [OF assms(1,2), of k d] assms(3) by auto

lemma set_find_other:
  assumes "invar m" "count m < cap" "set m k d = Some (old, m')" "fold_case k' \<noteq> fold_case k"
  shows "find m' k' = find m k'"
  using set_ok [OF assms(1,2), of k d] assms(3,4) by auto

lemma del_find_same:
  assumes "invar m" "del m k = Some (old, m')"
  shows "find m' k = None" "old = find m k" "invar m'"
  using del_ok [OF assms(1), of k] assms(2) by auto

lemma set_del_find:
  assumes "invar m" "count m < cap" "set m k d = Some (old, m')" "del m' k = Some (old', m'')"
    and "find m k = None"
  shows "find m'' k' = find m k' \<or> fold_case k' = fold_case k" "count m'' = count m"
  using set_ok [OF assms(1,2), of k d] assms(3-5) del_ok [of m' k] by auto

lemma step_ok:
  assumes "invar m" "count m < cap" "\<And>k. find m k = f (fold_case k)"
  shows "\<exists>m'. map_step set del clear x m = Some m' \<and> invar m' \<and> count m' \<le> Suc (count m) \<and>
    (\<forall>k. find m' k = spec_step x f (fold_case k))"
proof (cases x)
  case (SetOp k d)
  with set_ok [OF assms(1,2), of k d] assms(3) show ?thesis by auto
next
  case (DelOp k)
  with del_ok [OF assms(1), of k] assms(3) show ?thesis by auto
next
  case ClearOp
  with clear_ok [OF assms(1)] show ?thesis by auto
qed

lemma run_ok:
  assumes "invar m" "count m + length xs \<le> cap" "\<And>k. find m k = f (fold_case k)"
  shows "\<exists>m'. map_run set del clear xs m = Some m' \<and> invar m' \<and>
    (\<forall>k. find m' k = fold spec_step xs f (fold_case k))"
  using assms
proof (induction xs arbitrary: m f)
  case (Cons x xs)
  from Cons.prems(2) have "count m < cap" by simp
  from step_ok [OF Cons.prems(1) this Cons.prems(3), of x] obtain m' where
    m': "map_step set del clear x m = Some m'" "invar m'" "count m' \<le> Suc (count m)"
      "\<And>k. find m' k = spec_step x f (fold_case k)" by auto
  with Cons.IH [of m' "spec_step x f"] Cons.prems(2) show ?case by simp
qed simp

end

text \<open>Names written in any case reach the same entry.\<close>

definition map_ok :: "'d cmap \<Rightarrow> bool" where
  "map_ok m \<longleftrightarrow> names.table_ok (m_H m) \<and> h_maxcount (m_H m) = - 1 \<and>
     (\<forall>n \<in> List.set (nodes (m_H m)). hn_addr n < m_brk m)"

definition map_cap :: nat where
  "map_cap = 2 ^ 62"

lemma map_count_nodes:
  assumes "map_ok m"
  shows "CMap_Count m = length (nodes (m_H m))"
  using assms by (auto simp: map_ok_def names.table_ok_def hash_inv_def shape_def CMap_Count_def)

lemma CMap_Find_data: "CMap_Find m k = names.find_data (m_H m) k"
  by (simp add: CMap_Find_def names.find_data_def)

lemma fold_case_CopyKey [simp]: "fold_case (CopyKey k) = fold_case k"
  by (simp add: fold_case_def CopyKey_def cstr_idem)

section \<open>The operations satisfy the interface\<close>

abbreviation overwrite :: "('k, 'd) hash \<Rightarrow> nat \<Rightarrow> 'd \<Rightarrow> ('k, 'd) hash" where
  "overwrite h a d \<equiv> h\<lparr>h_table := map (map (set_data a d)) (h_table h)\<rparr>"

lemma set_data_simps [simp]:
  "hn_addr (set_data a d n) = hn_addr n" "hn_key (set_data a d n) = hn_key n"
  "hn_hkey (set_data a d n) = hn_hkey n"
  by (simp_all add: set_data_def)

lemma nodes_overwrite: "nodes (overwrite h a d) = map (set_data a d) (nodes h)"
  by (simp add: nodes_def map_concat)

lemma overwrite_ok:
  assumes "names.table_ok h"
  shows "names.table_ok (overwrite h a d)"
proof -
  obtain k where k: "shape k h" using assms by (auto simp: names.table_ok_def hash_inv_def)
  then have "shape k (overwrite h a d)"
    using arg_cong [OF nodes_overwrite [where h = h and a = a and d = d], of length]
    by (auto simp: shape_def)
  moreover have "map hn_addr (nodes (overwrite h a d)) = map hn_addr (nodes h)"
    unfolding nodes_overwrite by simp
  ultimately show ?thesis
    using assms unfolding names.table_ok_def hash_inv_def nodes_overwrite
    by (auto simp: comp_def simp del: distinct_map)
qed

lemma lookup_overwrite:
  assumes "names.table_ok h"
  shows "hash_lookup (overwrite h a d) key = map_option (set_data a d) (hash_lookup h key)"
proof (cases "hash_lookup h key")
  case None
  then have "hash_lookup (overwrite h a d) key = None"
    using names.lookup_None_iff [OF assms, of key]
      names.lookup_None_iff [OF overwrite_ok [OF assms], where key = key]
    unfolding nodes_overwrite by auto
  with None show ?thesis by simp
next
  case (Some n)
  then have "hash_lookup (overwrite h a d) key = Some (set_data a d n)"
    using names.lookup_iff [OF assms, of key n]
      names.lookup_iff [OF overwrite_ok [OF assms], where key = key and n = "set_data a d n"]
    unfolding nodes_overwrite by auto
  with Some show ?thesis by simp
qed

lemma find_overwrite:
  assumes "map_ok m" "hash_lookup (m_H m) k = Some node"
  shows "CMap_Find (m\<lparr>m_H := overwrite (m_H m) (hn_addr node) d\<rparr>) k' =
    (if fold_case k' = fold_case k then Some d else CMap_Find m k')"
proof -
  have ok: "names.table_ok (m_H m)" using assms(1) by (simp add: map_ok_def)
  have node: "node \<in> List.set (nodes (m_H m))" "fold_case (hn_key node) = fold_case k"
    using names.lookup_iff [OF ok, of k node] assms(2) by auto
  show ?thesis
  proof (cases "fold_case k' = fold_case k")
    case True
    then have "hash_lookup (m_H m) k' = Some node" using names.lookup_iff [OF ok] node by simp
    with True show ?thesis by (simp add: CMap_Find_def lookup_overwrite [OF ok] set_data_def)
  next
    case False
    have "set_data (hn_addr node) d n = n" if "hash_lookup (m_H m) k' = Some n" for n
    proof -
      have "n \<in> List.set (nodes (m_H m))" "fold_case (hn_key n) = fold_case k'"
        using names.lookup_iff [OF ok, of k' n] that by auto
      with False node have "hn_addr n \<noteq> hn_addr node"
        using ok by (auto simp: names.table_ok_def hash_inv_def distinct_map inj_on_def)
      then show ?thesis by (simp add: set_data_def)
    qed
    with False show ?thesis
      by (cases "hash_lookup (m_H m) k'") (simp_all add: CMap_Find_def lookup_overwrite [OF ok])
  qed
qed

lemma CMap_Set_ok:
  assumes "map_ok m" "CMap_Count m < map_cap"
  shows "\<exists>m'. CMap_Set ok m k d = Some (CMap_Find m k, m') \<and> map_ok m' \<and>
    CMap_Count m' = (if CMap_Find m k = None then Suc (CMap_Count m) else CMap_Count m) \<and>
    (\<forall>k'. CMap_Find m' k' = (if fold_case k' = fold_case k then Some d else CMap_Find m k'))"
proof (cases "hash_lookup (m_H m) k")
  case (Some node)
  let ?m = "m\<lparr>m_H := overwrite (m_H m) (hn_addr node) d\<rparr>"
  have "map_ok ?m"
    using assms(1) overwrite_ok by (auto simp: map_ok_def nodes_overwrite)
  moreover have "CMap_Count ?m = CMap_Count m" by (simp add: CMap_Count_def)
  ultimately show ?thesis
    using Some find_overwrite [OF assms(1) Some] by (simp add: CMap_Set_def CMap_Find_def [of m k])
next
  case None
  have ok: "names.table_ok (m_H m)" and mx: "h_maxcount (m_H m) = - 1"
    and fresh: "m_brk m \<notin> hn_addr ` List.set (nodes (m_H m))"
    using assms(1) by (auto simp: map_ok_def)
  have len: "length (nodes (m_H m)) < 2 ^ 62"
    using assms map_count_nodes [OF assms(1)] by (simp add: map_cap_def)
  then have "unat (h_nodecount (m_H m)) < unat (- 1 :: hval)"
    using map_count_nodes [OF assms(1)] by (simp add: CMap_Count_def unsigned_minus_1_eq_mask mask_eq_exp_minus_1)
  then have cnt: "h_nodecount (m_H m) < h_maxcount (m_H m)" using mx by (simp add: word_less_nat_alt)
  have free: "hash_lookup (m_H m) (CopyKey k) = None"
    using None names.lookup_None_iff [OF ok] by simp
  from names.insert_ok [OF ok cnt free fresh len, of ok d] obtain h' where
    h': "hash_insert ok (m_H m) (m_brk m) d (CopyKey k) = Some h'" "names.table_ok h'"
      "h_maxcount h' = h_maxcount (m_H m)" and
    ms: "mset (nodes h') = add_mset \<lparr>hn_addr = m_brk m, hn_key = CopyKey k, hn_data = d,
        hn_hkey = key_hash (CopyKey k)\<rparr> (mset (nodes (m_H m)))"
    by auto
  let ?m = "\<lparr>m_H = h', m_brk = Suc (m_brk m)\<rparr>"
  have "List.set (nodes h') = insert \<lparr>hn_addr = m_brk m, hn_key = CopyKey k, hn_data = d,
        hn_hkey = key_hash (CopyKey k)\<rparr> (List.set (nodes (m_H m)))"
    using ms by (metis set_mset_add_mset_insert set_mset_mset)
  then have okm: "map_ok ?m" using h' mx assms(1) by (auto simp: map_ok_def less_Suc_eq)
  have "length (nodes h') = Suc (length (nodes (m_H m)))" using ms by (metis size_add_mset size_mset)
  then have "CMap_Count ?m = Suc (CMap_Count m)"
    using map_count_nodes [OF okm] map_count_nodes [OF assms(1)] by simp
  moreover have "CMap_Find ?m k' = (if fold_case k' = fold_case k then Some d else CMap_Find m k')" for k'
    using names.find_data_insert [OF ok h'(2) ms, of k'] by (auto simp: CMap_Find_data)
  ultimately show ?thesis
    using None okm h' by (simp add: CMap_Set_def AddNotFound_def CMap_Find_def [of m k])
qed

lemma CMap_Del_ok:
  assumes "map_ok m"
  shows "\<exists>m'. CMap_Del m k = Some (CMap_Find m k, m') \<and> map_ok m' \<and>
    CMap_Count m' = (if CMap_Find m k = None then CMap_Count m else CMap_Count m - 1) \<and>
    (\<forall>k'. CMap_Find m' k' = (if fold_case k' = fold_case k then None else CMap_Find m k'))"
proof -
  have ok: "names.table_ok (m_H m)" using assms by (simp add: map_ok_def)
  show ?thesis
  proof (cases "hash_lookup (m_H m) k")
    case None
    have "CMap_Find m k' = None" if "fold_case k' = fold_case k" for k'
      using that None names.lookup_None_iff [OF ok] by (simp add: CMap_Find_def)
    with None assms show ?thesis by (simp add: CMap_Del_def CMap_Find_def [of m k])
  next
    case (Some node)
    then have node: "node \<in> List.set (nodes (m_H m))" "fold_case (hn_key node) = fold_case k"
      using names.lookup_iff [OF ok, of k node] by auto
    from names.delete_ok [OF ok node(1)] obtain h' where
      h': "hash_delete (m_H m) node = Some h'" "names.table_ok h'"
        "mset (nodes h') = mset (nodes (m_H m)) - {#node#}" "h_maxcount h' = h_maxcount (m_H m)"
      by auto
    have sub: "List.set (nodes h') \<subseteq> List.set (nodes (m_H m))"
      using h'(3) by (metis in_diffD set_mset_mset subsetI)
    have okm: "map_ok (m\<lparr>m_H := h'\<rparr>)" using h' sub assms by (auto simp: map_ok_def)
    have "length (nodes h') = length (nodes (m_H m)) - 1"
      using h'(3) node(1) by (metis One_nat_def set_mset_mset size_Diff_singleton size_mset)
    then have "CMap_Count (m\<lparr>m_H := h'\<rparr>) = CMap_Count m - 1"
      using map_count_nodes [OF okm] map_count_nodes [OF assms] by simp
    moreover have "CMap_Find (m\<lparr>m_H := h'\<rparr>) k' =
        (if fold_case k' = fold_case k then None else CMap_Find m k')" for k'
      using names.find_data_delete [OF ok h'(2) node(1) h'(3), of k'] node(2)
      by (auto simp: CMap_Find_data)
    ultimately show ?thesis
      using Some okm h' by (simp add: CMap_Del_def CMap_Find_def [of m k])
  qed
qed

lemma CMap_Clear_ok:
  assumes "map_ok m"
  shows "\<exists>m'. CMap_Clear m = Some m' \<and> map_ok m' \<and> CMap_Count m' = 0 \<and> (\<forall>k. CMap_Find m' k = None)"
proof -
  have "names.table_ok (m_H m)" using assms by (simp add: map_ok_def)
  from names.free_nodes_ok [OF this] obtain h' where
    h': "hash_free_nodes (m_H m) = Some (h', nodes (m_H m))" "names.table_ok h'" "nodes h' = []"
      "h_maxcount h' = h_maxcount (m_H m)" by auto
  have okm: "map_ok (m\<lparr>m_H := h'\<rparr>)" using h' assms by (simp add: map_ok_def)
  moreover have "hash_lookup h' k = None" for k
    using names.lookup_None_iff [OF h'(2)] h'(3) by simp
  ultimately show ?thesis
    using h' map_count_nodes [OF okm] by (simp add: CMap_Clear_def CMap_Find_def)
qed

lemma CMapStr_ok:
  "\<exists>m :: 'd cmap. CMapStr = Some m \<and> map_ok m \<and> CMap_Count m = 0 \<and> (\<forall>k. CMap_Find m k = None)"
proof -
  from names.create_ok [of "- 1"] obtain h :: "(bytes, 'd) hash" where
    h: "hash_create (- 1) key_cmp key_hash = Some h" "names.table_ok h" "nodes h = []" "h_maxcount h = - 1"
    by blast
  have okm: "map_ok \<lparr>m_H = h, m_brk = 0\<rparr>" using h by (simp add: map_ok_def)
  moreover have "hash_lookup h k = None" for k
    using names.lookup_None_iff [OF h(2)] h(3) by simp
  moreover have "CMapStr = Some \<lparr>m_H = h, m_brk = 0\<rparr>" using h(1) by (simp add: CMapStr_def)
  moreover have "CMap_Count \<lparr>m_H = h, m_brk = 0\<rparr> = 0" using h(3) map_count_nodes [OF okm] by simp
  ultimately show ?thesis
    by (intro exI [of _ "\<lparr>m_H = h, m_brk = 0\<rparr>"] conjI allI) (auto simp: CMap_Find_def)
qed

interpretation cmap: name_map CMapStr CMap_Find "CMap_Set ok" CMap_Del CMap_Clear CMap_Count map_cap map_ok
  by unfold_locales (rule CMapStr_ok, erule (1) CMap_Set_ok, erule CMap_Del_ok, erule CMap_Clear_ok)

section \<open>Properties\<close>

lemma enum_nodes:
  assumes "map_ok m"
  shows "CMap_enum m = Some (map (\<lambda>n. (hn_key n, hn_data n)) (nodes (m_H m)))"
  using assms scan_all [of "m_H m"] by (simp add: CMap_enum_def map_ok_def names.table_ok_def)

text \<open>C3: any sequence of \<^verbatim>\<open>Set\<close>, \<^verbatim>\<open>Del\<close> and \<^verbatim>\<open>Clear\<close> on a new name map, shorter than the counter
  bound, runs without a failed assertion, and every later lookup, under a name in any case,
  returns what a partial map from case-folded names holds after the same sequence. This
  is through the growing and shrinking of the hash table, and whether or not \<^verbatim>\<open>realloc\<close>
  succeeds.\<close>

theorem CMap_refines_map:
  fixes ops :: "'d map_op list"
  assumes "length ops \<le> map_cap"
  shows "\<exists>m0 m :: 'd cmap. CMapStr = Some m0 \<and>
    map_run (CMap_Set realloc_ok) CMap_Del CMap_Clear ops m0 = Some m \<and>
    (\<forall>k. CMap_Find m k = fold spec_step ops (\<lambda>k. None) (fold_case k))"
proof -
  obtain m0 :: "'d cmap" where m0: "CMapStr = Some m0" "map_ok m0" "CMap_Count m0 = 0" "\<And>k. CMap_Find m0 k = None"
    using cmap.empty_ok by blast
  from cmap.run_ok [OF m0(2), of ops "\<lambda>k. None" realloc_ok] assms m0(3,4) m0(1) show ?thesis by auto
qed

theorem CMap_refines_map_witness:
  "\<exists>m0 m. CMapStr = Some m0 \<and>
    map_run (CMap_Set True) CMap_Del CMap_Clear [SetOp ''Abc'' (1 :: int), SetOp ''x'' 2, DelOp ''X''] m0 = Some m \<and>
    CMap_Find m ''aBC'' = Some 1 \<and> CMap_Find m ''x'' = None"
proof -
  have l: "length [SetOp ''Abc'' (1 :: int), SetOp ''x'' 2, DelOp ''X''] \<le> map_cap"
    by (simp add: map_cap_def)
  have "fold_case ''aBC'' = ''abc''" "fold_case ''Abc'' = ''abc''" "fold_case ''x'' = ''x''" "fold_case ''X'' = ''x''"
    by (simp_all add: fold_case_def cstr_def c_char char_of_def bit_0)
  with CMap_refines_map [OF l, of True] show ?thesis by auto
qed

text \<open>Enumerating a name map returns every entry exactly once: the names are pairwise
  different even when their case is ignored, there are as many as \<^verbatim>\<open>Count\<close> says, and the pairs are
  those a lookup finds.\<close>

theorem CMap_enum_complete:
  assumes "map_ok m"
  shows "\<exists>es. CMap_enum m = Some es \<and> distinct (map (fold_case \<circ> fst) es) \<and>
    length es = CMap_Count m \<and>
    (\<forall>k d. CMap_Find m k = Some d \<longleftrightarrow> (fold_case k, d) \<in> List.set (map (apfst fold_case) es))"
proof -
  have ok: "names.table_ok (m_H m)" using assms by (simp add: map_ok_def)
  let ?ns = "nodes (m_H m)"
  have "a = b" if "a \<in> List.set ?ns" "b \<in> List.set ?ns" "(fold_case \<circ> hn_key) a = (fold_case \<circ> hn_key) b" for a b
    using ok that by (auto simp: names.table_ok_def hash_inv_def)
  then have "inj_on (fold_case \<circ> hn_key) (List.set ?ns)" by (intro inj_onI)
  moreover have "distinct ?ns"
    using ok unfolding names.table_ok_def hash_inv_def by (metis distinct_map)
  ultimately have "distinct (map (fold_case \<circ> hn_key) ?ns)" by (simp only: distinct_map)
  moreover have "CMap_Find m k = Some d \<longleftrightarrow> (\<exists>n \<in> List.set ?ns. fold_case (hn_key n) = fold_case k \<and> hn_data n = d)" for k d
  proof -
    have "CMap_Find m k = Some d \<longleftrightarrow> (\<exists>n. hash_lookup (m_H m) k = Some n \<and> hn_data n = d)"
      by (auto simp: CMap_Find_def)
    also have "\<dots> \<longleftrightarrow> (\<exists>n. (n \<in> List.set ?ns \<and> key_cmp (hn_key n) k = 0) \<and> hn_data n = d)"
      unfolding names.lookup_iff [OF ok] ..
    finally show ?thesis by (simp only: key_cmp_eq_0 Bex_def conj_assoc)
  qed
  moreover have "(fold_case k, d) \<in> List.set (map (apfst fold_case) (map (\<lambda>n. (hn_key n, hn_data n)) ?ns)) \<longleftrightarrow>
      (\<exists>n \<in> List.set ?ns. fold_case (hn_key n) = fold_case k \<and> hn_data n = d)" for k d by force
  ultimately show ?thesis
    using map_count_nodes [OF assms] by (simp add: enum_nodes [OF assms] comp_def image_image)
qed

theorem CMap_enum_complete_witness:
  "\<exists>(m :: int cmap) es. CMap_Count m = 1 \<and> CMap_enum m = Some es \<and> map (apfst fold_case) es = [(''k'', 7)]"
proof -
  obtain m0 :: "int cmap" where m0: "map_ok m0" "CMap_Count m0 = 0" "CMap_Find m0 ''K'' = None"
    using CMapStr_ok by blast
  have "CMap_Count m0 < map_cap" using m0(2) by (simp add: map_cap_def)
  from CMap_Set_ok [OF m0(1) this, of True "''K''" 7] m0 obtain m :: "int cmap" where
    m: "map_ok m" "CMap_Count m = 1" "CMap_Find m ''K'' = Some 7" by auto
  from CMap_enum_complete [OF m(1)] m(2) obtain k d where
    kd: "CMap_enum m = Some [(k, d)]" "\<forall>k' d'. CMap_Find m k' = Some d' \<longleftrightarrow> fold_case k' = fold_case k \<and> d' = d"
    by (auto simp: length_Suc_conv)
  moreover have "fold_case ''K'' = ''k''" by (simp add: fold_case_def cstr_def c_char char_of_def bit_0)
  ultimately have "fold_case k = ''k'' \<and> d = 7" using m(3) by metis
  with kd(1) m(2) show ?thesis by auto
qed

end
