(* ===== verification/CStrings.thy ===== *)
theory CStrings
  imports Prelude "HOL-Library.Sublist"
begin

text \<open>
  The string layer: the trimming methods of \<^verbatim>\<open>CStr\<close> (\<^verbatim>\<open>libsmx/str.h\<close>), \<^verbatim>\<open>itoa\<close> and \<^verbatim>\<open>ultoa\<close>
  (\<^verbatim>\<open>libsmx/unix.cpp\<close>), \<^verbatim>\<open>ParseInt\<close>, \<^verbatim>\<open>ParseBool\<close>, \<^verbatim>\<open>ReplaceStr\<close>, \<^verbatim>\<open>ReplaceStrI\<close> and the slash
  conversions (\<^verbatim>\<open>libsmx/util.cpp\<close>), over the C library functions they call. A \<^verbatim>\<open>CStr\<close> is its
  byte string; a null and an empty \<^verbatim>\<open>CStr\<close> are both the empty string. C \<^verbatim>\<open>int\<close> values are
  HOL integers kept in range by \<^verbatim>\<open>int32\<close>. The lemmas show the decimal round trip
  and its one exception, and compare the replacement loops with replacing every
  occurrence from the left.
\<close>

section \<open>Machine integers\<close>

definition int32 :: "int \<Rightarrow> int" where
  "int32 i = (i + 2 ^ 31) mod 2 ^ 32 - 2 ^ 31"

definition clamp64 :: "int \<Rightarrow> int" where
  "clamp64 i = max (- (2 ^ 63)) (min (2 ^ 63 - 1) i)"

definition c_quot :: "int \<Rightarrow> int \<Rightarrow> int" where
  "c_quot a b = sgn a * sgn b * (\<bar>a\<bar> div \<bar>b\<bar>)"

definition c_rem :: "int \<Rightarrow> int \<Rightarrow> int" where
  "c_rem a b = a - b * c_quot a b"

lemma int32_range: "- (2 ^ 31) \<le> int32 i" "int32 i < 2 ^ 31"
  by (simp_all add: int32_def)

lemma int32_id: "- (2 ^ 31) \<le> i \<Longrightarrow> i < 2 ^ 31 \<Longrightarrow> int32 i = i"
  by (simp add: int32_def)

lemma int32_idem [simp]: "int32 (int32 i) = int32 i"
  using int32_range [of i] by (simp add: int32_id)

lemma c_quot_nonneg: "0 \<le> a \<Longrightarrow> 0 < b \<Longrightarrow> c_quot a b = a div b"
  by (cases "a = 0") (simp_all add: c_quot_def)

lemma c_rem_nonneg: "0 \<le> a \<Longrightarrow> 0 < b \<Longrightarrow> c_rem a b = a mod b"
  by (simp add: c_rem_def c_quot_nonneg minus_mult_div_eq_mod)

section \<open>Reading and printing integers\<close>

fun digits_value :: "int \<Rightarrow> bytes \<Rightarrow> int" where
  "digits_value acc [] = acc"
| "digits_value acc (c # cs) =
     (if c_isdigit c then digits_value (acc * 10 + (int (uc c) - 48)) cs else acc)"

definition strtol10 :: "bytes \<Rightarrow> int" where
  "strtol10 s =
    (case dropWhile c_isspace (cstr s) of
       [] \<Rightarrow> 0
     | c # cs \<Rightarrow> if c = CHR ''-'' then clamp64 (- digits_value 0 cs)
                 else if c = CHR ''+'' then clamp64 (digits_value 0 cs)
                 else clamp64 (digits_value 0 (c # cs)))"

definition ParseInt :: "bytes \<Rightarrow> int" where
  "ParseInt s = int32 (strtol10 s)"

definition ParseBool :: "bytes \<Rightarrow> bool" where
  "ParseBool value = (cstr value \<noteq> [])"

text \<open>The character \<^verbatim>\<open>'0' + d\<close>, for a digit or for a negative remainder.\<close>

definition digit_char :: "int \<Rightarrow> char" where
  "digit_char d = char_of (nat ((48 + d) mod 256))"

text \<open>The digit loop, least significant digit first; \<^verbatim>\<open>strrev\<close> turns it round.\<close>

function itoa_loop :: "int \<Rightarrow> bytes" where
  "itoa_loop num = (if num = 0 then [] else digit_char (c_rem num 10) # itoa_loop (c_quot num 10))"
  by pat_completeness auto
termination
proof (relation "measure (\<lambda>num. nat \<bar>num\<bar>)", goal_cases)
  case (2 num)
  have "\<bar>c_quot num 10\<bar> = \<bar>num\<bar> div 10" using 2 by (simp add: c_quot_def abs_mult)
  also have "\<dots> < \<bar>num\<bar>" using 2 by (intro int_div_less_self) auto
  finally show ?case by simp
qed simp

declare itoa_loop.simps [simp del]

definition itoa :: "int \<Rightarrow> bytes" where
  "itoa num =
    (let neg = num < 0; n = (if neg then int32 (- num) else num)
     in (if neg then ''-'' else []) @ (if n = 0 then ''0'' else rev (itoa_loop n)))"

text \<open>\<^verbatim>\<open>ultoa\<close> on an \<^verbatim>\<open>unsigned long\<close>; a radix below 2 divides by zero or never ends.\<close>

definition ultoa_digit :: "nat \<Rightarrow> char" where
  "ultoa_digit d = (if d > 9 then char_of ((97 + d - 10) mod 256) else char_of (48 + d))"

function ultoa_loop :: "nat \<Rightarrow> nat \<Rightarrow> bytes" where
  "ultoa_loop r num = (if num = 0 \<or> r < 2 then []
     else ultoa_digit (num mod r) # ultoa_loop r (num div r))"
  by pat_completeness auto
termination
  by (relation "measure snd") auto

declare ultoa_loop.simps [simp del]

definition ultoa :: "nat \<Rightarrow> nat \<Rightarrow> bytes option" where
  "ultoa num radix =
    (if num = 0 then Some ''0''
     else if radix < 2 then None
     else Some (rev (ultoa_loop radix num)))"

section \<open>Trimming\<close>

definition LTrim :: "bytes \<Rightarrow> bytes" where
  "LTrim s = dropWhile c_isspace s"

definition RTrim :: "bytes \<Rightarrow> bytes" where
  "RTrim s = rev (dropWhile c_isspace (rev s))"

definition Trim :: "bytes \<Rightarrow> bytes" where
  "Trim s = RTrim (LTrim s)"

text \<open>With a character given. Trimming NUL from the left would run past the terminator.\<close>

definition LTrimC :: "char \<Rightarrow> bytes \<Rightarrow> bytes option" where
  "LTrimC c s = (if c = NUL \<and> list_all (\<lambda>x. x = NUL) s \<and> s \<noteq> [] then None
     else Some (dropWhile (\<lambda>x. x = c) s))"

definition RTrimC :: "char \<Rightarrow> bytes \<Rightarrow> bytes" where
  "RTrimC c s = rev (dropWhile (\<lambda>x. x = c) (rev s))"

section \<open>Searching and replacing\<close>

text \<open>\<^verbatim>\<open>strstr\<close>: the offset of the first occurrence.\<close>

fun find_sub :: "bytes \<Rightarrow> bytes \<Rightarrow> nat option" where
  "find_sub [] n = (if n = [] then Some 0 else None)"
| "find_sub (c # cs) n = (if prefix n (c # cs) then Some 0 else map_option Suc (find_sub cs n))"

definition strstr :: "bytes \<Rightarrow> bytes \<Rightarrow> nat option" where
  "strstr h n = find_sub (cstr h) (cstr n)"

text \<open>\<^verbatim>\<open>strnicmp(a, b, n) == 0\<close>: equal modulo case on at most \<^verbatim>\<open>n\<close> characters, stopping at a NUL.\<close>

fun strnicmp_eq :: "bytes \<Rightarrow> bytes \<Rightarrow> nat \<Rightarrow> bool" where
  "strnicmp_eq a b 0 = True"
| "strnicmp_eq [] [] (Suc n) = True"
| "strnicmp_eq (x # a) [] (Suc n) = (x = NUL)"
| "strnicmp_eq [] (y # b) (Suc n) = (y = NUL)"
| "strnicmp_eq (x # a) (y # b) (Suc n) =
     (c_tolower x = c_tolower y \<and> (x = NUL \<or> strnicmp_eq a b n))"

fun strncmp_eq :: "bytes \<Rightarrow> bytes \<Rightarrow> nat \<Rightarrow> bool" where
  "strncmp_eq a b 0 = True"
| "strncmp_eq [] [] (Suc n) = True"
| "strncmp_eq (x # a) [] (Suc n) = (x = NUL)"
| "strncmp_eq [] (y # b) (Suc n) = (y = NUL)"
| "strncmp_eq (x # a) (y # b) (Suc n) = (x = y \<and> (x = NUL \<or> strncmp_eq a b n))"

text \<open>\<^verbatim>\<open>stristr(a, la, b, lb)\<close> with \<^verbatim>\<open>la\<close> the length of \<^verbatim>\<open>a\<close>: tries the offsets that leave room
  for \<^verbatim>\<open>b\<close>.\<close>

fun stristr_loop :: "bytes \<Rightarrow> bytes \<Rightarrow> nat option" where
  "stristr_loop [] b = None"
| "stristr_loop (c # cs) b =
     (if length (c # cs) < length b then None
      else if strnicmp_eq (c # cs) b (length b) then Some 0
      else map_option Suc (stristr_loop cs b))"

definition stristr :: "bytes \<Rightarrow> bytes \<Rightarrow> nat option" where
  "stristr a b = (if a = [] \<or> length a < length b then None else stristr_loop a b)"

text \<open>\<^verbatim>\<open>ReplaceStr\<close>, replacement of the same length: the search restarts at the beginning of
  the string after every replacement, so the loop may never end.\<close>

partial_function (option) replace_same :: "bytes \<Rightarrow> bytes \<Rightarrow> bytes \<Rightarrow> bytes option" where
  "replace_same s from to =
    (case strstr s from of
       None \<Rightarrow> Some s
     | Some p \<Rightarrow> replace_same (take p s @ to @ drop (p + length from) s) from to)"

text \<open>The other loop: \<^verbatim>\<open>i\<close> is the rest of the string, \<^verbatim>\<open>res\<close> what was built so far; the result
  is \<^verbatim>\<open>res\<close> and the rest after the last match.\<close>

function replace_loop :: "(bytes \<Rightarrow> bytes \<Rightarrow> nat option) \<Rightarrow> bytes \<Rightarrow> bytes \<Rightarrow> bytes \<Rightarrow> bytes \<Rightarrow> bytes \<times> bytes" where
  "replace_loop search i from to res =
    (case search i from of
       None \<Rightarrow> (res, i)
     | Some p \<Rightarrow> if from = [] \<or> i = [] then (res, i)
         else replace_loop search (drop (p + length from) i) from to (res @ take p i @ to))"
  by pat_completeness auto
termination
  by (relation "measure (\<lambda>(search, i, from, to, res). length i)") auto

declare replace_loop.simps [simp del]

definition ReplaceStr :: "bytes \<Rightarrow> bytes \<Rightarrow> bytes \<Rightarrow> bytes option" where
  "ReplaceStr in_s from to =
    (if length from = 0 \<or> length from > length in_s then Some in_s
     else if length from = length to then replace_same in_s from to
     else let (res, i) = replace_loop strstr in_s from to []
          in if length i \<noteq> length in_s \<and> length i > 0 then Some (res @ i) else Some in_s)"

definition ReplaceStrI :: "bytes \<Rightarrow> bytes \<Rightarrow> bytes \<Rightarrow> bytes" where
  "ReplaceStrI in_s from to =
    (if length from = 0 \<or> length from > length in_s then in_s
     else let (res, i) = replace_loop stristr in_s from to []
          in if length from = length to then res @ i
             else if length i \<noteq> length in_s then res @ i else in_s)"

definition bslash :: "bytes \<Rightarrow> bytes" where
  "bslash f = map (\<lambda>c. if c = CHR ''/'' then BSL else c) (cstr f)"

definition fslash :: "bytes \<Rightarrow> bytes" where
  "fslash f = map (\<lambda>c. if c = BSL then CHR ''/'' else c) (cstr f)"

section \<open>The decimal round trip\<close>

lemma digit_char_digit:
  assumes "0 \<le> d" "d < 10"
  shows "c_isdigit (digit_char d)" "int (uc (digit_char d)) - 48 = d"
  using assms by (auto simp: digit_char_def c_isdigit_def nat_mod_distrib nat_add_distrib)

lemma digits_value_append:
  "\<forall>c \<in> set xs. c_isdigit c \<Longrightarrow> digits_value acc (xs @ ys) = digits_value (digits_value acc xs) ys"
  by (induction xs arbitrary: acc) auto

lemma itoa_loop_digits:
  "0 \<le> n \<Longrightarrow> (\<forall>c \<in> set (itoa_loop n). c_isdigit c) \<and> digits_value 0 (rev (itoa_loop n)) = n"
proof (induction n rule: itoa_loop.induct)
  case (1 n)
  show ?case
  proof (cases "n = 0")
    case True
    then show ?thesis by (simp add: itoa_loop.simps)
  next
    case False
    with 1 have q: "c_quot n 10 = n div 10" "c_rem n 10 = n mod 10"
      by (simp_all add: c_quot_nonneg c_rem_nonneg)
    with 1 False have IH: "\<forall>c \<in> set (itoa_loop (n div 10)). c_isdigit c"
      "digits_value 0 (rev (itoa_loop (n div 10))) = n div 10" by auto
    have d: "c_isdigit (digit_char (n mod 10))" "int (uc (digit_char (n mod 10))) - 48 = n mod 10"
      using digit_char_digit [of "n mod 10"] by auto
    have "itoa_loop n = digit_char (n mod 10) # itoa_loop (n div 10)"
      using False q by (subst itoa_loop.simps) simp
    with IH d show ?thesis by (simp add: digits_value_append)
  qed
qed

lemma digit_char_facts: "c_isdigit c \<Longrightarrow> \<not> c_isspace c \<and> c \<noteq> NUL \<and> c \<noteq> CHR ''-'' \<and> c \<noteq> CHR ''+''"
  by (auto simp: c_char)

lemma strtol10_digits:
  assumes "ds \<noteq> []" "\<forall>c \<in> set ds. c_isdigit c"
  shows "strtol10 ds = clamp64 (digits_value 0 ds)" "strtol10 (CHR ''-'' # ds) = clamp64 (- digits_value 0 ds)"
proof -
  have "NUL \<notin> set ds" using assms(2) digit_char_facts by blast
  then have "cstr ds = ds" "cstr (CHR ''-'' # ds) = CHR ''-'' # ds"
    by (simp_all add: cstr_id cstr_Cons)
  moreover obtain d ds' where ds: "ds = d # ds'" using assms(1) by (cases ds) auto
  moreover have "\<not> c_isspace d" "d \<noteq> CHR ''-''" "d \<noteq> CHR ''+''"
    using assms(2) ds digit_char_facts [of d] by auto
  moreover have "\<not> c_isspace (CHR ''-'')" by (simp add: c_char)
  ultimately show "strtol10 ds = clamp64 (digits_value 0 ds)"
    "strtol10 (CHR ''-'' # ds) = clamp64 (- digits_value 0 ds)"
    by (simp_all add: strtol10_def)
qed

lemma ParseInt_itoa:
  assumes "- (2 ^ 31) < n" "n < 2 ^ 31"
  shows "ParseInt (itoa n) = n"
proof -
  let ?m = "if n < 0 then int32 (- n) else n"
  have m: "?m = \<bar>n\<bar>" using assms by (simp add: int32_id)
  show ?thesis
  proof (cases "n = 0")
    case True
    then show ?thesis
      by (simp add: ParseInt_def itoa_def strtol10_def int32_def clamp64_def cstr_def c_char)
  next
    case False
    let ?ds = "rev (itoa_loop \<bar>n\<bar>)"
    have ds: "\<forall>c \<in> set ?ds. c_isdigit c" "digits_value 0 ?ds = \<bar>n\<bar>"
      using itoa_loop_digits [of "\<bar>n\<bar>"] by auto
    have ne: "?ds \<noteq> []" using False by (subst itoa_loop.simps) simp
    have it: "itoa n = (if n < 0 then CHR ''-'' # ?ds else ?ds)"
      unfolding itoa_def Let_def m using False by simp
    show ?thesis
      using strtol10_digits [OF ne ds(1)] ds(2) assms
      by (cases "n < 0") (simp_all add: it ParseInt_def clamp64_def int32_id)
  qed
qed

lemma itoa_neg:
  assumes "- (2 ^ 31) < n" "n < 0"
  shows "itoa n = CHR ''-'' # itoa (- n)"
  using assms by (simp add: itoa_def Let_def int32_id)

section \<open>Replacing every occurrence\<close>

text \<open>The specification: scan from the left, replace at each position where \<^verbatim>\<open>from\<close> matches.\<close>

function replace_all :: "(bytes \<Rightarrow> bytes \<Rightarrow> bool) \<Rightarrow> bytes \<Rightarrow> bytes \<Rightarrow> bytes \<Rightarrow> bytes" where
  "replace_all match from to s =
    (if s = [] \<or> from = [] then s
     else if match from s then to @ replace_all match from to (drop (length from) s)
     else hd s # replace_all match from to (tl s))"
  by pat_completeness auto
termination
  by (relation "measure (\<lambda>(m, from, to, s). length s)") auto

declare replace_all.simps [simp del]

definition imatch :: "bytes \<Rightarrow> bytes \<Rightarrow> bool" where
  "imatch from s = (length from \<le> length s \<and> map c_tolower (take (length from) s) = map c_tolower from)"

lemma find_sub_Some:
  "find_sub s n = Some p \<Longrightarrow> prefix n (drop p s) \<and> p \<le> length s \<and> (\<forall>q < p. \<not> prefix n (drop q s))"
proof (induction s n arbitrary: p rule: find_sub.induct)
  case (2 c cs n)
  then show ?case by (auto simp: less_Suc_eq_0_disj split: if_splits)
qed (auto split: if_splits)

lemma find_sub_None: "find_sub s n = None \<Longrightarrow> n \<noteq> [] \<Longrightarrow> \<not> prefix n (drop q s)"
proof (induction s n arbitrary: q rule: find_sub.induct)
  case (2 c cs n)
  then show ?case by (cases q) (auto split: if_splits)
qed (auto split: if_splits)

lemma replace_all_skip:
  assumes "\<forall>q < p. \<not> match from (drop q s)" "p \<le> length s" "from \<noteq> []"
  shows "replace_all match from to s = take p s @ replace_all match from to (drop p s)"
  using assms
proof (induction p arbitrary: s)
  case (Suc p)
  then obtain c cs where s: "s = c # cs" by (cases s) auto
  have "\<forall>q < p. \<not> match from (drop q cs)" using Suc.prems(1) s by force
  with Suc s have "replace_all match from to cs = take p cs @ replace_all match from to (drop p cs)" by simp
  moreover have "\<not> match from s" using Suc.prems(1) by (auto dest: spec [of _ 0])
  ultimately show ?case using s Suc.prems(3) by (subst replace_all.simps) simp
qed simp

lemma replace_all_none:
  assumes "\<And>q. \<not> match from (drop q s)" "from \<noteq> []"
  shows "replace_all match from to s = s"
  using replace_all_skip [of "length s" match "from" s to] assms
  by (simp add: replace_all.simps [of match "from" to "[]"])

text \<open>What \<^verbatim>\<open>replace_loop\<close> needs of its search: the first matching offset.\<close>

definition first_match :: "(bytes \<Rightarrow> bytes \<Rightarrow> nat option) \<Rightarrow> (bytes \<Rightarrow> bytes \<Rightarrow> bool) \<Rightarrow> bytes \<Rightarrow> bytes \<Rightarrow> bool" where
  "first_match search match from s \<longleftrightarrow>
     (case search s from of
        None \<Rightarrow> \<forall>q. \<not> match from (drop q s)
      | Some p \<Rightarrow> match from (drop p s) \<and> p + length from \<le> length s \<and> (\<forall>q < p. \<not> match from (drop q s)))"

lemma replace_loop_all:
  assumes "from \<noteq> []" "\<And>q. first_match search match from (drop q s)"
  shows "replace_loop search s from to res = (r, i) \<Longrightarrow>
    r @ i = res @ replace_all match from to s \<and> (\<exists>q \<le> length s. i = drop q s) \<and>
    (search s from = None \<longleftrightarrow> length i = length s) \<and>
    (i = [] \<longrightarrow> s \<noteq> [] \<longrightarrow> (\<exists>q. match from (drop q s) \<and> q + length from = length s))"
  using assms(2)
proof (induction "length s" arbitrary: s res rule: less_induct)
  case less
  have f0: "first_match search match from s" using less.prems(2) [of 0] by simp
  show ?case
  proof (cases "search s from")
    case None
    with less.prems(1) have "r = res" "i = s" by (simp_all add: replace_loop.simps [of search s])
    with None f0 assms(1) show ?thesis
      by (auto simp: first_match_def replace_all_none intro: exI [of _ 0])
  next
    case (Some p)
    with f0 have p: "match from (drop p s)" "p + length from \<le> length s" "\<forall>q < p. \<not> match from (drop q s)"
      by (auto simp: first_match_def)
    let ?t = "drop (p + length from) s"
    from p assms(1) have sne: "s \<noteq> []" by auto
    have lt: "length ?t < length s" using p assms(1) sne by simp
    have fm: "first_match search match from (drop q ?t)" for q
      using less.prems(2) [of "q + (p + length from)"] by (simp add: add.commute)
    have loop: "replace_loop search ?t from to (res @ take p s @ to) = (r, i)"
      using less.prems(1) Some assms(1) sne by (simp add: replace_loop.simps [of search s])
    from less.hyps [OF lt loop fm] have IH:
      "r @ i = (res @ take p s @ to) @ replace_all match from to ?t"
      "\<exists>q \<le> length ?t. i = drop q ?t"
      "i = [] \<longrightarrow> ?t \<noteq> [] \<longrightarrow> (\<exists>q. match from (drop q ?t) \<and> q + length from = length ?t)" by auto
    have "replace_all match from to s = take p s @ replace_all match from to (drop p s)"
      using replace_all_skip [of p match "from" s to] p assms(1) by simp
    also have "replace_all match from to (drop p s) = to @ replace_all match from to ?t"
    proof -
      from assms(1) have "0 < length from" by simp
      with p(2) have "\<not> length s \<le> p" by linarith
      then have "drop p s \<noteq> []" by simp
      with p(1) assms(1) show ?thesis by (subst replace_all.simps) (simp add: add.commute)
    qed
    finally have eq: "r @ i = res @ replace_all match from to s" using IH(1) by simp
    have len: "length i < length s" using IH(2) lt by auto
    have suff: "\<exists>q \<le> length s. i = drop q s"
    proof -
      from IH(2) obtain q where "q \<le> length ?t" "i = drop q ?t" by auto
      with p(2) show ?thesis by (intro exI [of _ "q + (p + length from)"]) simp
    qed
    have last: "i = [] \<longrightarrow> (\<exists>q. match from (drop q s) \<and> q + length from = length s)"
    proof
      assume "i = []"
      show "\<exists>q. match from (drop q s) \<and> q + length from = length s"
      proof (cases "?t = []")
        case True
        with p show ?thesis by (intro exI [of _ p]) simp
      next
        case False
        with IH(3) \<open>i = []\<close> obtain q where "match from (drop q ?t)" "q + length from = length ?t" by auto
        with p(2) show ?thesis
          by (intro exI [of _ "q + (p + length from)"]) (auto simp: add.commute add.left_commute)
      qed
    qed
    from eq len suff last Some show ?thesis by auto
  qed
qed

lemma first_match_strstr:
  assumes "NUL \<notin> set s" "NUL \<notin> set from" "from \<noteq> []"
  shows "first_match strstr prefix from s"
proof (cases "find_sub s from")
  case None
  then show ?thesis
    using find_sub_None [OF None] assms by (auto simp: first_match_def strstr_def cstr_id)
next
  case (Some p)
  then have "prefix from (drop p s)" using find_sub_Some by blast
  then have "length from \<le> length s - p" by (metis length_drop prefix_length_le)
  then show ?thesis
    using find_sub_Some [OF Some] assms Some by (auto simp: first_match_def strstr_def cstr_id)
qed

lemma strnicmp_eq_imatch:
  "NUL \<notin> set a \<Longrightarrow> NUL \<notin> set b \<Longrightarrow> length b \<le> length a \<Longrightarrow>
     strnicmp_eq a b (length b) \<longleftrightarrow> imatch b a"
proof (induction b arbitrary: a)
  case Nil
  then show ?case by (simp add: imatch_def)
next
  case (Cons y b)
  then obtain x a' where "a = x # a'" by (cases a) auto
  with Cons show ?case by (auto simp: imatch_def)
qed

lemma stristr_loop_spec:
  "NUL \<notin> set s \<Longrightarrow> NUL \<notin> set b \<Longrightarrow> b \<noteq> [] \<Longrightarrow> first_match (\<lambda>s b. stristr_loop s b) imatch b s"
proof (induction s)
  case Nil
  then show ?case by (simp add: first_match_def imatch_def)
next
  case (Cons c s)
  show ?case
  proof (cases "length (c # s) < length b")
    case True
    then have "\<not> imatch b (drop q (c # s))" for q by (auto simp: imatch_def)
    with True show ?thesis by (simp add: first_match_def)
  next
    case False
    then have eq: "strnicmp_eq (c # s) b (length b) \<longleftrightarrow> imatch b (c # s)"
      using Cons.prems by (intro strnicmp_eq_imatch) auto
    have IH: "first_match (\<lambda>s b. stristr_loop s b) imatch b s" using Cons by simp
    show ?thesis
    proof (cases "imatch b (c # s)")
      case True
      with eq False show ?thesis by (auto simp: first_match_def)
    next
      case nm: False
      with eq False have st: "stristr_loop (c # s) b = map_option Suc (stristr_loop s b)" by simp
      show ?thesis
      proof (cases "stristr_loop s b")
        case None
        with IH nm st show ?thesis by (auto simp: first_match_def drop_Cons' split: if_splits)
      next
        case (Some p)
        with IH nm st show ?thesis
          by (auto simp: first_match_def drop_Cons' split: if_splits)
      qed
    qed
  qed
qed

lemma first_match_stristr:
  assumes "NUL \<notin> set s" "NUL \<notin> set b" "b \<noteq> []"
  shows "first_match stristr imatch b s"
proof (cases "s = [] \<or> length s < length b")
  case True
  then have "\<not> imatch b (drop q s)" for q using assms(3) by (auto simp: imatch_def)
  with True show ?thesis by (simp add: first_match_def stristr_def)
next
  case False
  with stristr_loop_spec [OF assms] show ?thesis by (simp add: first_match_def stristr_def)
qed

lemma ReplaceStrI_all:
  assumes "NUL \<notin> set s" "NUL \<notin> set from" "from \<noteq> []"
  shows "ReplaceStrI s from to = replace_all imatch from to s"
proof (cases "length from > length s")
  case True
  then have "\<not> imatch from (drop q s)" for q by (auto simp: imatch_def)
  with True assms(3) show ?thesis by (simp add: ReplaceStrI_def replace_all_none)
next
  case False
  obtain r i where l: "replace_loop stristr s from to [] = (r, i)" by fastforce
  have "first_match stristr imatch from (drop q s)" for q
    using assms by (intro first_match_stristr) (auto dest: in_set_dropD)
  from replace_loop_all [OF assms(3) this l] have
    a: "r @ i = replace_all imatch from to s" "stristr s from = None \<longleftrightarrow> length i = length s" by auto
  have "replace_all imatch from to s = s" if "length i = length s"
    using that a(2) first_match_stristr [OF assms] assms(3)
    by (auto simp: first_match_def intro!: replace_all_none)
  with a l False assms(3) show ?thesis by (auto simp: ReplaceStrI_def)
qed

lemma ReplaceStr_all:
  assumes "NUL \<notin> set s" "NUL \<notin> set from" "from \<noteq> []" "length from \<noteq> length to" "\<not> suffix from s"
  shows "ReplaceStr s from to = Some (replace_all prefix from to s)"
proof (cases "length from > length s")
  case True
  then have "\<not> prefix from (drop q s)" for q by (auto dest: prefix_length_le)
  with True assms(3) show ?thesis by (simp add: ReplaceStr_def replace_all_none)
next
  case False
  obtain r i where l: "replace_loop strstr s from to [] = (r, i)" by fastforce
  have "first_match strstr prefix from (drop q s)" for q
    using assms by (intro first_match_strstr) (auto dest: in_set_dropD)
  from replace_loop_all [OF assms(3) this l] have
    a: "r @ i = replace_all prefix from to s" "strstr s from = None \<longleftrightarrow> length i = length s"
    "i = [] \<longrightarrow> s \<noteq> [] \<longrightarrow> (\<exists>q. prefix from (drop q s) \<and> q + length from = length s)" by auto
  have ne: "i \<noteq> []"
  proof
    assume "i = []"
    with a(3) False assms(3) obtain q where q: "prefix from (drop q s)" "q + length from = length s" by auto
    from q(1) obtain zs where zs: "drop q s = from @ zs" by (auto simp: prefix_def)
    then have "length s - q = length from + length zs" by (metis length_append length_drop)
    with q(2) have "length zs = 0" by linarith
    with zs have "from = drop q s" by simp
    with assms(5) show False by (metis suffix_drop)
  qed
  have "replace_all prefix from to s = s" if "length i = length s"
    using that a(2) first_match_strstr [OF assms(1-3)] assms(3)
    by (auto simp: first_match_def intro!: replace_all_none)
  with a(1) l False assms(3,4) ne show ?thesis by (auto simp: ReplaceStr_def)
qed

lemma ReplaceStr_drops_last:
  assumes "ReplaceStr s from to = Some r" "length from \<noteq> length to"
    and "snd (replace_loop strstr s from to []) = []"
  shows "r = s"
  using assms by (auto simp: ReplaceStr_def split: prod.splits if_splits)

text \<open>The same-length loop never ends when the replacement is the text searched for.\<close>

lemma replace_same_id_diverges:
  assumes "strstr s f \<noteq> None" "NUL \<notin> set s" "NUL \<notin> set f"
  shows "replace_same s f f = None"
proof -
  obtain p where p: "strstr s f = Some p" using assms(1) by auto
  then have "find_sub s f = Some p" using assms by (simp add: strstr_def cstr_id)
  then have "prefix f (drop p s)" using find_sub_Some by blast
  then obtain zs where zs: "drop p s = f @ zs" by (auto simp: prefix_def)
  have "drop (p + length f) s = zs" by (metis add.commute append_eq_conv_conj drop_drop zs)
  then have same: "take p s @ f @ drop (p + length f) s = s" by (metis append_take_drop_id zs)
  have "\<not> (s' = s \<and> from = f \<and> to = f)" if "replace_same s' from to = Some y" for s' "from" to y
  proof (rule replace_same.raw_induct [of "\<lambda>s' from to y. \<not> (s' = s \<and> from = f \<and> to = f)", OF _ that])
    fix rec s' "from" to y
    assume *: "\<And>s' from to y. rec s' from to = Some y \<Longrightarrow> \<not> (s' = s \<and> from = f \<and> to = f)"
      and **: "(case strstr s' from of None \<Rightarrow> Some s'
        | Some p \<Rightarrow> rec (take p s' @ to @ drop (p + length from) s') from to) = Some y"
    show "\<not> (s' = s \<and> from = f \<and> to = f)"
    proof
      assume e: "s' = s \<and> from = f \<and> to = f"
      with ** p same have "rec s f f = Some y" by simp
      from * [OF this] show False by simp
    qed
  qed
  then show ?thesis by (cases "replace_same s f f") auto
qed

section \<open>Trimming removes every outer blank, once\<close>

lemma dropWhile_idem: "dropWhile P (dropWhile P xs) = dropWhile P xs"
  by (induction xs) auto

lemma dropWhile_append_last:
  "dropWhile P (xs @ ys) = (if list_all P xs then dropWhile P ys else dropWhile P xs @ ys)"
  by (induction xs) auto

lemma RTrim_LTrim: "RTrim (LTrim s) = LTrim (RTrim s)"
proof (induction s)
  case (Cons c s)
  have *: "RTrim (c # s) = (if list_all c_isspace (c # s) then [] else c # RTrim s)"
    by (auto simp: RTrim_def dropWhile_append_last list_all_iff)
  show ?case
  proof (cases "c_isspace c")
    case True
    then have "LTrim (c # s) = LTrim s" "LTrim (c # RTrim s) = LTrim (RTrim s)" by (simp_all add: LTrim_def)
    moreover have "RTrim s = []" if "list_all c_isspace s"
      using that by (simp add: RTrim_def list_all_iff)
    ultimately show ?thesis using Cons * by (auto simp: LTrim_def)
  next
    case False
    with * show ?thesis by (simp add: LTrim_def)
  qed
qed (simp add: RTrim_def LTrim_def)

lemma Trim_idem: "Trim (Trim s) = Trim s"
  by (simp add: Trim_def RTrim_LTrim [symmetric])
     (simp add: RTrim_LTrim, simp add: LTrim_def dropWhile_idem, simp add: RTrim_def dropWhile_idem)

lemma Trim_ends:
  assumes "Trim s \<noteq> []"
  shows "\<not> c_isspace (hd (Trim s))" "\<not> c_isspace (last (Trim s))"
proof -
  have "Trim s = dropWhile c_isspace (RTrim s)" by (simp add: Trim_def RTrim_LTrim) (simp add: LTrim_def)
  with assms show "\<not> c_isspace (hd (Trim s))" by (metis hd_dropWhile)
  have "last (Trim s) = hd (dropWhile c_isspace (rev (LTrim s)))"
    using assms by (simp add: Trim_def RTrim_def last_rev)
  with assms show "\<not> c_isspace (last (Trim s))" by (metis Trim_def RTrim_def hd_dropWhile rev_is_Nil_conv)
qed

section \<open>The integer that does not print\<close>

lemma itoa_min: "itoa (- (2 ^ 31)) = ''-./,),(-*,(''"
  by (simp add: itoa_def int32_def itoa_loop.simps c_rem_def c_quot_def digit_char_def char_of_def bit_0)

section \<open>Properties\<close>

text \<open>Printing a C \<^verbatim>\<open>int\<close> with \<^verbatim>\<open>itoa\<close> in base 10 and reading it back with \<^verbatim>\<open>ParseInt\<close> gives the
  same number, for every \<^verbatim>\<open>int\<close> except the smallest, which \<^verbatim>\<open>itoa\<close> prints as characters
  that are not digits (negating it overflows).\<close>

theorem itoa_ParseInt:
  assumes "- (2 ^ 31) \<le> n" "n < 2 ^ 31"
  shows "if n = - (2 ^ 31) then itoa n = ''-./,),(-*,('' else ParseInt (itoa n) = n"
  using assms itoa_min ParseInt_itoa [of n] by auto

theorem itoa_ParseInt_witness: "ParseInt (itoa (- 2147483647)) = - 2147483647"
  using itoa_ParseInt [of "- 2147483647"] by simp



text \<open>where \<^verbatim>\<open>ReplaceStr\<close> fails to replace. With a replacement of the same length that equals
  the text searched for it never returns; with another length, when the last match ends the string,
  it returns the input unchanged.\<close>

theorem ReplaceStr_failures:
  "ReplaceStr ''a-b'' ''-'' ''-'' = None \<and> ReplaceStr ''a-b-'' ''-'' ''--'' = Some ''a-b-''"
proof
  have "strstr ''a-b'' ''-'' \<noteq> None" by (simp add: strstr_def cstr_def)
  then have "replace_same ''a-b'' ''-'' ''-'' = None" by (intro replace_same_id_diverges) auto
  then show "ReplaceStr ''a-b'' ''-'' ''-'' = None" by (simp add: ReplaceStr_def)
  show "ReplaceStr ''a-b-'' ''-'' ''--'' = Some ''a-b-''"
    by (simp add: ReplaceStr_def replace_loop.simps strstr_def cstr_def)
qed

text \<open>trimming a string leaves no blank at either end, and trimming again changes nothing.\<close>

theorem Trim_correct:
  "Trim (Trim s) = Trim s \<and>
   (Trim s = [] \<or> \<not> c_isspace (hd (Trim s)) \<and> \<not> c_isspace (last (Trim s)))"
  using Trim_idem Trim_ends by blast

end
