(* ===== verification/World.thy ===== *)
theory World
  imports NameMap CStrings
begin

text \<open>
  The state the interpreter works on and its sequencing. The state holds the input buffers
  (\<^verbatim>\<open>qStrReadBuf\<close>), the output streams (\<^verbatim>\<open>qStrBuf\<close> and \<^verbatim>\<open>qStrNull\<close>), the contexts (\<^verbatim>\<open>qCtx\<close>), the heap of
  mapped objects (\<^verbatim>\<open>qObj *\<close>) and the C locals whose address is mapped into a context; a
  pointer is an index. Input buffers, output streams and contexts live on the C++ stack:
  they are appended when they are constructed and dropped at the end of their scope, also
  when an exception passes. An object that was freed, a local that left its scope and a failed
  assertion make the result \<^verbatim>\<open>Crash\<close>. A computation returns its result with the state it
  leaves, exceptions included, since output written before an exception stays written.
\<close>

section \<open>Results\<close>

record exn =
  ex_id :: int
  ex_msg :: bytes
  ex_line :: int

text \<open>\<^verbatim>\<open>Raise\<close> is a thrown \<^verbatim>\<open>qCtxEx\<close>, \<^verbatim>\<open>Aborted\<close> a \<^verbatim>\<open>qCtxExAbort\<close>; \<^verbatim>\<open>NoFuel\<close> says that the bound on the
  nesting was reached before the code returned.\<close>

datatype 'a res = Ok 'a | Raise exn | Aborted | Crash | NoFuel

fun failed :: "'a res \<Rightarrow> 'b res" where
  "failed (Raise e) = Raise e"
| "failed Aborted = Aborted"
| "failed NoFuel = NoFuel"
| "failed _ = Crash"

section \<open>Argument arrays\<close>

record qargs =
  qa_vals :: "bytes list"
  qa_opts :: "int list"
  qa_n :: int

definition int8 :: "int \<Rightarrow> int" where
  "int8 i = (i + 128) mod 256 - 128"

definition no_args :: qargs where
  "no_args = \<lparr>qa_vals = [], qa_opts = [], qa_n = 0\<rparr>"

definition Count :: "qargs \<Rightarrow> nat" where
  "Count a = length (qa_vals a)"

definition GetAt :: "qargs \<Rightarrow> nat \<Rightarrow> bytes" where
  "GetAt a i = (if i < Count a then qa_vals a ! i else [])"

definition SetAt :: "qargs \<Rightarrow> nat \<Rightarrow> bytes \<Rightarrow> qargs" where
  "SetAt a i s =
    (if i < Count a then a\<lparr>qa_vals := (qa_vals a)[i := s]\<rparr>
     else a\<lparr>qa_vals := qa_vals a @ replicate (i - Count a) [] @ [s]\<rparr>)"

definition Add :: "qargs \<Rightarrow> bytes \<Rightarrow> qargs" where
  "Add a s = a\<lparr>qa_vals := qa_vals a @ [s]\<rparr>"

text \<open>The number of options is kept in a \<^verbatim>\<open>char\<close>: it turns negative when the 113th argument
  is marked, and marking the next one clears memory before the buffer.\<close>

definition SetQuot :: "qargs \<Rightarrow> nat \<Rightarrow> int \<Rightarrow> qargs option" where
  "SetQuot a n v =
    (if int n \<ge> qa_n a then
       (if qa_n a < 0 then None
        else Some (a\<lparr>qa_opts := (take (nat (qa_n a)) (qa_opts a) @ replicate (n + 16 - nat (qa_n a)) 0)[n := v],
                     qa_n := int8 (int n + 16)\<rparr>))
     else Some (a\<lparr>qa_opts := (qa_opts a)[n := v]\<rparr>))"

definition GetQuot :: "qargs \<Rightarrow> nat \<Rightarrow> int" where
  "GetQuot a i = (let n = int8 (int i) in if 0 \<le> n \<and> n < qa_n a then qa_opts a ! nat n else 0)"

section \<open>Streams\<close>

text \<open>The characters already read, last first, and those still to be read.\<close>

record rbuf =
  rb_past :: bytes
  rb_rest :: bytes

datatype obuf = OBuf bytes | ONull

section \<open>Objects and contexts\<close>

type_synonym addr = nat
type_synonym ctx = nat
type_synonym istream = nat
type_synonym ostream = nat

text \<open>The built-in functions of \<^verbatim>\<open>core.cpp\<close>; \<^verbatim>\<open>FLib\<close> is a function of another module that reads
  its arguments and writes a string or throws.\<close>

datatype func =
    FNil | FNilOut | FNull | FFor | FWhile | FDo | FBreak | FIf | FOr | FAnd | FNot
  | FSet | FLet | FGSet | FDefine | FGDefine | FDefined | FInvoke | FExpand | FSafeExpand
  | FCompile | FErrorHandler | FStrict | FTry | FThrow | FAbort | FSmxQuote | FSafeMode | FSafeUID
  | FLib bytes

datatype qObjDefArg = dNormal | dQuoted | dParsed | dObjRef

text \<open>What a function object keeps as its data: nothing, a local, or an output stream.\<close>

datatype fdata = DNull | DCell nat | DOut ostream

datatype obj =
    ObjStr bytes
  | ObjDbl int
  | ObjIntP nat
  | ObjFunc fdata func "bytes option"
  | ObjDef bytes "(bytes \<times> qObjDefArg) list" bytes int
  | ObjDefArgs addr qargs
  | ObjParsed bytes
  | ObjByRef addr
  | ObjSafe addr ctx

text \<open>\<^verbatim>\<open>c_map\<close> is the content of the \<^verbatim>\<open>CMapStr\<close>: case-folded names, each at most once.\<close>

record qctx =
  c_map :: "(bytes \<times> addr) list"
  c_parent :: "ctx option"
  c_try :: int
  c_level :: int
  c_strict :: bool
  c_safe :: bool
  c_uid :: int
  c_handler :: bytes

record world =
  w_ins :: "rbuf list"
  w_outs :: "obuf list"
  w_ctxs :: "qctx list"
  w_objs :: "obj option list"
  w_cells :: "int option list"
  w_max :: int
  w_session :: "ctx option"
  w_rand :: "nat \<Rightarrow> nat"

section \<open>Sequencing\<close>

type_synonym 'a run = "world \<Rightarrow> 'a res \<times> world"

definition ret :: "'a \<Rightarrow> 'a run" where
  "ret x w = (Ok x, w)"

definition bnd :: "'a run \<Rightarrow> ('a \<Rightarrow> 'b run) \<Rightarrow> 'b run" where
  "bnd m f w = (case m w of (r, w') \<Rightarrow> (case r of Ok x \<Rightarrow> f x w' | _ \<Rightarrow> (failed r, w')))"

definition sq :: "'a run \<Rightarrow> 'b run \<Rightarrow> 'b run" where
  "sq m n = bnd m (\<lambda>_. n)"

definition fail :: "'a res \<Rightarrow> 'a run" where
  "fail r w = (r, w)"

text \<open>The destructors of a scope: \<^verbatim>\<open>fin\<close> runs when \<^verbatim>\<open>m\<close> returns and when an exception leaves it.\<close>

definition always :: "'a run \<Rightarrow> unit run \<Rightarrow> 'a run" where
  "always m fin w =
    (case m w of (r, w') \<Rightarrow>
       (if r = Crash \<or> r = NoFuel then (r, w')
        else case fin w' of (f, w'') \<Rightarrow> ((case f of Ok _ \<Rightarrow> r | _ \<Rightarrow> failed f), w'')))"

definition catching :: "'a run \<Rightarrow> (exn \<Rightarrow> 'a run) \<Rightarrow> 'a run \<Rightarrow> 'a run" where
  "catching m h ha w =
    (case m w of (r, w') \<Rightarrow>
       (case r of Raise e \<Rightarrow> h e w' | Aborted \<Rightarrow> ha w' | _ \<Rightarrow> (r, w')))"

fun each :: "('a \<Rightarrow> unit run) \<Rightarrow> 'a list \<Rightarrow> unit run" where
  "each f [] = ret ()"
| "each f (x # xs) = sq (f x) (each f xs)"

abbreviation gets :: "(world \<Rightarrow> 'a) \<Rightarrow> 'a run" where
  "gets f \<equiv> (\<lambda>w. (Ok (f w), w))"

abbreviation upd :: "(world \<Rightarrow> world) \<Rightarrow> unit run" where
  "upd f \<equiv> (\<lambda>w. (Ok (), f w))"

definition assert_ok :: "bool \<Rightarrow> unit run" where
  "assert_ok b = (if b then ret () else fail Crash)"

section \<open>Operations on streams\<close>

definition GetC :: "istream \<Rightarrow> char run" where
  "GetC i w =
    (let b = w_ins w ! i in
     case rb_rest b of
       [] \<Rightarrow> (Ok EOF, w)
     | c # cs \<Rightarrow> (Ok c, w\<lparr>w_ins := (w_ins w)[i := \<lparr>rb_past = c # rb_past b, rb_rest = cs\<rparr>]\<rparr>))"

definition UngetC :: "istream \<Rightarrow> char \<Rightarrow> bool run" where
  "UngetC i c w =
    (let b = w_ins w ! i in
     case rb_past b of
       [] \<Rightarrow> (Ok False, w)
     | d # ds \<Rightarrow>
         if c = d then (Ok True, w\<lparr>w_ins := (w_ins w)[i := \<lparr>rb_past = ds, rb_rest = d # rb_rest b\<rparr>]\<rparr>)
         else (Ok False, w))"

definition GetS :: "istream \<Rightarrow> bytes run" where
  "GetS i w =
    (let b = w_ins w ! i
     in (Ok (rb_rest b), w\<lparr>w_ins := (w_ins w)[i := \<lparr>rb_past = rev (rb_rest b) @ rb_past b, rb_rest = []\<rparr>]\<rparr>))"

text \<open>\<^verbatim>\<open>GetS(char *b, int n)\<close>: at most \<^verbatim>\<open>n\<close> characters.\<close>

definition GetN :: "istream \<Rightarrow> nat \<Rightarrow> bytes run" where
  "GetN i n w =
    (let b = w_ins w ! i; s = take n (rb_rest b)
     in (Ok s, w\<lparr>w_ins := (w_ins w)[i := \<lparr>rb_past = rev s @ rb_past b, rb_rest = drop n (rb_rest b)\<rparr>]\<rparr>))"

definition GetLineNum :: "istream \<Rightarrow> int run" where
  "GetLineNum i = gets (\<lambda>w. 1 + int (length (filter (\<lambda>c. c = NL) (rb_past (w_ins w ! i)))))"

fun put :: "bytes \<Rightarrow> obuf \<Rightarrow> obuf" where
  "put s (OBuf b) = OBuf (b @ s)"
| "put s ONull = ONull"

definition PutS :: "ostream \<Rightarrow> bytes \<Rightarrow> unit run" where
  "PutS out s = upd (\<lambda>w. w\<lparr>w_outs := (w_outs w)[out := put s (w_outs w ! out)]\<rparr>)"

definition PutC :: "ostream \<Rightarrow> char \<Rightarrow> unit run" where
  "PutC out c = PutS out [c]"

definition PutZ :: "ostream \<Rightarrow> bytes \<Rightarrow> unit run" where
  "PutZ out s = PutS out (cstr s)"

text \<open>\<^verbatim>\<open>PutS(const char *s, int len)\<close>: a negative length, or one past the end of the text, makes \<^verbatim>\<open>memcpy\<close>
  run out of the buffer.\<close>

definition PutSn :: "ostream \<Rightarrow> bytes \<Rightarrow> int \<Rightarrow> unit run" where
  "PutSn out s n w =
    (if w_outs w ! out = ONull then (Ok (), w)
     else if 0 \<le> n \<and> n \<le> int (length s) then PutS out (take (nat n) s) w
     else (Crash, w))"

definition PutN :: "ostream \<Rightarrow> int \<Rightarrow> unit run" where
  "PutN out i = PutS out (itoa i)"

fun content :: "obuf \<Rightarrow> bytes" where
  "content (OBuf b) = b"
| "content ONull = []"

definition Clear :: "ostream \<Rightarrow> unit run" where
  "Clear out = upd (\<lambda>w. w\<lparr>w_outs := (w_outs w)[out := (case w_outs w ! out of OBuf _ \<Rightarrow> OBuf [] | ONull \<Rightarrow> ONull)]\<rparr>)"

text \<open>Scopes of streams: a \<^verbatim>\<open>qStrReadBuf\<close> over a string, an empty \<^verbatim>\<open>qStrBuf\<close> or a \<^verbatim>\<open>qStrNull\<close>.\<close>

definition with_in :: "bytes \<Rightarrow> (istream \<Rightarrow> 'a run) \<Rightarrow> 'a run" where
  "with_in s f =
    bnd (\<lambda>w. (Ok (length (w_ins w)), w\<lparr>w_ins := w_ins w @ [\<lparr>rb_past = [], rb_rest = s\<rparr>]\<rparr>))
      (\<lambda>i. always (f i) (upd (\<lambda>w. w\<lparr>w_ins := take i (w_ins w)\<rparr>)))"

definition with_out :: "obuf \<Rightarrow> (ostream \<Rightarrow> 'a run) \<Rightarrow> 'a run" where
  "with_out b f =
    bnd (\<lambda>w. (Ok (length (w_outs w)), w\<lparr>w_outs := w_outs w @ [b]\<rparr>))
      (\<lambda>i. always (f i) (upd (\<lambda>w. w\<lparr>w_outs := take i (w_outs w)\<rparr>)))"

text \<open>What a computation writes to a fresh \<^verbatim>\<open>qStrBuf\<close>.\<close>

definition capture :: "(ostream \<Rightarrow> unit run) \<Rightarrow> bytes run" where
  "capture f = with_out (OBuf []) (\<lambda>o'. sq (f o') (gets (\<lambda>w. content (w_outs w ! o'))))"

section \<open>Operations on objects\<close>

definition new_obj :: "obj \<Rightarrow> addr run" where
  "new_obj x w = (Ok (length (w_objs w)), w\<lparr>w_objs := w_objs w @ [Some x]\<rparr>)"

definition deref :: "addr \<Rightarrow> obj run" where
  "deref a w = (if a < length (w_objs w) then (case w_objs w ! a of Some x \<Rightarrow> (Ok x, w) | None \<Rightarrow> (Crash, w)) else (Crash, w))"

definition set_obj :: "addr \<Rightarrow> obj option \<Rightarrow> unit run" where
  "set_obj a x = upd (\<lambda>w. w\<lparr>w_objs := (w_objs w)[a := x]\<rparr>)"

text \<open>\<^verbatim>\<open>Free\<close>: a definition (\<^verbatim>\<open>qObjTS\<close>) counts its references, the other objects are deleted.\<close>

definition Free :: "addr \<Rightarrow> unit run" where
  "Free a = bnd (deref a) (\<lambda>x. case x of
      ObjDef body params qmap refs \<Rightarrow>
        if refs > 0 then set_obj a (if refs - 1 = 0 then None else Some (ObjDef body params qmap (refs - 1)))
        else fail Crash
    | _ \<Rightarrow> set_obj a None)"

definition AddRef :: "addr \<Rightarrow> unit run" where
  "AddRef a = bnd (deref a) (\<lambda>x. case x of
      ObjDef body params qmap refs \<Rightarrow> set_obj a (Some (ObjDef body params qmap (refs + 1)))
    | _ \<Rightarrow> ret ())"

text \<open>\<^verbatim>\<open>GetQmap\<close>; an empty \<^verbatim>\<open>CStr\<close> has a null buffer.\<close>

fun qmap_of :: "obj \<Rightarrow> bytes option" where
  "qmap_of (ObjFunc d f q) = q"
| "qmap_of (ObjDef body params qmap refs) = (if qmap = [] then None else Some qmap)"
| "qmap_of _ = None"

text \<open>C locals.\<close>

definition with_cell :: "int \<Rightarrow> (nat \<Rightarrow> 'a run) \<Rightarrow> 'a run" where
  "with_cell v f =
    bnd (\<lambda>w. (Ok (length (w_cells w)), w\<lparr>w_cells := w_cells w @ [Some v]\<rparr>))
      (\<lambda>i. always (f i) (upd (\<lambda>w. w\<lparr>w_cells := (w_cells w)[i := None]\<rparr>)))"

definition read_cell :: "nat \<Rightarrow> int run" where
  "read_cell i w = (case w_cells w ! i of Some v \<Rightarrow> (Ok v, w) | None \<Rightarrow> (Crash, w))"

definition write_cell :: "nat \<Rightarrow> int \<Rightarrow> unit run" where
  "write_cell i v w = (case w_cells w ! i of Some _ \<Rightarrow> (Ok (), w\<lparr>w_cells := (w_cells w)[i := Some v]\<rparr>) | None \<Rightarrow> (Crash, w))"

text \<open>\<^verbatim>\<open>rand()\<close> takes the next of a given sequence.\<close>

definition rand :: "nat run" where
  "rand w = (Ok (w_rand w 0), w\<lparr>w_rand := (\<lambda>i. w_rand w (Suc i))\<rparr>)"

section \<open>Lemmas on sequencing\<close>

lemma bnd_Ok [run_simps]: "m w = (Ok x, w') \<Longrightarrow> bnd m f w = f x w'"
  by (simp add: bnd_def)

lemma bnd_ret [simp]: "bnd (ret x) f = f x"
  by (auto simp: bnd_def ret_def)

lemma bnd_gets [simp]: "bnd (gets g) f w = f (g w) w"
  by (simp add: bnd_def)

lemma bnd_upd [simp]: "bnd (upd g) f w = f () (g w)"
  by (simp add: bnd_def)

lemma failed_idem [simp]: "failed (failed r) = failed r"
  by (cases r) auto

lemma failed_not_Ok [simp]: "failed r \<noteq> Ok x"
  by (cases r) auto

lemma bnd_assoc: "bnd (bnd m f) g = bnd m (\<lambda>x. bnd (f x) g)"
  by (rule ext) (auto simp: bnd_def split: prod.splits res.splits)

lemma bnd_failed: "m w = (r, w') \<Longrightarrow> (\<And>x. r \<noteq> Ok x) \<Longrightarrow> bnd m f w = (failed r, w')"
  by (cases r) (auto simp: bnd_def)

lemma sq_Ok [run_simps]: "m w = (Ok x, w') \<Longrightarrow> sq m n w = n w'"
  by (simp add: sq_def bnd_def)

lemma always_Ok [run_simps]: "m w = (Ok x, w') \<Longrightarrow> fin w' = (Ok u, w'') \<Longrightarrow> always m fin w = (Ok x, w'')"
  by (simp add: always_def)

end
