(* ===== verification/Scope.thy ===== *)
theory Scope
  imports World "HOL-Library.AList"
begin

text \<open>
  Contexts (\<^verbatim>\<open>libsmx/qctx.h\<close>): the tree of scopes in which names are mapped to objects, with the
  lookups that walk to the parents, the mapping and deletion of objects, the nesting level,
  and \<^verbatim>\<open>Throw\<close>. A context keeps its names in an association list, which satisfies the interface
  \<^verbatim>\<open>name_map\<close> that the hash table behind \<^verbatim>\<open>CMapStr\<close> satisfies too. Contexts are built with an existing
  parent and dropped in the order of the stack, so a parent has a smaller index than its
  children and a walk from \<^verbatim>\<open>c\<close> visits at most \<^verbatim>\<open>c + 1\<close> contexts; that is the fuel of the walks.
\<close>

section \<open>The names of one context\<close>

definition al_find :: "(bytes \<times> 'd) list \<Rightarrow> bytes \<Rightarrow> 'd option" where
  "al_find m k = map_of m (fold_case k)"

definition al_set :: "(bytes \<times> 'd) list \<Rightarrow> bytes \<Rightarrow> 'd \<Rightarrow> ('d option \<times> (bytes \<times> 'd) list) option" where
  "al_set m k d = Some (al_find m k, AList.update (fold_case k) d m)"

definition al_del :: "(bytes \<times> 'd) list \<Rightarrow> bytes \<Rightarrow> ('d option \<times> (bytes \<times> 'd) list) option" where
  "al_del m k = Some (al_find m k, AList.delete (fold_case k) m)"

definition al_ok :: "(bytes \<times> 'd) list \<Rightarrow> bool" where
  "al_ok m = distinct (map fst m)"

lemma fold_case_idem [simp]: "fold_case (fold_case k) = fold_case k"
proof -
  have "NUL \<notin> c_tolower ` set (cstr k)" using cstr_no_NUL [of k] by (metis c_tolower_NUL_iff imageE)
  then show ?thesis by (simp add: fold_case_def cstr_id comp_def)
qed

lemma length_update:
  "length (AList.update k v m) = (if map_of m k = None then Suc (length m) else length m)"
  by (induction m) auto

lemma delete_absent: "map_of m k = None \<Longrightarrow> AList.delete k m = m"
  by (induction m) (auto split: if_splits)

lemma length_delete:
  "distinct (map fst m) \<Longrightarrow> length (AList.delete k m) = (if map_of m k = None then length m else length m - 1)"
proof (induction m)
  case (Cons p m)
  obtain x y where p: "p = (x, y)" by (cases p)
  show ?case
  proof (cases "x = k")
    case True
    with Cons.prems p have "map_of m k = None" by (simp add: map_of_eq_None_iff)
    with True p show ?thesis by (simp add: delete_absent)
  next
    case False
    have "0 < length m" if "map_of m k \<noteq> None" using that by auto
    with False p Cons show ?thesis by auto
  qed
qed simp

interpretation scope: name_map "Some []" al_find al_set al_del "\<lambda>m. Some []" length cap al_ok
  by unfold_locales
     (auto simp: al_find_def al_set_def al_del_def al_ok_def distinct_update distinct_delete
        length_update length_delete update_conv' delete_conv')

section \<open>Construction and destruction\<close>

definition int16 :: "int \<Rightarrow> int" where
  "int16 i = (i + 32768) mod 65536 - 32768"

text \<open>\<^verbatim>\<open>Construct\<close> and \<^verbatim>\<open>SetParent\<close>: what a new context takes from its parent.\<close>

definition Construct :: "world \<Rightarrow> ctx option \<Rightarrow> qctx" where
  "Construct w parent =
    (case parent of
       None \<Rightarrow> \<lparr>c_map = [], c_parent = None, c_try = 0, c_level = 0, c_strict = False,
                 c_safe = False, c_uid = - 1, c_handler = []\<rparr>
     | Some p \<Rightarrow> (let q = w_ctxs w ! p in
         \<lparr>c_map = [], c_parent = Some p, c_try = c_try q, c_level = int16 (c_level q + 1),
          c_strict = c_strict q, c_safe = c_safe q, c_uid = c_uid q, c_handler = c_handler q\<rparr>))"

definition put_ctx :: "ctx \<Rightarrow> qctx \<Rightarrow> world \<Rightarrow> world" where
  "put_ctx c x w = w\<lparr>w_ctxs := (w_ctxs w)[c := x]\<rparr>"

text \<open>\<^verbatim>\<open>qCtx::Clear\<close>, run by the destructor.\<close>

definition ctx_Clear :: "ctx \<Rightarrow> unit run" where
  "ctx_Clear c =
    bnd (gets (\<lambda>w. map snd (c_map (w_ctxs w ! c))))
      (\<lambda>as. sq (each Free as) (upd (\<lambda>w. put_ctx c ((w_ctxs w ! c)\<lparr>c_map := []\<rparr>) w)))"

text \<open>A \<^verbatim>\<open>qCtxTmp\<close> with a parent, for the length of a scope; and one with an environment only, which
  becomes the session context when there is none yet.\<close>

definition with_ctx :: "ctx \<Rightarrow> (ctx \<Rightarrow> 'a run) \<Rightarrow> 'a run" where
  "with_ctx parent f =
    bnd (\<lambda>w. (Ok (length (w_ctxs w)), w\<lparr>w_ctxs := w_ctxs w @ [Construct w (Some parent)]\<rparr>))
      (\<lambda>c. always (f c) (sq (ctx_Clear c) (upd (\<lambda>w. w\<lparr>w_ctxs := take c (w_ctxs w)\<rparr>))))"

definition with_env_ctx :: "(ctx \<Rightarrow> 'a run) \<Rightarrow> 'a run" where
  "with_env_ctx f =
    bnd (\<lambda>w. (Ok (length (w_ctxs w)), w\<lparr>w_ctxs := w_ctxs w @ [Construct w None],
           w_session := (case w_session w of None \<Rightarrow> Some (length (w_ctxs w)) | Some s \<Rightarrow> Some s)\<rparr>))
      (\<lambda>c. always (f c) (sq (ctx_Clear c) (upd (\<lambda>w. w\<lparr>w_ctxs := take c (w_ctxs w)\<rparr>))))"

section \<open>Looking up\<close>

definition FindL :: "world \<Rightarrow> ctx \<Rightarrow> bytes \<Rightarrow> addr option" where
  "FindL w c name = al_find (c_map (w_ctxs w ! c)) name"

text \<open>The loop of \<^verbatim>\<open>FindC\<close>: walks up until \<^verbatim>\<open>pop\<close> contexts that map the name were seen.\<close>

fun pop_loop :: "nat \<Rightarrow> world \<Rightarrow> ctx option \<Rightarrow> nat \<Rightarrow> bytes \<Rightarrow> (addr \<times> ctx) option \<Rightarrow> (addr \<times> ctx) option" where
  "pop_loop (Suc fuel) w (Some c) (Suc pop) p found =
     (case FindL w c p of
        Some a \<Rightarrow> pop_loop fuel w (c_parent (w_ctxs w ! c)) pop p (Some (a, c))
      | None \<Rightarrow> pop_loop fuel w (c_parent (w_ctxs w ! c)) (Suc pop) p found)"
| "pop_loop _ w _ _ p found = found"

definition FindC :: "world \<Rightarrow> ctx \<Rightarrow> bytes \<Rightarrow> ctx option \<Rightarrow> (addr \<times> ctx) option" where
  "FindC w c name lim =
    (let p = cstr name; safe = c_safe (w_ctxs w ! c); colons = length (takeWhile (\<lambda>x. x = CHR '':'') p) in
     if take 1 p = ''<'' \<and> safe then None
     else if take 1 p = '':'' \<and> \<not> safe then
       (if Some c = lim then None else pop_loop (Suc c) w (Some c) (Suc colons) (drop colons p) None)
     else None)"

fun Find_from :: "nat \<Rightarrow> world \<Rightarrow> ctx \<Rightarrow> bytes \<Rightarrow> ctx option \<Rightarrow> (addr \<times> ctx) option" where
  "Find_from 0 w c name lim = None"
| "Find_from (Suc fuel) w c name lim =
     (case FindC w c name lim of
        Some r \<Rightarrow> Some r
      | None \<Rightarrow>
          (case FindL w c name of
             Some a \<Rightarrow> Some (a, c)
           | None \<Rightarrow>
               (case c_parent (w_ctxs w ! c) of
                  Some q \<Rightarrow> if Some c = lim then None else Find_from fuel w q name lim
                | None \<Rightarrow> None)))"

definition Find_where :: "world \<Rightarrow> ctx \<Rightarrow> bytes \<Rightarrow> ctx option \<Rightarrow> (addr \<times> ctx) option" where
  "Find_where w c name lim = Find_from (Suc c) w c name lim"

definition Find :: "ctx \<Rightarrow> bytes \<Rightarrow> addr option run" where
  "Find c name = gets (\<lambda>w. map_option fst (Find_where w c name None))"

section \<open>Mapping and deleting\<close>

definition MapObj :: "ctx \<Rightarrow> addr \<Rightarrow> bytes \<Rightarrow> unit run" where
  "MapObj c a name =
    sq (assert_ok (name \<noteq> []))
      (bnd (gets (\<lambda>w. al_set (c_map (w_ctxs w ! c)) name a))
        (\<lambda>r. case r of
           None \<Rightarrow> fail Crash
         | Some (old, m) \<Rightarrow>
             sq (upd (\<lambda>w. put_ctx c ((w_ctxs w ! c)\<lparr>c_map := m\<rparr>) w))
               (case old of None \<Rightarrow> ret () | Some b \<Rightarrow> Free b)))"

definition MapNew :: "ctx \<Rightarrow> obj \<Rightarrow> bytes \<Rightarrow> unit run" where
  "MapNew c x name = bnd (new_obj x) (\<lambda>a. MapObj c a name)"

definition DelObj :: "ctx \<Rightarrow> bytes \<Rightarrow> bool run" where
  "DelObj c name =
    bnd (gets (\<lambda>w. al_del (c_map (w_ctxs w ! c)) name))
      (\<lambda>r. case r of
         Some (Some a, m) \<Rightarrow>
           sq (upd (\<lambda>w. put_ctx c ((w_ctxs w ! c)\<lparr>c_map := m\<rparr>) w)) (sq (Free a) (ret True))
       | _ \<Rightarrow> ret False)"

fun DelObjTop_from :: "nat \<Rightarrow> ctx \<Rightarrow> bytes \<Rightarrow> ctx option \<Rightarrow> ctx run" where
  "DelObjTop_from 0 c name lim = ret c"
| "DelObjTop_from (Suc fuel) c name lim =
     bnd (gets (\<lambda>w. c_parent (w_ctxs w ! c)))
       (\<lambda>q. case q of
          None \<Rightarrow> ret c
        | Some p \<Rightarrow> if Some c = lim then ret c
                    else sq (DelObj c name) (DelObjTop_from fuel p name lim))"

definition DelObjTop :: "ctx \<Rightarrow> bytes \<Rightarrow> ctx option \<Rightarrow> ctx run" where
  "DelObjTop c name lim = DelObjTop_from (Suc c) c name lim"

definition MapObjTop :: "ctx \<Rightarrow> addr \<Rightarrow> bytes \<Rightarrow> ctx option \<Rightarrow> unit run" where
  "MapObjTop c a name lim = bnd (DelObjTop c name lim) (\<lambda>q. MapObj q a name)"

fun DelObjLet_from :: "nat \<Rightarrow> ctx \<Rightarrow> bytes \<Rightarrow> ctx option \<Rightarrow> ctx option run" where
  "DelObjLet_from 0 c name lim = ret None"
| "DelObjLet_from (Suc fuel) c name lim =
     bnd (DelObj c name)
       (\<lambda>b. if b then ret (Some c)
            else if lim = Some c then ret None
            else bnd (gets (\<lambda>w. c_parent (w_ctxs w ! c)))
              (\<lambda>q. case q of None \<Rightarrow> ret None | Some p \<Rightarrow> DelObjLet_from fuel p name lim))"

definition MapObjLet :: "ctx \<Rightarrow> addr \<Rightarrow> bytes \<Rightarrow> unit run" where
  "MapObjLet c a name =
    bnd (gets w_session) (\<lambda>lim. bnd (DelObjLet_from (Suc c) c name lim)
      (\<lambda>q. case q of Some d \<Rightarrow> MapObj d a name | None \<Rightarrow> MapObj c a name))"

section \<open>Errors and modes\<close>

definition Throw :: "ctx \<Rightarrow> ostream \<Rightarrow> exn \<Rightarrow> unit run" where
  "Throw c out e =
    bnd (gets (\<lambda>w. c_try (w_ctxs w ! c)))
      (\<lambda>t. if t \<noteq> 0 then fail (Raise e)
           else sq (PutC out (CHR ''['')) (sq (PutZ out (ex_msg e)) (PutC out (CHR '']''))))"

definition ThrowId :: "ctx \<Rightarrow> ostream \<Rightarrow> int \<Rightarrow> bytes \<Rightarrow> unit run" where
  "ThrowId c out i msg = Throw c out \<lparr>ex_id = i, ex_msg = cstr msg, ex_line = 0\<rparr>"

text \<open>\<^verbatim>\<open>exvsprintf\<close> prints into a buffer 1024 characters longer than the format.\<close>

definition ThrowF :: "ctx \<Rightarrow> ostream \<Rightarrow> int \<Rightarrow> bytes \<Rightarrow> bytes \<Rightarrow> unit run" where
  "ThrowF c out i fmt msg =
    Throw c out \<lparr>ex_id = i, ex_msg = take (length fmt + 1023) msg, ex_line = 0\<rparr>"

definition AddTry :: "ctx \<Rightarrow> unit run" where
  "AddTry c =
    sq (upd (\<lambda>w. put_ctx c ((w_ctxs w ! c)\<lparr>c_try := int16 (c_try (w_ctxs w ! c) + 1)\<rparr>) w))
      (bnd (gets (\<lambda>w. c_try (w_ctxs w ! c))) (\<lambda>t. assert_ok (t \<ge> 1)))"

definition RemTry :: "ctx \<Rightarrow> unit run" where
  "RemTry c =
    sq (upd (\<lambda>w. put_ctx c ((w_ctxs w ! c)\<lparr>c_try := int16 (c_try (w_ctxs w ! c) - 1)\<rparr>) w))
      (bnd (gets (\<lambda>w. c_try (w_ctxs w ! c))) (\<lambda>t. assert_ok (t \<ge> 0)))"

definition SetErrorHandler :: "ctx \<Rightarrow> bytes \<Rightarrow> unit run" where
  "SetErrorHandler c str =
    bnd (gets (\<lambda>w. c_handler (w_ctxs w ! c)))
      (\<lambda>h. sq (if h \<noteq> [] then RemTry c else ret ())
         (sq (upd (\<lambda>w. put_ctx c ((w_ctxs w ! c)\<lparr>c_handler := str\<rparr>) w))
           (if str \<noteq> [] then AddTry c else ret ())))"

definition SetStrict :: "ctx \<Rightarrow> bool \<Rightarrow> unit run" where
  "SetStrict c b = upd (\<lambda>w. put_ctx c ((w_ctxs w ! c)\<lparr>c_strict := b\<rparr>) w)"

text \<open>\<^verbatim>\<open>SetSafeMode\<close> in an environment without the HTTP interface.\<close>

definition SetSafeMode :: "ctx \<Rightarrow> bool \<Rightarrow> unit run" where
  "SetSafeMode c b = upd (\<lambda>w. put_ctx c ((w_ctxs w ! c)\<lparr>c_safe := b\<rparr>) w)"

definition SetSafeUID :: "ctx \<Rightarrow> int \<Rightarrow> unit run" where
  "SetSafeUID c u = upd (\<lambda>w. put_ctx c ((w_ctxs w ! c)\<lparr>c_uid := u\<rparr>) w)"

end
