(* ===== verification/Parser.thy ===== *)
theory Parser
  imports Scope
begin

text \<open>
  The macro parser (\<^verbatim>\<open>libsmx/qctx.cpp\<close>): text is copied to the output, \<^verbatim>\<open>%name%\<close> and \<^verbatim>\<open>%name(arguments)\<close>
  are looked up and evaluated, arguments are parsed in the mode the object's quoting map asks
  for. Evaluating an object may parse again; the functions of this theory take that recursion
  as a record \<^verbatim>\<open>interp\<close> of functions, closed in theory \<^verbatim>\<open>Interp\<close>; the record also holds the
  bound on unbounded loops, the padding bytes, the functions of other modules, and the user
  database. A loop that reads one input
  buffer has as its fuel what the buffer still holds, since each of its turns reads a
  character.
\<close>

record interp =
  i_Parse :: "ctx \<Rightarrow> istream \<Rightarrow> ostream \<Rightarrow> unit run"
  i_ParseFunc :: "ctx \<Rightarrow> istream \<Rightarrow> ostream \<Rightarrow> bool run"
  i_Eval :: "addr \<Rightarrow> ctx \<Rightarrow> ostream \<Rightarrow> qargs \<Rightarrow> unit run"
  i_RunCompiled :: "ctx \<Rightarrow> istream \<Rightarrow> ostream \<Rightarrow> unit run"
  i_CompFunc :: "ctx \<Rightarrow> bool \<Rightarrow> ostream \<Rightarrow> istream \<Rightarrow> ostream \<Rightarrow> bool run"
  i_bound :: nat
  i_pad :: bytes
  i_lib :: "bytes \<Rightarrow> qargs \<Rightarrow> int \<times> bytes + bytes"
  i_getpwnam :: "bytes \<Rightarrow> int option"

definition room :: "istream \<Rightarrow> nat run" where
  "room inn = gets (\<lambda>w. length (rb_rest (w_ins w ! inn)) + 2)"

section \<open>Characters of names\<close>

definition isqsymf :: "char \<Rightarrow> bool" where
  "isqsymf c = (sc c > 41 \<and> sc c < 59 \<or> sc c > 63 \<and> sc c < 123)"

definition isqsym :: "char \<Rightarrow> bool" where
  "isqsym c = (sc c > 41 \<and> sc c < 127)"

lemmas [c_char] = isqsymf_def isqsym_def

section \<open>Reading raw arguments\<close>

primrec skip_loop :: "nat \<Rightarrow> istream \<Rightarrow> char run" where
  "skip_loop 0 inn = fail NoFuel"
| "skip_loop (Suc n) inn = bnd (GetC inn) (\<lambda>c. if c_isspace c then skip_loop n inn else ret c)"

definition skip_space :: "istream \<Rightarrow> char run" where
  "skip_space inn = bnd (room inn) (\<lambda>n. skip_loop n inn)"

text \<open>\<^verbatim>\<open>ParseArgsLPar(in, out, quoted = true)\<close>: to the matching parenthesis; the blanks after an
  opening parenthesis are dropped. The result is the text and the last character, \<^verbatim>\<open>EOF\<close> when
  the input ended.\<close>

primrec lpar_loop :: "nat \<Rightarrow> istream \<Rightarrow> bytes \<Rightarrow> nat \<Rightarrow> char \<Rightarrow> (bytes \<times> char) run" where
  "lpar_loop 0 inn out lpc c = fail NoFuel"
| "lpar_loop (Suc n) inn out lpc c =
    (let next = (\<lambda>out lpc. bnd (GetC inn) (\<lambda>d. if d = EOF then ret (out, EOF) else lpar_loop n inn out lpc d)) in
     if c = BSL then bnd (GetC inn) (\<lambda>d. next (out @ [c, d]) lpc)
     else if c = CHR ''('' then bnd (skip_space inn) (\<lambda>d. lpar_loop n inn (out @ [c]) (lpc + 1) d)
     else if c = CHR '')'' then (if lpc = 0 then ret (out @ [c], c) else next (out @ [c]) (lpc - 1))
     else next (out @ [c]) lpc)"

definition ParseArgsLPar :: "istream \<Rightarrow> (bytes \<times> char) run" where
  "ParseArgsLPar inn = bnd (room inn) (\<lambda>n. bnd (skip_space inn) (\<lambda>c. lpar_loop n inn [] 0 c))"

primrec escaped_loop :: "nat \<Rightarrow> istream \<Rightarrow> bytes \<Rightarrow> bool \<Rightarrow> char \<Rightarrow> (bytes \<times> char) run" where
  "escaped_loop 0 inn cur pct eq = fail NoFuel"
| "escaped_loop (Suc n) inn cur pct eq =
    bnd (GetC inn) (\<lambda>c.
      if c = EOF then ret (cur, EOF)
      else if c = BSL then
        bnd (GetC inn) (\<lambda>d. escaped_loop n inn (if d \<noteq> EOF then cur @ [d] else cur) pct eq)
      else if c = CHR ''%'' then escaped_loop n inn (cur @ [c]) (\<not> pct) eq
      else if c = eq then ret (cur, c)
      else if c = CHR ''('' \<and> pct then
        bnd (ParseArgsLPar inn) (\<lambda>(s, d).
          if d = EOF then ret (cur @ [c] @ s, EOF) else escaped_loop n inn (cur @ [c] @ s) False eq)
      else escaped_loop n inn (cur @ [c]) pct eq)"

definition ParseArgEscaped :: "istream \<Rightarrow> char \<Rightarrow> (bytes \<times> char) run" where
  "ParseArgEscaped inn eq = bnd (room inn) (\<lambda>n. escaped_loop n inn [] False eq)"

text \<open>The result of the quoted forms: the argument, and whether another one follows.\<close>

primrec quoted_loop :: "nat \<Rightarrow> istream \<Rightarrow> bool \<Rightarrow> bytes \<Rightarrow> char \<Rightarrow> (bytes \<times> bool) run" where
  "quoted_loop 0 inn trim cur c = fail NoFuel"
| "quoted_loop (Suc n) inn trim cur c =
    (let fin = (\<lambda>s. if trim then RTrim s else s);
         next = (\<lambda>s. bnd (GetC inn) (\<lambda>d. if d = EOF then ret (fin s, False) else quoted_loop n inn trim s d)) in
     if c = BSL then bnd (GetC inn) (\<lambda>d. next (if d \<noteq> EOF then cur @ [d] else cur))
     else if c = CHR '','' then ret (fin cur, True)
     else if c = CHR ''('' then
       bnd (ParseArgsLPar inn) (\<lambda>(s, d).
         if d = EOF then ret (fin (cur @ [c] @ s), False) else next (cur @ [c] @ s))
     else if c = CHR '')'' then ret (fin cur, False)
     else next (cur @ [c]))"

definition ParseArgQuoted :: "istream \<Rightarrow> char \<Rightarrow> (bytes \<times> bool) run" where
  "ParseArgQuoted inn c =
    (if c = DQ \<or> c = CHR ''{'' then
       bnd (ParseArgEscaped inn (if c = DQ then DQ else CHR ''}'')) (\<lambda>(s, e).
         if e = EOF then ret (s, False)
         else bnd (skip_space inn) (\<lambda>d. bnd (room inn) (\<lambda>n. quoted_loop n inn False s d)))
     else bnd (room inn) (\<lambda>n. quoted_loop n inn True [] c))"

section \<open>Reading evaluated arguments\<close>

text \<open>\<^verbatim>\<open>cur.Grow(cur.Length() - numsp)\<close>.\<close>

definition Shorten :: "ostream \<Rightarrow> nat \<Rightarrow> unit run" where
  "Shorten cur n = upd (\<lambda>w. w\<lparr>w_outs := (w_outs w)[cur := (case w_outs w ! cur of
       OBuf b \<Rightarrow> OBuf (take (length b - n) b) | ONull \<Rightarrow> ONull)]\<rparr>)"

text \<open>The loop of \<^verbatim>\<open>ParseArg\<close>: \<^verbatim>\<open>quoted\<close> is NUL or the character that opened the quotes, \<^verbatim>\<open>qcnt\<close> and
  \<^verbatim>\<open>lpc\<close> count nested braces and parentheses, \<^verbatim>\<open>numsp\<close> the blanks at the end.\<close>

primrec arg_loop :: "nat \<Rightarrow> interp \<Rightarrow> ctx \<Rightarrow> istream \<Rightarrow> ostream \<Rightarrow> nat \<Rightarrow> char \<Rightarrow> int \<Rightarrow> nat \<Rightarrow> char \<Rightarrow> bool run" where
  "arg_loop 0 I t inn cur numsp quoted qcnt lpc c = fail NoFuel"
| "arg_loop (Suc n) I t inn cur numsp quoted qcnt lpc c =
    (let next = (\<lambda>numsp quoted qcnt lpc. bnd (GetC inn) (\<lambda>d.
           if d = EOF then ret False else arg_loop n I t inn cur numsp quoted qcnt lpc d)) in
     if c = BSL then
       bnd (GetC inn) (\<lambda>d. sq (if d \<noteq> EOF then PutC cur d else ret ()) (next 0 quoted qcnt lpc))
     else if c = CHR ''%'' then sq (i_ParseFunc I t inn cur) (next 0 quoted qcnt lpc)
     else if quoted \<noteq> NUL then
       (if c = CHR ''{'' \<and> quoted = CHR ''{'' then next numsp quoted (qcnt + 1) lpc
        else if c = DQ \<and> quoted = DQ then next 0 NUL qcnt 0
        else if c = CHR ''}'' \<and> quoted = CHR ''{'' then
          (if qcnt - 1 \<le> 0 then next 0 NUL (qcnt - 1) lpc
           else sq (PutC cur c) (next numsp quoted (qcnt - 1) lpc))
        else sq (PutC cur c) (next numsp quoted qcnt lpc))
     else if lpc > 0 then
       (if c = CHR '')'' then sq (PutC cur c) (next 0 quoted qcnt (lpc - 1))
        else if c = CHR ''('' then sq (PutC cur c) (next 0 quoted qcnt (lpc + 1))
        else if c_isspace c then sq (PutC cur c) (next (numsp + 1) quoted qcnt lpc)
        else sq (PutC cur c) (next 0 quoted qcnt lpc))
     else
       (if c = CHR '','' then sq (if numsp > 0 then Shorten cur numsp else ret ()) (ret True)
        else if c = CHR ''('' then sq (PutC cur c) (next 0 quoted qcnt (lpc + 1))
        else if c = CHR '')'' then sq (if numsp > 0 then Shorten cur numsp else ret ()) (ret False)
        else if c_isspace c then sq (PutC cur c) (next (numsp + 1) quoted qcnt lpc)
        else sq (PutC cur c) (next 0 quoted qcnt lpc)))"

definition ParseArg :: "interp \<Rightarrow> ctx \<Rightarrow> istream \<Rightarrow> ostream \<Rightarrow> char \<Rightarrow> bool run" where
  "ParseArg I t inn cur c =
    (if c = DQ then bnd (GetC inn) (\<lambda>d. bnd (room inn) (\<lambda>n. arg_loop n I t inn cur 0 DQ 0 0 d))
     else if c = CHR ''{'' then bnd (GetC inn) (\<lambda>d. bnd (room inn) (\<lambda>n. arg_loop n I t inn cur 0 (CHR ''{'') 1 0 d))
     else bnd (room inn) (\<lambda>n. arg_loop n I t inn cur 0 NUL 0 0 c))"

text \<open>What \<^verbatim>\<open>ParseArg\<close> leaves in a fresh buffer, and its result.\<close>

definition arg_text :: "interp \<Rightarrow> ctx \<Rightarrow> istream \<Rightarrow> char \<Rightarrow> (bytes \<times> bool) run" where
  "arg_text I t inn c =
    with_out (OBuf []) (\<lambda>cur. bnd (ParseArg I t inn cur c) (\<lambda>more.
      gets (\<lambda>w. (content (w_outs w ! cur), more))))"

definition add_arg :: "qargs \<Rightarrow> bytes \<Rightarrow> bool \<Rightarrow> qargs run" where
  "add_arg ary s quot =
    (case SetQuot (Add ary s) (Count ary) (if quot then 1 else 0) of
       None \<Rightarrow> fail Crash | Some ary' \<Rightarrow> ret ary')"

primrec args_loop :: "nat \<Rightarrow> interp \<Rightarrow> ctx \<Rightarrow> istream \<Rightarrow> qargs \<Rightarrow> qargs run" where
  "args_loop 0 I t inn ary = fail NoFuel"
| "args_loop (Suc n) I t inn ary =
    bnd (skip_space inn) (\<lambda>c0.
    bnd (if c0 = SQ then GetC inn else ret c0) (\<lambda>c.
    bnd (if c0 = SQ then ParseArgQuoted inn c else arg_text I t inn c) (\<lambda>(cur, more).
    bnd (add_arg ary cur (c0 = SQ)) (\<lambda>ary'.
      if more \<and> c \<noteq> EOF then args_loop n I t inn ary' else ret ary'))))"

definition ParseArgs :: "interp \<Rightarrow> ctx \<Rightarrow> istream \<Rightarrow> qargs run" where
  "ParseArgs I t inn = bnd (room inn) (\<lambda>n. args_loop n I t inn no_args)"

primrec qmap_loop :: "nat \<Rightarrow> interp \<Rightarrow> ctx \<Rightarrow> istream \<Rightarrow> char \<Rightarrow> bytes \<Rightarrow> qargs \<Rightarrow> qargs run" where
  "qmap_loop 0 I t inn qmode qmap ary = fail NoFuel"
| "qmap_loop (Suc n) I t inn qmode qmap ary =
    bnd (skip_space inn) (\<lambda>c0.
    bnd (if c0 = SQ then GetC inn else ret c0) (\<lambda>c.
    bnd (if qmode = CHR ''1'' \<or> c0 = SQ then ParseArgQuoted inn c else arg_text I t inn c) (\<lambda>(cur, more).
    bnd (add_arg ary cur (c0 = SQ)) (\<lambda>ary'.
      (let (qmode', qmap') =
         (case qmap of
            [] \<Rightarrow> (CHR ''0'', [])
          | q # qs \<Rightarrow> if q = CHR ''1'' \<or> q = CHR ''0'' then (q, qs) else (qmode, qmap))
       in if more \<and> c \<noteq> EOF then qmap_loop n I t inn qmode' qmap' ary' else ret ary')))))"

definition ParseArgsQmap :: "interp \<Rightarrow> ctx \<Rightarrow> istream \<Rightarrow> bytes \<Rightarrow> qargs run" where
  "ParseArgsQmap I t inn qmap =
    (let qmode = (if take 1 qmap = ''A'' \<or> take 1 qmap = ''1'' then CHR ''1'' else CHR ''0'')
     in bnd (room inn) (\<lambda>n. qmap_loop n I t inn qmode (if take 1 qmap = ''A'' then qmap else tl qmap) no_args))"

section \<open>Macros\<close>

text \<open>\<^verbatim>\<open>GetQmap\<close>; \<^verbatim>\<open>qObjSafe\<close> asks the object it wraps, which is older.\<close>

primrec GetQmap_from :: "nat \<Rightarrow> addr \<Rightarrow> bytes option run" where
  "GetQmap_from 0 a = fail NoFuel"
| "GetQmap_from (Suc n) a =
     bnd (deref a) (\<lambda>x. case x of ObjSafe b c \<Rightarrow> GetQmap_from n b | _ \<Rightarrow> ret (qmap_of x))"

definition GetQmap :: "addr \<Rightarrow> bytes option run" where
  "GetQmap a = GetQmap_from (Suc a) a"

definition call_obj :: "interp \<Rightarrow> ctx \<Rightarrow> istream \<Rightarrow> ostream \<Rightarrow> addr \<Rightarrow> unit run" where
  "call_obj I t inn out a =
    bnd (GetQmap a) (\<lambda>q.
    bnd (case q of Some qmap \<Rightarrow> ParseArgsQmap I t inn qmap | None \<Rightarrow> ParseArgs I t inn) (\<lambda>ary.
    bnd (gets (\<lambda>w. c_try (w_ctxs w ! t))) (\<lambda>tr.
      if tr \<noteq> 0 then i_Eval I a t out ary
      else catching (i_Eval I a t out ary) (\<lambda>e. Throw t out e) (fail Aborted))))"

definition not_found :: "ctx \<Rightarrow> ostream \<Rightarrow> bytes \<Rightarrow> unit run" where
  "not_found t out name =
    ThrowF t out 98 ''Function '%s' was not found.'' (''Function '' @ [SQ] @ cstr name @ [SQ] @ '' was not found.'')"

text \<open>The loop over the characters of a name: \<^verbatim>\<open>Inl\<close> is a \<^verbatim>\<open>return\<close> from \<^verbatim>\<open>ParseFunc\<close>, \<^verbatim>\<open>Inr\<close> the end of
  the loop with the name and the character that ended it.\<close>

primrec name_loop :: "nat \<Rightarrow> interp \<Rightarrow> ctx \<Rightarrow> istream \<Rightarrow> ostream \<Rightarrow> bytes \<Rightarrow> (bool + bytes \<times> char) run" where
  "name_loop 0 I t inn out name = fail NoFuel"
| "name_loop (Suc n) I t inn out name =
    bnd (GetC inn) (\<lambda>c.
      if c = EOF then ret (Inr (name, c))
      else if c = CHR ''('' then
        bnd (Find t name) (\<lambda>r. case r of
          Some a \<Rightarrow> sq (call_obj I t inn out a) (ret (Inl True))
        | None \<Rightarrow> bnd (gets (\<lambda>w. c_strict (w_ctxs w ! t))) (\<lambda>strict.
            if strict then sq (not_found t out name) (name_loop n I t inn out name)
            else sq (PutC out (CHR ''%'')) (sq (PutS out name) (sq (PutC out (CHR ''(''))
                   (bnd (ParseArgsLPar inn) (\<lambda>(s, d). sq (PutS out s) (ret (Inl False))))))))
      else if c = CHR ''%'' then
        (if name = [] then ret (Inr (name, c))
         else bnd (Find t name) (\<lambda>r. case r of
           Some a \<Rightarrow> sq (i_Eval I a t out no_args) (ret (Inl True))
         | None \<Rightarrow> bnd (gets (\<lambda>w. c_strict (w_ctxs w ! t))) (\<lambda>strict.
             sq (if strict then not_found t out name else ret ()) (ret (Inr (name, c))))))
      else if isqsym c then name_loop n I t inn out (name @ [c])
      else ret (Inr (name, c)))"

definition bad_syntax :: "ctx \<Rightarrow> ostream \<Rightarrow> char \<Rightarrow> unit run" where
  "bad_syntax t out c =
    ThrowF t out 98 ''Invalid syntax '%%%c'.'' (''Invalid syntax '' @ [SQ] @ ''%'' @ [c] @ [SQ] @ ''.'')"

definition ParseFunc :: "interp \<Rightarrow> ctx \<Rightarrow> istream \<Rightarrow> ostream \<Rightarrow> bool run" where
  "ParseFunc I t inn out =
    bnd (GetC inn) (\<lambda>c.
      if isqsymf c then
        bnd (room inn) (\<lambda>n. bnd (name_loop n I t inn out [c]) (\<lambda>r. case r of
          Inl b \<Rightarrow> ret b
        | Inr (name, d) \<Rightarrow>
            sq (if name \<noteq> [] then sq (PutC out (CHR ''%'')) (PutS out name)
                else if d = CHR ''('' then PutC out (CHR ''%'') else ret ())
              (sq (if d \<noteq> EOF then PutC out d else ret ()) (ret False))))
      else
        sq (PutC out (CHR ''%''))
          (sq (if c \<noteq> EOF \<and> c \<noteq> CHR ''%'' then
                 (if c = CHR '')'' \<or> c = CHR '','' \<or> c = CHR ''('' \<or> c = DQ then
                    bnd (UngetC inn c) (\<lambda>u. bnd (gets (\<lambda>w. c_strict (w_ctxs w ! t))) (\<lambda>strict.
                      if \<not> u \<or> strict then bad_syntax t out c else ret ()))
                  else PutC out c)
               else ret ())
            (ret False)))"

section \<open>Documents\<close>

definition ParseC :: "interp \<Rightarrow> ctx \<Rightarrow> istream \<Rightarrow> ostream \<Rightarrow> char \<Rightarrow> unit run" where
  "ParseC I t inn out c = (if c = CHR ''%'' then sq (i_ParseFunc I t inn out) (ret ()) else PutC out c)"

primrec parse_loop :: "nat \<Rightarrow> interp \<Rightarrow> ctx \<Rightarrow> istream \<Rightarrow> ostream \<Rightarrow> unit run" where
  "parse_loop 0 I t inn out = fail NoFuel"
| "parse_loop (Suc n) I t inn out =
    bnd (GetC inn) (\<lambda>c. if c = EOF then ret () else sq (ParseC I t inn out c) (parse_loop n I t inn out))"

definition too_deep :: "ctx \<Rightarrow> world \<Rightarrow> bool" where
  "too_deep t w = (c_level (w_ctxs w ! t) > w_max w)"

definition Parse :: "interp \<Rightarrow> ctx \<Rightarrow> istream \<Rightarrow> ostream \<Rightarrow> unit run" where
  "Parse I t inn out =
    bnd (gets (too_deep t)) (\<lambda>deep.
      if deep then
        bnd (GetS inn) (\<lambda>s. sq (PutS out s) (ThrowId t out 99 ''Maximum nesting level reached.''))
      else bnd (room inn) (\<lambda>n. parse_loop n I t inn out))"

primrec trim_loop :: "nat \<Rightarrow> istream \<Rightarrow> char run" where
  "trim_loop 0 inn = fail NoFuel"
| "trim_loop (Suc n) inn =
    bnd (GetC inn) (\<lambda>c.
      if c = EOF \<or> \<not> c_isspace c then ret c
      else if c = NL then GetC inn
      else trim_loop n inn)"

definition ParseTrim :: "interp \<Rightarrow> ctx \<Rightarrow> istream \<Rightarrow> ostream \<Rightarrow> unit run" where
  "ParseTrim I t inn out =
    bnd (room inn) (\<lambda>n.
    bnd (trim_loop n inn) (\<lambda>c.
      sq (if c \<noteq> EOF then ParseC I t inn out c else ret ())
         (bnd (room inn) (\<lambda>m. parse_loop m I t inn out))))"

text \<open>\<^verbatim>\<open>Parse(const CStr &in, qStr *out)\<close> and \<^verbatim>\<open>ParseStr\<close>.\<close>

definition ParseIn :: "interp \<Rightarrow> ctx \<Rightarrow> bytes \<Rightarrow> ostream \<Rightarrow> unit run" where
  "ParseIn I t s out = with_in s (\<lambda>i. i_Parse I t i out)"

definition ParseStr :: "interp \<Rightarrow> ctx \<Rightarrow> bytes \<Rightarrow> bytes run" where
  "ParseStr I t s = capture (\<lambda>o'. ParseIn I t s o')"

text \<open>The three variables that a handler of an exception sees.\<close>

definition map_exn :: "ctx \<Rightarrow> exn \<Rightarrow> unit run" where
  "map_exn sub e =
    sq (MapNew sub (ObjDbl (ex_line e)) ''exception-line'')
      (sq (MapNew sub (ObjDbl (ex_id e)) ''exception-num'')
        (MapNew sub (ObjStr (ex_msg e)) ''exception-msg''))"

definition put_error :: "bytes \<Rightarrow> ostream \<Rightarrow> exn \<Rightarrow> unit run" where
  "put_error what out e =
    sq (PutS out (what @ '' Error# '')) (sq (PutN out (ex_id e))
      (sq (PutS out '': '') (sq (PutS out (ex_msg e)) (PutC out (CHR ''.'')))))"

text \<open>An error in the handler is reported and then the error it was to handle; its line number
  is only set by an enclosing \<^verbatim>\<open>ParseTry\<close>, so it is 0 and not printed.\<close>

definition ParseTry :: "interp \<Rightarrow> ctx \<Rightarrow> istream \<Rightarrow> ostream \<Rightarrow> unit run" where
  "ParseTry I t inn out =
    catching (ParseTrim I t inn out)
      (\<lambda>e0. bnd (if ex_line e0 = 0 then GetLineNum inn else ret (ex_line e0)) (\<lambda>ln.
        let e = e0\<lparr>ex_line := ln\<rparr> in
        bnd (gets (\<lambda>w. c_handler (w_ctxs w ! t))) (\<lambda>h.
        bnd (if h \<noteq> [] then
               catching (sq (with_ctx t (\<lambda>sub. sq (map_exn sub e) (ParseIn I sub h out))) (ret True))
                 (\<lambda>e2. sq (put_error ''Handler'' out e2) (ret False)) (fail Aborted)
             else ret False) (\<lambda>handled.
          if handled then ret () else put_error ''Unhandled'' out e))))
      (Clear out)"

text \<open>\<^verbatim>\<open>ParseMagic\<close>: the magic strings that mark a document to be expanded. After a partial match
  the characters read so far are all that is written.\<close>

definition S_MAGIC1 :: bytes where "S_MAGIC1 = ''%expand%''"
definition S_MAGIC2 :: bytes where "S_MAGIC2 = ''<!--%expand%-->''"
definition CMAGIC_V1 :: bytes where "CMAGIC_V1 = [CHR 0xF2, CHR 0x1A, CHR 0x08, CHR 0xE2]"

fun magic_loop :: "bytes \<Rightarrow> istream \<Rightarrow> bytes \<Rightarrow> (bytes \<times> bool) run" where
  "magic_loop [] inn tmp = ret (tmp, True)"
| "magic_loop (m # ms) inn tmp =
    bnd (GetC inn) (\<lambda>c.
      if c = EOF then ret (tmp, False)
      else if c \<noteq> m then ret (tmp @ [c], False)
      else magic_loop ms inn (tmp @ [c]))"

definition ParseMagic :: "interp \<Rightarrow> ctx \<Rightarrow> istream \<Rightarrow> ostream \<Rightarrow> bool \<Rightarrow> bool run" where
  "ParseMagic I t inn out unhandled =
    bnd (GetC inn) (\<lambda>c.
      let attempt = (\<lambda>magic go. bnd (magic_loop (tl magic) inn [c]) (\<lambda>(tmp, ok).
            if ok then sq go (ret True)
            else sq (if unhandled then PutS out tmp else ret ()) (ret False)))
      in if c = EOF then ret False
         else if c = hd S_MAGIC1 then attempt S_MAGIC1 (ParseTry I t inn out)
         else if c = hd S_MAGIC2 then attempt S_MAGIC2 (ParseTry I t inn out)
         else if c = hd CMAGIC_V1 then attempt CMAGIC_V1 (i_RunCompiled I t inn out)
         else sq (if unhandled then sq (PutC out c) (bnd (GetS inn) (PutS out)) else ret ()) (ret False))"

end
