(* ===== verification/Compile.thy ===== *)
theory Compile
  imports Parser
begin

text \<open>
  The macro compiler and the interpreter of its output (\<^verbatim>\<open>libsmx/qctx-comp.cpp\<close>). Compiled code is a
  sequence of records written as the C structures lie in memory on a little-endian machine:
  \<^verbatim>\<open>C_BASE\<close> is the code, the random byte, two bytes of padding that are never set (\<^verbatim>\<open>i_pad\<close>) and
  the length; \<^verbatim>\<open>C_ARGS\<close> is a 16-bit count; \<^verbatim>\<open>C_ARG\<close> has the kind in its two low bits and the
  length in the others.
\<close>

section \<open>Records\<close>

definition BC_FUNC :: int where "BC_FUNC = 1"
definition BC_OUT :: int where "BC_OUT = 2"
definition ARG_STR :: int where "ARG_STR = 0"
definition ARG_QSTR :: int where "ARG_QSTR = 1"
definition ARG_CMP :: int where "ARG_CMP = 2"

definition byte :: "int \<Rightarrow> char" where
  "byte i = char_of (nat (i mod 256))"

definition le16 :: "int \<Rightarrow> bytes" where
  "le16 i = [byte i, byte (i div 256)]"

definition le32 :: "int \<Rightarrow> bytes" where
  "le32 i = [byte i, byte (i div 2 ^ 8), byte (i div 2 ^ 16), byte (i div 2 ^ 24)]"

fun le_value :: "bytes \<Rightarrow> int" where
  "le_value [] = 0"
| "le_value (c # cs) = int (uc c) + 256 * le_value cs"

definition C_BASE :: "bytes \<Rightarrow> int \<Rightarrow> int \<Rightarrow> int \<Rightarrow> bytes" where
  "C_BASE pad bc rn ln = [byte bc, byte rn] @ pad @ le32 ln"

definition C_ARGS :: "int \<Rightarrow> bytes" where
  "C_ARGS cnt = le16 cnt"

definition C_ARG :: "int \<Rightarrow> int \<Rightarrow> bytes" where
  "C_ARG at ln = le32 (at mod 4 + 4 * ln)"

definition base_bc :: "bytes \<Rightarrow> int" where "base_bc s = sc (s ! 0)"
definition base_rn :: "bytes \<Rightarrow> char" where "base_rn s = s ! 1"
definition base_ln :: "bytes \<Rightarrow> int" where "base_ln s = int32 (le_value (drop 4 s))"
definition args_cnt :: "bytes \<Rightarrow> int" where "args_cnt s = int16 (le_value s)"
definition arg_at :: "bytes \<Rightarrow> int" where "arg_at s = le_value s mod 4"
definition arg_ln :: "bytes \<Rightarrow> nat" where "arg_ln s = nat (le_value s div 4)"

text \<open>The bytes of names and arguments are combined with the random byte.\<close>

definition xor_byte :: "char \<Rightarrow> char \<Rightarrow> char" where
  "xor_byte r c = char_of (uc c XOR uc r)"

definition scramble :: "char \<Rightarrow> bytes \<Rightarrow> bytes" where
  "scramble r s = (if r = NUL then s else map (xor_byte r) s)"

section \<open>Compiling\<close>

definition OutFlush :: "interp \<Rightarrow> ostream \<Rightarrow> ostream \<Rightarrow> unit run" where
  "OutFlush I ob out =
    bnd (gets (\<lambda>w. content (w_outs w ! ob))) (\<lambda>s.
      if s = [] then ret ()
      else sq (PutS out (C_BASE (i_pad I) BC_OUT 0 (int (length s)))) (sq (PutS out s) (Clear ob)))"

definition random_byte :: "bool \<Rightarrow> char run" where
  "random_byte rn = (if rn then bnd rand (\<lambda>r. ret (char_of (r mod 256))) else ret NUL)"

definition OutArg :: "char \<Rightarrow> qargs \<Rightarrow> nat \<Rightarrow> bytes" where
  "OutArg r ary i = C_ARG (GetQuot ary i) (int (length (GetAt ary i))) @ scramble r (GetAt ary i)"

definition OutFunc :: "interp \<Rightarrow> bool \<Rightarrow> ostream \<Rightarrow> bytes \<Rightarrow> qargs \<Rightarrow> unit run" where
  "OutFunc I rn out name ary =
    bnd (random_byte rn) (\<lambda>r.
      PutS out (C_BASE (i_pad I) BC_FUNC (int (uc r)) (int (length name)) @ scramble r name @
        C_ARGS (int (Count ary)) @ concat (map (OutArg r ary) [0..<Count ary])))"

text \<open>The text collected so far as an output record, with a random byte that is not used.\<close>

definition out_text :: "interp \<Rightarrow> bool \<Rightarrow> ostream \<Rightarrow> bytes \<Rightarrow> unit run" where
  "out_text I rn cur tmp =
    (if tmp = [] then ret ()
     else bnd (random_byte rn) (\<lambda>r.
       PutS cur (C_BASE (i_pad I) BC_OUT (int (uc r)) (int (length tmp)) @ tmp)))"

primrec comp_arg_loop ::
  "nat \<Rightarrow> interp \<Rightarrow> ctx \<Rightarrow> bool \<Rightarrow> ostream \<Rightarrow> istream \<Rightarrow> ostream \<Rightarrow> bytes \<Rightarrow> nat \<Rightarrow> char \<Rightarrow> int \<Rightarrow> nat \<Rightarrow> char
    \<Rightarrow> (bytes \<times> bool) run" where
  "comp_arg_loop 0 I t rn ob inn cur tmp numsp quoted qcnt lpc c = fail NoFuel"
| "comp_arg_loop (Suc n) I t rn ob inn cur tmp numsp quoted qcnt lpc c =
    (let next = (\<lambda>tmp numsp quoted qcnt lpc. bnd (GetC inn) (\<lambda>d.
           if d = EOF then ret (tmp, False) else comp_arg_loop n I t rn ob inn cur tmp numsp quoted qcnt lpc d));
         trimmed = (if numsp > 0 then take (length tmp - numsp) tmp else tmp) in
     if c = BSL then
       bnd (GetC inn) (\<lambda>d. next (if d \<noteq> EOF then tmp @ [d] else tmp) 0 quoted qcnt lpc)
     else if c = CHR ''%'' then
       sq (out_text I rn cur tmp)
         (sq (i_CompFunc I t rn ob inn cur) (sq (OutFlush I ob cur) (next [] 0 quoted qcnt lpc)))
     else if quoted \<noteq> NUL then
       (if c = CHR ''{'' \<and> quoted = CHR ''{'' then next tmp numsp quoted (qcnt + 1) lpc
        else if c = DQ \<and> quoted = DQ then next tmp 0 NUL qcnt 0
        else if c = CHR ''}'' \<and> quoted = CHR ''{'' then
          (if qcnt - 1 \<le> 0 then next tmp 0 NUL (qcnt - 1) lpc
           else next (tmp @ [c]) numsp quoted (qcnt - 1) lpc)
        else next (tmp @ [c]) numsp quoted qcnt lpc)
     else if lpc > 0 then
       (if c = CHR '')'' then next (tmp @ [c]) 0 quoted qcnt (lpc - 1)
        else if c = CHR ''('' then next (tmp @ [c]) 0 quoted qcnt (lpc + 1)
        else if c_isspace c then next (tmp @ [c]) (numsp + 1) quoted qcnt lpc
        else next (tmp @ [c]) 0 quoted qcnt lpc)
     else
       (if c = CHR '','' then ret (trimmed, True)
        else if c = CHR ''('' then next (tmp @ [c]) 0 quoted qcnt (lpc + 1)
        else if c = CHR '')'' then ret (trimmed, False)
        else if c_isspace c then next (tmp @ [c]) (numsp + 1) quoted qcnt lpc
        else next (tmp @ [c]) 0 quoted qcnt lpc))"

definition ParseCompArg :: "interp \<Rightarrow> ctx \<Rightarrow> bool \<Rightarrow> ostream \<Rightarrow> istream \<Rightarrow> ostream \<Rightarrow> char \<Rightarrow> bool run" where
  "ParseCompArg I t rn ob inn cur c =
    bnd (if c = DQ then bnd (GetC inn) (\<lambda>d. bnd (room inn) (\<lambda>n. comp_arg_loop n I t rn ob inn cur [] 0 DQ 0 0 d))
         else if c = CHR ''{'' then
           bnd (GetC inn) (\<lambda>d. bnd (room inn) (\<lambda>n. comp_arg_loop n I t rn ob inn cur [] 0 (CHR ''{'') 1 0 d))
         else bnd (room inn) (\<lambda>n. comp_arg_loop n I t rn ob inn cur [] 0 NUL 0 0 c))
      (\<lambda>(tmp, more). sq (out_text I rn cur tmp) (ret more))"

definition comp_arg_text :: "interp \<Rightarrow> ctx \<Rightarrow> bool \<Rightarrow> ostream \<Rightarrow> istream \<Rightarrow> char \<Rightarrow> (bytes \<times> bool) run" where
  "comp_arg_text I t rn ob inn c =
    with_out (OBuf []) (\<lambda>cur. bnd (ParseCompArg I t rn ob inn cur c) (\<lambda>more.
      gets (\<lambda>w. (content (w_outs w ! cur), more))))"

text \<open>\<^verbatim>\<open>ParseCompArgs\<close>; a null \<^verbatim>\<open>qmap\<close>, also the one left after \<^verbatim>\<open>"A"\<close>, never changes the mode.\<close>

primrec comp_args_loop ::
  "nat \<Rightarrow> interp \<Rightarrow> ctx \<Rightarrow> bool \<Rightarrow> ostream \<Rightarrow> istream \<Rightarrow> char \<Rightarrow> bytes option \<Rightarrow> qargs \<Rightarrow> qargs run" where
  "comp_args_loop 0 I t rn ob inn qmode qmap ary = fail NoFuel"
| "comp_args_loop (Suc n) I t rn ob inn qmode qmap ary =
    bnd (skip_space inn) (\<lambda>c0.
    bnd (if c0 = SQ then GetC inn else ret c0) (\<lambda>c.
    bnd (if qmode = CHR ''1'' \<or> c0 = SQ then ParseArgQuoted inn c else comp_arg_text I t rn ob inn c) (\<lambda>(cur, more).
      let quot = (if qmode = CHR ''1'' \<or> c0 = SQ then (if c0 = SQ then ARG_QSTR else ARG_STR) else ARG_CMP) in
      case SetQuot (Add ary cur) (Count ary) quot of
        None \<Rightarrow> fail Crash
      | Some ary' \<Rightarrow>
          (let (qmode', qmap') =
             (case qmap of
                None \<Rightarrow> (qmode, None)
              | Some [] \<Rightarrow> (CHR ''0'', Some [])
              | Some (q # qs) \<Rightarrow> if q = CHR ''1'' \<or> q = CHR ''0'' then (q, Some qs) else (qmode, qmap))
           in if more \<and> c \<noteq> EOF then comp_args_loop n I t rn ob inn qmode' qmap' ary' else ret ary'))))"

definition ParseCompArgs :: "interp \<Rightarrow> ctx \<Rightarrow> bool \<Rightarrow> ostream \<Rightarrow> istream \<Rightarrow> bytes option \<Rightarrow> qargs run" where
  "ParseCompArgs I t rn ob inn qmap =
    bnd (room inn) (\<lambda>n.
      case qmap of
        None \<Rightarrow> comp_args_loop n I t rn ob inn (CHR ''0'') None no_args
      | Some m \<Rightarrow>
          if take 1 m = ''A'' then comp_args_loop n I t rn ob inn (CHR ''1'') None no_args
          else comp_args_loop n I t rn ob inn (if take 1 m = ''1'' then CHR ''1'' else CHR ''0'') (Some (tl m)) no_args)"

primrec comp_name_loop ::
  "nat \<Rightarrow> interp \<Rightarrow> ctx \<Rightarrow> bool \<Rightarrow> ostream \<Rightarrow> istream \<Rightarrow> ostream \<Rightarrow> bytes \<Rightarrow> (bool + bytes \<times> char) run" where
  "comp_name_loop 0 I t rn ob inn out name = fail NoFuel"
| "comp_name_loop (Suc n) I t rn ob inn out name =
    bnd (GetC inn) (\<lambda>c.
      if c = EOF then ret (Inr (name, c))
      else if c = CHR ''('' then
        sq (OutFlush I ob out)
          (bnd (Find t name) (\<lambda>r.
           bnd (case r of Some a \<Rightarrow> GetQmap a | None \<Rightarrow> ret None) (\<lambda>q.
           bnd (ParseCompArgs I t rn ob inn q) (\<lambda>ary.
             sq (OutFunc I rn out name ary) (ret (Inl True))))))
      else if c = CHR ''%'' then
        (if name = [] then ret (Inr (name, c))
         else sq (OutFlush I ob out) (sq (OutFunc I rn out name no_args) (ret (Inl True))))
      else if isqsym c then comp_name_loop n I t rn ob inn out (name @ [c])
      else ret (Inr (name, c)))"

definition CompFunc :: "interp \<Rightarrow> ctx \<Rightarrow> bool \<Rightarrow> ostream \<Rightarrow> istream \<Rightarrow> ostream \<Rightarrow> bool run" where
  "CompFunc I t rn ob inn out =
    bnd (GetC inn) (\<lambda>c.
      if isqsymf c then
        bnd (room inn) (\<lambda>n. bnd (comp_name_loop n I t rn ob inn out [c]) (\<lambda>r. case r of
          Inl b \<Rightarrow> ret b
        | Inr (name, d) \<Rightarrow>
            sq (if name \<noteq> [] then PutC ob (CHR ''%'')
                else if d = CHR ''('' then PutC ob (CHR ''%'') else ret ())
              (sq (if d \<noteq> EOF then PutC ob d else ret ()) (ret False))))
      else
        sq (PutC ob (CHR ''%''))
          (sq (if c \<noteq> EOF \<and> c \<noteq> CHR ''%'' then
                 (if c = CHR '')'' \<or> c = CHR '','' \<or> c = CHR ''('' \<or> c = DQ then
                    bnd (UngetC inn c) (\<lambda>u. bnd (gets (\<lambda>w. c_strict (w_ctxs w ! t))) (\<lambda>strict.
                      if \<not> u \<or> strict then bad_syntax t out c else ret ()))
                  else PutC ob c)
               else ret ())
            (ret False)))"

primrec comp_loop :: "nat \<Rightarrow> interp \<Rightarrow> ctx \<Rightarrow> bool \<Rightarrow> ostream \<Rightarrow> istream \<Rightarrow> ostream \<Rightarrow> unit run" where
  "comp_loop 0 I t rn ob inn out = fail NoFuel"
| "comp_loop (Suc n) I t rn ob inn out =
    bnd (GetC inn) (\<lambda>c.
      if c = EOF then OutFlush I ob out
      else sq (if c = CHR ''%'' then sq (i_CompFunc I t rn ob inn out) (ret ()) else PutC ob c)
             (comp_loop n I t rn ob inn out))"

text \<open>\<^verbatim>\<open>qCtxComp comp(p, rand); comp.Parse(&tmp, out)\<close>: \<^verbatim>\<open>myOutBuf\<close> is the stream \<^verbatim>\<open>ob\<close>.\<close>

definition comp_Parse :: "interp \<Rightarrow> ctx \<Rightarrow> bool \<Rightarrow> bytes \<Rightarrow> ostream \<Rightarrow> unit run" where
  "comp_Parse I p rn s out =
    with_in s (\<lambda>inn. with_ctx p (\<lambda>t. with_out (OBuf []) (\<lambda>ob.
      bnd (room inn) (\<lambda>n. comp_loop n I t rn ob inn out))))"

section \<open>Decompiling\<close>

text \<open>The arguments of a function record: what is written, and the input after them.\<close>

primrec decomp_args :: "nat \<Rightarrow> (bytes \<Rightarrow> bytes) \<Rightarrow> char \<Rightarrow> bytes \<Rightarrow> bytes \<times> bytes" where
  "decomp_args 0 dec r s = ([], s)"
| "decomp_args (Suc k) dec r s =
    (if length s < 4 then decomp_args k dec r []
     else let a = take 4 s; s1 = drop 4 s; n = arg_ln a in
       if length s1 < n then decomp_args k dec r []
       else let cur = scramble r (take n s1);
                this = (if arg_at a = ARG_CMP then dec cur
                        else (if arg_at a = ARG_QSTR then [SQ] else []) @ cur) @ (if k > 0 then '','' else []);
                (rest, s2) = decomp_args k dec r (drop n s1)
            in (this @ rest, s2))"

primrec Decompile :: "nat \<Rightarrow> bytes \<Rightarrow> bytes" where
  "Decompile 0 s = []"
| "Decompile (Suc fuel) s =
    (if length s < 8 then []
     else let b = take 8 s; s1 = drop 8 s; ln = base_ln b in
       if ln < 0 then Decompile fuel s1
       else if int (length s1) < ln then []
       else let dt = take (nat ln) s1; s2 = drop (nat ln) s1 in
         if base_bc b = BC_FUNC then
           CHR ''%'' # scramble (base_rn b) dt @
           (if length s2 < 2 then []
            else let cnt = args_cnt (take 2 s2);
                     (as, s3) = decomp_args (nat cnt) (Decompile fuel) (base_rn b) (drop 2 s2)
                 in (if cnt > 0 then ''('' else ''%'') @ as @ (if cnt > 0 then '')'' else []) @ Decompile fuel s3)
         else if base_bc b = BC_OUT then dt @ Decompile fuel s2
         else Decompile fuel s2)"

section \<open>Running compiled code\<close>

definition plain_args :: "bytes option \<Rightarrow> bool" where
  "plain_args q = (case q of None \<Rightarrow> True | Some m \<Rightarrow> take 1 m = ''A'')"

text \<open>One argument, read with the mode \<^verbatim>\<open>qmode\<close> of its position.\<close>

definition run_arg :: "interp \<Rightarrow> ctx \<Rightarrow> istream \<Rightarrow> char \<Rightarrow> char \<Rightarrow> nat \<Rightarrow> qargs \<Rightarrow> qargs run" where
  "run_arg I t inn r qmode i ary =
    bnd (GetN inn 4) (\<lambda>a.
      if length a \<noteq> 4 then ret ary
      else bnd (GetN inn (arg_ln a)) (\<lambda>s.
        if length s \<noteq> arg_ln a then ret ary
        else case SetQuot (Add ary (scramble r s)) i (if arg_at a = ARG_QSTR then 1 else 0) of
          None \<Rightarrow> fail Crash
        | Some ary' \<Rightarrow>
            if GetQuot ary' i = 0 \<and> qmode = CHR ''0'' then
              bnd (capture (\<lambda>tmp. with_in (GetAt ary' i) (\<lambda>j.
                     if arg_at a = ARG_CMP then i_RunCompiled I t j tmp else i_Parse I t j tmp)))
                (\<lambda>v. ret (SetAt ary' i v))
            else if arg_at a = ARG_CMP then
              (if qmode \<noteq> CHR ''2'' then
                 ret (SetAt ary' i (Decompile (length (GetAt ary' i)) (GetAt ary' i)))
               else case SetQuot ary' i ARG_CMP of None \<Rightarrow> fail Crash | Some ary'' \<Rightarrow> ret ary'')
            else ret ary'))"

primrec run_args :: "nat \<Rightarrow> interp \<Rightarrow> ctx \<Rightarrow> istream \<Rightarrow> char \<Rightarrow> bool \<Rightarrow> char \<Rightarrow> bytes \<Rightarrow> nat \<Rightarrow> qargs \<Rightarrow> qargs run" where
  "run_args 0 I t inn r plain qmode qmap i ary = ret ary"
| "run_args (Suc k) I t inn r plain qmode qmap i ary =
    bnd (run_arg I t inn r qmode i ary) (\<lambda>ary'.
      let (qmode', qmap') =
        (if plain then (qmode, qmap)
         else case qmap of [] \<Rightarrow> (CHR ''0'', []) | q # qs \<Rightarrow> if q \<noteq> CHR ''A'' then (q, qs) else (qmode, qmap))
      in run_args k I t inn r plain qmode' qmap' (Suc i) ary')"

text \<open>Skipping the arguments of a function that is not mapped.\<close>

primrec skip_args :: "nat \<Rightarrow> istream \<Rightarrow> unit run" where
  "skip_args 0 inn = ret ()"
| "skip_args (Suc k) inn =
    bnd (GetN inn 4) (\<lambda>a.
      if length a \<noteq> 4 then skip_args k inn
      else bnd (GetN inn (arg_ln a)) (\<lambda>s. if length s \<noteq> arg_ln a then ret () else skip_args k inn))"

definition run_func :: "interp \<Rightarrow> ctx \<Rightarrow> istream \<Rightarrow> ostream \<Rightarrow> char \<Rightarrow> bytes \<Rightarrow> unit run" where
  "run_func I t inn out r name =
    bnd (Find t name) (\<lambda>f. case f of
      Some a \<Rightarrow>
        bnd (GetN inn 2) (\<lambda>v.
          if length v \<noteq> 2 then ret ()
          else bnd (GetQmap a) (\<lambda>q.
            let plain = plain_args q;
                qmode = (case q of None \<Rightarrow> CHR ''0'' | Some m \<Rightarrow>
                  if take 1 m = ''A'' \<or> take 1 m = ''1'' then CHR ''1'' else CHR ''0'');
                qmap = (case q of None \<Rightarrow> [] | Some m \<Rightarrow> tl m)
            in bnd (run_args (nat (args_cnt v)) I t inn r plain qmode qmap 0 no_args) (\<lambda>ary.
                 i_Eval I a t out (if args_cnt v \<noteq> 0 then ary else no_args))))
    | None \<Rightarrow>
        bnd (gets (\<lambda>w. c_strict (w_ctxs w ! t))) (\<lambda>strict.
          if strict then not_found t out name
          else bnd (GetN inn 2) (\<lambda>v.
            let cnt = (if length v = 2 then args_cnt v else 0) in
            sq (skip_args (nat cnt) inn)
              (sq (PutC out (CHR ''%'')) (sq (PutS out name)
                (if cnt > 0 then PutS out ''(...)'' else PutC out (CHR ''%'')))))))"

primrec run_loop :: "nat \<Rightarrow> interp \<Rightarrow> ctx \<Rightarrow> istream \<Rightarrow> ostream \<Rightarrow> unit run" where
  "run_loop 0 I t inn out = fail NoFuel"
| "run_loop (Suc n) I t inn out =
    bnd (GetN inn 8) (\<lambda>b.
      if length b \<noteq> 8 \<or> base_ln b \<le> 0 then ret ()
      else bnd (GetN inn (nat (base_ln b))) (\<lambda>dt.
        sq (if int (length dt) = base_ln b then
              (if base_bc b = BC_FUNC then run_func I t inn out (base_rn b) (scramble (base_rn b) dt)
               else if base_bc b = BC_OUT then PutS out dt
               else ret ())
            else ret ())
          (run_loop n I t inn out)))"

definition RunCompiled :: "interp \<Rightarrow> ctx \<Rightarrow> istream \<Rightarrow> ostream \<Rightarrow> unit run" where
  "RunCompiled I t inn out = bnd (room inn) (\<lambda>n. run_loop n I t inn out)"

end
