(* ===== verification/CoreMacros.thy ===== *)
theory CoreMacros
  imports Compile
begin

text \<open>
  The core macros (\<^verbatim>\<open>libsmx/core.cpp\<close>): conditionals and loops, variables and definitions,
  expansion, errors, quoting. Each handler is a function of the interpreter record, the
  context, the output stream and the arguments; a null argument array is the empty one, as
  \<^verbatim>\<open>Count\<close> and \<^verbatim>\<open>GetAt\<close> treat it.
\<close>

section \<open>Argument counts\<close>

definition VALID_ARGM :: "bytes \<Rightarrow> nat \<Rightarrow> ctx \<Rightarrow> ostream \<Rightarrow> qargs \<Rightarrow> unit run \<Rightarrow> unit run" where
  "VALID_ARGM name mn t out args body =
    (if Count args < mn then
       ThrowF t out 1000 ''Too few arguments (%d) to function %%%s(), must be at least %d''
         (''Too few arguments ('' @ itoa (int (Count args)) @ '') to function %'' @ name @
          ''(), must be at least '' @ itoa (int mn))
     else body)"

definition VALID_ARGC :: "bytes \<Rightarrow> nat \<Rightarrow> nat \<Rightarrow> ctx \<Rightarrow> ostream \<Rightarrow> qargs \<Rightarrow> unit run \<Rightarrow> unit run" where
  "VALID_ARGC name mn mx t out args body =
    (if Count args > mx then
       ThrowF t out 1000 ''Too many arguments (%d) to function %%%s(), the maximum is %d''
         (''Too many arguments ('' @ itoa (int (Count args)) @ '') to function %'' @ name @
          ''(), the maximum is '' @ itoa (int mx))
     else VALID_ARGM name mn t out args body)"

section \<open>Variables\<close>

definition EvalSet :: "ctx \<Rightarrow> ostream \<Rightarrow> qargs \<Rightarrow> unit run" where
  "EvalSet t out args = VALID_ARGC ''set'' 1 2 t out args
    (let name = GetAt args 0 in
     if name = [] then ThrowId t out 121 ''set: empty variable name''
     else if Count args \<ge> 2 then MapNew t (ObjStr (GetAt args 1)) name
     else sq (DelObj t name) (ret ()))"

definition EvalGSet :: "ctx \<Rightarrow> ostream \<Rightarrow> qargs \<Rightarrow> unit run" where
  "EvalGSet t out args = VALID_ARGC ''gset'' 1 2 t out args
    (let var = GetAt args 0 in
     if var = [] then ThrowId t out 121 ''gset: empty variable name''
     else if Count args \<ge> 2 then
       bnd (new_obj (ObjStr (GetAt args 1))) (\<lambda>a. bnd (gets w_session) (\<lambda>s. MapObjTop t a var s))
     else ret ())"

definition EvalLet :: "ctx \<Rightarrow> ostream \<Rightarrow> qargs \<Rightarrow> unit run" where
  "EvalLet t out args = VALID_ARGC ''let'' 1 2 t out args
    (let var = GetAt args 0 in
     if var = [] then ThrowId t out 121 ''let: empty variable name''
     else if Count args \<ge> 2 then bnd (new_obj (ObjStr (GetAt args 1))) (\<lambda>a. MapObjLet t a var)
     else ret ())"

definition EvalDefined :: "ctx \<Rightarrow> ostream \<Rightarrow> qargs \<Rightarrow> unit run" where
  "EvalDefined t out args = VALID_ARGC ''defined'' 1 1 t out args
    (bnd (Find t (GetAt args 0)) (\<lambda>r. if r \<noteq> None then PutC out (CHR ''T'') else ret ()))"

section \<open>Definitions\<close>

definition kind_digit :: "qObjDefArg \<Rightarrow> char" where
  "kind_digit k = (if k = dQuoted then CHR ''1'' else CHR ''0'')"

definition AddArgName :: "(bytes \<times> qObjDefArg) list \<times> bytes \<Rightarrow> bytes \<Rightarrow> qObjDefArg \<Rightarrow> (bytes \<times> qObjDefArg) list \<times> bytes" where
  "AddArgName d arg quoted =
    (case d of (params, qmap) \<Rightarrow>
       let params' = params @ [(arg, quoted)] in
       (params', if quoted = dQuoted \<and> qmap = [] then map (kind_digit \<circ> snd) params'
                 else qmap @ [kind_digit quoted]))"

fun def_params :: "qargs \<Rightarrow> nat list \<Rightarrow> (bytes \<times> qObjDefArg) list \<times> bytes \<Rightarrow> (bytes \<times> qObjDefArg) list \<times> bytes" where
  "def_params args [] d = d"
| "def_params args (i # is) d =
    def_params args is
      (let arg = GetAt args i in
       if arg = [] then d
       else if GetQuot args i \<noteq> 0 then AddArgName d arg dQuoted
       else if hd arg = CHR ''*'' then AddArgName d (cstr (tl arg)) dParsed
       else if hd arg = CHR ''&'' then AddArgName d (cstr (tl arg)) dObjRef
       else AddArgName d arg dNormal)"

definition CreateDef :: "interp \<Rightarrow> ctx \<Rightarrow> qargs \<Rightarrow> addr option run" where
  "CreateDef I t args =
    (if GetAt args 0 = [] \<or> Count args < 2 then ret None
     else bnd (capture (comp_Parse I t False (GetAt args 1))) (\<lambda>body.
       let (params, qmap) = def_params args [2..<Count args] ([], []) in
       bnd (new_obj (ObjDef body params qmap 1)) (\<lambda>a. ret (Some a))))"

definition EvalDefine :: "interp \<Rightarrow> ctx \<Rightarrow> ostream \<Rightarrow> qargs \<Rightarrow> unit run" where
  "EvalDefine I t out args = VALID_ARGM ''define'' 1 t out args
    (bnd (CreateDef I t args) (\<lambda>d.
      let name = GetAt args 0 in
      if name = [] then (case d of Some a \<Rightarrow> Free a | None \<Rightarrow> ret ())
      else case d of Some a \<Rightarrow> MapObj t a name | None \<Rightarrow> sq (DelObj t name) (ret ())))"

definition EvalGDefine :: "interp \<Rightarrow> ctx \<Rightarrow> ostream \<Rightarrow> qargs \<Rightarrow> unit run" where
  "EvalGDefine I t out args = VALID_ARGM ''gdefine'' 1 t out args
    (bnd (CreateDef I t args) (\<lambda>d.
      let name = GetAt args 0 in
      if name = [] then (case d of Some a \<Rightarrow> Free a | None \<Rightarrow> ret ())
      else bnd (gets w_session) (\<lambda>s.
        case d of Some a \<Rightarrow> MapObjTop t a name s | None \<Rightarrow> sq (DelObjTop t name s) (ret ()))))"

text \<open>The arguments of a call, mapped into the context of the body.\<close>

definition map_param :: "ctx \<Rightarrow> ctx \<Rightarrow> bytes \<times> qObjDefArg \<Rightarrow> bytes \<Rightarrow> unit run" where
  "map_param t tmp p s =
    (case p of (n, kind) \<Rightarrow>
      if n = [] then ret ()
      else (case kind of
          dParsed \<Rightarrow> MapNew tmp (ObjParsed s) n
        | dObjRef \<Rightarrow> bnd (Find t s) (\<lambda>r. case r of Some a \<Rightarrow> MapNew tmp (ObjByRef a) n | None \<Rightarrow> ret ())
        | _ \<Rightarrow> MapNew tmp (ObjStr s) n))"

fun map_params :: "ctx \<Rightarrow> ctx \<Rightarrow> (bytes \<times> qObjDefArg) list \<Rightarrow> bytes list \<Rightarrow> unit run" where
  "map_params t tmp (p # ps) (s # ss) = sq (map_param t tmp p s) (map_params t tmp ps ss)"
| "map_params t tmp [] ss = ret ()"
| "map_params t tmp (p # ps) [] =
     sq (if fst p = [] then ret () else MapNew tmp (ObjStr []) (fst p)) (map_params t tmp ps [])"

definition qObjDef_Eval :: "interp \<Rightarrow> addr \<Rightarrow> bytes \<Rightarrow> (bytes \<times> qObjDefArg) list \<Rightarrow> ctx \<Rightarrow> ostream \<Rightarrow> qargs \<Rightarrow> unit run" where
  "qObjDef_Eval I this body params t out args =
    sq (AddRef this)
      (sq (with_ctx t (\<lambda>tmp.
            sq (map_params t tmp params (qa_vals args))
              (sq (MapNew tmp (ObjDefArgs this args) ''arg'')
                (sq (MapNew tmp (ObjDbl (int (Count args))) ''num-args'')
                  (sq (MapNew tmp (ObjDbl (int (Count args))) ''argc'')
                    (with_in body (\<lambda>i. i_RunCompiled I tmp i out)))))))
        (Free this))"

definition qObjDefArgs_Eval :: "interp \<Rightarrow> addr \<Rightarrow> qargs \<Rightarrow> ctx \<Rightarrow> ostream \<Rightarrow> qargs \<Rightarrow> unit run" where
  "qObjDefArgs_Eval I def myargs t out args =
    (let index = ParseInt (GetAt args 0) in
     if index \<ge> 0 \<and> index < int (Count myargs) then
       bnd (deref def) (\<lambda>d. case d of
         ObjDef body params qmap refs \<Rightarrow>
           (let s = GetAt myargs (nat index);
                kind = (if nat index < length params then Some (snd (params ! nat index)) else None) in
            if kind = Some dParsed then ParseIn I t s out
            else if kind = Some dObjRef then
              bnd (Find t s) (\<lambda>r. case r of Some a \<Rightarrow> i_Eval I a t out args | None \<Rightarrow> ret ())
            else PutS out s)
       | _ \<Rightarrow> fail Crash)
     else ret ())"

section \<open>Expansion\<close>

definition EvalExpand :: "interp \<Rightarrow> ctx \<Rightarrow> ostream \<Rightarrow> qargs \<Rightarrow> unit run" where
  "EvalExpand I t out args = VALID_ARGC ''expand'' 0 1 t out args
    (let val = GetAt args 0 in
     if val = [] then ret ()
     else if length val > 4 \<and> take 4 val = CMAGIC_V1 then with_in (drop 4 val) (\<lambda>i. i_RunCompiled I t i out)
     else ParseIn I t val out)"

definition EvalCompile :: "interp \<Rightarrow> ctx \<Rightarrow> ostream \<Rightarrow> qargs \<Rightarrow> unit run" where
  "EvalCompile I t out args = VALID_ARGC ''compile'' 1 2 t out args
    (let val = GetAt args 0 in
     if val = [] then ret ()
     else sq (PutS out CMAGIC_V1) (comp_Parse I t (ParseBool (GetAt args 1)) val out))"

fun map_safe :: "ctx \<Rightarrow> ctx \<Rightarrow> bytes list \<Rightarrow> unit run" where
  "map_safe t tc [] = ret ()"
| "map_safe t tc (name # ns) =
    sq (if name = [] then ret ()
        else bnd (Find t name) (\<lambda>r. case r of Some a \<Rightarrow> MapNew tc (ObjSafe a t) name | None \<Rightarrow> ret ()))
      (map_safe t tc ns)"

definition EvalSafeExpand :: "interp \<Rightarrow> ctx \<Rightarrow> ostream \<Rightarrow> qargs \<Rightarrow> unit run" where
  "EvalSafeExpand I t out args =
    (let val = GetAt args 0 in
     if val = [] then ret ()
     else with_env_ctx (\<lambda>tc. sq (map_safe t tc (tl (qa_vals args))) (ParseIn I tc val out)))"

text \<open>The values move down by one; the quote marks stay where they were.\<close>

definition EvalInvoke :: "interp \<Rightarrow> ctx \<Rightarrow> ostream \<Rightarrow> qargs \<Rightarrow> unit run" where
  "EvalInvoke I t out args = VALID_ARGM ''invoke'' 1 t out args
    (bnd (Find t (GetAt args 0)) (\<lambda>r. case r of
       None \<Rightarrow> ret ()
     | Some a \<Rightarrow> i_Eval I a t out (if Count args \<ge> 2 then args\<lparr>qa_vals := tl (qa_vals args)\<rparr> else no_args)))"

section \<open>Output control\<close>

definition EvalNilOut :: "fdata \<Rightarrow> qargs \<Rightarrow> unit run" where
  "EvalNilOut data args = (case data of DOut o' \<Rightarrow> each (PutS o') (qa_vals args) | _ \<Rightarrow> fail Crash)"

definition EvalNil :: "interp \<Rightarrow> ctx \<Rightarrow> ostream \<Rightarrow> qargs \<Rightarrow> unit run" where
  "EvalNil I t out args =
    (if Count args \<ge> 1 then
       with_out ONull (\<lambda>no. with_ctx t (\<lambda>sub.
         sq (MapNew sub (ObjFunc (DOut out) FNilOut None) ''out'')
           (each (\<lambda>s. ParseIn I sub s no) (qa_vals args))))
     else ret ())"

definition EvalNull :: "interp \<Rightarrow> ctx \<Rightarrow> ostream \<Rightarrow> qargs \<Rightarrow> unit run" where
  "EvalNull I t out args =
    (if Count args \<ge> 1 then
       with_out ONull (\<lambda>no.
         each (\<lambda>i. if GetQuot args i = 0 then ParseIn I t (GetAt args i) no else ret ()) [0..<Count args])
     else ret ())"

section \<open>Conditionals and loops\<close>

fun if_loop :: "interp \<Rightarrow> ctx \<Rightarrow> ostream \<Rightarrow> bytes list \<Rightarrow> unit run" where
  "if_loop I t out (c # b # rest) =
     bnd (ParseStr I t c) (\<lambda>s. if ParseBool s then ParseIn I t b out else if_loop I t out rest)"
| "if_loop I t out [e] = ParseIn I t e out"
| "if_loop I t out [] = ret ()"

definition EvalIf :: "interp \<Rightarrow> ctx \<Rightarrow> ostream \<Rightarrow> qargs \<Rightarrow> unit run" where
  "EvalIf I t out args = VALID_ARGM ''if'' 2 t out args (if_loop I t out (qa_vals args))"

fun and_loop :: "interp \<Rightarrow> ctx \<Rightarrow> ostream \<Rightarrow> bytes list \<Rightarrow> unit run" where
  "and_loop I t out [] = PutC out (CHR ''T'')"
| "and_loop I t out (c # cs) = bnd (ParseStr I t c) (\<lambda>s. if ParseBool s then and_loop I t out cs else ret ())"

definition EvalAnd :: "interp \<Rightarrow> ctx \<Rightarrow> ostream \<Rightarrow> qargs \<Rightarrow> unit run" where
  "EvalAnd I t out args = VALID_ARGM ''and'' 2 t out args (and_loop I t out (qa_vals args))"

fun or_loop :: "interp \<Rightarrow> ctx \<Rightarrow> ostream \<Rightarrow> bytes list \<Rightarrow> unit run" where
  "or_loop I t out [] = ret ()"
| "or_loop I t out (c # cs) =
     bnd (ParseStr I t c) (\<lambda>s. if ParseBool s then PutC out (CHR ''T'') else or_loop I t out cs)"

definition EvalOr :: "interp \<Rightarrow> ctx \<Rightarrow> ostream \<Rightarrow> qargs \<Rightarrow> unit run" where
  "EvalOr I t out args = VALID_ARGM ''or'' 2 t out args (or_loop I t out (qa_vals args))"

definition EvalNot :: "ctx \<Rightarrow> ostream \<Rightarrow> qargs \<Rightarrow> unit run" where
  "EvalNot t out args = VALID_ARGC ''not'' 1 1 t out args
    (if ParseBool (GetAt args 0) then ret () else PutC out (CHR ''T''))"

definition EvalBreak :: "fdata \<Rightarrow> unit run" where
  "EvalBreak data = (case data of DCell i \<Rightarrow> write_cell i 0 | _ \<Rightarrow> fail Crash)"

primrec for_loop :: "nat \<Rightarrow> interp \<Rightarrow> ctx \<Rightarrow> ostream \<Rightarrow> bytes \<Rightarrow> nat \<Rightarrow> nat \<Rightarrow> int \<Rightarrow> int \<Rightarrow> unit run" where
  "for_loop 0 I sub out body i ok to step = fail NoFuel"
| "for_loop (Suc n) I sub out body i ok to step =
    bnd (read_cell ok) (\<lambda>b. bnd (read_cell i) (\<lambda>v.
      if b \<noteq> 0 \<and> (if step > 0 then v \<le> to else v \<ge> to) then
        sq (ParseIn I sub body out)
          (bnd (read_cell i) (\<lambda>v'. sq (write_cell i (int32 (v' + step)))
            (for_loop n I sub out body i ok to step)))
      else ret ()))"

definition EvalFor :: "interp \<Rightarrow> ctx \<Rightarrow> ostream \<Rightarrow> qargs \<Rightarrow> unit run" where
  "EvalFor I t out args = VALID_ARGC ''for'' 4 5 t out args
    (let var = GetAt args 0; fr = ParseInt (GetAt args 1); to = ParseInt (GetAt args 2);
         step0 = ParseInt (GetAt args 4); step = (if step0 = 0 then 1 else step0) in
     if var = [] then ThrowId t out 121 ''for: empty variable name''
     else with_ctx t (\<lambda>sub. with_cell fr (\<lambda>i. with_cell 1 (\<lambda>ok.
       sq (MapNew sub (ObjIntP i) var)
         (sq (MapNew sub (ObjFunc (DCell ok) FBreak None) ''break'')
           (for_loop (i_bound I) I sub out (GetAt args 3) i ok to step))))))"

text \<open>\<^verbatim>\<open>ctx->EvalInt("max-iteration")\<close>.\<close>

definition max_iteration :: "interp \<Rightarrow> ctx \<Rightarrow> int run" where
  "max_iteration I t =
    bnd (capture (\<lambda>o'. bnd (Find t ''max-iteration'') (\<lambda>r. case r of
        Some a \<Rightarrow> i_Eval I a t o' no_args | None \<Rightarrow> ret ())))
      (\<lambda>s. ret (if s = [] then 0 else ParseInt s))"

definition map_break :: "ctx \<Rightarrow> nat \<Rightarrow> unit run" where
  "map_break t ok =
    bnd (Find t ''break'') (\<lambda>r. if r = None then MapNew t (ObjFunc (DCell ok) FBreak None) ''break'' else ret ())"

primrec while_loop :: "nat \<Rightarrow> interp \<Rightarrow> ctx \<Rightarrow> ostream \<Rightarrow> qargs \<Rightarrow> nat \<Rightarrow> int \<Rightarrow> int \<Rightarrow> unit run" where
  "while_loop 0 I t out args ok loopMax i = fail NoFuel"
| "while_loop (Suc n) I t out args ok loopMax i =
    bnd (read_cell ok) (\<lambda>b.
      if b = 0 then ret ()
      else bnd (ParseStr I t (GetAt args 0)) (\<lambda>s.
        if \<not> ParseBool s then ret ()
        else if loopMax \<le> 0 \<or> i < loopMax then
          sq (if Count args > 1 then ParseIn I t (GetAt args 1) out else ret ())
            (while_loop n I t out args ok loopMax (if loopMax \<le> 0 then i else i + 1))
        else ret ()))"

definition EvalWhile :: "interp \<Rightarrow> ctx \<Rightarrow> ostream \<Rightarrow> qargs \<Rightarrow> unit run" where
  "EvalWhile I t out args = VALID_ARGC ''while'' 1 2 t out args
    (with_cell 1 (\<lambda>ok.
      sq (map_break t ok)
        (bnd (max_iteration I t) (\<lambda>loopMax. while_loop (i_bound I) I t out args ok loopMax 0))))"

primrec do_loop :: "nat \<Rightarrow> interp \<Rightarrow> ctx \<Rightarrow> ostream \<Rightarrow> qargs \<Rightarrow> nat \<Rightarrow> int \<Rightarrow> int \<Rightarrow> unit run" where
  "do_loop 0 I t out args ok loopMax i = fail NoFuel"
| "do_loop (Suc n) I t out args ok loopMax i =
    sq (ParseIn I t (GetAt args 0) out)
      (bnd (read_cell ok) (\<lambda>b.
        if b = 0 then ret ()
        else bnd (ParseStr I t (GetAt args 1)) (\<lambda>s.
          if \<not> ParseBool s then ret ()
          else if loopMax \<le> 0 then do_loop n I t out args ok loopMax i
          else if i + 1 < loopMax then do_loop n I t out args ok loopMax (i + 1)
          else ret ())))"

definition EvalDo :: "interp \<Rightarrow> ctx \<Rightarrow> ostream \<Rightarrow> qargs \<Rightarrow> unit run" where
  "EvalDo I t out args = VALID_ARGC ''do'' 1 2 t out args
    (bnd (max_iteration I t) (\<lambda>loopMax.
      with_cell 1 (\<lambda>ok.
        sq (map_break t ok) (do_loop (i_bound I) I t out args ok loopMax 0))))"

section \<open>Errors and modes\<close>

definition EvalTry :: "interp \<Rightarrow> ctx \<Rightarrow> ostream \<Rightarrow> qargs \<Rightarrow> unit run" where
  "EvalTry I t out args =
    (if Count args > 0 then
       catching (sq (AddTry t) (sq (ParseIn I t (GetAt args 0) out) (RemTry t)))
         (\<lambda>e. sq (RemTry t)
           (if Count args > 1 then
              with_ctx t (\<lambda>sub. sq (map_exn sub e) (ParseIn I sub (GetAt args 1) out))
            else ret ()))
         (sq (RemTry t) (fail Aborted))
     else ret ())"

definition EvalThrow :: "ctx \<Rightarrow> ostream \<Rightarrow> qargs \<Rightarrow> unit run" where
  "EvalThrow t out args = VALID_ARGC ''throw'' 2 2 t out args
    (ThrowId t out (ParseInt (GetAt args 0)) (GetAt args 1))"

definition EvalErrorHandler :: "ctx \<Rightarrow> ostream \<Rightarrow> qargs \<Rightarrow> unit run" where
  "EvalErrorHandler t out args = VALID_ARGC ''errorhandler'' 1 1 t out args (SetErrorHandler t (GetAt args 0))"

definition EvalStrict :: "ctx \<Rightarrow> ostream \<Rightarrow> qargs \<Rightarrow> unit run" where
  "EvalStrict t out args = VALID_ARGC ''strict'' 1 1 t out args (SetStrict t (ParseBool (GetAt args 0)))"

definition EvalSafeMode :: "ctx \<Rightarrow> ostream \<Rightarrow> qargs \<Rightarrow> unit run" where
  "EvalSafeMode t out args =
    (if Count args > 0 then (if ParseBool (GetAt args 0) then SetSafeMode t True else ret ())
     else bnd (gets (\<lambda>w. c_safe (w_ctxs w ! t))) (\<lambda>s. if s then PutC out (CHR ''T'') else ret ()))"

definition EvalSafeUID :: "interp \<Rightarrow> ctx \<Rightarrow> ostream \<Rightarrow> qargs \<Rightarrow> unit run" where
  "EvalSafeUID I t out args =
    sq (if Count args > 0 then
          bnd (gets (\<lambda>w. c_safe (w_ctxs w ! t))) (\<lambda>safe.
            if GetAt args 0 \<noteq> [] \<and> \<not> safe then
              (let uid = ParseInt (GetAt args 0) in
               SetSafeUID t (if uid = 0 then (case i_getpwnam I (cstr (GetAt args 0)) of Some u \<Rightarrow> u | None \<Rightarrow> 0) else uid))
            else ret ())
        else ret ())
      (bnd (gets (\<lambda>w. c_uid (w_ctxs w ! t))) (PutN out))"

section \<open>Quoting\<close>

definition needs_quote :: "char \<Rightarrow> bool" where
  "needs_quote c =
    (c = SQ \<or> c = CHR ''%'' \<or> c = DQ \<or> c = CHR '','' \<or> c = BSL \<or> c = CHR '')'' \<or> c = CHR ''('' \<or>
     c = NUL \<or> c = EOF \<or> c_isspace c)"

definition quote_char :: "char \<Rightarrow> bytes" where
  "quote_char c =
    (if c = DQ \<or> c = BSL \<or> c = CHR ''('' \<or> c = CHR '')'' then [BSL, c]
     else if c = CHR ''%'' then ''%%''
     else [c])"

definition SmxQuote :: "bytes \<Rightarrow> bytes" where
  "SmxQuote s =
    (let plain = takeWhile (\<lambda>c. \<not> needs_quote c) s; rest = dropWhile (\<lambda>c. \<not> needs_quote c) s in
     if rest = [] then s else [DQ] @ plain @ concat (map quote_char rest) @ [DQ])"

fun quote_args :: "bytes list \<Rightarrow> bytes" where
  "quote_args [] = []"
| "quote_args [a] = SmxQuote a"
| "quote_args (a # as) = SmxQuote a @ '','' @ quote_args as"

definition EvalSmxQuote :: "ostream \<Rightarrow> qargs \<Rightarrow> unit run" where
  "EvalSmxQuote out args = PutS out (quote_args (qa_vals args))"

section \<open>Dispatch\<close>

definition EvalFunc :: "interp \<Rightarrow> fdata \<Rightarrow> func \<Rightarrow> ctx \<Rightarrow> ostream \<Rightarrow> qargs \<Rightarrow> unit run" where
  "EvalFunc I data f t out args =
    (case f of
       FNil \<Rightarrow> EvalNil I t out args
     | FNilOut \<Rightarrow> EvalNilOut data args
     | FNull \<Rightarrow> EvalNull I t out args
     | FFor \<Rightarrow> EvalFor I t out args
     | FWhile \<Rightarrow> EvalWhile I t out args
     | FDo \<Rightarrow> EvalDo I t out args
     | FBreak \<Rightarrow> EvalBreak data
     | FIf \<Rightarrow> EvalIf I t out args
     | FOr \<Rightarrow> EvalOr I t out args
     | FAnd \<Rightarrow> EvalAnd I t out args
     | FNot \<Rightarrow> EvalNot t out args
     | FSet \<Rightarrow> EvalSet t out args
     | FLet \<Rightarrow> EvalLet t out args
     | FGSet \<Rightarrow> EvalGSet t out args
     | FDefine \<Rightarrow> EvalDefine I t out args
     | FGDefine \<Rightarrow> EvalGDefine I t out args
     | FDefined \<Rightarrow> EvalDefined t out args
     | FInvoke \<Rightarrow> EvalInvoke I t out args
     | FExpand \<Rightarrow> EvalExpand I t out args
     | FSafeExpand \<Rightarrow> EvalSafeExpand I t out args
     | FCompile \<Rightarrow> EvalCompile I t out args
     | FErrorHandler \<Rightarrow> EvalErrorHandler t out args
     | FStrict \<Rightarrow> EvalStrict t out args
     | FTry \<Rightarrow> EvalTry I t out args
     | FThrow \<Rightarrow> EvalThrow t out args
     | FAbort \<Rightarrow> fail Aborted
     | FSmxQuote \<Rightarrow> EvalSmxQuote out args
     | FSafeMode \<Rightarrow> EvalSafeMode t out args
     | FSafeUID \<Rightarrow> EvalSafeUID I t out args
     | FLib name \<Rightarrow> (case i_lib I name args of Inl (i, msg) \<Rightarrow> ThrowId t out i msg | Inr s \<Rightarrow> PutS out s))"

definition EvalObj :: "interp \<Rightarrow> addr \<Rightarrow> ctx \<Rightarrow> ostream \<Rightarrow> qargs \<Rightarrow> unit run" where
  "EvalObj I a t out args =
    bnd (deref a) (\<lambda>x. case x of
      ObjStr s \<Rightarrow> PutS out s
    | ObjDbl i \<Rightarrow> PutN out i
    | ObjIntP i \<Rightarrow> bnd (read_cell i) (PutN out)
    | ObjFunc data f q \<Rightarrow> EvalFunc I data f t out args
    | ObjDef body params qmap refs \<Rightarrow> qObjDef_Eval I a body params t out args
    | ObjDefArgs def myargs \<Rightarrow> qObjDefArgs_Eval I def myargs t out args
    | ObjParsed s \<Rightarrow> ParseIn I t s out
    | ObjByRef b \<Rightarrow> i_Eval I b t out args
    | ObjSafe b c \<Rightarrow> i_Eval I b c out args)"

section \<open>The table of core macros\<close>

definition core_table :: "(func \<times> string \<times> bytes option) list" where
  "core_table =
    [(FNil, ''nil'', Some ''A''), (FNull, ''null'', Some ''A''),
     (FFor, ''for'', Some ''0001''), (FWhile, ''while'', Some ''11''), (FDo, ''do'', Some ''11''),
     (FIf, ''if'', Some ''A''), (FIf, ''switch'', Some ''A''),
     (FOr, ''or'', Some ''A''), (FAnd, ''and'', Some ''A''), (FNot, ''not'', None),
     (FSet, ''set'', None), (FLet, ''let'', None), (FGSet, ''gset'', None),
     (FDefine, ''macro'', None), (FDefine, ''define'', Some ''01''),
     (FGDefine, ''gmacro'', None), (FGDefine, ''gdefine'', Some ''01''),
     (FDefined, ''defined'', None), (FInvoke, ''get'', None), (FInvoke, ''invoke'', None),
     (FExpand, ''expand'', None), (FSafeExpand, ''safe-expand'', None), (FCompile, ''compile'', None),
     (FErrorHandler, ''errorhandler'', Some ''1''), (FStrict, ''strict'', None),
     (FTry, ''try'', Some ''11''), (FThrow, ''throw'', None), (FAbort, ''abort'', None),
     (FSmxQuote, ''macro-quote'', None), (FSafeMode, ''safe-mode'', None), (FSafeUID, ''safe-uid'', None)]"

definition LoadCore :: "ctx \<Rightarrow> unit run" where
  "LoadCore t =
    sq (each (\<lambda>(f, name, q). MapNew t (ObjFunc DNull f q) name) core_table)
       (MapNew t (ObjDbl 5000) ''max-iteration'')"

end
