(* ===== verification/Interp.thy ===== *)
theory Interp
  imports CoreMacros
begin

text \<open>
  Tying the knot: the interpreter whose calls nest at most \<^verbatim>\<open>n\<close> deep. A result other than
  \<^verbatim>\<open>NoFuel\<close> is the result of the code, since a deeper bound gives the same; the code fails to
  return (or exhausts the C++ stack) where every bound gives \<^verbatim>\<open>NoFuel\<close>.
\<close>

record outside =
  o_pad :: bytes
  o_lib :: "bytes \<Rightarrow> qargs \<Rightarrow> int \<times> bytes + bytes"
  o_getpwnam :: "bytes \<Rightarrow> int option"

definition no_interp :: "outside \<Rightarrow> interp" where
  "no_interp e =
    \<lparr>i_Parse = (\<lambda>t inn out. fail NoFuel), i_ParseFunc = (\<lambda>t inn out. fail NoFuel),
     i_Eval = (\<lambda>a t out args. fail NoFuel), i_RunCompiled = (\<lambda>t inn out. fail NoFuel),
     i_CompFunc = (\<lambda>t rn ob inn out. fail NoFuel), i_bound = 0,
     i_pad = o_pad e, i_lib = o_lib e, i_getpwnam = o_getpwnam e\<rparr>"

definition deeper :: "interp \<Rightarrow> interp" where
  "deeper I =
    \<lparr>i_Parse = Parse I, i_ParseFunc = ParseFunc I, i_Eval = EvalObj I, i_RunCompiled = RunCompiled I,
     i_CompFunc = CompFunc I, i_bound = Suc (i_bound I),
     i_pad = i_pad I, i_lib = i_lib I, i_getpwnam = i_getpwnam I\<rparr>"

primrec smx :: "outside \<Rightarrow> nat \<Rightarrow> interp" where
  "smx e 0 = no_interp e"
| "smx e (Suc n) = deeper (smx e n)"

text \<open>The state of \<^verbatim>\<open>smx -e\<close> before the input is expanded: the global context with the core macros
  and below it the session context.\<close>

definition bare_world :: world where
  "bare_world =
    \<lparr>w_ins = [], w_outs = [], w_ctxs = [], w_objs = [], w_cells = [], w_max = 2000,
     w_session = Some 1, w_rand = (\<lambda>i. 0)\<rparr>"

definition start_world :: world where
  "start_world =
    (let w = bare_world\<lparr>w_ctxs := [Construct bare_world None]\<rparr>;
         w' = w\<lparr>w_ctxs := w_ctxs w @ [Construct w (Some 0)]\<rparr>
     in snd (LoadCore 0 w'))"

text \<open>\<^verbatim>\<open>ParseTry\<close> on a string in the session context: the result and the text written.\<close>

definition expand :: "outside \<Rightarrow> nat \<Rightarrow> bytes \<Rightarrow> world \<Rightarrow> bytes res \<times> world" where
  "expand e n s = capture (\<lambda>out. with_in s (\<lambda>inn. ParseTry (smx e n) 1 inn out))"

end
