(* ===== verification/Fuel.thy ===== *)
theory Fuel
  imports Interp
begin

text \<open>
  The bound on the nesting of calls does not change results: what the interpreter returns
  within some bound it returns, with the same state, within every larger one. A computation
  is below another when it agrees with it wherever it returns; every function of the
  interpreter is monotone in the functions it calls.
\<close>

named_theorems mono_intros \<open>monotonicity of the interpreter's functions\<close>

definition le_run :: "'a run \<Rightarrow> 'a run \<Rightarrow> bool" where
  "le_run m m' \<longleftrightarrow> (\<forall>w. fst (m w) \<noteq> NoFuel \<longrightarrow> m' w = m w)"

definition le_interp :: "interp \<Rightarrow> interp \<Rightarrow> bool" where
  "le_interp I J \<longleftrightarrow>
    (\<forall>t inn out. le_run (i_Parse I t inn out) (i_Parse J t inn out)) \<and>
    (\<forall>t inn out. le_run (i_ParseFunc I t inn out) (i_ParseFunc J t inn out)) \<and>
    (\<forall>a t out args. le_run (i_Eval I a t out args) (i_Eval J a t out args)) \<and>
    (\<forall>t inn out. le_run (i_RunCompiled I t inn out) (i_RunCompiled J t inn out)) \<and>
    (\<forall>t rn ob inn out. le_run (i_CompFunc I t rn ob inn out) (i_CompFunc J t rn ob inn out)) \<and>
    i_bound I \<le> i_bound J \<and> i_pad I = i_pad J \<and> i_lib I = i_lib J \<and> i_getpwnam I = i_getpwnam J"

lemma le_refl: "le_run m m"
  by (simp add: le_run_def)

lemma le_trans: "le_run a b \<Longrightarrow> le_run b c \<Longrightarrow> le_run a c"
  by (simp add: le_run_def)

lemma le_fail [mono_intros]: "le_run (fail NoFuel) m"
  by (simp add: le_run_def fail_def)

lemma le_bnd [mono_intros]: "le_run m m' \<Longrightarrow> (\<And>x. le_run (f x) (f' x)) \<Longrightarrow> le_run (bnd m f) (bnd m' f')"
  unfolding le_run_def bnd_def
  by (auto split: prod.splits res.splits)

lemma le_sq [mono_intros]: "le_run m m' \<Longrightarrow> le_run n n' \<Longrightarrow> le_run (sq m n) (sq m' n')"
  unfolding sq_def by (intro le_bnd)

lemma le_always [mono_intros]: "le_run m m' \<Longrightarrow> le_run (always m fin) (always m' fin)"
  unfolding le_run_def always_def by (auto split: prod.splits)

lemma le_catching [mono_intros]:
  "le_run m m' \<Longrightarrow> (\<And>e. le_run (h e) (h' e)) \<Longrightarrow> le_run a a' \<Longrightarrow> le_run (catching m h a) (catching m' h' a')"
  unfolding le_run_def catching_def by (auto split: prod.splits res.splits)

lemma le_if [mono_intros]:
  "(b \<Longrightarrow> le_run m m') \<Longrightarrow> (\<not> b \<Longrightarrow> le_run n n') \<Longrightarrow> le_run (if b then m else n) (if b then m' else n')"
  by simp

lemma le_option [mono_intros]:
  "le_run m m' \<Longrightarrow> (\<And>y. le_run (f y) (f' y)) \<Longrightarrow>
   le_run (case x of None \<Rightarrow> m | Some y \<Rightarrow> f y) (case x of None \<Rightarrow> m' | Some y \<Rightarrow> f' y)"
  by (simp split: option.splits)

lemma le_prod [mono_intros]:
  "(\<And>x y. le_run (f x y) (f' x y)) \<Longrightarrow> le_run (case p of (x, y) \<Rightarrow> f x y) (case p of (x, y) \<Rightarrow> f' x y)"
  by (simp split: prod.splits)

lemma le_sum [mono_intros]:
  "(\<And>x. le_run (f x) (f' x)) \<Longrightarrow> (\<And>y. le_run (g y) (g' y)) \<Longrightarrow>
   le_run (case s of Inl x \<Rightarrow> f x | Inr y \<Rightarrow> g y) (case s of Inl x \<Rightarrow> f' x | Inr y \<Rightarrow> g' y)"
  by (simp split: sum.splits)

lemma le_let [mono_intros]: "(\<And>x. le_run (f x) (f' x)) \<Longrightarrow> le_run (Let a f) (Let a f')"
  by simp

lemma le_with_in [mono_intros]: "(\<And>i. le_run (f i) (f' i)) \<Longrightarrow> le_run (with_in s f) (with_in s f')"
  unfolding with_in_def by (intro le_bnd le_always le_refl)

lemma le_with_out [mono_intros]: "(\<And>i. le_run (f i) (f' i)) \<Longrightarrow> le_run (with_out s f) (with_out s f')"
  unfolding with_out_def by (intro le_bnd le_always le_refl)

lemma le_with_ctx [mono_intros]: "(\<And>i. le_run (f i) (f' i)) \<Longrightarrow> le_run (with_ctx s f) (with_ctx s f')"
  unfolding with_ctx_def by (intro le_bnd le_always le_refl)

lemma le_with_env_ctx [mono_intros]: "(\<And>i. le_run (f i) (f' i)) \<Longrightarrow> le_run (with_env_ctx f) (with_env_ctx f')"
  unfolding with_env_ctx_def by (intro le_bnd le_always le_refl)

lemma le_with_cell [mono_intros]: "(\<And>i. le_run (f i) (f' i)) \<Longrightarrow> le_run (with_cell s f) (with_cell s f')"
  unfolding with_cell_def by (intro le_bnd le_always le_refl)

lemma le_capture [mono_intros]: "(\<And>i. le_run (f i) (f' i)) \<Longrightarrow> le_run (capture f) (capture f')"
  unfolding capture_def by (intro le_with_out le_sq le_refl)

lemma le_each [mono_intros]: "(\<And>x. le_run (f x) (f' x)) \<Longrightarrow> le_run (each f xs) (each f' xs)"
  by (induction xs) (auto intro: le_sq le_refl)

section \<open>The interpreter's functions\<close>

lemma le_interpD [mono_intros]:
  assumes "le_interp I J"
  shows "le_run (i_Parse I t inn out) (i_Parse J t inn out)"
    "le_run (i_ParseFunc I t inn out) (i_ParseFunc J t inn out)"
    "le_run (i_Eval I a t out args) (i_Eval J a t out args)"
    "le_run (i_RunCompiled I t inn out) (i_RunCompiled J t inn out)"
    "le_run (i_CompFunc I t rn ob inn out) (i_CompFunc J t rn ob inn out)"
  using assms by (simp_all add: le_interp_def)

lemma le_interp_eq:
  assumes "le_interp I J"
  shows "i_pad I = i_pad J" "i_lib I = i_lib J" "i_getpwnam I = i_getpwnam J" "i_bound I \<le> i_bound J"
  using assms by (simp_all add: le_interp_def)

lemma le_arg_loop [mono_intros]:
  assumes "le_interp I J"
  shows "le_run (arg_loop n I t inn cur numsp quoted qcnt lpc c) (arg_loop n J t inn cur numsp quoted qcnt lpc c)"
proof (induction n arbitrary: numsp quoted qcnt lpc c)
  case (Suc n)
  then show ?case unfolding arg_loop.simps Let_def by (intro mono_intros le_refl assms)
qed (simp add: le_fail)

lemma le_ParseArg [mono_intros]: "le_interp I J \<Longrightarrow> le_run (ParseArg I t inn cur c) (ParseArg J t inn cur c)"
  unfolding ParseArg_def Let_def by (intro mono_intros le_refl)

lemma le_arg_text [mono_intros]: "le_interp I J \<Longrightarrow> le_run (arg_text I t inn c) (arg_text J t inn c)"
  unfolding arg_text_def Let_def by (intro mono_intros le_refl)

lemma le_args_loop [mono_intros]:
  assumes "le_interp I J"
  shows "le_run (args_loop n I t inn ary) (args_loop n J t inn ary)"
proof (induction n arbitrary: ary)
  case (Suc n)
  then show ?case unfolding args_loop.simps Let_def by (intro mono_intros le_refl assms)
qed (simp add: le_fail)

lemma le_ParseArgs [mono_intros]: "le_interp I J \<Longrightarrow> le_run (ParseArgs I t inn) (ParseArgs J t inn)"
  unfolding ParseArgs_def Let_def by (intro mono_intros le_refl)

lemma le_qmap_loop [mono_intros]:
  assumes "le_interp I J"
  shows "le_run (qmap_loop n I t inn qmode qmap ary) (qmap_loop n J t inn qmode qmap ary)"
proof (induction n arbitrary: qmode qmap ary)
  case (Suc n)
  then show ?case unfolding qmap_loop.simps Let_def by (intro mono_intros le_refl assms)
qed (simp add: le_fail)

lemma le_ParseArgsQmap [mono_intros]: "le_interp I J \<Longrightarrow> le_run (ParseArgsQmap I t inn qmap) (ParseArgsQmap J t inn qmap)"
  unfolding ParseArgsQmap_def Let_def by (intro mono_intros le_refl)

lemma le_call_obj [mono_intros]: "le_interp I J \<Longrightarrow> le_run (call_obj I t inn out a) (call_obj J t inn out a)"
  unfolding call_obj_def Let_def by (intro mono_intros le_refl)

lemma le_name_loop [mono_intros]:
  assumes "le_interp I J"
  shows "le_run (name_loop n I t inn out name) (name_loop n J t inn out name)"
proof (induction n arbitrary: name)
  case (Suc n)
  then show ?case unfolding name_loop.simps Let_def by (intro mono_intros le_refl assms)
qed (simp add: le_fail)

lemma le_ParseFunc [mono_intros]: "le_interp I J \<Longrightarrow> le_run (ParseFunc I t inn out) (ParseFunc J t inn out)"
  unfolding ParseFunc_def Let_def by (intro mono_intros le_refl)

lemma le_ParseC [mono_intros]: "le_interp I J \<Longrightarrow> le_run (ParseC I t inn out c) (ParseC J t inn out c)"
  unfolding ParseC_def Let_def by (intro mono_intros le_refl)

lemma le_parse_loop [mono_intros]:
  assumes "le_interp I J"
  shows "le_run (parse_loop n I t inn out) (parse_loop n J t inn out)"
proof (induction n arbitrary: out)
  case (Suc n)
  then show ?case unfolding parse_loop.simps Let_def by (intro mono_intros le_refl assms)
qed (simp add: le_fail)

lemma le_Parse [mono_intros]: "le_interp I J \<Longrightarrow> le_run (Parse I t inn out) (Parse J t inn out)"
  unfolding Parse_def Let_def by (intro mono_intros le_refl)

lemma le_ParseTrim [mono_intros]: "le_interp I J \<Longrightarrow> le_run (ParseTrim I t inn out) (ParseTrim J t inn out)"
  unfolding ParseTrim_def Let_def by (intro mono_intros le_refl)

lemma le_ParseIn [mono_intros]: "le_interp I J \<Longrightarrow> le_run (ParseIn I t s out) (ParseIn J t s out)"
  unfolding ParseIn_def Let_def by (intro mono_intros le_refl)

lemma le_ParseStr [mono_intros]: "le_interp I J \<Longrightarrow> le_run (ParseStr I t s) (ParseStr J t s)"
  unfolding ParseStr_def Let_def by (intro mono_intros le_refl)

lemma le_ParseTry [mono_intros]: "le_interp I J \<Longrightarrow> le_run (ParseTry I t inn out) (ParseTry J t inn out)"
  unfolding ParseTry_def Let_def by (intro mono_intros le_refl)

lemma le_OutFlush [mono_intros]: "le_interp I J \<Longrightarrow> le_run (OutFlush I ob out) (OutFlush J ob out)"
  unfolding OutFlush_def by (simp only: le_interp_eq [of I J] le_refl)

lemma le_OutFunc [mono_intros]: "le_interp I J \<Longrightarrow> le_run (OutFunc I rn out name ary) (OutFunc J rn out name ary)"
  unfolding OutFunc_def by (simp only: le_interp_eq [of I J] le_refl)

lemma le_out_text [mono_intros]: "le_interp I J \<Longrightarrow> le_run (out_text I rn cur tmp) (out_text J rn cur tmp)"
  unfolding out_text_def by (simp only: le_interp_eq [of I J] le_refl)

lemma le_comp_arg_loop [mono_intros]:
  assumes "le_interp I J"
  shows "le_run (comp_arg_loop n I t rn ob inn cur tmp numsp quoted qcnt lpc c) (comp_arg_loop n J t rn ob inn cur tmp numsp quoted qcnt lpc c)"
proof (induction n arbitrary: tmp numsp quoted qcnt lpc c)
  case (Suc n)
  then show ?case unfolding comp_arg_loop.simps Let_def by (intro mono_intros le_refl assms)
qed (simp add: le_fail)

lemma le_ParseCompArg [mono_intros]: "le_interp I J \<Longrightarrow> le_run (ParseCompArg I t rn ob inn cur c) (ParseCompArg J t rn ob inn cur c)"
  unfolding ParseCompArg_def Let_def by (intro mono_intros le_refl)

lemma le_comp_arg_text [mono_intros]: "le_interp I J \<Longrightarrow> le_run (comp_arg_text I t rn ob inn c) (comp_arg_text J t rn ob inn c)"
  unfolding comp_arg_text_def Let_def by (intro mono_intros le_refl)

lemma le_comp_args_loop [mono_intros]:
  assumes "le_interp I J"
  shows "le_run (comp_args_loop n I t rn ob inn qmode qmap ary) (comp_args_loop n J t rn ob inn qmode qmap ary)"
proof (induction n arbitrary: qmode qmap ary)
  case (Suc n)
  then show ?case unfolding comp_args_loop.simps Let_def by (intro mono_intros le_refl assms)
qed (simp add: le_fail)

lemma le_ParseCompArgs [mono_intros]: "le_interp I J \<Longrightarrow> le_run (ParseCompArgs I t rn ob inn qmap) (ParseCompArgs J t rn ob inn qmap)"
  unfolding ParseCompArgs_def Let_def by (intro mono_intros le_refl)

lemma le_comp_name_loop [mono_intros]:
  assumes "le_interp I J"
  shows "le_run (comp_name_loop n I t rn ob inn out name) (comp_name_loop n J t rn ob inn out name)"
proof (induction n arbitrary: name)
  case (Suc n)
  then show ?case unfolding comp_name_loop.simps Let_def by (intro mono_intros le_refl assms)
qed (simp add: le_fail)

lemma le_CompFunc [mono_intros]: "le_interp I J \<Longrightarrow> le_run (CompFunc I t rn ob inn out) (CompFunc J t rn ob inn out)"
  unfolding CompFunc_def Let_def by (intro mono_intros le_refl)

lemma le_comp_loop [mono_intros]:
  assumes "le_interp I J"
  shows "le_run (comp_loop n I t rn ob inn out) (comp_loop n J t rn ob inn out)"
proof (induction n arbitrary: out)
  case (Suc n)
  then show ?case unfolding comp_loop.simps Let_def by (intro mono_intros le_refl assms)
qed (simp add: le_fail)

lemma le_comp_Parse [mono_intros]: "le_interp I J \<Longrightarrow> le_run (comp_Parse I p rn s out) (comp_Parse J p rn s out)"
  unfolding comp_Parse_def Let_def by (intro mono_intros le_refl)

lemma le_run_arg [mono_intros]: "le_interp I J \<Longrightarrow> le_run (run_arg I t inn r qmode i ary) (run_arg J t inn r qmode i ary)"
  unfolding run_arg_def Let_def by (intro mono_intros le_refl)

lemma le_run_args [mono_intros]:
  assumes "le_interp I J"
  shows "le_run (run_args n I t inn r plain qmode qmap i ary) (run_args n J t inn r plain qmode qmap i ary)"
proof (induction n arbitrary: qmode qmap i ary)
  case (Suc n)
  then show ?case unfolding run_args.simps Let_def by (intro mono_intros le_refl assms)
qed (simp add: le_refl)

lemma le_run_func [mono_intros]: "le_interp I J \<Longrightarrow> le_run (run_func I t inn out r name) (run_func J t inn out r name)"
  unfolding run_func_def Let_def by (intro mono_intros le_refl)

lemma le_run_loop [mono_intros]:
  assumes "le_interp I J"
  shows "le_run (run_loop n I t inn out) (run_loop n J t inn out)"
proof (induction n arbitrary: out)
  case (Suc n)
  then show ?case unfolding run_loop.simps Let_def by (intro mono_intros le_refl assms)
qed (simp add: le_fail)

lemma le_RunCompiled [mono_intros]: "le_interp I J \<Longrightarrow> le_run (RunCompiled I t inn out) (RunCompiled J t inn out)"
  unfolding RunCompiled_def Let_def by (intro mono_intros le_refl)

section \<open>The core macros\<close>

lemma le_VALID_ARGM [mono_intros]: "le_run b b' \<Longrightarrow> le_run (VALID_ARGM name mn t out args b) (VALID_ARGM name mn t out args b')"
  by (simp add: VALID_ARGM_def le_refl)

lemma le_VALID_ARGC [mono_intros]: "le_run b b' \<Longrightarrow> le_run (VALID_ARGC name mn mx t out args b) (VALID_ARGC name mn mx t out args b')"
  by (simp add: VALID_ARGC_def le_refl le_VALID_ARGM)

lemma le_obj [mono_intros]:
  assumes "\<And>s. le_run (f1 s) (g1 s)" "\<And>i. le_run (f2 i) (g2 i)" "\<And>i. le_run (f3 i) (g3 i)"
    "\<And>d f q. le_run (f4 d f q) (g4 d f q)" "\<And>b ps q r. le_run (f5 b ps q r) (g5 b ps q r)"
    "\<And>a as. le_run (f6 a as) (g6 a as)" "\<And>s. le_run (f7 s) (g7 s)" "\<And>a. le_run (f8 a) (g8 a)"
    "\<And>a c. le_run (f9 a c) (g9 a c)"
  shows "le_run (case_obj f1 f2 f3 f4 f5 f6 f7 f8 f9 x) (case_obj g1 g2 g3 g4 g5 g6 g7 g8 g9 x)"
  using assms by (cases x) simp_all

lemma le_CreateDef [mono_intros]: "le_interp I J \<Longrightarrow> le_run (CreateDef I t args) (CreateDef J t args)"
  unfolding CreateDef_def Let_def by (intro mono_intros le_refl)

lemma le_EvalDefine [mono_intros]: "le_interp I J \<Longrightarrow> le_run (EvalDefine I t out args) (EvalDefine J t out args)"
  unfolding EvalDefine_def Let_def by (intro mono_intros le_refl)

lemma le_EvalGDefine [mono_intros]: "le_interp I J \<Longrightarrow> le_run (EvalGDefine I t out args) (EvalGDefine J t out args)"
  unfolding EvalGDefine_def Let_def by (intro mono_intros le_refl)

lemma le_qObjDef_Eval [mono_intros]: "le_interp I J \<Longrightarrow> le_run (qObjDef_Eval I this body params t out args) (qObjDef_Eval J this body params t out args)"
  unfolding qObjDef_Eval_def Let_def by (intro mono_intros le_refl)

lemma le_qObjDefArgs_Eval [mono_intros]: "le_interp I J \<Longrightarrow> le_run (qObjDefArgs_Eval I def myargs t out args) (qObjDefArgs_Eval J def myargs t out args)"
  unfolding qObjDefArgs_Eval_def Let_def by (intro mono_intros le_refl)

lemma le_EvalExpand [mono_intros]: "le_interp I J \<Longrightarrow> le_run (EvalExpand I t out args) (EvalExpand J t out args)"
  unfolding EvalExpand_def Let_def by (intro mono_intros le_refl)

lemma le_EvalCompile [mono_intros]: "le_interp I J \<Longrightarrow> le_run (EvalCompile I t out args) (EvalCompile J t out args)"
  unfolding EvalCompile_def Let_def by (intro mono_intros le_refl)

lemma le_EvalSafeExpand [mono_intros]: "le_interp I J \<Longrightarrow> le_run (EvalSafeExpand I t out args) (EvalSafeExpand J t out args)"
  unfolding EvalSafeExpand_def Let_def by (intro mono_intros le_refl)

lemma le_EvalInvoke [mono_intros]: "le_interp I J \<Longrightarrow> le_run (EvalInvoke I t out args) (EvalInvoke J t out args)"
  unfolding EvalInvoke_def Let_def by (intro mono_intros le_refl)

lemma le_EvalNil [mono_intros]: "le_interp I J \<Longrightarrow> le_run (EvalNil I t out args) (EvalNil J t out args)"
  unfolding EvalNil_def Let_def by (intro mono_intros le_refl)

lemma le_EvalNull [mono_intros]: "le_interp I J \<Longrightarrow> le_run (EvalNull I t out args) (EvalNull J t out args)"
  unfolding EvalNull_def Let_def by (intro mono_intros le_refl)

lemma le_if_loop [mono_intros]:
  "le_interp I J \<Longrightarrow> le_run (if_loop I t out xs) (if_loop J t out xs)"
proof (induction I t out xs rule: if_loop.induct)
  case (1 I t out c b rest)
  then show ?case unfolding if_loop.simps by (intro mono_intros le_refl)
next
  case (2 I t out e)
  then show ?case unfolding if_loop.simps by (intro mono_intros le_refl)
qed (simp add: le_refl)

lemma le_and_loop [mono_intros]:
  "le_interp I J \<Longrightarrow> le_run (and_loop I t out xs) (and_loop J t out xs)"
proof (induction I t out xs rule: and_loop.induct)
  case (2 I t out c cs)
  then show ?case unfolding and_loop.simps by (intro mono_intros le_refl)
qed (simp add: le_refl)

lemma le_or_loop [mono_intros]:
  "le_interp I J \<Longrightarrow> le_run (or_loop I t out xs) (or_loop J t out xs)"
proof (induction I t out xs rule: or_loop.induct)
  case (2 I t out c cs)
  then show ?case unfolding or_loop.simps by (intro mono_intros le_refl)
qed (simp add: le_refl)

lemma le_EvalIf [mono_intros]: "le_interp I J \<Longrightarrow> le_run (EvalIf I t out args) (EvalIf J t out args)"
  unfolding EvalIf_def Let_def by (intro mono_intros le_refl)

lemma le_EvalAnd [mono_intros]: "le_interp I J \<Longrightarrow> le_run (EvalAnd I t out args) (EvalAnd J t out args)"
  unfolding EvalAnd_def Let_def by (intro mono_intros le_refl)

lemma le_EvalOr [mono_intros]: "le_interp I J \<Longrightarrow> le_run (EvalOr I t out args) (EvalOr J t out args)"
  unfolding EvalOr_def Let_def by (intro mono_intros le_refl)

lemma le_for_loop [mono_intros]:
  assumes "le_interp I J"
  shows "n \<le> m \<Longrightarrow> le_run (for_loop n I sub out body i ok to step) (for_loop m J sub out body i ok to step)"
proof (induction n arbitrary: m )
  case (Suc n)
  then obtain m' where m: "m = Suc m'" "n \<le> m'" by (cases m) auto
  show ?case unfolding m(1) for_loop.simps by (intro mono_intros le_refl assms Suc.IH m(2))
qed (simp add: le_fail)

lemma le_EvalFor [mono_intros]: "le_interp I J \<Longrightarrow> le_run (EvalFor I t out args) (EvalFor J t out args)"
  unfolding EvalFor_def Let_def by (intro mono_intros le_refl le_interp_eq)

lemma le_max_iteration [mono_intros]: "le_interp I J \<Longrightarrow> le_run (max_iteration I t) (max_iteration J t)"
  unfolding max_iteration_def Let_def by (intro mono_intros le_refl)

lemma le_while_loop [mono_intros]:
  assumes "le_interp I J"
  shows "n \<le> m \<Longrightarrow> le_run (while_loop n I t out args ok loopMax i) (while_loop m J t out args ok loopMax i)"
proof (induction n arbitrary: m i)
  case (Suc n)
  then obtain m' where m: "m = Suc m'" "n \<le> m'" by (cases m) auto
  show ?case unfolding m(1) while_loop.simps by (intro mono_intros le_refl assms Suc.IH m(2))
qed (simp add: le_fail)

lemma le_EvalWhile [mono_intros]: "le_interp I J \<Longrightarrow> le_run (EvalWhile I t out args) (EvalWhile J t out args)"
  unfolding EvalWhile_def by (intro mono_intros le_refl le_interp_eq)

lemma le_do_loop [mono_intros]:
  assumes "le_interp I J"
  shows "n \<le> m \<Longrightarrow> le_run (do_loop n I t out args ok loopMax i) (do_loop m J t out args ok loopMax i)"
proof (induction n arbitrary: m i)
  case (Suc n)
  then obtain m' where m: "m = Suc m'" "n \<le> m'" by (cases m) auto
  show ?case unfolding m(1) do_loop.simps by (intro mono_intros le_refl assms Suc.IH m(2))
qed (simp add: le_fail)

lemma le_EvalDo [mono_intros]: "le_interp I J \<Longrightarrow> le_run (EvalDo I t out args) (EvalDo J t out args)"
  unfolding EvalDo_def by (intro mono_intros le_refl le_interp_eq)

lemma le_EvalTry [mono_intros]: "le_interp I J \<Longrightarrow> le_run (EvalTry I t out args) (EvalTry J t out args)"
  unfolding EvalTry_def Let_def by (intro mono_intros le_refl)

lemma le_EvalSafeUID [mono_intros]: "le_interp I J \<Longrightarrow> le_run (EvalSafeUID I t out args) (EvalSafeUID J t out args)"
  unfolding EvalSafeUID_def by (simp only: le_interp_eq [of I J] le_refl)

lemma le_EvalFunc [mono_intros]: "le_interp I J \<Longrightarrow> le_run (EvalFunc I data f t out args) (EvalFunc J data f t out args)"
  by (cases f) (simp_all add: EvalFunc_def le_refl le_interp_eq [of I J] mono_intros)

lemma le_EvalObj [mono_intros]: "le_interp I J \<Longrightarrow> le_run (EvalObj I a t out args) (EvalObj J a t out args)"
  unfolding EvalObj_def Let_def by (intro mono_intros le_refl)

section \<open>The interpreter\<close>

lemma le_deeper: "le_interp I J \<Longrightarrow> le_interp (deeper I) (deeper J)"
  unfolding le_interp_def deeper_def interp.simps
  by (intro conjI allI mono_intros) (auto simp: le_interp_def)

lemma le_no_interp: "le_interp (no_interp e) (smx e n)"
proof -
  have "i_pad (smx e n) = o_pad e \<and> i_lib (smx e n) = o_lib e \<and> i_getpwnam (smx e n) = o_getpwnam e"
    by (induction n) (simp_all add: no_interp_def deeper_def)
  then show ?thesis by (simp add: le_interp_def no_interp_def le_fail)
qed

lemma le_smx_Suc: "le_interp (smx e n) (smx e (Suc n))"
  by (induction n) (simp_all add: le_no_interp [of e 1, simplified] le_deeper)

lemma le_interp_trans: "le_interp I J \<Longrightarrow> le_interp J K \<Longrightarrow> le_interp I K"
  unfolding le_interp_def by (intro conjI allI) (simp_all, (metis le_trans)+)

lemma le_interp_refl: "le_interp I I"
  by (simp add: le_interp_def le_refl)

lemma le_smx: "n \<le> m \<Longrightarrow> le_interp (smx e n) (smx e m)"
  by (induction rule: dec_induct) (auto intro: le_interp_refl le_interp_trans le_smx_Suc simp del: smx.simps)


end
