(* ===== verification/Evaluate.thy ===== *)
theory Evaluate
  imports Fuel
begin

text \<open>
  Rules with which the simplifier runs the interpreter on a concrete state: every operation
  is unfolded only where it is applied to a state, and the second part of a sequence only
  when the result of the first is known.
\<close>

named_theorems run_eval \<open>unfolding of the interpreter on a given state\<close>

definition after :: "'a res \<times> world \<Rightarrow> ('a \<Rightarrow> 'b run) \<Rightarrow> 'b res \<times> world" where
  "after p f = (case p of (r, w) \<Rightarrow> (case r of Ok x \<Rightarrow> f x w | _ \<Rightarrow> (failed r, w)))"

definition finally_do :: "'a res \<times> world \<Rightarrow> unit run \<Rightarrow> 'a res \<times> world" where
  "finally_do p fin = always (\<lambda>w. p) fin (snd p)"

definition handled :: "'a res \<times> world \<Rightarrow> (exn \<Rightarrow> 'a run) \<Rightarrow> 'a run \<Rightarrow> 'a res \<times> world" where
  "handled p h ha = catching (\<lambda>w. p) h ha (snd p)"

lemma after_cong [cong]: "p = q \<Longrightarrow> after p f = after q f"
  by simp

lemma finally_do_cong [cong]: "p = q \<Longrightarrow> finally_do p f = finally_do q f"
  by simp

lemma handled_cong [cong]: "p = q \<Longrightarrow> handled p f g = handled q f g"
  by simp

lemma after_run [run_eval]:
  "after (Ok x, w) f = f x w" "after (Raise e, w) f = (Raise e, w)" "after (Aborted, w) f = (Aborted, w)"
  "after (Crash, w) f = (Crash, w)" "after (NoFuel, w) f = (NoFuel, w)"
  by (simp_all add: after_def)

lemma finally_do_run [run_eval]:
  "finally_do (Crash, w) fin = (Crash, w)" "finally_do (NoFuel, w) fin = (NoFuel, w)"
  "finally_do (Ok x, w) fin = after (fin w) (\<lambda>u. ret x)"
  "finally_do (Raise e, w) fin = after (fin w) (\<lambda>u. fail (Raise e))"
  "finally_do (Aborted, w) fin = after (fin w) (\<lambda>u. fail Aborted)"
  by (auto simp: finally_do_def always_def after_def ret_def fail_def split: prod.splits res.splits)

lemma handled_run [run_eval]:
  "handled (Ok x, w) h ha = (Ok x, w)" "handled (Crash, w) h ha = (Crash, w)" "handled (NoFuel, w) h ha = (NoFuel, w)"
  "handled (Raise e, w) h ha = h e w" "handled (Aborted, w) h ha = ha w"
  by (simp_all add: handled_def catching_def)

lemma combinators_run [run_eval]:
  "bnd m f w = after (m w) f" "sq m n w = after (m w) (\<lambda>u. n)"
  "always m fin w = finally_do (m w) fin" "catching m h ha w = handled (m w) h ha"
  by (simp_all add: bnd_def sq_def after_def finally_do_def handled_def catching_def always_def)

lemma branch_run [run_eval]:
  "(if b then m else n) w = (if b then m w else (n w :: 'a res \<times> world))"
  "Let a g w = (g a w :: 'a res \<times> world)"
  by simp_all

lemmas [run_eval] = ret_def fail_def
  assert_ok_def [THEN fun_cong] GetC_def UngetC_def GetS_def GetN_def GetLineNum_def [THEN fun_cong]
  PutS_def [THEN fun_cong] PutC_def [THEN fun_cong] PutZ_def [THEN fun_cong] PutN_def [THEN fun_cong]
  Clear_def [THEN fun_cong] with_in_def [THEN fun_cong] with_out_def [THEN fun_cong]
  capture_def [THEN fun_cong] new_obj_def deref_def set_obj_def [THEN fun_cong] Free_def [THEN fun_cong]
  AddRef_def [THEN fun_cong] with_cell_def [THEN fun_cong] read_cell_def write_cell_def rand_def
  Construct_def put_ctx_def ctx_Clear_def [THEN fun_cong] with_ctx_def [THEN fun_cong] with_env_ctx_def [THEN fun_cong]
  FindL_def al_find_def al_set_def al_del_def FindC_def Find_where_def Find_def [THEN fun_cong]
  MapObj_def [THEN fun_cong] MapNew_def [THEN fun_cong] DelObj_def [THEN fun_cong]
  DelObjTop_def [THEN fun_cong] MapObjTop_def [THEN fun_cong] MapObjLet_def [THEN fun_cong]
  Throw_def [THEN fun_cong] ThrowId_def [THEN fun_cong] ThrowF_def [THEN fun_cong]
  AddTry_def [THEN fun_cong] RemTry_def [THEN fun_cong] SetErrorHandler_def [THEN fun_cong]
  SetStrict_def [THEN fun_cong] SetSafeMode_def [THEN fun_cong] SetSafeUID_def [THEN fun_cong]
  room_def [THEN fun_cong] skip_space_def [THEN fun_cong] ParseArgsLPar_def [THEN fun_cong]
  ParseArgEscaped_def [THEN fun_cong] ParseArgQuoted_def [THEN fun_cong] Shorten_def [THEN fun_cong]
  ParseArg_def [THEN fun_cong] arg_text_def [THEN fun_cong] add_arg_def [THEN fun_cong]
  ParseArgs_def [THEN fun_cong] ParseArgsQmap_def [THEN fun_cong] GetQmap_def [THEN fun_cong]
  call_obj_def [THEN fun_cong] not_found_def [THEN fun_cong] bad_syntax_def [THEN fun_cong]
  ParseFunc_def [THEN fun_cong] ParseC_def [THEN fun_cong] too_deep_def Parse_def [THEN fun_cong]
  ParseTrim_def [THEN fun_cong] ParseIn_def [THEN fun_cong] ParseStr_def [THEN fun_cong]
  map_exn_def [THEN fun_cong] put_error_def [THEN fun_cong] ParseTry_def [THEN fun_cong]
  OutFlush_def [THEN fun_cong] random_byte_def [THEN fun_cong] OutFunc_def [THEN fun_cong]
  out_text_def [THEN fun_cong] ParseCompArg_def [THEN fun_cong] comp_arg_text_def [THEN fun_cong]
  ParseCompArgs_def [THEN fun_cong] CompFunc_def [THEN fun_cong] comp_Parse_def [THEN fun_cong]
  run_arg_def [THEN fun_cong] run_func_def [THEN fun_cong] RunCompiled_def [THEN fun_cong]
  VALID_ARGM_def [THEN fun_cong] VALID_ARGC_def [THEN fun_cong] EvalSet_def [THEN fun_cong]
  EvalGSet_def [THEN fun_cong] EvalLet_def [THEN fun_cong] EvalDefined_def [THEN fun_cong]
  CreateDef_def [THEN fun_cong] EvalDefine_def [THEN fun_cong] EvalGDefine_def [THEN fun_cong]
  map_param_def [THEN fun_cong] qObjDef_Eval_def [THEN fun_cong] qObjDefArgs_Eval_def [THEN fun_cong]
  EvalExpand_def [THEN fun_cong] EvalCompile_def [THEN fun_cong] EvalSafeExpand_def [THEN fun_cong]
  EvalInvoke_def [THEN fun_cong] EvalNilOut_def [THEN fun_cong] EvalNil_def [THEN fun_cong]
  EvalNull_def [THEN fun_cong] EvalIf_def [THEN fun_cong] EvalAnd_def [THEN fun_cong]
  EvalOr_def [THEN fun_cong] EvalNot_def [THEN fun_cong] EvalBreak_def [THEN fun_cong]
  EvalFor_def [THEN fun_cong] max_iteration_def [THEN fun_cong] map_break_def [THEN fun_cong]
  EvalWhile_def [THEN fun_cong] EvalDo_def [THEN fun_cong] EvalTry_def [THEN fun_cong]
  EvalThrow_def [THEN fun_cong] EvalErrorHandler_def [THEN fun_cong] EvalStrict_def [THEN fun_cong]
  EvalSafeMode_def [THEN fun_cong] EvalSafeUID_def [THEN fun_cong] EvalSmxQuote_def [THEN fun_cong]
  EvalFunc_def [THEN fun_cong] EvalObj_def [THEN fun_cong] expand_def [THEN fun_cong]

text \<open>The pure parts.\<close>

lemmas [run_eval] = no_args_def Count_def GetAt_def SetAt_def Add_def SetQuot_def GetQuot_def int8_def
  int16_def cstr_def fold_case_def scramble_def C_BASE_def C_ARGS_def C_ARG_def BC_FUNC_def BC_OUT_def ARG_STR_def
  ARG_QSTR_def ARG_CMP_def byte_def le16_def le32_def base_bc_def base_rn_def base_ln_def args_cnt_def
  arg_at_def arg_ln_def OutArg_def plain_args_def kind_digit_def AddArgName_def needs_quote_def
  quote_char_def SmxQuote_def ParseBool_def RTrim_def

section \<open>Loops with numerals as fuel\<close>

lemma numeral_Suc: "numeral k = Suc (pred_numeral k)"
  by simp

lemma smx_run [run_eval]:
  "i_Parse (smx e (Suc n)) = Parse (smx e n)" "i_ParseFunc (smx e (Suc n)) = ParseFunc (smx e n)"
  "i_Eval (smx e (Suc n)) = EvalObj (smx e n)" "i_RunCompiled (smx e (Suc n)) = RunCompiled (smx e n)"
  "i_CompFunc (smx e (Suc n)) = CompFunc (smx e n)" "i_bound (smx e (Suc n)) = Suc (i_bound (smx e n))"
  by (simp_all add: deeper_def)

lemma smx_numeral [run_eval]:
  "i_Parse (smx e (numeral k)) = Parse (smx e (pred_numeral k))"
  "i_ParseFunc (smx e (numeral k)) = ParseFunc (smx e (pred_numeral k))"
  "i_Eval (smx e (numeral k)) = EvalObj (smx e (pred_numeral k))"
  "i_RunCompiled (smx e (numeral k)) = RunCompiled (smx e (pred_numeral k))"
  "i_CompFunc (smx e (numeral k)) = CompFunc (smx e (pred_numeral k))"
  by (simp_all only: numeral_Suc smx_run)

lemma walk_numeral [run_eval]:
  "GetQmap_from (numeral k) a =
     bnd (deref a) (\<lambda>x. case x of ObjSafe b c \<Rightarrow> GetQmap_from (pred_numeral k) b | _ \<Rightarrow> ret (qmap_of x))"
  "Find_from (numeral k) w c name lim =
     (case FindC w c name lim of
        Some r \<Rightarrow> Some r
      | None \<Rightarrow>
          (case FindL w c name of
             Some a \<Rightarrow> Some (a, c)
           | None \<Rightarrow>
               (case c_parent (w_ctxs w ! c) of
                  Some q \<Rightarrow> if Some c = lim then None else Find_from (pred_numeral k) w q name lim
                | None \<Rightarrow> None)))"
  by (simp_all only: numeral_Suc GetQmap_from.simps Find_from.simps)

lemma smx_bound [simp]: "i_bound (smx e n) = n"
  by (induction n) (simp_all add: no_interp_def deeper_def)

lemma smx_outside [simp]:
  "i_pad (smx e n) = o_pad e" "i_lib (smx e n) = o_lib e" "i_getpwnam (smx e n) = o_getpwnam e"
  by (induction n) (simp_all add: no_interp_def deeper_def)

declare smx.simps [simp del]

end
