(* ===== verification/Templates.thy ===== *)
theory Templates
  imports Evaluate
begin

text \<open>
  What the parser and the compiler do with templates: documents made of plain text and of
  variables \<^verbatim>\<open>%name%\<close>. Plain text is copied; a variable is replaced by its value; compiling the
  template and running the code gives the same text as parsing it.
\<close>

section \<open>Reading and writing as state changes\<close>

abbreviation rest :: "istream \<Rightarrow> world \<Rightarrow> bytes" where
  "rest i w \<equiv> rb_rest (w_ins w ! i)"

definition took :: "nat \<Rightarrow> rbuf \<Rightarrow> rbuf" where
  "took n b = \<lparr>rb_past = rev (take n (rb_rest b)) @ rb_past b, rb_rest = drop n (rb_rest b)\<rparr>"

definition advance :: "istream \<Rightarrow> nat \<Rightarrow> world \<Rightarrow> world" where
  "advance i n w = w\<lparr>w_ins := (w_ins w)[i := took n (w_ins w ! i)]\<rparr>"

definition wrote :: "ostream \<Rightarrow> bytes \<Rightarrow> world \<Rightarrow> world" where
  "wrote out s w = w\<lparr>w_outs := (w_outs w)[out := put s (w_outs w ! out)]\<rparr>"

lemma GetC_Cons: "rest i w = c # cs \<Longrightarrow> GetC i w = (Ok c, advance i 1 w)"
  by (simp add: GetC_def advance_def took_def)

lemma GetC_Nil: "rest i w = [] \<Longrightarrow> GetC i w = (Ok EOF, w)"
  by (simp add: GetC_def)

lemma GetN_advance: "GetN i n w = (Ok (take n (rest i w)), advance i n w)"
  by (simp add: GetN_def advance_def took_def Let_def)

lemma PutS_wrote: "PutS out s w = (Ok (), wrote out s w)"
  by (simp add: PutS_def wrote_def)

lemma took_took: "took m (took n b) = took (n + m) b"
  unfolding took_def by (simp add: take_add) (simp add: add.commute)

lemma took_0 [simp]: "took 0 b = b"
  by (simp add: took_def)

lemma advance_advance [simp]: "advance i m (advance i n w) = advance i (n + m) w"
  by (cases "i < length (w_ins w)") (simp_all add: advance_def took_took list_update_beyond)

lemma put_put: "put t (put s b) = put (s @ t) b"
  by (cases b) simp_all

lemma put_Nil [simp]: "put [] b = b"
  by (cases b) simp_all

lemma wrote_wrote [simp]: "wrote out t (wrote out s w) = wrote out (s @ t) w"
  by (cases "out < length (w_outs w)") (simp_all add: wrote_def put_put list_update_beyond)

lemma wrote_Nil [simp]: "wrote out [] w = w"
  by (simp add: wrote_def)

lemma advance_0 [simp]: "advance i 0 w = w"
  by (simp add: advance_def)

lemma advance_wrote: "advance i n (wrote out s w) = wrote out s (advance i n w)"
  by (simp add: advance_def wrote_def)

lemma rest_advance [simp]: "i < length (w_ins w) \<Longrightarrow> rest i (advance i n w) = drop n (rest i w)"
  by (simp add: advance_def took_def)

lemma rest_wrote [simp]: "w_ins (wrote out s w) = w_ins w"
  by (simp add: wrote_def)

lemma other_fields [simp]:
  "w_ctxs (advance i n w) = w_ctxs w" "w_objs (advance i n w) = w_objs w" "w_outs (advance i n w) = w_outs w"
  "w_max (advance i n w) = w_max w" "w_ctxs (wrote out s w) = w_ctxs w" "w_objs (wrote out s w) = w_objs w"
  "w_max (wrote out s w) = w_max w" "length (w_ins (advance i n w)) = length (w_ins w)"
  "length (w_outs (wrote out s w)) = length (w_outs w)"
  by (simp_all add: advance_def wrote_def)

lemma room_run: "room i w = (Ok (length (rest i w) + 2), w)"
  by (simp add: room_def)

text \<open>Lookups depend on the contexts only.\<close>

lemma FindL_cong: "w_ctxs w = w_ctxs w' \<Longrightarrow> FindL w = FindL w'"
  by (simp add: FindL_def fun_eq_iff)

lemma pop_loop_cong:
  "w_ctxs w = w_ctxs w' \<Longrightarrow> pop_loop n w c pop p found = pop_loop n w' c pop p found"
  by (induction n w c pop p found rule: pop_loop.induct) (auto simp: FindL_def split: option.splits)

lemma FindC_cong: "w_ctxs w = w_ctxs w' \<Longrightarrow> FindC w c name lim = FindC w' c name lim"
  unfolding FindC_def Let_def by (simp add: pop_loop_cong [of w w'] del: pop_loop.simps split del: if_split cong: if_cong)

lemma Find_from_cong: "w_ctxs w = w_ctxs w' \<Longrightarrow> Find_from n w c name lim = Find_from n w' c name lim"
  by (induction n arbitrary: c) (simp_all add: FindC_cong [of w w'] FindL_def split: option.splits)

lemma Find_where_cong: "w_ctxs w = w_ctxs w' \<Longrightarrow> Find_where w c name lim = Find_where w' c name lim"
  unfolding Find_where_def by (rule Find_from_cong)

lemma Find_where_same [simp]:
  "Find_where (advance i n w) c name lim = Find_where w c name lim"
  "Find_where (wrote out s w) c name lim = Find_where w c name lim"
  by (rule Find_where_cong; simp)+

section \<open>Plain text\<close>

definition plain :: "bytes \<Rightarrow> bool" where
  "plain s \<longleftrightarrow> CHR ''%'' \<notin> set s \<and> EOF \<notin> set s"

lemma parse_loop_plain:
  fixes i :: istream
  shows "plain s \<Longrightarrow> rest i w = s @ r \<Longrightarrow> i < length (w_ins w) \<Longrightarrow> length s \<le> n \<Longrightarrow>
   parse_loop n I t i out w = parse_loop (n - length s) I t i out (wrote out s (advance i (length s) w))"
proof (induction s arbitrary: w n)
  case (Cons c s)
  then obtain m where n: "n = Suc m" by (cases n) auto
  have c: "c \<noteq> EOF" "c \<noteq> CHR ''%''" using Cons.prems(1) by (auto simp: plain_def)
  have "parse_loop n I t i out w = parse_loop m I t i out (wrote out [c] (advance i 1 w))"
    using Cons.prems(2) c by (simp add: n bnd_def sq_def GetC_Cons ParseC_def PutC_def PutS_wrote)
  also have "\<dots> = parse_loop (m - length s) I t i out (wrote out s (advance i (length s) (wrote out [c] (advance i 1 w))))"
    using Cons.prems n by (intro Cons.IH) (auto simp: plain_def)
  finally show ?case by (simp add: n advance_wrote)
qed simp

lemma parse_loop_end: "rest i w = [] \<Longrightarrow> n > 0 \<Longrightarrow> parse_loop n I t i out w = (Ok (), w)"
  by (cases n) (simp_all add: bnd_def GetC_Nil ret_def)

text \<open>text without a percent sign and without the byte 0xFF is copied to the output
  unchanged, read to its end, and changes nothing else in the interpreter's state.\<close>

theorem Parse_plain:
  assumes "plain s" "rest i w = s" "i < length (w_ins w)" "\<not> too_deep t w"
  shows "Parse I t i out w = (Ok (), wrote out s (advance i (length s) w))"
  using assms parse_loop_plain [of s w i "[]" "length s + 2" I t out]
  by (simp add: Parse_def bnd_def room_run parse_loop_end)

section \<open>Variables\<close>

definition valid_name :: "bytes \<Rightarrow> bool" where
  "valid_name nm \<longleftrightarrow> nm \<noteq> [] \<and> isqsymf (hd nm) \<and> list_all isqsym (tl nm)"

lemma isqsym_neq: "isqsym c \<Longrightarrow> c \<noteq> EOF \<and> c \<noteq> CHR ''('' \<and> c \<noteq> CHR ''%''"
  by (auto simp: c_char)

lemma isqsymf_neq: "isqsymf c \<Longrightarrow> c \<noteq> EOF \<and> c \<noteq> CHR ''('' \<and> c \<noteq> CHR ''%''"
  by (auto simp: c_char)

lemma name_loop_sym:
  "list_all isqsym s \<Longrightarrow> rest i w = s @ r \<Longrightarrow> i < length (w_ins w) \<Longrightarrow> length s \<le> n \<Longrightarrow>
   name_loop n I t i out nm w = name_loop (n - length s) I t i out (nm @ s) (advance i (length s) w)"
proof (induction s arbitrary: w n nm)
  case (Cons c s)
  then obtain m where n: "n = Suc m" by (cases n) auto
  have "name_loop n I t i out nm w = name_loop m I t i out (nm @ [c]) (advance i 1 w)"
    using Cons.prems(1,2) isqsym_neq [of c] by (simp add: n bnd_def GetC_Cons)
  also have "\<dots> = name_loop (m - length s) I t i out ((nm @ [c]) @ s) (advance i (length s) (advance i 1 w))"
    using Cons.prems n by (intro Cons.IH) auto
  finally show ?case by (simp add: n)
qed simp

text \<open>A variable in the input, up to its evaluation.\<close>

lemma ParseFunc_var:
  assumes "valid_name nm" "rest i w = nm @ CHR ''%'' # r" "i < length (w_ins w)"
    and "Find_where w t nm None = Some (a, c)"
    and "i_Eval I a t out no_args (advance i (length nm + 1) w) = (Ok (), w')"
  shows "ParseFunc I t i out w = (Ok True, w')"
proof -
  obtain d s where nm: "nm = d # s" "isqsymf d" "list_all isqsym s"
    using assms(1) by (cases nm) (auto simp: valid_name_def)
  let ?v = "advance i (length nm) w"
  have G: "GetC i w = (Ok d, advance i 1 w)" using assms(2) nm by (simp add: GetC_Cons)
  let ?n = "length s + Suc (length r + 2)"
  have len: "length (rest i (advance i 1 w)) + 2 = ?n"
    using assms(2,3) nm by simp
  have end_of_name: "GetC i ?v = (Ok (CHR ''%''), advance i (length nm + 1) w)"
    using assms(2,3) GetC_Cons [of ?v i "CHR ''%''" r] by simp
  have "name_loop ?n I t i out [d] (advance i 1 w) =
      name_loop (?n - length s) I t i out ([d] @ s) (advance i (length s) (advance i 1 w))"
    using assms(2,3) nm by (intro name_loop_sym [where r = "CHR ''%'' # r"]) auto
  also have "\<dots> = name_loop (Suc (length r + 2)) I t i out nm ?v"
    unfolding nm(1) advance_advance by (simp only: diff_add_inverse append.simps list.size add_Suc add_0)
       simp
  also have "\<dots> = (Ok (Inl True), w')"
    using end_of_name assms(4,5) nm(1) by (simp add: bnd_def Find_def sq_def ret_def)
  finally have N: "name_loop ?n I t i out [d] (advance i 1 w) = (Ok (Inl True), w')" .
  have "ParseFunc I t i out w =
      bnd (name_loop (length (rest i (advance i 1 w)) + 2) I t i out [d]) (\<lambda>r. case r of
          Inl b \<Rightarrow> ret b
        | Inr (name, d) \<Rightarrow>
            sq (if name \<noteq> [] then sq (PutC out (CHR ''%'')) (PutS out name)
                else if d = CHR ''('' then PutC out (CHR ''%'') else ret ())
              (sq (if d \<noteq> EOF then PutC out d else ret ()) (ret False))) (advance i 1 w)"
    unfolding ParseFunc_def by (simp only: bnd_Ok [where m = "GetC i", OF G] nm(2) if_True bnd_Ok [where m = "room i", OF room_run])
  then show ?thesis unfolding len by (simp only: bnd_Ok [where m = "name_loop ?n I t i out [d]", OF N] sum.case ret_def)
qed

section \<open>Templates\<close>

datatype piece = Text bytes | Var bytes

fun source :: "piece list \<Rightarrow> bytes" where
  "source [] = []"
| "source (Text s # ps) = s @ source ps"
| "source (Var nm # ps) = [CHR ''%''] @ nm @ [CHR ''%''] @ source ps"

text \<open>The value of a variable that a context maps to a string object.\<close>

definition value_of :: "world \<Rightarrow> ctx \<Rightarrow> bytes \<Rightarrow> bytes" where
  "value_of w t nm = (case Find_where w t nm None of Some (a, c) \<Rightarrow>
     (case w_objs w ! a of Some (ObjStr s) \<Rightarrow> s | _ \<Rightarrow> []) | None \<Rightarrow> [])"

definition string_var :: "world \<Rightarrow> ctx \<Rightarrow> bytes \<Rightarrow> bool" where
  "string_var w t nm \<longleftrightarrow> (\<exists>a c s. Find_where w t nm None = Some (a, c) \<and> a < length (w_objs w) \<and> w_objs w ! a = Some (ObjStr s))"

fun piece_ok :: "world \<Rightarrow> ctx \<Rightarrow> piece \<Rightarrow> bool" where
  "piece_ok w t (Text s) = plain s"
| "piece_ok w t (Var nm) = (valid_name nm \<and> string_var w t nm)"

fun meaning :: "world \<Rightarrow> ctx \<Rightarrow> piece list \<Rightarrow> bytes" where
  "meaning w t [] = []"
| "meaning w t (Text s # ps) = s @ meaning w t ps"
| "meaning w t (Var nm # ps) = value_of w t nm @ meaning w t ps"

lemma string_var_cong:
  assumes "w_ctxs w = w_ctxs w'" "w_objs w = w_objs w'"
  shows "string_var w t nm = string_var w' t nm" "value_of w t nm = value_of w' t nm"
  unfolding string_var_def value_of_def assms(2) Find_where_cong [OF assms(1)] by (rule refl)+

lemma meaning_cong:
  assumes "w_ctxs w = w_ctxs w'" "w_objs w = w_objs w'"
  shows "list_all (piece_ok w t) ps = list_all (piece_ok w' t) ps" "meaning w t ps = meaning w' t ps"
  by (induction ps rule: source.induct) (simp_all add: string_var_cong [OF assms])

lemma Eval_string:
  assumes "string_var w t nm"
  shows "\<exists>a c. Find_where w t nm None = Some (a, c) \<and>
    (\<forall>v. w_objs v = w_objs w \<longrightarrow> EvalObj I a t out args v = (Ok (), wrote out (value_of w t nm) v))"
  using assms by (auto simp: string_var_def value_of_def EvalObj_def deref_def bnd_def PutS_wrote)

lemma parse_loop_template:
  "list_all (piece_ok w t) ps \<Longrightarrow> rest i w = source ps @ r \<Longrightarrow> i < length (w_ins w) \<Longrightarrow> length (source ps) \<le> n \<Longrightarrow>
   \<exists>m. n - length (source ps) \<le> m \<and>
   parse_loop n (smx e (Suc (Suc k))) t i out w =
     parse_loop m (smx e (Suc (Suc k))) t i out (wrote out (meaning w t ps) (advance i (length (source ps)) w))"
proof (induction ps arbitrary: w n rule: source.induct)
  case 1
  then show ?case by auto
next
  case (2 s ps)
  let ?w = "wrote out s (advance i (length s) w)"
  have same: "w_ctxs ?w = w_ctxs w" "w_objs ?w = w_objs w" by simp_all
  have "parse_loop n (smx e (Suc (Suc k))) t i out w = parse_loop (n - length s) (smx e (Suc (Suc k))) t i out ?w"
    using 2 by (intro parse_loop_plain [where r = "source ps @ r"]) auto
  moreover have "\<exists>m. (n - length s) - length (source ps) \<le> m \<and>
      parse_loop (n - length s) (smx e (Suc (Suc k))) t i out ?w =
      parse_loop m (smx e (Suc (Suc k))) t i out (wrote out (meaning ?w t ps) (advance i (length (source ps)) ?w))"
    using 2 by (intro "2.IH") (auto simp: meaning_cong [OF same])
  ultimately show ?case by (auto simp: meaning_cong [OF same] advance_wrote)
next
  case (3 nm ps)
  then obtain m where n: "n = Suc m" by (cases n) auto
  from 3 have v: "valid_name nm" "string_var w t nm" by auto
  let ?w1 = "advance i 1 w" and ?w2 = "advance i (length nm + 2) w"
  let ?w = "wrote out (value_of w t nm) ?w2"
  obtain a c where a: "Find_where w t nm None = Some (a, c)"
    "\<And>u. w_objs u = w_objs w \<Longrightarrow> EvalObj (smx e k) a t out no_args u = (Ok (), wrote out (value_of w t nm) u)"
    using Eval_string [OF v(2)] by blast
  have P: "ParseFunc (smx e (Suc k)) t i out ?w1 = (Ok True, ?w)"
    using v(1) 3 a by (intro ParseFunc_var [where nm = nm and r = "source ps @ r" and a = a and c = c])
      (auto simp: smx_run)
  have same: "w_ctxs ?w = w_ctxs w" "w_objs ?w = w_objs w" by simp_all
  have "parse_loop n (smx e (Suc (Suc k))) t i out w = parse_loop m (smx e (Suc (Suc k))) t i out ?w"
    using 3 by (simp add: n bnd_def sq_def GetC_Cons ParseC_def smx_run P [simplified] ret_def)
  moreover have ok: "list_all (piece_ok ?w t) ps"
    using 3 unfolding meaning_cong(1) [OF same] by simp
  have "\<exists>m'. m - length (source ps) \<le> m' \<and>
      parse_loop m (smx e (Suc (Suc k))) t i out ?w =
      parse_loop m' (smx e (Suc (Suc k))) t i out (wrote out (meaning ?w t ps) (advance i (length (source ps)) ?w))"
    using 3 n ok by (intro "3.IH") auto
  then obtain m' where "m - length (source ps) \<le> m'"
      "parse_loop m (smx e (Suc (Suc k))) t i out ?w =
      parse_loop m' (smx e (Suc (Suc k))) t i out (wrote out (meaning w t ps) (advance i (length (source ps)) ?w))"
    unfolding meaning_cong(2) [OF same] by blast
  ultimately show ?case
    using n by (intro exI [of _ m']) (simp add: advance_wrote del: parse_loop.simps)
qed

lemma Parse_template:
  assumes "list_all (piece_ok w t) ps" "rest i w = source ps" "i < length (w_ins w)" "\<not> too_deep t w"
  shows "Parse (smx e (Suc (Suc k))) t i out w =
    (Ok (), wrote out (meaning w t ps) (advance i (length (source ps)) w))"
proof -
  obtain m where m: "2 \<le> m" "parse_loop (length (source ps) + 2) (smx e (Suc (Suc k))) t i out w =
      parse_loop m (smx e (Suc (Suc k))) t i out (wrote out (meaning w t ps) (advance i (length (source ps)) w))"
    using parse_loop_template [of w t ps i "[]" "length (source ps) + 2" e k out] assms by auto
  with assms show ?thesis by (simp add: Parse_def bnd_def room_run parse_loop_end)
qed

end
