(* ===== verification/Compiled.thy ===== *)
theory Compiled
  imports Templates
begin

text \<open>
  The compiler and the interpreter of compiled code on templates: the code the compiler writes,
  with or without the random bytes, what running it writes, and what decompiling it gives back.
\<close>

section \<open>The code of a template\<close>

definition flushed :: "bytes \<Rightarrow> bytes \<Rightarrow> bytes" where
  "flushed pad b = (if b = [] then [] else C_BASE pad BC_OUT 0 (int (length b)) @ b)"

definition call_code :: "bytes \<Rightarrow> char \<Rightarrow> bytes \<Rightarrow> bytes" where
  "call_code pad r nm = C_BASE pad BC_FUNC (int (uc r)) (int (length nm)) @ scramble r nm @ C_ARGS 0"

text \<open>\<^verbatim>\<open>g\<close> gives the random bytes, \<^verbatim>\<open>b\<close> is the text still to be flushed.\<close>

fun code :: "bytes \<Rightarrow> (nat \<Rightarrow> char) \<Rightarrow> bytes \<Rightarrow> piece list \<Rightarrow> bytes" where
  "code pad g b [] = flushed pad b"
| "code pad g b (Text s # ps) = code pad g (b @ s) ps"
| "code pad g b (Var nm # ps) = flushed pad b @ call_code pad (g 0) nm @ code pad (\<lambda>i. g (Suc i)) [] ps"

fun vars :: "piece list \<Rightarrow> nat" where
  "vars [] = 0"
| "vars (Text s # ps) = vars ps"
| "vars (Var nm # ps) = Suc (vars ps)"

fun well_formed :: "piece \<Rightarrow> bool" where
  "well_formed (Text s) = plain s"
| "well_formed (Var nm) = valid_name nm"

lemma piece_ok_well_formed: "piece_ok w t p \<Longrightarrow> well_formed p"
  by (cases p) auto

section \<open>Compiling\<close>

definition randoms :: "bool \<Rightarrow> world \<Rightarrow> nat \<Rightarrow> char" where
  "randoms rn w i = (if rn then char_of (w_rand w i mod 256) else NUL)"

definition used :: "bool \<Rightarrow> nat \<Rightarrow> world \<Rightarrow> world" where
  "used rn k w = (if rn then w\<lparr>w_rand := (\<lambda>i. w_rand w (k + i))\<rparr> else w)"

definition set_out :: "ostream \<Rightarrow> bytes \<Rightarrow> world \<Rightarrow> world" where
  "set_out ob b w = w\<lparr>w_outs := (w_outs w)[ob := OBuf b]\<rparr>"

lemma random_byte_run: "random_byte rn w = (Ok (randoms rn w 0), used rn 1 w)"
  by (simp add: random_byte_def randoms_def used_def bnd_def rand_def ret_def)

lemma randoms_used: "randoms rn (used rn 1 w) = (\<lambda>i. randoms rn w (Suc i))"
  by (rule ext) (simp add: randoms_def used_def)

lemma used_used [simp]: "used rn m (used rn n w) = used rn (n + m) w"
  by (simp add: used_def add.assoc)

lemma used_0 [simp]: "used rn 0 w = w"
  by (simp add: used_def)

lemma used_fields [simp]:
  "w_ins (used rn k w) = w_ins w" "w_outs (used rn k w) = w_outs w" "w_ctxs (used rn k w) = w_ctxs w"
  "w_objs (used rn k w) = w_objs w"
  by (simp_all add: used_def)

lemma randoms_other [simp]:
  "randoms rn (advance i n w) = randoms rn w" "randoms rn (wrote out s w) = randoms rn w"
  "randoms rn (set_out ob b w) = randoms rn w"
  by (simp_all add: randoms_def fun_eq_iff advance_def wrote_def set_out_def)

lemma used_other:
  "used rn k (advance i n w) = advance i n (used rn k w)" "used rn k (wrote out s w) = wrote out s (used rn k w)"
  "used rn k (set_out ob b w) = set_out ob b (used rn k w)"
  by (simp_all add: used_def advance_def wrote_def set_out_def)

lemma set_out_fields [simp]:
  "w_ins (set_out ob b w) = w_ins w" "w_ctxs (set_out ob b w) = w_ctxs w"
  "length (w_outs (set_out ob b w)) = length (w_outs w)"
  by (simp_all add: set_out_def)

lemma set_out_set_out [simp]: "set_out ob a (set_out ob b w) = set_out ob a w"
  by (simp add: set_out_def)

lemma set_out_advance: "advance i n (set_out ob b w) = set_out ob b (advance i n w)"
  by (simp add: set_out_def advance_def)

lemma set_out_wrote: "ob \<noteq> out \<Longrightarrow> wrote out s (set_out ob b w) = set_out ob b (wrote out s w)"
  by (simp add: set_out_def wrote_def list_update_swap)

lemma wrote_set_out: "ob < length (w_outs w) \<Longrightarrow> wrote ob s (set_out ob b w) = set_out ob (b @ s) w"
  by (simp add: set_out_def wrote_def)

lemma Clear_set_out: "ob < length (w_outs w) \<Longrightarrow> Clear ob (set_out ob b w) = (Ok (), set_out ob [] w)"
  by (simp add: set_out_def Clear_def)

lemma PutC_wrote: "PutC out c w = (Ok (), wrote out [c] w)"
  by (simp add: PutC_def PutS_wrote)

lemma OutFlush_run:
  assumes "ob < length (w_outs w)" "ob \<noteq> out"
  shows "OutFlush I ob out (set_out ob b w) = (Ok (), set_out ob [] (wrote out (flushed (i_pad I) b) w))"
proof -
  have "content (w_outs (set_out ob b w) ! ob) = b" using assms by (simp add: set_out_def)
  then show ?thesis
    using assms by (simp add: OutFlush_def flushed_def bnd_def sq_def ret_def PutS_wrote set_out_wrote Clear_set_out)
qed

lemma OutFunc_run:
  assumes "ob \<noteq> out"
  shows "OutFunc I rn out nm no_args (set_out ob b w) =
    (Ok (), set_out ob b (wrote out (call_code (i_pad I) (randoms rn w 0) nm) (used rn 1 w)))"
  using assms by (simp add: OutFunc_def bnd_def random_byte_run PutS_wrote used_other set_out_wrote call_code_def
    no_args_def Count_def)

lemma comp_loop_plain:
  fixes i :: istream and out :: ostream
  shows "plain s \<Longrightarrow> rest i w = s @ r \<Longrightarrow> i < length (w_ins w) \<Longrightarrow> ob < length (w_outs w) \<Longrightarrow> length s \<le> n \<Longrightarrow>
   comp_loop n I t rn ob i out (set_out ob b w) =
   comp_loop (n - length s) I t rn ob i out (set_out ob (b @ s) (advance i (length s) w))"
proof (induction s arbitrary: w n b)
  case (Cons c s)
  then obtain m where n: "n = Suc m" by (cases n) auto
  have c: "c \<noteq> EOF" "c \<noteq> CHR ''%''" using Cons.prems(1) by (auto simp: plain_def)
  have "comp_loop n I t rn ob i out (set_out ob b w) =
      comp_loop m I t rn ob i out (set_out ob (b @ [c]) (advance i 1 w))"
    using Cons.prems c GetC_Cons [of "set_out ob b w" i c "s @ r"]
    by (simp add: n bnd_def sq_def PutC_wrote set_out_advance wrote_set_out)
  also have "\<dots> = comp_loop (m - length s) I t rn ob i out (set_out ob ((b @ [c]) @ s) (advance i (length s) (advance i 1 w)))"
    using Cons.prems n by (intro Cons.IH) (auto simp: plain_def)
  finally show ?case by (simp add: n)
qed simp

lemma comp_name_loop_sym:
  fixes i :: istream and out :: ostream
  shows "list_all isqsym s \<Longrightarrow> rest i w = s @ r \<Longrightarrow> i < length (w_ins w) \<Longrightarrow> length s \<le> n \<Longrightarrow>
   comp_name_loop n I t rn ob i out nm w = comp_name_loop (n - length s) I t rn ob i out (nm @ s) (advance i (length s) w)"
proof (induction s arbitrary: w n nm)
  case (Cons c s)
  then obtain m where n: "n = Suc m" by (cases n) auto
  have "comp_name_loop n I t rn ob i out nm w = comp_name_loop m I t rn ob i out (nm @ [c]) (advance i 1 w)"
    using Cons.prems(1,2) isqsym_neq [of c] by (simp add: n bnd_def GetC_Cons)
  also have "\<dots> = comp_name_loop (m - length s) I t rn ob i out ((nm @ [c]) @ s) (advance i (length s) (advance i 1 w))"
    using Cons.prems n by (intro Cons.IH) auto
  finally show ?case by (simp add: n)
qed simp

text \<open>A variable: the pending text is flushed and the call is written.\<close>

lemma CompFunc_var:
  fixes i :: istream and out :: ostream
  assumes "valid_name nm" "rest i w = nm @ CHR ''%'' # r" "i < length (w_ins w)"
    and "ob < length (w_outs w)" "ob \<noteq> out"
  shows "CompFunc I t rn ob i out (set_out ob b w) =
    (Ok True, set_out ob [] (wrote out (flushed (i_pad I) b @ call_code (i_pad I) (randoms rn w 0) nm)
       (used rn 1 (advance i (length nm + 1) w))))" (is "_ = (Ok True, ?w')")
proof -
  obtain d s where nm: "nm = d # s" "isqsymf d" "list_all isqsym s"
    using assms(1) by (cases nm) (auto simp: valid_name_def)
  let ?u = "set_out ob b w"
  let ?v = "set_out ob b (advance i (length nm) w)"
  let ?n = "length s + Suc (length r + 2)"
  have G: "GetC i ?u = (Ok d, advance i 1 ?u)" using assms(2) nm by (simp add: GetC_Cons)
  have len: "length (rest i (advance i 1 ?u)) + 2 = ?n"
    using assms(2,3) nm by simp
  have end_of_name: "GetC i ?v = (Ok (CHR ''%''), set_out ob b (advance i (length nm + 1) w))"
    using assms(2,3) GetC_Cons [of ?v i "CHR ''%''" r] by (simp add: set_out_advance)
  have "comp_name_loop ?n I t rn ob i out [d] (advance i 1 ?u) =
      comp_name_loop (?n - length s) I t rn ob i out ([d] @ s) (advance i (length s) (advance i 1 ?u))"
    using assms(2,3) nm by (intro comp_name_loop_sym [where r = "CHR ''%'' # r"]) auto
  also have "\<dots> = comp_name_loop (Suc (length r + 2)) I t rn ob i out nm ?v"
    unfolding nm(1) advance_advance by (simp only: diff_add_inverse append.simps list.size add_Suc add_0)
       (simp add: set_out_advance)
  also have "\<dots> = (Ok (Inl True), ?w')"
    using end_of_name nm(1) assms(4,5)
    by (simp add: bnd_def sq_def ret_def OutFlush_run OutFunc_run used_other)
  finally have N: "comp_name_loop ?n I t rn ob i out [d] (advance i 1 ?u) = (Ok (Inl True), ?w')" .
  have "CompFunc I t rn ob i out ?u =
      bnd (comp_name_loop (length (rest i (advance i 1 ?u)) + 2) I t rn ob i out [d]) (\<lambda>r. case r of
          Inl b \<Rightarrow> ret b
        | Inr (name, d) \<Rightarrow>
            sq (if name \<noteq> [] then PutC ob (CHR ''%'')
                else if d = CHR ''('' then PutC ob (CHR ''%'') else ret ())
              (sq (if d \<noteq> EOF then PutC ob d else ret ()) (ret False))) (advance i 1 ?u)"
    unfolding CompFunc_def
    by (simp only: bnd_Ok [where m = "GetC i", OF G] nm(2) if_True bnd_Ok [where m = "room i", OF room_run])
  then show ?thesis
    unfolding len by (simp only: bnd_Ok [where m = "comp_name_loop ?n I t rn ob i out [d]", OF N] sum.case ret_def)
qed

lemma comp_loop_template:
  fixes i :: istream and out :: ostream
  shows "list_all well_formed ps \<Longrightarrow> rest i w = source ps \<Longrightarrow> i < length (w_ins w) \<Longrightarrow>
   ob < length (w_outs w) \<Longrightarrow> ob \<noteq> out \<Longrightarrow> length (source ps) < n \<Longrightarrow>
   comp_loop n (smx e (Suc k)) t rn ob i out (set_out ob b w) =
   (Ok (), set_out ob [] (wrote out (code (o_pad e) (randoms rn w) b ps)
      (used rn (vars ps) (advance i (length (source ps)) w))))"
proof (induction ps arbitrary: w n b rule: source.induct)
  case 1
  then obtain m where n: "n = Suc m" by (cases n) auto
  have "GetC i (set_out ob b w) = (Ok EOF, set_out ob b w)" using 1 by (simp add: GetC_Nil)
  then show ?case using 1 by (simp add: n bnd_def OutFlush_run)
next
  case (2 s ps)
  have "comp_loop n (smx e (Suc k)) t rn ob i out (set_out ob b w) =
      comp_loop (n - length s) (smx e (Suc k)) t rn ob i out (set_out ob (b @ s) (advance i (length s) w))"
    using 2 by (intro comp_loop_plain [where r = "source ps"]) auto
  also have "\<dots> = (Ok (), set_out ob [] (wrote out (code (o_pad e) (randoms rn (advance i (length s) w)) (b @ s) ps)
      (used rn (vars ps) (advance i (length (source ps)) (advance i (length s) w)))))"
    using 2 by (intro "2.IH") auto
  finally show ?case by simp
next
  case (3 nm ps)
  then obtain m where n: "n = Suc m" by (cases n) auto
  let ?w1 = "advance i 1 w" and ?w2 = "advance i (length nm + 2) w"
  let ?c = "flushed (o_pad e) b @ call_code (o_pad e) (randoms rn w 0) nm"
  let ?w = "wrote out ?c (used rn 1 ?w2)"
  have "CompFunc (smx e k) t rn ob i out (set_out ob b ?w1) =
      (Ok True, set_out ob [] (wrote out (flushed (i_pad (smx e k)) b @ call_code (i_pad (smx e k)) (randoms rn ?w1 0) nm)
         (used rn 1 (advance i (length nm + 1) ?w1))))"
    using 3 by (intro CompFunc_var [where r = "source ps"]) auto
  then have P: "CompFunc (smx e k) t rn ob i out (set_out ob b ?w1) = (Ok True, set_out ob [] ?w)"
    by simp
  have G: "GetC i (set_out ob b w) = (Ok (CHR ''%''), set_out ob b ?w1)"
    using 3 GetC_Cons [of "set_out ob b w" i "CHR ''%''" "nm @ CHR ''%'' # source ps"] by (simp add: set_out_advance)
  have "comp_loop n (smx e (Suc k)) t rn ob i out (set_out ob b w) =
      comp_loop m (smx e (Suc k)) t rn ob i out (set_out ob [] ?w)"
    using G P by (simp add: n bnd_def sq_def smx_run ret_def)
  also have "\<dots> = (Ok (), set_out ob [] (wrote out (code (o_pad e) (randoms rn ?w) [] ps)
      (used rn (vars ps) (advance i (length (source ps)) ?w))))"
    using 3 n by (intro "3.IH") auto
  finally show ?case
    by (simp add: randoms_used [simplified] advance_wrote used_other)
qed

section \<open>Reading records back\<close>

lemma le_value_byte: "int (uc (byte i)) = i mod 256"
  by (simp add: byte_def uc_def)

lemma le_value_le32: "0 \<le> n \<Longrightarrow> n < 2 ^ 32 \<Longrightarrow> le_value (le32 n) = n"
proof -
  assume n: "0 \<le> n" "n < 2 ^ 32"
  define a b c where "a = n div 256" and "b = a div 256" and "c = b div 256"
  have d: "n div 2 ^ 8 = a" "n div 2 ^ 16 = b" "n div 2 ^ 24 = c"
    by (simp_all add: a_def b_def c_def div_mult2_eq [symmetric])
  have c: "c mod 256 = c" using n by (simp add: a_def b_def c_def)
  have m: "n mod 256 + 256 * a = n" "a mod 256 + 256 * b = a" "b mod 256 + 256 * c = b"
    unfolding a_def b_def c_def by (rule mod_mult_div_eq)+
  show ?thesis
    by (simp only: le32_def le_value.simps le_value_byte d c m mult_zero_right add_0_right)
qed

lemma length_records [simp]:
  "length (C_BASE pad bc rn ln) = 6 + length pad" "length (C_ARGS n) = 2" "length (le32 n) = 4"
  by (simp_all add: C_BASE_def C_ARGS_def le32_def le16_def)

lemma base_fields:
  assumes "length pad = 2" "0 \<le> ln" "ln < 2 ^ 31"
  shows "base_ln (C_BASE pad bc rn ln) = ln" "base_rn (C_BASE pad bc rn ln) = byte rn"
    "base_bc (C_BASE pad bc rn ln) = sc (byte bc)"
  using assms by (simp_all add: base_ln_def base_rn_def base_bc_def C_BASE_def le_value_le32 int32_def)

lemma sc_codes: "sc (byte BC_FUNC) = BC_FUNC" "sc (byte BC_OUT) = BC_OUT" "BC_FUNC \<noteq> BC_OUT"
  by (simp_all add: BC_FUNC_def BC_OUT_def byte_def sc_def)

lemma byte_uc [simp]: "byte (int (uc r)) = r"
  by (simp add: byte_def uc_def)

lemma args_cnt_0: "args_cnt (C_ARGS 0) = 0"
  by (simp add: args_cnt_def C_ARGS_def le16_def le_value_byte int16_def)

lemma length_scramble [simp]: "length (scramble r s) = length s"
  by (simp add: scramble_def)

lemma scramble_scramble [simp]: "scramble r (scramble r s) = s"
proof -
  have take: "take_bit 8 (of_char d :: nat) = of_char d" for d
    by (simp add: take_bit_eq_mod)
  have "of_char (char_of (of_char c XOR of_char r :: nat) :: char) = (of_char c XOR of_char r :: nat)" for c
  proof -
    have "of_char (char_of (of_char c XOR of_char r :: nat) :: char) = take_bit 8 (of_char c XOR of_char r :: nat)"
      by (simp add: take_bit_eq_mod del: take_bit_xor)
    then show ?thesis by (simp only: take_bit_xor take)
  qed
  then have "char_of (uc (char_of (uc c XOR uc r) :: char) XOR uc r) = c" for c
    by (simp add: uc_def xor.assoc)
  then show ?thesis by (simp add: scramble_def xor_byte_def comp_def)
qed

section \<open>Running\<close>

lemma GetN_read:
  "rest i w = s @ r \<Longrightarrow> length s = n \<Longrightarrow> GetN i n w = (Ok s, advance i n w)"
  by (simp add: GetN_advance)

lemma run_flushed:
  fixes i :: istream and out :: ostream
  assumes "rest i w = flushed pad b @ r" "i < length (w_ins w)" "length pad = 2" "length b < 2 ^ 31"
    and "length (flushed pad b) \<le> n"
  shows "\<exists>m. n - length (flushed pad b) \<le> m \<and> run_loop n I t i out w =
    run_loop m I t i out (wrote out b (advance i (length (flushed pad b)) w))"
proof (cases "b = []")
  case True
  then show ?thesis by (auto simp: flushed_def)
next
  case False
  let ?h = "C_BASE pad BC_OUT 0 (int (length b))"
  have f: "flushed pad b = ?h @ b" "length (flushed pad b) = 8 + length b" "length ?h = 8"
    using False assms(3) by (simp_all add: flushed_def)
  obtain m where n: "n = Suc m" using f assms(5) by (cases n) auto
  have h: "GetN i 8 w = (Ok ?h, advance i 8 w)"
    using assms(1) f by (intro GetN_read) auto
  have b: "GetN i (nat (int (length b))) (advance i 8 w) = (Ok b, advance i (length (flushed pad b)) w)"
    using assms(1,2) f GetN_read [of "advance i 8 w" i b r "length b"] by simp
  have "run_loop n I t i out w = run_loop m I t i out (wrote out b (advance i (length (flushed pad b)) w))"
    using False h b f(3) base_fields [of pad "int (length b)"] assms(3,4) sc_codes
    by (simp add: n bnd_def sq_def PutS_wrote)
  with n f show ?thesis by (intro exI [of _ m]) auto
qed

lemma run_call:
  fixes i :: istream and out :: ostream
  assumes "rest i w = call_code pad g nm @ r" "i < length (w_ins w)" "length pad = 2"
    and "nm \<noteq> []" "length nm < 2 ^ 31" "string_var w t nm" "length (call_code pad g nm) \<le> n"
  shows "\<exists>m. n - length (call_code pad g nm) \<le> m \<and> run_loop n (smx e (Suc k)) t i out w =
    run_loop m (smx e (Suc k)) t i out (wrote out (value_of w t nm) (advance i (length (call_code pad g nm)) w))"
proof -
  let ?h = "C_BASE pad BC_FUNC (int (uc g)) (int (length nm))" and ?s = "scramble g nm"
  have f: "call_code pad g nm = ?h @ ?s @ C_ARGS 0" "length (call_code pad g nm) = 8 + length nm + 2" "length ?h = 8"
    using assms(3) by (simp_all add: call_code_def)
  obtain m where n: "n = Suc m" using f assms(7) by (cases n) auto
  let ?w2 = "advance i (8 + length nm) w" and ?w3 = "advance i (length (call_code pad g nm)) w"
  have h: "GetN i 8 w = (Ok ?h, advance i 8 w)"
    using assms(1) f by (intro GetN_read) auto
  have b: "GetN i (nat (int (length nm))) (advance i 8 w) = (Ok ?s, ?w2)"
    using assms(1,2) f GetN_read [of "advance i 8 w" i ?s "C_ARGS 0 @ r" "length nm"] by simp
  have v: "GetN i 2 ?w2 = (Ok (C_ARGS 0), ?w3)"
    using assms(1,2) f GetN_read [of ?w2 i "C_ARGS 0" r 2] by simp
  obtain a c s where a: "Find_where w t nm None = Some (a, c)" "a < length (w_objs w)" "w_objs w ! a = Some (ObjStr s)"
    using assms(6) by (auto simp: string_var_def)
  have F: "Find t nm ?w2 = (Ok (Some a), ?w2)" using a by (simp add: Find_def)
  have Q: "GetQmap a ?w3 = (Ok None, ?w3)"
    using a by (simp add: GetQmap_def bnd_def deref_def ret_def)
  have E: "EvalObj (smx e k) a t out no_args ?w3 = (Ok (), wrote out (value_of w t nm) ?w3)"
    using a by (simp add: EvalObj_def bnd_def deref_def PutS_wrote value_of_def)
  have "run_func (smx e (Suc k)) t i out g nm ?w2 = (Ok (), wrote out (value_of w t nm) ?w3)"
    using F v Q E by (simp add: run_func_def bnd_def args_cnt_0 Let_def smx_run ret_def)
  then have "run_loop n (smx e (Suc k)) t i out w = run_loop m (smx e (Suc k)) t i out (wrote out (value_of w t nm) ?w3)"
    using h b f(3) base_fields [of pad "int (length nm)"] assms(3,4,5) sc_codes
    by (simp add: n bnd_def sq_def)
  with n f show ?thesis by (intro exI [of _ m]) auto
qed

lemma advance_end: "rest i w = [] \<Longrightarrow> advance i n w = w"
proof -
  assume "rest i w = []"
  then have "took n (w_ins w ! i) = w_ins w ! i" by (cases "w_ins w ! i") (simp add: took_def)
  then show ?thesis by (simp add: advance_def)
qed

lemma run_loop_end: "rest i w = [] \<Longrightarrow> 0 < n \<Longrightarrow> run_loop n I t i out w = (Ok (), w)"
  by (cases n) (simp_all add: bnd_def GetN_advance ret_def advance_end)

lemma run_loop_code:
  fixes i :: istream and out :: ostream
  shows "list_all (piece_ok w t) ps \<Longrightarrow> rest i w = code pad g b ps \<Longrightarrow> i < length (w_ins w) \<Longrightarrow>
   length b + length (source ps) < 2 ^ 31 \<Longrightarrow> length pad = 2 \<Longrightarrow> length (code pad g b ps) < n \<Longrightarrow>
   run_loop n (smx e (Suc k)) t i out w =
     (Ok (), wrote out (b @ meaning w t ps) (advance i (length (code pad g b ps)) w))"
proof (induction ps arbitrary: w n g b rule: source.induct)
  case 1
  then obtain m where m: "n - length (flushed pad b) \<le> m"
      "run_loop n (smx e (Suc k)) t i out w =
       run_loop m (smx e (Suc k)) t i out (wrote out b (advance i (length (flushed pad b)) w))"
    using run_flushed [of w i pad b "[]" n "smx e (Suc k)" t out] by auto
  with 1 show ?case by (simp add: run_loop_end)
next
  case (2 s ps)
  have "run_loop n (smx e (Suc k)) t i out w =
      (Ok (), wrote out ((b @ s) @ meaning w t ps) (advance i (length (code pad g (b @ s) ps)) w))"
    using 2 by (intro "2.IH") auto
  then show ?case by simp
next
  case (3 nm ps)
  let ?I = "smx e (Suc k)" and ?f = "flushed pad b" and ?c = "call_code pad (g 0) nm"
  let ?w1 = "wrote out b (advance i (length ?f) w)"
  let ?w2 = "wrote out (value_of w t nm) (advance i (length ?c) ?w1)"
  obtain m where m: "n - length ?f \<le> m" "run_loop n ?I t i out w = run_loop m ?I t i out ?w1"
    using 3 run_flushed [of w i pad b "?c @ code pad (\<lambda>i. g (Suc i)) [] ps" n ?I t out] by auto
  have same: "w_ctxs ?w1 = w_ctxs w" "w_objs ?w1 = w_objs w" "w_ctxs ?w2 = w_ctxs w" "w_objs ?w2 = w_objs w"
    by simp_all
  have nm: "nm \<noteq> []" "string_var ?w1 t nm" "value_of ?w1 t nm = value_of w t nm"
    using 3 string_var_cong [OF same(1,2)] by (auto simp: valid_name_def)
  have fits: "length ?c \<le> m" using 3 m(1) by simp
  obtain m' where m': "m - length ?c \<le> m'" "run_loop m ?I t i out ?w1 = run_loop m' ?I t i out ?w2"
    using run_call [of ?w1 i pad "g 0" nm "code pad (\<lambda>i. g (Suc i)) [] ps" t m e k out] 3 nm fits by auto
  have "list_all (piece_ok ?w2 t) ps" using 3 unfolding meaning_cong(1) [OF same(3,4)] by simp
  then have "run_loop m' ?I t i out ?w2 =
      (Ok (), wrote out ([] @ meaning ?w2 t ps) (advance i (length (code pad (\<lambda>i. g (Suc i)) [] ps)) ?w2))"
    using 3 m(1) m'(1) by (intro "3.IH") auto
  then show ?case
    unfolding m(2) m'(2) meaning_cong(2) [OF same(3,4)] by (simp add: advance_wrote add.assoc)
qed

section \<open>Decompiling\<close>

lemma Decompile_Nil: "Decompile m [] = []"
  by (cases m) simp_all

lemma Decompile_flushed:
  assumes "length pad = 2" "length b < 2 ^ 31" "length (flushed pad b) \<le> n"
  shows "\<exists>m. n - length (flushed pad b) \<le> m \<and> Decompile n (flushed pad b @ r) = b @ Decompile m r"
proof (cases "b = []")
  case True
  then show ?thesis by (auto simp: flushed_def)
next
  case False
  let ?h = "C_BASE pad BC_OUT 0 (int (length b))"
  have h: "length ?h = 8" "length (flushed pad b) = 8 + length b" using False assms by (simp_all add: flushed_def)
  obtain m where n: "n = Suc m" using h assms(3) by (cases n) auto
  have "Decompile n (flushed pad b @ r) = b @ Decompile m r"
    using False h(1) assms base_fields [of pad "int (length b)"] sc_codes
    by (simp add: n flushed_def Let_def)
  with n h show ?thesis by (intro exI [of _ m]) auto
qed

lemma Decompile_call:
  assumes "length pad = 2" "length nm < 2 ^ 31" "length (call_code pad g nm) \<le> n"
  shows "\<exists>m. n - length (call_code pad g nm) \<le> m \<and>
    Decompile n (call_code pad g nm @ r) = [CHR ''%''] @ nm @ [CHR ''%''] @ Decompile m r"
proof -
  let ?h = "C_BASE pad BC_FUNC (int (uc g)) (int (length nm))"
  have h: "length ?h = 8" "length (call_code pad g nm) = 8 + length nm + 2" using assms by (simp_all add: call_code_def)
  obtain m where n: "n = Suc m" using h assms(3) by (cases n) auto
  have "Decompile n (call_code pad g nm @ r) = [CHR ''%''] @ nm @ [CHR ''%''] @ Decompile m r"
    using h(1) assms base_fields [of pad "int (length nm)"] sc_codes args_cnt_0
    by (simp add: n call_code_def Let_def)
  with n h show ?thesis by (intro exI [of _ m]) auto
qed

lemma Decompile_code:
  "list_all well_formed ps \<Longrightarrow> length b + length (source ps) < 2 ^ 31 \<Longrightarrow> length pad = 2 \<Longrightarrow>
   length (code pad g b ps) \<le> n \<Longrightarrow> Decompile n (code pad g b ps) = b @ source ps"
proof (induction ps arbitrary: n g b rule: source.induct)
  case 1
  then obtain m where "Decompile n (flushed pad b @ []) = b @ Decompile m []"
    using Decompile_flushed [of pad b n "[]"] by auto
  then show ?case by (simp add: Decompile_Nil)
next
  case (2 s ps)
  then show ?case by simp
next
  case (3 nm ps)
  let ?f = "flushed pad b" and ?c = "call_code pad (g 0) nm" and ?r = "code pad (\<lambda>i. g (Suc i)) [] ps"
  obtain m where m: "n - length ?f \<le> m" "Decompile n (?f @ ?c @ ?r) = b @ Decompile m (?c @ ?r)"
    using 3 Decompile_flushed [of pad b n "?c @ ?r"] by auto
  have fits: "length ?c \<le> m" using 3 m(1) by simp
  obtain m' where m': "m - length ?c \<le> m'" "Decompile m (?c @ ?r) = [CHR ''%''] @ nm @ [CHR ''%''] @ Decompile m' ?r"
    using Decompile_call [of pad nm "g 0" m ?r] 3 fits by auto
  have "Decompile m' ?r = [] @ source ps" using 3 m m' by (intro "3.IH") auto
  with m m' show ?case by simp
qed

section \<open>Whole templates\<close>

definition push :: "bytes \<Rightarrow> world \<Rightarrow> world" where
  "push s w = w\<lparr>w_ins := w_ins w @ [\<lparr>rb_past = [], rb_rest = s\<rparr>]\<rparr>"

lemma push_fields [simp]:
  "w_ins (push s w) = w_ins w @ [\<lparr>rb_past = [], rb_rest = s\<rparr>]" "w_outs (push s w) = w_outs w"
  "w_ctxs (push s w) = w_ctxs w" "w_objs (push s w) = w_objs w" "w_max (push s w) = w_max w"
  "randoms rn (push s w) = randoms rn w"
  by (simp_all add: push_def randoms_def fun_eq_iff)

lemma with_in_done:
  assumes "f (length (w_ins w)) (push s w) = (Ok x, wrote out d (used rn k (advance (length (w_ins w)) n (push s w))))"
  shows "with_in s f w = (Ok x, wrote out d (used rn k w))"
proof -
  have "(wrote out d (used rn k (advance (length (w_ins w)) n (push s w))))\<lparr>w_ins := w_ins w\<rparr> = wrote out d (used rn k w)"
    by (cases w) (simp add: wrote_def used_def advance_def push_def)
  then show ?thesis
    using assms by (simp add: with_in_def bnd_def push_def always_def advance_def)
qed

lemma with_in_done_simple:
  assumes "f (length (w_ins w)) (push s w) = (Ok x, wrote out d (advance (length (w_ins w)) n (push s w)))"
  shows "with_in s f w = (Ok x, wrote out d w)"
  using with_in_done [of f w s x out d False 0 n] assms by (simp add: used_def)

lemma with_out_done:
  assumes "f (length (w_outs w)) (w\<lparr>w_outs := w_outs w @ [b]\<rparr>) =
      (Ok x, set_out (length (w_outs w)) b' (wrote out d (used rn k (advance i n (w\<lparr>w_outs := w_outs w @ [b]\<rparr>)))))"
    and "out < length (w_outs w)"
  shows "with_out b f w = (Ok x, wrote out d (used rn k (advance i n w)))"
proof -
  have "(set_out (length (w_outs w)) b' (wrote out d (used rn k (advance i n (w\<lparr>w_outs := w_outs w @ [b]\<rparr>)))))
      \<lparr>w_outs := take (length (w_outs w)) (w_outs (set_out (length (w_outs w)) b'
        (wrote out d (used rn k (advance i n (w\<lparr>w_outs := w_outs w @ [b]\<rparr>))))))\<rparr> =
      wrote out d (used rn k (advance i n w))"
    using assms(2) by (cases w) (simp add: wrote_def used_def advance_def set_out_def list_update_append nth_append)
  then show ?thesis using assms(1) by (simp add: with_out_def bnd_def always_def)
qed

lemma with_ctx_done:
  assumes "f (length (w_ctxs w)) (w\<lparr>w_ctxs := w_ctxs w @ [Construct w (Some p)]\<rparr>) =
      (Ok x, wrote out d (used rn k (advance i n (w\<lparr>w_ctxs := w_ctxs w @ [Construct w (Some p)]\<rparr>))))"
  shows "with_ctx p f w = (Ok x, wrote out d (used rn k (advance i n w)))"
proof -
  have "c_map (Construct w (Some p)) = []" by (simp add: Construct_def Let_def)
  then show ?thesis using assms
    by (cases w) (simp add: with_ctx_def bnd_def always_def ctx_Clear_def sq_def ret_def put_ctx_def
        wrote_def used_def advance_def list_update_append)
qed

lemma comp_Parse_template:
  assumes "list_all well_formed ps" "out < length (w_outs w)"
  shows "comp_Parse (smx e (Suc k)) p rn (source ps) out w =
    (Ok (), wrote out (code (o_pad e) (randoms rn w) [] ps) (used rn (vars ps) w))"
proof -
  let ?I = "smx e (Suc k)" and ?s = "source ps" and ?i = "length (w_ins w)" and ?d = "code (o_pad e) (randoms rn w) [] ps"
  define w1 where "w1 = push ?s w"
  define w2 where "w2 = w1\<lparr>w_ctxs := w_ctxs w1 @ [Construct w1 (Some p)]\<rparr>"
  define w3 where "w3 = w2\<lparr>w_outs := w_outs w2 @ [OBuf []]\<rparr>"
  let ?ob = "length (w_outs w2)"
  have w3: "w3 = set_out ?ob [] w3" "rest ?i w3 = ?s" "?i < length (w_ins w3)" "?ob < length (w_outs w3)" "?ob \<noteq> out"
      "randoms rn w3 = randoms rn w"
    using assms(2) by (simp_all add: w3_def w2_def w1_def set_out_def randoms_def push_def fun_eq_iff)
  have "comp_loop (length ?s + 2) ?I (length (w_ctxs w1)) rn ?ob ?i out (set_out ?ob [] w3) =
      (Ok (), set_out ?ob [] (wrote out (code (o_pad e) (randoms rn w3) [] ps) (used rn (vars ps) (advance ?i (length ?s) w3))))"
    using assms w3(2-5) by (intro comp_loop_template) auto
  then have "bnd (room ?i) (\<lambda>n. comp_loop n ?I (length (w_ctxs w1)) rn ?ob ?i out) w3 =
      (Ok (), set_out ?ob [] (wrote out ?d (used rn (vars ps) (advance ?i (length ?s) w3))))"
    using w3 by (simp add: bnd_def room_run)
  then have "with_out (OBuf []) (\<lambda>ob. bnd (room ?i) (\<lambda>n. comp_loop n ?I (length (w_ctxs w1)) rn ob ?i out)) w2 =
      (Ok (), wrote out ?d (used rn (vars ps) (advance ?i (length ?s) w2)))"
    using assms(2) by (intro with_out_done [where b' = "[]"]) (simp_all add: w3_def w2_def w1_def)
  then have "with_ctx p (\<lambda>t. with_out (OBuf []) (\<lambda>ob. bnd (room ?i) (\<lambda>n. comp_loop n ?I t rn ob ?i out))) w1 =
      (Ok (), wrote out ?d (used rn (vars ps) (advance ?i (length ?s) w1)))"
    by (intro with_ctx_done) (simp add: w2_def)
  then show ?thesis
    unfolding comp_Parse_def by (intro with_in_done [where n = "length ?s"]) (simp add: w1_def)
qed

lemma capture_done:
  assumes "f (length (w_outs w)) (w\<lparr>w_outs := w_outs w @ [OBuf []]\<rparr>) =
      (Ok (), wrote (length (w_outs w)) c (used rn k (w\<lparr>w_outs := w_outs w @ [OBuf []]\<rparr>)))"
  shows "capture f w = (Ok c, used rn k w)"
  using assms by (cases w) (simp add: capture_def with_out_def bnd_def sq_def always_def wrote_def used_def)

lemma capture_comp_template:
  assumes "list_all well_formed ps"
  shows "capture (comp_Parse (smx e (Suc k)) p rn (source ps)) w =
    (Ok (code (o_pad e) (randoms rn w) [] ps), used rn (vars ps) w)"
proof (rule capture_done)
  have "randoms rn (w\<lparr>w_outs := w_outs w @ [OBuf []]\<rparr>) = randoms rn w" by (simp add: randoms_def fun_eq_iff)
  then show "comp_Parse (smx e (Suc k)) p rn (source ps) (length (w_outs w)) (w\<lparr>w_outs := w_outs w @ [OBuf []]\<rparr>) =
      (Ok (), wrote (length (w_outs w)) (code (o_pad e) (randoms rn w) [] ps)
        (used rn (vars ps) (w\<lparr>w_outs := w_outs w @ [OBuf []]\<rparr>)))"
    using assms by (subst comp_Parse_template) simp_all
qed

lemma code_not_Nil: "b @ source ps \<noteq> [] \<Longrightarrow> code pad g b ps \<noteq> []"
  by (induction pad g b ps rule: code.induct) (auto simp: flushed_def call_code_def C_BASE_def)

definition one_arg :: "bytes \<Rightarrow> qargs" where
  "one_arg s = \<lparr>qa_vals = [s], qa_opts = [], qa_n = 0\<rparr>"

lemma ParseIn_template:
  assumes "list_all (piece_ok w t) ps" "\<not> too_deep t w"
  shows "ParseIn (smx e (Suc (Suc (Suc k)))) t (source ps) out w = (Ok (), wrote out (meaning w t ps) w)"
proof -
  let ?i = "length (w_ins w)" and ?v = "push (source ps) w"
  have same: "w_ctxs ?v = w_ctxs w" "w_objs ?v = w_objs w" by simp_all
  have "Parse (smx e (Suc (Suc k))) t ?i out ?v =
      (Ok (), wrote out (meaning ?v t ps) (advance ?i (length (source ps)) ?v))"
    using assms by (intro Parse_template) (auto simp: too_deep_def meaning_cong [OF same])
  then show ?thesis
    unfolding ParseIn_def meaning_cong(2) [OF same] smx_run by (intro with_in_done_simple)
qed

lemma run_in_template:
  assumes "list_all (piece_ok w t) ps" "length (source ps) < 2 ^ 31" "length pad = 2"
  shows "with_in (code pad g [] ps) (\<lambda>i. i_RunCompiled (smx e (Suc (Suc k))) t i out) w = (Ok (), wrote out (meaning w t ps) w)"
proof -
  let ?i = "length (w_ins w)" and ?c = "code pad g [] ps" and ?v = "push (code pad g [] ps) w"
  have same: "w_ctxs ?v = w_ctxs w" "w_objs ?v = w_objs w" by simp_all
  have "run_loop (length ?c + 2) (smx e (Suc k)) t ?i out ?v =
      (Ok (), wrote out ([] @ meaning ?v t ps) (advance ?i (length ?c) ?v))"
    using assms by (intro run_loop_code) (auto simp: meaning_cong [OF same])
  then have "RunCompiled (smx e (Suc k)) t ?i out ?v = (Ok (), wrote out (meaning w t ps) (advance ?i (length ?c) ?v))"
    unfolding meaning_cong(2) [OF same] by (simp add: RunCompiled_def bnd_def room_run)
  then show ?thesis unfolding smx_run by (intro with_in_done_simple)
qed

text \<open>C5: compiling a template and expanding the code writes what expanding the template itself
  writes, the template's text with the values of its variables, with the random bytes and
  without them. The template has less than 2 GB and the contexts are not nested too deep.\<close>

theorem compiled_expands_alike:
  assumes "list_all (piece_ok w t) ps" "source ps \<noteq> []" "length (source ps) < 2 ^ 31"
    and "length (o_pad e) = 2" "\<not> too_deep t w"
  shows "\<exists>c. capture (comp_Parse (smx e (Suc (Suc (Suc k)))) t rn (source ps)) w = (Ok c, used rn (vars ps) w) \<and>
    EvalExpand (smx e (Suc (Suc (Suc k)))) t out (one_arg (CMAGIC_V1 @ c)) w = (Ok (), wrote out (meaning w t ps) w) \<and>
    ParseIn (smx e (Suc (Suc (Suc k)))) t (source ps) out w = (Ok (), wrote out (meaning w t ps) w)"
proof (intro exI conjI)
  let ?c = "code (o_pad e) (randoms rn w) [] ps"
  show "capture (comp_Parse (smx e (Suc (Suc (Suc k)))) t rn (source ps)) w = (Ok ?c, used rn (vars ps) w)"
    using assms(1) by (intro capture_comp_template) (auto simp: list_all_iff dest: piece_ok_well_formed)
  have "?c \<noteq> []" using assms(2) code_not_Nil [of "[]" ps] by simp
  then show "EvalExpand (smx e (Suc (Suc (Suc k)))) t out (one_arg (CMAGIC_V1 @ ?c)) w = (Ok (), wrote out (meaning w t ps) w)"
    using run_in_template [OF assms(1,3,4)]
    by (simp add: EvalExpand_def VALID_ARGC_def VALID_ARGM_def one_arg_def Count_def GetAt_def CMAGIC_V1_def Let_def)
  show "ParseIn (smx e (Suc (Suc (Suc k)))) t (source ps) out w = (Ok (), wrote out (meaning w t ps) w)"
    using assms(1,5) by (rule ParseIn_template)
qed

text \<open>C21: decompiling the compiled code of a template gives the template back; what the random
  bytes hide can be read by anyone who has the code.\<close>

theorem Decompile_compiled:
  assumes "list_all well_formed ps" "length (source ps) < 2 ^ 31" "length (o_pad e) = 2"
  shows "\<exists>c. capture (comp_Parse (smx e (Suc k)) t rn (source ps)) w = (Ok c, used rn (vars ps) w) \<and>
    Decompile (length c) c = source ps"
  using capture_comp_template [OF assms(1)] Decompile_code [OF assms(1), of "[]" "o_pad e" "randoms rn w" _] assms(2,3)
  by (intro exI conjI) auto

end
