(* ===== verification/Frame.thy ===== *)
theory Frame
  imports Evaluate
begin

text \<open>
  What every computation of the interpreter leaves in place, whether it returns or throws: the
  stacks of streams and contexts are as high as before, the tree of contexts and the nesting
  levels are the same, memory is only added to the heap, the limit and the session context stay,
  and no context leaves safe mode.
\<close>

named_theorems keep_intros \<open>computations that keep the frame\<close>

definition frame :: "world \<Rightarrow> world \<Rightarrow> bool" where
  "frame w w' \<longleftrightarrow>
    length (w_ins w') = length (w_ins w) \<and> length (w_outs w') = length (w_outs w) \<and>
    length (w_ctxs w') = length (w_ctxs w) \<and>
    (\<forall>c < length (w_ctxs w). c_parent (w_ctxs w' ! c) = c_parent (w_ctxs w ! c) \<and>
       c_level (w_ctxs w' ! c) = c_level (w_ctxs w ! c) \<and>
       (c_safe (w_ctxs w ! c) \<longrightarrow> c_safe (w_ctxs w' ! c))) \<and>
    length (w_objs w) \<le> length (w_objs w') \<and> length (w_cells w) \<le> length (w_cells w') \<and>
    w_max w' = w_max w \<and> (w_session w \<noteq> None \<longrightarrow> w_session w' = w_session w)"

definition keeps :: "'a run \<Rightarrow> bool" where
  "keeps m \<longleftrightarrow> (\<forall>w. fst (m w) \<noteq> Crash \<longrightarrow> fst (m w) \<noteq> NoFuel \<longrightarrow> frame w (snd (m w)))"

lemma frame_refl: "frame w w"
  by (simp add: frame_def)

lemma frame_trans:
  assumes "frame a b" "frame b c"
  shows "frame a c"
  using assms by (simp add: frame_def)

lemma keeps_ret [keep_intros]: "keeps (ret x)"
  by (simp add: keeps_def ret_def frame_refl)

lemma keeps_fail [keep_intros]: "keeps (fail x)"
  by (simp add: keeps_def fail_def frame_refl)

lemma keeps_gets [keep_intros]: "keeps (gets f)"
  by (simp add: keeps_def frame_refl)

lemma keeps_upd: "(\<And>w. frame w (f w)) \<Longrightarrow> keeps (upd f)"
  by (simp add: keeps_def)

lemma failed_simps [simp]:
  "failed r = Crash \<longleftrightarrow> r = Crash \<or> (\<exists>x. r = Ok x)" "failed r = NoFuel \<longleftrightarrow> r = NoFuel"
  by (cases r; simp)+

lemma keepsD: "keeps m \<Longrightarrow> m w = (r, w') \<Longrightarrow> r \<noteq> Crash \<Longrightarrow> r \<noteq> NoFuel \<Longrightarrow> frame w w'"
  unfolding keeps_def by (metis fst_conv snd_conv)

lemma keepsI: "(\<And>w r w'. m w = (r, w') \<Longrightarrow> r \<noteq> Crash \<Longrightarrow> r \<noteq> NoFuel \<Longrightarrow> frame w w') \<Longrightarrow> keeps m"
  unfolding keeps_def by (metis prod.collapse)

lemma keeps_bnd [keep_intros]:
  assumes "keeps m" "\<And>x. keeps (f x)"
  shows "keeps (bnd m f)"
proof (rule keepsI)
  fix w r w'
  assume b: "bnd m f w = (r, w')" "r \<noteq> Crash" "r \<noteq> NoFuel"
  obtain q v where m: "m w = (q, v)" by fastforce
  show "frame w w'"
  proof (cases q)
    case (Ok x)
    with m have "frame w v" using keepsD [OF assms(1) m] by simp
    moreover have "frame v w'" using b m Ok keepsD [OF assms(2), of x v] by (simp add: bnd_def)
    ultimately show ?thesis by (rule frame_trans)
  qed (use b m keepsD [OF assms(1) m] in \<open>auto simp: bnd_def\<close>)
qed

lemma keeps_sq [keep_intros]: "keeps m \<Longrightarrow> keeps n \<Longrightarrow> keeps (sq m n)"
  unfolding sq_def by (intro keeps_bnd)

lemma keeps_catching [keep_intros]:
  assumes "keeps m" "\<And>e. keeps (h e)" "keeps a"
  shows "keeps (catching m h a)"
proof (rule keepsI)
  fix w r w'
  assume b: "catching m h a w = (r, w')" "r \<noteq> Crash" "r \<noteq> NoFuel"
  obtain q v where m: "m w = (q, v)" by fastforce
  show "frame w w'"
  proof (cases q)
    case (Raise e)
    with m have "frame w v" using keepsD [OF assms(1) m] by simp
    moreover have "frame v w'" using b m Raise keepsD [OF assms(2), of e v] by (simp add: catching_def)
    ultimately show ?thesis by (rule frame_trans)
  next
    case Aborted
    with m have "frame w v" using keepsD [OF assms(1) m] by simp
    moreover have "frame v w'" using b m Aborted keepsD [OF assms(3), of v] by (simp add: catching_def)
    ultimately show ?thesis by (rule frame_trans)
  qed (use b m keepsD [OF assms(1) m] in \<open>auto simp: catching_def\<close>)
qed

text \<open>A scope: what is pushed before is dropped after, in every case that is not a crash.\<close>

lemma keeps_scope:
  assumes "\<And>i. keeps (f i)"
    and "\<And>w w' i w''. frame (push w) w' \<Longrightarrow> i = size_of w \<Longrightarrow> snd (fin i w') = w'' \<Longrightarrow>
      fst (fin i w') \<noteq> Crash \<Longrightarrow> fst (fin i w') \<noteq> NoFuel \<Longrightarrow> frame w w''"
  shows "keeps (bnd (\<lambda>w. (Ok (size_of w), push w)) (\<lambda>i. always (f i) (fin i)))"
  unfolding keeps_def
proof (intro allI impI)
  fix w
  let ?m = "bnd (\<lambda>w. (Ok (size_of w), push w)) (\<lambda>i. always (f i) (fin i))"
  assume a: "fst (?m w) \<noteq> Crash" "fst (?m w) \<noteq> NoFuel"
  obtain r w' where f: "f (size_of w) (push w) = (r, w')" by fastforce
  obtain q w'' where q: "fin (size_of w) w' = (q, w'')" by fastforce
  have ok: "r \<noteq> Crash" "r \<noteq> NoFuel" "q \<noteq> Crash" "q \<noteq> NoFuel"
    using a f q by (auto simp: bnd_def always_def split: if_splits res.splits)
  then have "frame (push w) w'" using assms(1) [of "size_of w"] f by (auto simp: keeps_def dest!: spec [of _ "push w"])
  from assms(2) [OF this refl] q ok have "frame w w''" by simp
  then show "frame w (snd (?m w))" using f q ok by (simp add: bnd_def always_def)
qed

lemma keeps_with_in [keep_intros]: "(\<And>i. keeps (f i)) \<Longrightarrow> keeps (with_in s f)"
  unfolding with_in_def by (rule keeps_scope) (auto simp: frame_def)

lemma keeps_with_out [keep_intros]: "(\<And>i. keeps (f i)) \<Longrightarrow> keeps (with_out s f)"
  unfolding with_out_def by (rule keeps_scope) (auto simp: frame_def)

lemma keeps_with_cell [keep_intros]: "(\<And>i. keeps (f i)) \<Longrightarrow> keeps (with_cell s f)"
  unfolding with_cell_def by (rule keeps_scope) (auto simp: frame_def)

lemma keeps_capture [keep_intros]: "(\<And>i. keeps (f i)) \<Longrightarrow> keeps (capture f)"
  unfolding capture_def by (intro keep_intros)

lemma keeps_each [keep_intros]: "(\<And>x. keeps (f x)) \<Longrightarrow> keeps (each f xs)"
  by (induction xs) (auto intro: keep_intros)

lemma keeps_if [keep_intros]: "(b \<Longrightarrow> keeps m) \<Longrightarrow> (\<not> b \<Longrightarrow> keeps n) \<Longrightarrow> keeps (if b then m else n)"
  by simp

lemma keeps_option [keep_intros]: "keeps m \<Longrightarrow> (\<And>y. keeps (f y)) \<Longrightarrow> keeps (case x of None \<Rightarrow> m | Some y \<Rightarrow> f y)"
  by (simp split: option.splits)

lemma keeps_prod [keep_intros]: "(\<And>x y. keeps (f x y)) \<Longrightarrow> keeps (case p of (x, y) \<Rightarrow> f x y)"
  by (simp split: prod.splits)

lemma keeps_sum [keep_intros]:
  "(\<And>x. keeps (f x)) \<Longrightarrow> (\<And>y. keeps (g y)) \<Longrightarrow> keeps (case s of Inl x \<Rightarrow> f x | Inr y \<Rightarrow> g y)"
  by (simp split: sum.splits)

lemma keeps_let [keep_intros]: "(\<And>x. keeps (f x)) \<Longrightarrow> keeps (Let a f)"
  by simp

lemma keeps_obj [keep_intros]:
  assumes "\<And>s. keeps (f1 s)" "\<And>i. keeps (f2 i)" "\<And>i. keeps (f3 i)" "\<And>d f q. keeps (f4 d f q)"
    "\<And>b ps q r. keeps (f5 b ps q r)" "\<And>a as. keeps (f6 a as)" "\<And>s. keeps (f7 s)" "\<And>a. keeps (f8 a)"
    "\<And>a c. keeps (f9 a c)"
  shows "keeps (case_obj f1 f2 f3 f4 f5 f6 f7 f8 f9 x)"
  using assms by (cases x) simp_all

section \<open>Elementary operations\<close>

lemma keeps_streams [keep_intros]:
  "keeps (GetC i)" "keeps (UngetC i c)" "keeps (GetS i)" "keeps (GetN i n)" "keeps (PutS out s)" "keeps (Clear out)"
  "keeps (Shorten out n)" "keeps (room i)" "keeps (GetLineNum i)" "keeps rand"
  by (auto simp: keeps_def frame_def GetC_def UngetC_def GetS_def GetN_def PutS_def Clear_def Shorten_def
      room_def GetLineNum_def rand_def Let_def split: list.splits)

lemma keeps_puts [keep_intros]: "keeps (PutC out c)" "keeps (PutZ out s)" "keeps (PutN out i)"
  by (simp_all add: PutC_def PutZ_def PutN_def keeps_streams)

lemma keeps_objects [keep_intros]:
  "keeps (new_obj x)" "keeps (deref a)" "keeps (set_obj a y)" "keeps (read_cell i)" "keeps (write_cell i v)"
  by (auto simp: keeps_def frame_def new_obj_def deref_def set_obj_def read_cell_def write_cell_def split: option.splits)

lemma keeps_Free [keep_intros]: "keeps (Free a)"
  unfolding Free_def by (intro keep_intros)

lemma keeps_AddRef [keep_intros]: "keeps (AddRef a)"
  unfolding AddRef_def by (intro keep_intros)

lemma keeps_put_ctx [keep_intros]:
  assumes "\<And>w. c_parent (x w) = c_parent (w_ctxs w ! c)" "\<And>w. c_level (x w) = c_level (w_ctxs w ! c)"
    "\<And>w. c_safe (w_ctxs w ! c) \<longrightarrow> c_safe (x w)"
  shows "keeps (upd (\<lambda>w. put_ctx c (x w) w))"
proof (rule keeps_upd)
  fix w
  have nl: "c' < length (w_ctxs w) \<Longrightarrow> (w_ctxs w)[c := x w] ! c' = (if c' = c then x w else w_ctxs w ! c')" for c'
    by (auto simp: nth_list_update)
  have "c_parent ((w_ctxs w)[c := x w] ! c') = c_parent (w_ctxs w ! c') \<and>
      c_level ((w_ctxs w)[c := x w] ! c') = c_level (w_ctxs w ! c') \<and>
      (c_safe (w_ctxs w ! c') \<longrightarrow> c_safe ((w_ctxs w)[c := x w] ! c'))" if "c' < length (w_ctxs w)" for c'
    unfolding nl [OF that] using assms [of w] by (cases "c' = c") simp_all
  then show "frame w (put_ctx c (x w) w)" by (simp add: frame_def put_ctx_def)
qed

lemma keeps_ctx_Clear [keep_intros]: "keeps (ctx_Clear c)"
  unfolding ctx_Clear_def by (intro keep_intros) simp_all

text \<open>The destructor of a context returns or crashes, it does not throw.\<close>

definition tame :: "'a run \<Rightarrow> bool" where
  "tame m \<longleftrightarrow> (\<forall>w. (\<exists>x. fst (m w) = Ok x) \<or> fst (m w) = Crash)"

lemma tame_bnd: "tame m \<Longrightarrow> (\<And>x. tame (f x)) \<Longrightarrow> tame (bnd m f)"
  unfolding tame_def bnd_def by (auto split: prod.splits res.splits) (metis fst_conv res.distinct)+

lemma tame_Free: "tame (Free a)"
  unfolding Free_def
  by (rule tame_bnd) (auto simp: tame_def deref_def set_obj_def fail_def split: option.splits obj.splits)

lemma tame_ctx_Clear: "tame (ctx_Clear c)"
proof -
  have "tame (each Free as)" for as
    by (induction as) (auto simp: sq_def intro!: tame_bnd tame_Free, simp add: tame_def ret_def)
  then show ?thesis
    unfolding ctx_Clear_def sq_def by (intro tame_bnd) (simp_all add: tame_def)
qed

lemma frame_drop_ctx:
  assumes "frame (w\<lparr>w_ctxs := w_ctxs w @ [x], w_session := s\<rparr>) v" "w_session w \<noteq> None \<longrightarrow> s = w_session w"
  shows "frame w (v\<lparr>w_ctxs := take (length (w_ctxs w)) (w_ctxs v)\<rparr>)"
  using assms by (auto simp: frame_def nth_append)

lemma frame_destroy:
  assumes "frame (w\<lparr>w_ctxs := w_ctxs w @ [x], w_session := s\<rparr>) w'" "w_session w \<noteq> None \<longrightarrow> s = w_session w"
    and d: "d = sq (ctx_Clear (length (w_ctxs w))) (upd (\<lambda>v. v\<lparr>w_ctxs := take (length (w_ctxs w)) (w_ctxs v)\<rparr>))"
    and "fst (d w') \<noteq> Crash"
  shows "frame w (snd (d w'))"
proof -
  obtain r v where r: "ctx_Clear (length (w_ctxs w)) w' = (r, v)" by fastforce
  have "r \<noteq> Crash" using assms(4) r by (auto simp: d sq_def bnd_def)
  moreover have "(\<exists>x. fst (ctx_Clear (length (w_ctxs w)) w') = Ok x) \<or> fst (ctx_Clear (length (w_ctxs w)) w') = Crash"
    using tame_ctx_Clear unfolding tame_def by blast
  ultimately have ok: "r = Ok ()" using r by auto
  then have "frame w' v" using keepsD [OF keeps_ctx_Clear r] by simp
  with assms(1) have "frame (w\<lparr>w_ctxs := w_ctxs w @ [x], w_session := s\<rparr>) v" by (rule frame_trans)
  from frame_drop_ctx [OF this assms(2)] r ok show ?thesis by (simp add: d sq_def bnd_def)
qed

lemma keeps_with_ctx [keep_intros]: "(\<And>i. keeps (f i)) \<Longrightarrow> keeps (with_ctx t f)"
  unfolding with_ctx_def
proof (rule keeps_scope, assumption)
  fix w w' i w''
  assume "frame (w\<lparr>w_ctxs := w_ctxs w @ [Construct w (Some t)]\<rparr>) w'" "i = length (w_ctxs w)"
    "snd (sq (ctx_Clear i) (upd (\<lambda>w. w\<lparr>w_ctxs := take i (w_ctxs w)\<rparr>)) w') = w''"
    "fst (sq (ctx_Clear i) (upd (\<lambda>w. w\<lparr>w_ctxs := take i (w_ctxs w)\<rparr>)) w') \<noteq> Crash"
  then show "frame w w''"
    using frame_destroy [where w = w and x = "Construct w (Some t)" and s = "w_session w" and w' = w'] by auto
qed

lemma keeps_with_env_ctx [keep_intros]: "(\<And>i. keeps (f i)) \<Longrightarrow> keeps (with_env_ctx f)"
  unfolding with_env_ctx_def
proof (rule keeps_scope, assumption)
  fix w w' i w''
  assume "frame (w\<lparr>w_ctxs := w_ctxs w @ [Construct w None],
      w_session := (case w_session w of None \<Rightarrow> Some (length (w_ctxs w)) | Some s \<Rightarrow> Some s)\<rparr>) w'" "i = length (w_ctxs w)"
    "snd (sq (ctx_Clear i) (upd (\<lambda>w. w\<lparr>w_ctxs := take i (w_ctxs w)\<rparr>)) w') = w''"
    "fst (sq (ctx_Clear i) (upd (\<lambda>w. w\<lparr>w_ctxs := take i (w_ctxs w)\<rparr>)) w') \<noteq> Crash"
  then show "frame w w''"
    using frame_destroy [where w = w and x = "Construct w None" and w' = w'] by (auto split: option.splits)
qed

section \<open>Contexts\<close>

lemma keeps_Find [keep_intros]: "keeps (Find c name)"
  unfolding Find_def by (intro keep_intros)

lemma keeps_assert_ok [keep_intros]: "keeps (assert_ok b)"
  unfolding assert_ok_def by (intro keep_intros)

lemma keeps_MapObj [keep_intros]: "keeps (MapObj c a name)"
  unfolding MapObj_def by (intro keep_intros) simp_all

lemma keeps_DelObj [keep_intros]: "keeps (DelObj c name)"
proof -
  have "keeps (case r of Some (Some a, m) \<Rightarrow>
      sq (upd (\<lambda>w. put_ctx c ((w_ctxs w ! c)\<lparr>c_map := m\<rparr>) w)) (sq (Free a) (ret True)) | _ \<Rightarrow> ret False)"
    for r :: "(addr option \<times> (bytes \<times> addr) list) option"
    by (cases r rule: option.exhaust; cases "fst (the r)") (auto split: prod.splits intro!: keep_intros)
  then show ?thesis unfolding DelObj_def by (intro keeps_bnd keeps_gets)
qed

lemma keeps_MapNew [keep_intros]: "keeps (MapNew c x name)"
  unfolding MapNew_def by (intro keep_intros)

lemma keeps_DelObjTop_from [keep_intros]: "keeps (DelObjTop_from n c name lim)"
proof (induction n arbitrary: c)
  case (Suc n)
  then show ?case unfolding DelObjTop_from.simps Let_def by (intro keep_intros)
qed (simp add: keep_intros)

lemma keeps_DelObjTop [keep_intros]: "keeps (DelObjTop c name lim)"
  unfolding DelObjTop_def by (intro keep_intros)

lemma keeps_MapObjTop [keep_intros]: "keeps (MapObjTop c a name lim)"
  unfolding MapObjTop_def by (intro keep_intros)

lemma keeps_DelObjLet_from [keep_intros]: "keeps (DelObjLet_from n c name lim)"
proof (induction n arbitrary: c)
  case (Suc n)
  then show ?case unfolding DelObjLet_from.simps Let_def by (intro keep_intros)
qed (simp add: keep_intros)

lemma keeps_MapObjLet [keep_intros]: "keeps (MapObjLet c a name)"
  unfolding MapObjLet_def by (intro keep_intros)

lemma keeps_Throw [keep_intros]: "keeps (Throw c out e)"
  unfolding Throw_def by (intro keep_intros)

lemma keeps_ThrowId [keep_intros]: "keeps (ThrowId c out i msg)"
  unfolding ThrowId_def by (intro keep_intros)

lemma keeps_ThrowF [keep_intros]: "keeps (ThrowF c out i fmt msg)"
  unfolding ThrowF_def by (intro keep_intros)

lemma keeps_AddTry [keep_intros]: "keeps (AddTry c)"
  unfolding AddTry_def by (intro keep_intros) simp_all

lemma keeps_RemTry [keep_intros]: "keeps (RemTry c)"
  unfolding RemTry_def by (intro keep_intros) simp_all

lemma keeps_SetErrorHandler [keep_intros]: "keeps (SetErrorHandler c str)"
  unfolding SetErrorHandler_def by (intro keep_intros) simp_all

lemma keeps_SetStrict [keep_intros]: "keeps (SetStrict c b)"
  unfolding SetStrict_def by (intro keep_intros) simp_all

lemma keeps_SetSafeUID [keep_intros]: "keeps (SetSafeUID c u)"
  unfolding SetSafeUID_def by (intro keep_intros) simp_all

text \<open>Safe mode can be entered.\<close>

lemma keeps_SetSafeMode [keep_intros]: "keeps (SetSafeMode c True)"
  unfolding SetSafeMode_def by (intro keep_intros) simp_all

section \<open>Parsing\<close>

lemma keeps_skip_loop [keep_intros]: "keeps (skip_loop n inn)"
proof (induction n arbitrary: inn)
  case (Suc n)
  then show ?case unfolding skip_loop.simps Let_def by (intro keep_intros)
qed (simp add: keep_intros)

lemma keeps_skip_space [keep_intros]: "keeps (skip_space inn)"
  unfolding skip_space_def by (intro keep_intros)

lemma keeps_lpar_loop [keep_intros]: "keeps (lpar_loop n inn out lpc c)"
proof (induction n arbitrary: out lpc c)
  case (Suc n)
  then show ?case unfolding lpar_loop.simps Let_def by (intro keep_intros)
qed (simp add: keep_intros)

lemma keeps_ParseArgsLPar [keep_intros]: "keeps (ParseArgsLPar inn)"
  unfolding ParseArgsLPar_def by (intro keep_intros)

lemma keeps_escaped_loop [keep_intros]: "keeps (escaped_loop n inn cur pct eq)"
proof (induction n arbitrary: cur pct)
  case (Suc n)
  then show ?case unfolding escaped_loop.simps Let_def by (intro keep_intros)
qed (simp add: keep_intros)

lemma keeps_ParseArgEscaped [keep_intros]: "keeps (ParseArgEscaped inn eq)"
  unfolding ParseArgEscaped_def by (intro keep_intros)

lemma keeps_quoted_loop [keep_intros]: "keeps (quoted_loop n inn trim cur c)"
proof (induction n arbitrary: cur c)
  case (Suc n)
  then show ?case unfolding quoted_loop.simps Let_def by (intro keep_intros)
qed (simp add: keep_intros)

lemma keeps_ParseArgQuoted [keep_intros]: "keeps (ParseArgQuoted inn c)"
  unfolding ParseArgQuoted_def by (intro keep_intros)

lemma keeps_add_arg [keep_intros]: "keeps (add_arg ary s quot)"
  unfolding add_arg_def by (intro keep_intros)

lemma keeps_GetQmap_from [keep_intros]: "keeps (GetQmap_from n a)"
proof (induction n arbitrary: a)
  case (Suc n)
  then show ?case unfolding GetQmap_from.simps Let_def by (intro keep_intros)
qed (simp add: keep_intros)

lemma keeps_GetQmap [keep_intros]: "keeps (GetQmap a)"
  unfolding GetQmap_def by (intro keep_intros)

lemma keeps_not_found [keep_intros]: "keeps (not_found t out name)"
  unfolding not_found_def by (intro keep_intros)

lemma keeps_bad_syntax [keep_intros]: "keeps (bad_syntax t out c)"
  unfolding bad_syntax_def by (intro keep_intros)

lemma keeps_trim_loop [keep_intros]: "keeps (trim_loop n inn)"
proof (induction n arbitrary: inn)
  case (Suc n)
  then show ?case unfolding trim_loop.simps Let_def by (intro keep_intros)
qed (simp add: keep_intros)

definition keeps_interp :: "interp \<Rightarrow> bool" where
  "keeps_interp I \<longleftrightarrow>
    (\<forall>t inn out. keeps (i_Parse I t inn out)) \<and> (\<forall>t inn out. keeps (i_ParseFunc I t inn out)) \<and>
    (\<forall>a t out args. keeps (i_Eval I a t out args)) \<and> (\<forall>t inn out. keeps (i_RunCompiled I t inn out)) \<and>
    (\<forall>t rn ob inn out. keeps (i_CompFunc I t rn ob inn out))"

lemma keeps_interpD [keep_intros]:
  assumes "keeps_interp I"
  shows "keeps (i_Parse I t inn out)" "keeps (i_ParseFunc I t inn out)" "keeps (i_Eval I a t out args)"
    "keeps (i_RunCompiled I t inn out)" "keeps (i_CompFunc I t rn ob inn out)"
  using assms by (simp_all add: keeps_interp_def)

lemma keeps_arg_loop [keep_intros]:
  assumes "keeps_interp I"
  shows "keeps (arg_loop n I t inn cur numsp quoted qcnt lpc c)"
proof (induction n arbitrary: numsp quoted qcnt lpc c)
  case (Suc n)
  then show ?case unfolding arg_loop.simps Let_def by (intro keep_intros assms)
qed (simp add: keep_intros)

lemma keeps_ParseArg [keep_intros]: "keeps_interp I \<Longrightarrow> keeps (ParseArg I t inn cur c)"
  unfolding ParseArg_def Let_def by (intro keep_intros)

lemma keeps_arg_text [keep_intros]: "keeps_interp I \<Longrightarrow> keeps (arg_text I t inn c)"
  unfolding arg_text_def Let_def by (intro keep_intros)

lemma keeps_args_loop [keep_intros]:
  assumes "keeps_interp I"
  shows "keeps (args_loop n I t inn ary)"
proof (induction n arbitrary: ary)
  case (Suc n)
  then show ?case unfolding args_loop.simps Let_def by (intro keep_intros assms)
qed (simp add: keep_intros)

lemma keeps_ParseArgs [keep_intros]: "keeps_interp I \<Longrightarrow> keeps (ParseArgs I t inn)"
  unfolding ParseArgs_def Let_def by (intro keep_intros)

lemma keeps_qmap_loop [keep_intros]:
  assumes "keeps_interp I"
  shows "keeps (qmap_loop n I t inn qmode qmap ary)"
proof (induction n arbitrary: qmode qmap ary)
  case (Suc n)
  then show ?case unfolding qmap_loop.simps Let_def by (intro keep_intros assms)
qed (simp add: keep_intros)

lemma keeps_ParseArgsQmap [keep_intros]: "keeps_interp I \<Longrightarrow> keeps (ParseArgsQmap I t inn qmap)"
  unfolding ParseArgsQmap_def Let_def by (intro keep_intros)

lemma keeps_call_obj [keep_intros]: "keeps_interp I \<Longrightarrow> keeps (call_obj I t inn out a)"
  unfolding call_obj_def Let_def by (intro keep_intros)

lemma keeps_name_loop [keep_intros]:
  assumes "keeps_interp I"
  shows "keeps (name_loop n I t inn out name)"
proof (induction n arbitrary: name)
  case (Suc n)
  then show ?case unfolding name_loop.simps Let_def by (intro keep_intros assms)
qed (simp add: keep_intros)

lemma keeps_ParseFunc [keep_intros]: "keeps_interp I \<Longrightarrow> keeps (ParseFunc I t inn out)"
  unfolding ParseFunc_def Let_def by (intro keep_intros)

lemma keeps_ParseC [keep_intros]: "keeps_interp I \<Longrightarrow> keeps (ParseC I t inn out c)"
  unfolding ParseC_def Let_def by (intro keep_intros)

lemma keeps_parse_loop [keep_intros]:
  assumes "keeps_interp I"
  shows "keeps (parse_loop n I t inn out)"
proof (induction n arbitrary: out)
  case (Suc n)
  then show ?case unfolding parse_loop.simps Let_def by (intro keep_intros assms)
qed (simp add: keep_intros)

lemma keeps_Parse [keep_intros]: "keeps_interp I \<Longrightarrow> keeps (Parse I t inn out)"
  unfolding Parse_def Let_def by (intro keep_intros)

lemma keeps_ParseTrim [keep_intros]: "keeps_interp I \<Longrightarrow> keeps (ParseTrim I t inn out)"
  unfolding ParseTrim_def Let_def by (intro keep_intros)

lemma keeps_ParseIn [keep_intros]: "keeps_interp I \<Longrightarrow> keeps (ParseIn I t s out)"
  unfolding ParseIn_def Let_def by (intro keep_intros)

lemma keeps_ParseStr [keep_intros]: "keeps_interp I \<Longrightarrow> keeps (ParseStr I t s)"
  unfolding ParseStr_def Let_def by (intro keep_intros)

lemma keeps_map_exn [keep_intros]: "keeps (map_exn sub e)"
  unfolding map_exn_def by (intro keep_intros)

lemma keeps_put_error [keep_intros]: "keeps (put_error what out e)"
  unfolding put_error_def by (intro keep_intros)

lemma keeps_ParseTry [keep_intros]: "keeps_interp I \<Longrightarrow> keeps (ParseTry I t inn out)"
  unfolding ParseTry_def Let_def by (intro keep_intros)

section \<open>Compiled code\<close>

lemma keeps_OutFlush [keep_intros]: "keeps (OutFlush I ob out)"
  unfolding OutFlush_def Let_def by (intro keep_intros)

lemma keeps_random_byte [keep_intros]: "keeps (random_byte rn)"
  unfolding random_byte_def by (intro keep_intros)

lemma keeps_OutFunc [keep_intros]: "keeps (OutFunc I rn out name ary)"
  unfolding OutFunc_def Let_def by (intro keep_intros)

lemma keeps_out_text [keep_intros]: "keeps (out_text I rn cur tmp)"
  unfolding out_text_def Let_def by (intro keep_intros)

lemma keeps_comp_arg_loop [keep_intros]:
  assumes "keeps_interp I"
  shows "keeps (comp_arg_loop n I t rn ob inn cur tmp numsp quoted qcnt lpc c)"
proof (induction n arbitrary: tmp numsp quoted qcnt lpc c)
  case (Suc n)
  then show ?case unfolding comp_arg_loop.simps Let_def by (intro keep_intros assms)
qed (simp add: keep_intros)

lemma keeps_ParseCompArg [keep_intros]: "keeps_interp I \<Longrightarrow> keeps (ParseCompArg I t rn ob inn cur c)"
  unfolding ParseCompArg_def Let_def by (intro keep_intros)

lemma keeps_comp_arg_text [keep_intros]: "keeps_interp I \<Longrightarrow> keeps (comp_arg_text I t rn ob inn c)"
  unfolding comp_arg_text_def Let_def by (intro keep_intros)

lemma keeps_comp_args_loop [keep_intros]:
  assumes "keeps_interp I"
  shows "keeps (comp_args_loop n I t rn ob inn qmode qmap ary)"
proof (induction n arbitrary: qmode qmap ary)
  case (Suc n)
  then show ?case unfolding comp_args_loop.simps Let_def by (intro keep_intros assms)
qed (simp add: keep_intros)

lemma keeps_ParseCompArgs [keep_intros]: "keeps_interp I \<Longrightarrow> keeps (ParseCompArgs I t rn ob inn qmap)"
  unfolding ParseCompArgs_def Let_def by (intro keep_intros)

lemma keeps_comp_name_loop [keep_intros]:
  assumes "keeps_interp I"
  shows "keeps (comp_name_loop n I t rn ob inn out name)"
proof (induction n arbitrary: name)
  case (Suc n)
  then show ?case unfolding comp_name_loop.simps Let_def by (intro keep_intros assms)
qed (simp add: keep_intros)

lemma keeps_CompFunc [keep_intros]: "keeps_interp I \<Longrightarrow> keeps (CompFunc I t rn ob inn out)"
  unfolding CompFunc_def Let_def by (intro keep_intros)

lemma keeps_comp_loop [keep_intros]:
  assumes "keeps_interp I"
  shows "keeps (comp_loop n I t rn ob inn out)"
proof (induction n arbitrary: out)
  case (Suc n)
  then show ?case unfolding comp_loop.simps Let_def by (intro keep_intros assms)
qed (simp add: keep_intros)

lemma keeps_comp_Parse [keep_intros]: "keeps_interp I \<Longrightarrow> keeps (comp_Parse I p rn s out)"
  unfolding comp_Parse_def Let_def by (intro keep_intros)

lemma keeps_run_arg [keep_intros]: "keeps_interp I \<Longrightarrow> keeps (run_arg I t inn r qmode i ary)"
  unfolding run_arg_def Let_def by (intro keep_intros)

lemma keeps_run_args [keep_intros]:
  assumes "keeps_interp I"
  shows "keeps (run_args n I t inn r plain qmode qmap i ary)"
proof (induction n arbitrary: qmode qmap i ary)
  case (Suc n)
  then show ?case unfolding run_args.simps Let_def by (intro keep_intros assms)
qed (simp add: keep_intros)

lemma keeps_skip_args [keep_intros]: "keeps (skip_args n inn)"
proof (induction n arbitrary: inn)
  case (Suc n)
  then show ?case unfolding skip_args.simps Let_def by (intro keep_intros)
qed (simp add: keep_intros)

lemma keeps_run_func [keep_intros]: "keeps_interp I \<Longrightarrow> keeps (run_func I t inn out r name)"
  unfolding run_func_def Let_def by (intro keep_intros)

lemma keeps_run_loop [keep_intros]:
  assumes "keeps_interp I"
  shows "keeps (run_loop n I t inn out)"
proof (induction n arbitrary: out)
  case (Suc n)
  then show ?case unfolding run_loop.simps Let_def by (intro keep_intros assms)
qed (simp add: keep_intros)

lemma keeps_RunCompiled [keep_intros]: "keeps_interp I \<Longrightarrow> keeps (RunCompiled I t inn out)"
  unfolding RunCompiled_def Let_def by (intro keep_intros)

section \<open>Core macros\<close>

lemma keeps_VALID_ARGM [keep_intros]: "keeps b \<Longrightarrow> keeps (VALID_ARGM name mn t out args b)"
  unfolding VALID_ARGM_def by (intro keep_intros)

lemma keeps_VALID_ARGC [keep_intros]: "keeps b \<Longrightarrow> keeps (VALID_ARGC name mn mx t out args b)"
  unfolding VALID_ARGC_def by (intro keep_intros)

lemma keeps_EvalSet [keep_intros]: "keeps (EvalSet t out args)"
  unfolding EvalSet_def Let_def by (intro keep_intros)

lemma keeps_EvalGSet [keep_intros]: "keeps (EvalGSet t out args)"
  unfolding EvalGSet_def Let_def by (intro keep_intros)

lemma keeps_EvalLet [keep_intros]: "keeps (EvalLet t out args)"
  unfolding EvalLet_def Let_def by (intro keep_intros)

lemma keeps_EvalDefined [keep_intros]: "keeps (EvalDefined t out args)"
  unfolding EvalDefined_def Let_def by (intro keep_intros)

lemma keeps_EvalNot [keep_intros]: "keeps (EvalNot t out args)"
  unfolding EvalNot_def Let_def by (intro keep_intros)

lemma keeps_EvalThrow [keep_intros]: "keeps (EvalThrow t out args)"
  unfolding EvalThrow_def Let_def by (intro keep_intros)

lemma keeps_EvalErrorHandler [keep_intros]: "keeps (EvalErrorHandler t out args)"
  unfolding EvalErrorHandler_def Let_def by (intro keep_intros)

lemma keeps_EvalStrict [keep_intros]: "keeps (EvalStrict t out args)"
  unfolding EvalStrict_def Let_def by (intro keep_intros)

lemma keeps_EvalSafeMode [keep_intros]: "keeps (EvalSafeMode t out args)"
  unfolding EvalSafeMode_def Let_def by (intro keep_intros)

lemma keeps_CreateDef [keep_intros]: "keeps_interp I \<Longrightarrow> keeps (CreateDef I t args)"
  unfolding CreateDef_def Let_def by (intro keep_intros)

lemma keeps_EvalDefine [keep_intros]: "keeps_interp I \<Longrightarrow> keeps (EvalDefine I t out args)"
  unfolding EvalDefine_def Let_def by (intro keep_intros)

lemma keeps_EvalGDefine [keep_intros]: "keeps_interp I \<Longrightarrow> keeps (EvalGDefine I t out args)"
  unfolding EvalGDefine_def Let_def by (intro keep_intros)

lemma keeps_map_param [keep_intros]: "keeps (map_param t tmp p s)"
  unfolding map_param_def by (cases p; cases "snd p") (auto intro!: keep_intros)

lemma keeps_map_params [keep_intros]: "keeps (map_params t tmp ps ss)"
  by (induction t tmp ps ss rule: map_params.induct) (auto intro!: keep_intros)

lemma keeps_qObjDef_Eval [keep_intros]: "keeps_interp I \<Longrightarrow> keeps (qObjDef_Eval I this body params t out args)"
  unfolding qObjDef_Eval_def Let_def by (intro keep_intros)

lemma keeps_qObjDefArgs_Eval [keep_intros]: "keeps_interp I \<Longrightarrow> keeps (qObjDefArgs_Eval I def myargs t out args)"
  unfolding qObjDefArgs_Eval_def Let_def by (intro keep_intros)

lemma keeps_EvalExpand [keep_intros]: "keeps_interp I \<Longrightarrow> keeps (EvalExpand I t out args)"
  unfolding EvalExpand_def Let_def by (intro keep_intros)

lemma keeps_EvalCompile [keep_intros]: "keeps_interp I \<Longrightarrow> keeps (EvalCompile I t out args)"
  unfolding EvalCompile_def Let_def by (intro keep_intros)

lemma keeps_map_safe [keep_intros]: "keeps (map_safe t tc ns)"
  by (induction ns) (auto intro!: keep_intros)

lemma keeps_EvalSafeExpand [keep_intros]: "keeps_interp I \<Longrightarrow> keeps (EvalSafeExpand I t out args)"
  unfolding EvalSafeExpand_def Let_def by (intro keep_intros)

lemma keeps_EvalInvoke [keep_intros]: "keeps_interp I \<Longrightarrow> keeps (EvalInvoke I t out args)"
  unfolding EvalInvoke_def Let_def by (intro keep_intros)

lemma keeps_EvalNilOut [keep_intros]: "keeps (EvalNilOut data args)"
  unfolding EvalNilOut_def by (cases data) (auto intro!: keep_intros)

lemma keeps_EvalBreak [keep_intros]: "keeps (EvalBreak data)"
  unfolding EvalBreak_def by (cases data) (auto intro!: keep_intros)

lemma keeps_EvalNil [keep_intros]: "keeps_interp I \<Longrightarrow> keeps (EvalNil I t out args)"
  unfolding EvalNil_def Let_def by (intro keep_intros)

lemma keeps_EvalNull [keep_intros]: "keeps_interp I \<Longrightarrow> keeps (EvalNull I t out args)"
  unfolding EvalNull_def Let_def by (intro keep_intros)

lemma keeps_if_loop [keep_intros]: "keeps_interp I \<Longrightarrow> keeps (if_loop I t out xs)"
  by (induction I t out xs rule: if_loop.induct) (auto intro!: keep_intros)

lemma keeps_and_loop [keep_intros]: "keeps_interp I \<Longrightarrow> keeps (and_loop I t out xs)"
  by (induction I t out xs rule: and_loop.induct) (auto intro!: keep_intros)

lemma keeps_or_loop [keep_intros]: "keeps_interp I \<Longrightarrow> keeps (or_loop I t out xs)"
  by (induction I t out xs rule: or_loop.induct) (auto intro!: keep_intros)

lemma keeps_EvalIf [keep_intros]: "keeps_interp I \<Longrightarrow> keeps (EvalIf I t out args)"
  unfolding EvalIf_def Let_def by (intro keep_intros)

lemma keeps_EvalAnd [keep_intros]: "keeps_interp I \<Longrightarrow> keeps (EvalAnd I t out args)"
  unfolding EvalAnd_def Let_def by (intro keep_intros)

lemma keeps_EvalOr [keep_intros]: "keeps_interp I \<Longrightarrow> keeps (EvalOr I t out args)"
  unfolding EvalOr_def Let_def by (intro keep_intros)

lemma keeps_for_loop [keep_intros]:
  assumes "keeps_interp I"
  shows "keeps (for_loop n I sub out body i ok to step)"
proof (induction n arbitrary: i)
  case (Suc n)
  then show ?case unfolding for_loop.simps Let_def by (intro keep_intros assms)
qed (simp add: keep_intros)

lemma keeps_EvalFor [keep_intros]: "keeps_interp I \<Longrightarrow> keeps (EvalFor I t out args)"
  unfolding EvalFor_def Let_def by (intro keep_intros)

lemma keeps_max_iteration [keep_intros]: "keeps_interp I \<Longrightarrow> keeps (max_iteration I t)"
  unfolding max_iteration_def Let_def by (intro keep_intros)

lemma keeps_map_break [keep_intros]: "keeps (map_break t ok)"
  unfolding map_break_def by (intro keep_intros)

lemma keeps_while_loop [keep_intros]:
  assumes "keeps_interp I"
  shows "keeps (while_loop n I t out args ok loopMax i)"
proof (induction n arbitrary: i)
  case (Suc n)
  then show ?case unfolding while_loop.simps Let_def by (intro keep_intros assms)
qed (simp add: keep_intros)

lemma keeps_EvalWhile [keep_intros]: "keeps_interp I \<Longrightarrow> keeps (EvalWhile I t out args)"
  unfolding EvalWhile_def Let_def by (intro keep_intros)

lemma keeps_do_loop [keep_intros]:
  assumes "keeps_interp I"
  shows "keeps (do_loop n I t out args ok loopMax i)"
proof (induction n arbitrary: i)
  case (Suc n)
  then show ?case unfolding do_loop.simps Let_def by (intro keep_intros assms)
qed (simp add: keep_intros)

lemma keeps_EvalDo [keep_intros]: "keeps_interp I \<Longrightarrow> keeps (EvalDo I t out args)"
  unfolding EvalDo_def Let_def by (intro keep_intros)

lemma keeps_EvalTry [keep_intros]: "keeps_interp I \<Longrightarrow> keeps (EvalTry I t out args)"
  unfolding EvalTry_def Let_def by (intro keep_intros)

lemma keeps_EvalSafeUID [keep_intros]: "keeps (EvalSafeUID I t out args)"
  unfolding EvalSafeUID_def Let_def by (intro keep_intros)

lemma keeps_EvalSmxQuote [keep_intros]: "keeps (EvalSmxQuote out args)"
  unfolding EvalSmxQuote_def by (intro keep_intros)

lemma keeps_EvalFunc [keep_intros]: "keeps_interp I \<Longrightarrow> keeps (EvalFunc I data f t out args)"
  by (cases f) (auto simp: EvalFunc_def intro!: keep_intros)

lemma keeps_EvalObj [keep_intros]: "keeps_interp I \<Longrightarrow> keeps (EvalObj I a t out args)"
  unfolding EvalObj_def Let_def by (intro keep_intros)

section \<open>The interpreter\<close>

lemma keeps_smx [keep_intros]: "keeps_interp (smx e n)"
proof (induction n)
  case 0
  then show ?case by (simp add: smx.simps no_interp_def keeps_interp_def keep_intros)
next
  case (Suc n)
  then have "keeps_interp (deeper (smx e n))"
    unfolding keeps_interp_def [of "deeper (smx e n)"] by (auto simp: deeper_def intro!: keep_intros)
  then show ?case by (simp add: smx.simps)
qed

text \<open>C1: whatever a document does, expanding it leaves the interpreter's stacks as they were:
  input buffers, output streams and contexts are all released, the contexts that were there keep
  their parents and nesting levels, the session context and the nesting limit are the same,
  and a context in safe mode is still in safe mode. This holds for a document that returns and
  for one that ends in an exception.\<close>

theorem expand_keeps_frame:
  assumes "expand e n s w = (r, w')" "r \<noteq> Crash" "r \<noteq> NoFuel"
  shows "frame w w'"
proof -
  have "keeps (expand e n s)" unfolding expand_def by (intro keep_intros)
  from keepsD [OF this assms] show ?thesis .
qed

end
