(* ===== verification/Errors.thy ===== *)
theory Errors
  imports Frame Compiled
begin

text \<open>
  Exceptions, the nesting limit and the array of quote marks: which calls can raise, what is
  written when the limit is reached, and when the marks of the arguments are lost.
\<close>

section \<open>Computations that do not raise\<close>

named_theorems quiet_intros \<open>computations that raise no exception\<close>

definition quiet :: "'a run \<Rightarrow> bool" where
  "quiet m \<longleftrightarrow> (\<forall>w x. fst (m w) \<noteq> Raise x)"

lemma failed_Raise [simp]: "failed r = Raise x \<longleftrightarrow> r = Raise x"
  by (cases r) auto

lemma quietD: "quiet m \<Longrightarrow> m w = (r, w') \<Longrightarrow> r \<noteq> Raise x"
  unfolding quiet_def by (metis fst_conv)

lemma quiet_upd [quiet_intros]: "quiet (upd f)"
  by (simp add: quiet_def)

lemma quiet_gets [quiet_intros]: "quiet (gets f)"
  by (simp add: quiet_def)

lemma quiet_ret [quiet_intros]: "quiet (ret x)"
  by (simp add: quiet_def ret_def)

lemma quiet_fail: "(\<And>x. r \<noteq> Raise x) \<Longrightarrow> quiet (fail r)"
  by (simp add: quiet_def fail_def)

lemma quiet_bnd [quiet_intros]:
  assumes "quiet m" "\<And>x. quiet (f x)"
  shows "quiet (bnd m f)"
  using assms unfolding quiet_def bnd_def by (auto split: prod.split res.split) (metis fst_conv)+

lemma quiet_sq [quiet_intros]: "quiet m \<Longrightarrow> quiet n \<Longrightarrow> quiet (sq m n)"
  unfolding sq_def by (intro quiet_intros)

lemma quiet_if [quiet_intros]: "(b \<Longrightarrow> quiet m) \<Longrightarrow> (\<not> b \<Longrightarrow> quiet n) \<Longrightarrow> quiet (if b then m else n)"
  by simp

lemma quiet_let [quiet_intros]: "quiet (f x) \<Longrightarrow> quiet (Let x f)"
  by (simp add: Let_def)

lemma quiet_always [quiet_intros]:
  assumes "quiet m" "quiet fin"
  shows "quiet (always m fin)"
  unfolding quiet_def
proof (intro allI)
  fix w x
  obtain r w' where m: "m w = (r, w')" by (cases "m w")
  obtain f w'' where f: "fin w' = (f, w'')" by (cases "fin w'")
  from quietD [OF assms(1) m] quietD [OF assms(2) f]
  show "fst (always m fin w) \<noteq> Raise x"
    by (cases f) (auto simp: always_def m f)
qed

lemma quiet_catching [quiet_intros]:
  assumes "\<And>e. quiet (h e)" "quiet ha"
  shows "quiet (catching m h ha)"
  using assms unfolding quiet_def catching_def by (auto split: prod.split res.split)

lemma quiet_scopes [quiet_intros]:
  "(\<And>i. quiet (f i)) \<Longrightarrow> quiet (with_in s f)" "(\<And>i. quiet (f i)) \<Longrightarrow> quiet (with_out b f)"
  unfolding with_in_def with_out_def by (intro quiet_intros; simp add: quiet_def)+

lemma quiet_capture [quiet_intros]: "(\<And>o'. quiet (f o')) \<Longrightarrow> quiet (capture f)"
  unfolding capture_def by (intro quiet_intros)

lemma quiet_put [quiet_intros]: "quiet (PutS out s)" "quiet (PutC out c)" "quiet (PutZ out s)" "quiet (PutN out i)" "quiet (Clear out)"
  unfolding PutC_def PutZ_def PutN_def PutS_def Clear_def by (intro quiet_intros)+

lemma quiet_put_error [quiet_intros]: "quiet (put_error what out e)"
  unfolding put_error_def by (intro quiet_intros)

lemma quiet_GetLineNum [quiet_intros]: "quiet (GetLineNum i)"
  unfolding GetLineNum_def by (intro quiet_intros)

lemma quiet_fails [quiet_intros]: "quiet (fail Aborted)" "quiet (fail Crash)"
  by (simp_all add: quiet_fail)

lemma quiet_RemTry [quiet_intros]: "quiet (RemTry t)"
  unfolding RemTry_def assert_ok_def by (intro quiet_intros)

lemma quiet_ParseTry: "quiet (ParseTry I t i out)"
  unfolding ParseTry_def by (intro quiet_intros)



section \<open>The nesting limit\<close>

text \<open>in a context nested deeper than the limit a document is copied unparsed and then error
  99 is thrown: as an exception inside a try, as text in brackets outside.\<close>

theorem Parse_too_deep:
  assumes "too_deep t w" "i < length (w_ins w)"
  shows "Parse I t i out w =
    (let msg = ''Maximum nesting level reached.''; w' = wrote out (rest i w) (advance i (length (rest i w)) w) in
     if c_try (w_ctxs w ! t) \<noteq> 0 then (Raise \<lparr>ex_id = 99, ex_msg = msg, ex_line = 0\<rparr>, w')
     else (Ok (), wrote out (''['' @ msg @ '']'') w'))"
proof -
  have "GetS i w = (Ok (rest i w), advance i (length (rest i w)) w)"
    by (simp add: GetS_def advance_def took_def Let_def)
  then show ?thesis using assms
    by (simp add: Parse_def bnd_def sq_def PutS_wrote ThrowId_def Throw_def PutC_def PutZ_def fail_def cstr_def Let_def)
qed

section \<open>Quote marks\<close>

definition mark :: "bool \<Rightarrow> int" where
  "mark q = (if q then 1 else 0)"

text \<open>The arguments of a call, added one after the other.\<close>

fun mark_all :: "(bytes \<times> bool) list \<Rightarrow> qargs \<Rightarrow> qargs option" where
  "mark_all [] a = Some a"
| "mark_all ((s, q) # xs) a =
     (case SetQuot (Add a s) (Count a) (mark q) of None \<Rightarrow> None | Some a' \<Rightarrow> mark_all xs a')"

lemma add_arg_mark: "add_arg a s q w = (case mark_all [(s, q)] a of None \<Rightarrow> (Crash, w) | Some a' \<Rightarrow> (Ok a', w))"
  by (simp add: add_arg_def mark_def fail_def ret_def split: option.split)

lemma mark_all_append: "mark_all (xs @ ys) a = (case mark_all xs a of None \<Rightarrow> None | Some a' \<Rightarrow> mark_all ys a')"
  by (induction xs a rule: mark_all.induct) (auto split: option.split)

definition marked :: "(bytes \<times> bool) list \<Rightarrow> qargs \<Rightarrow> bool" where
  "marked xs a \<longleftrightarrow> qa_vals a = map fst xs \<and> qa_n a = int (16 * ((length xs + 15) div 16)) \<and>
     length (qa_opts a) = nat (qa_n a) \<and> (\<forall>i < length xs. qa_opts a ! i = mark (snd (xs ! i)))"

lemma int8_small: "i < 128 \<Longrightarrow> int8 (int i) = int i"
  by (simp add: int8_def)

lemma marked_step:
  assumes "marked xs a" "length xs < 112"
  shows "\<exists>a'. mark_all [(s, q)] a = Some a' \<and> marked (xs @ [(s, q)]) a'"
proof (cases "length xs mod 16 = 0")
  case False
  let ?k = "length xs"
  let ?a = "\<lparr>qa_vals = qa_vals a @ [s], qa_opts = (qa_opts a)[?k := mark q], qa_n = qa_n a\<rparr>"
  define j where "j = ?k div 16"
  define r where "r = ?k mod 16"
  have jr: "?k = 16 * j + r" "r < 16" "0 < r" using False by (simp_all add: j_def r_def)
  have q: "(?k + 15) div 16 = Suc j" "(?k + 16) div 16 = Suc j"
    using jr by (intro div_nat_eqI; simp)+
  have d: "(?k + 15) div 16 = (?k + 16) div 16" "?k < 16 * ((?k + 15) div 16)"
    unfolding q using jr by simp_all
  have len: "qa_n a = int (16 * ((?k + 15) div 16))" "length (qa_opts a) = nat (qa_n a)" "qa_vals a = map fst xs"
      "\<forall>i < ?k. qa_opts a ! i = mark (snd (xs ! i))"
    using assms(1) by (simp_all add: marked_def)
  have k: "int ?k < qa_n a" "?k < length (qa_opts a)" using d(2) len(1,2) by linarith+
  have "mark_all [(s, q)] a = Some ?a"
    using len(3) k(1) by (simp add: SetQuot_def Add_def Count_def)
  moreover have "marked (xs @ [(s, q)]) ?a"
    using len d(1) k(2) by (simp add: marked_def nth_list_update nth_append less_Suc_eq all_conj_distrib)
  ultimately show ?thesis by blast
next
  case True
  let ?k = "length xs"
  obtain j where j: "?k = 16 * j" "j \<le> 6" using True assms(2) by (auto elim: dvdE simp: mod_eq_0_iff_dvd)
  have q: "(?k + 15) div 16 = j" "(?k + 16) div 16 = Suc j" using j by simp_all
  have n: "int8 (int (?k + 16)) = int (?k + 16)" using j by (intro int8_small) simp
  let ?a = "\<lparr>qa_vals = qa_vals a @ [s], qa_opts = (qa_opts a @ replicate 16 0)[?k := mark q], qa_n = int (?k + 16)\<rparr>"
  have len: "qa_n a = int ?k" "length (qa_opts a) = ?k" "qa_vals a = map fst xs" "\<forall>i < ?k. qa_opts a ! i = mark (snd (xs ! i))"
    using assms(1) q j(1) by (simp_all add: marked_def)
  have "mark_all [(s, q)] a = Some ?a"
    using len n by (simp add: SetQuot_def Add_def Count_def)
  moreover have "marked (xs @ [(s, q)]) ?a"
    using len q(2) j(1) by (auto simp: marked_def nth_list_update nth_append less_Suc_eq)
  ultimately show ?thesis by blast
qed

lemma mark_all_marked: "length xs \<le> 112 \<Longrightarrow> \<exists>a. mark_all xs no_args = Some a \<and> marked xs a"
proof (induction xs rule: rev_induct)
  case Nil
  then show ?case by (simp add: marked_def no_args_def)
next
  case (snoc x xs)
  then obtain a where a: "mark_all xs no_args = Some a" "marked xs a" by auto
  with marked_step [of xs a "fst x" "snd x"] snoc.prems show ?case by (auto simp: mark_all_append)
qed

lemma mark_113:
  assumes "marked xs a" "length xs = 112"
  shows "\<exists>a'. mark_all [(s, q)] a = Some a' \<and> qa_vals a' = map fst xs @ [s] \<and> qa_n a' = - 128"
  using assms by (simp add: marked_def SetQuot_def Add_def Count_def int8_def)

lemma marks_kept:
  "length xs \<le> 112 \<Longrightarrow> \<exists>a. mark_all xs no_args = Some a \<and> qa_vals a = map fst xs \<and>
     (\<forall>i < length xs. GetQuot a i = mark (snd (xs ! i)))"
proof -
  assume "length xs \<le> 112"
  then obtain a where a: "mark_all xs no_args = Some a" "marked xs a" using mark_all_marked by blast
  have "length xs \<le> 16 * ((length xs + 15) div 16)"
    using mult_div_mod_eq [of 16 "length xs + 15"] mod_less_divisor [of 16 "length xs + 15"] by linarith
  then have "GetQuot a i = mark (snd (xs ! i))" if "i < length xs" for i
    using a(2) that \<open>length xs \<le> 112\<close> by (simp add: marked_def GetQuot_def int8_small Let_def)
  with a show ?thesis by (auto simp: marked_def)
qed

lemma marks_lost:
  "length xs = 113 \<Longrightarrow> \<exists>a. mark_all xs no_args = Some a \<and> (\<forall>i. GetQuot a i = 0)"
  "length xs > 113 \<Longrightarrow> mark_all xs no_args = None"
proof -
  obtain a where a: "mark_all (take 112 xs) no_args = Some a" "marked (take 112 xs) a"
    using mark_all_marked [of "take 112 xs"] by auto
  have split: "xs = take 112 xs @ [xs ! 112] @ drop 113 xs" if "length xs > 112"
    using id_take_nth_drop [of 112 xs] that by simp
  have more: "\<exists>a'. mark_all (take 112 xs @ [xs ! 112]) no_args = Some a' \<and> qa_n a' = - 128" if "length xs > 112"
    using a that mark_113 [of "take 112 xs" a "fst (xs ! 112)" "snd (xs ! 112)"] by (auto simp: mark_all_append)
  show "\<exists>a. mark_all xs no_args = Some a \<and> (\<forall>i. GetQuot a i = 0)" if "length xs = 113"
    using split more that by (auto simp: GetQuot_def Let_def)
  show "mark_all xs no_args = None" if big: "length xs > 113"
  proof -
    obtain y ys where y: "drop 113 xs = y # ys" using big by (cases "drop 113 xs") auto
    obtain b where b: "mark_all (take 112 xs @ [xs ! 112]) no_args = Some b" "qa_n b = - 128"
      using more big by auto
    have "mark_all xs no_args = mark_all ((take 112 xs @ [xs ! 112]) @ y # ys) no_args"
      using split y big by simp
    with b show ?thesis by (cases y) (simp add: mark_all_append SetQuot_def Add_def del: append_assoc)
  qed
qed

text \<open>C39: the quote marks of up to 112 arguments are kept. With 113 arguments every mark reads as
  unset, and a further argument makes the array write before its buffer.\<close>

theorem quote_marks_limit:
  "(length xs \<le> 112 \<longrightarrow> (\<exists>a. mark_all xs no_args = Some a \<and> qa_vals a = map fst xs \<and>
      (\<forall>i < length xs. GetQuot a i = mark (snd (xs ! i))))) \<and>
   (length xs = 113 \<longrightarrow> (\<exists>a. mark_all xs no_args = Some a \<and> (\<forall>i. GetQuot a i = 0))) \<and>
   (length xs > 113 \<longrightarrow> mark_all xs no_args = None)"
  using marks_kept marks_lost by blast

theorem quote_marks_limit_witness:
  "\<exists>a. mark_all (replicate 113 (''a'', True)) no_args = Some a \<and> GetQuot a 0 = 0"
  using quote_marks_limit [of "replicate 113 (''a'', True)"] by auto

end
