(* ===== verification/Quoting.thy ===== *)
theory Quoting
  imports Errors
begin

text \<open>
  \<^verbatim>\<open>SmxQuote\<close> against the argument parser: arguments quoted by the macro \<^verbatim>\<open>macro-quote\<close> and read
  back by \<^verbatim>\<open>ParseArgs\<close> are the original ones.
\<close>

section \<open>What the quoted text looks like\<close>

lemma quote_char_plain: "\<not> needs_quote c \<Longrightarrow> quote_char c = [c]"
  by (auto simp: needs_quote_def quote_char_def)

lemma SmxQuote_quoted:
  assumes "\<exists>c \<in> set s. needs_quote c"
  shows "SmxQuote s = [DQ] @ concat (map quote_char s) @ [DQ]"
proof -
  let ?p = "takeWhile (\<lambda>c. \<not> needs_quote c) s" and ?r = "dropWhile (\<lambda>c. \<not> needs_quote c) s"
  have "concat (map quote_char ?p) = ?p"
    by (induction s) (auto simp: quote_char_plain)
  moreover have "concat (map quote_char s) = concat (map quote_char ?p) @ concat (map quote_char ?r)"
    by (metis concat_append map_append takeWhile_dropWhile_id)
  ultimately show ?thesis using assms by (auto simp: SmxQuote_def Let_def dropWhile_eq_Nil_conv)
qed

lemma SmxQuote_plain: "\<forall>c \<in> set s. \<not> needs_quote c \<Longrightarrow> SmxQuote s = s"
  by (simp add: SmxQuote_def Let_def dropWhile_eq_Nil_conv)

text \<open>A string that can be quoted: no byte 0xFF, and no leading brace unless something else in it
  asks for quotes.\<close>

definition quotable :: "bytes \<Rightarrow> bool" where
  "quotable s \<longleftrightarrow> EOF \<notin> set s \<and> (take 1 s = ''{'' \<longrightarrow> (\<exists>c \<in> set s. needs_quote c))"

section \<open>Reading one argument\<close>

lemma space_neq: "c_isspace c \<Longrightarrow> c \<noteq> EOF \<and> c \<noteq> DQ \<and> c \<noteq> SQ \<and> c \<noteq> CHR '','' \<and> c \<noteq> CHR '')''"
  by (auto simp: c_char)

lemma skip_space_one:
  assumes "rest i w = c # cs" "\<not> c_isspace c"
  shows "skip_space i w = (Ok c, advance i 1 w)"
  using assms by (simp add: skip_space_def bnd_def room_run GetC_Cons ret_def)

lemma ParseFunc_percent:
  assumes "rest i w = CHR ''%'' # r"
  shows "ParseFunc I t i out w = (Ok False, wrote out ''%'' (advance i 1 w))"
proof -
  have "\<not> isqsymf (CHR ''%'')" by (simp add: c_char)
  then show ?thesis
    using GetC_Cons [OF assms] by (simp add: ParseFunc_def bnd_def sq_def PutC_def PutS_wrote ret_def)
qed

text \<open>Inside quotes: the escaped characters up to the closing quote, and then the character \<^verbatim>\<open>d\<close>.\<close>

lemma arg_loop_quoted:
  fixes i :: istream and cur :: ostream
  shows "EOF \<notin> set s \<Longrightarrow> c # rest i w = concat (map quote_char s) @ DQ # d # r \<Longrightarrow> d \<noteq> EOF \<Longrightarrow>
   i < length (w_ins w) \<Longrightarrow> length s < n \<Longrightarrow>
   arg_loop n (smx e (Suc k)) t i cur numsp DQ q lpc c w =
   arg_loop (n - length s - 1) (smx e (Suc k)) t i cur 0 NUL q 0 d
     (wrote cur s (advance i (length (concat (map quote_char s)) + 1) w))"
proof (induction s arbitrary: w n c numsp)
  case Nil
  then obtain m where n: "n = Suc m" by (cases n) auto
  show ?case using Nil by (simp add: n bnd_def Let_def GetC_Cons)
next
  case (Cons x s)
  then obtain m where n: "n = Suc m" by (cases n) auto
  let ?Q = "concat (map quote_char s) @ DQ # d # r"
  obtain y ys where y: "?Q = y # ys" by (cases ?Q) auto
  have yE: "y \<noteq> EOF"
  proof (cases s)
    case Nil then show ?thesis using y by auto
  next
    case (Cons a s')
    then have "a \<noteq> EOF" using \<open>EOF \<notin> set (x # s)\<close> by auto
    then show ?thesis using Cons y by (auto simp: quote_char_def split: if_splits)
  qed
  have x: "x \<noteq> EOF" using Cons.prems by auto
  let ?l = "length (quote_char x)"
  let ?v = "wrote cur [x] (advance i ?l w)"
  have in_rest: "c # rest i w = quote_char x @ ?Q" using Cons.prems by simp
  have step: "\<exists>ns. arg_loop n (smx e (Suc k)) t i cur numsp DQ q lpc c w = arg_loop m (smx e (Suc k)) t i cur ns DQ q lpc y ?v"
  proof -
    consider "x = DQ \<or> x = BSL \<or> x = CHR ''('' \<or> x = CHR '')''" | "x = CHR ''%''"
      | "\<not> (x = DQ \<or> x = BSL \<or> x = CHR ''('' \<or> x = CHR '')'')" "x \<noteq> CHR ''%''"
      by blast
    then show ?thesis
    proof cases
      case 1
      then have qx: "quote_char x = [BSL, x]" by (auto simp: quote_char_def)
      with in_rest y have c: "c = BSL" "rest i w = x # y # ys" by auto
      have "GetC i w = (Ok x, advance i 1 w)" "GetC i (wrote cur [x] (advance i 1 w)) = (Ok y, ?v)"
        using c(2) Cons.prems(4) qx GetC_Cons [of "wrote cur [x] (advance i 1 w)" i y ys]
        by (simp_all add: GetC_Cons advance_wrote)
      then show ?thesis using c x yE by (simp add: n bnd_def sq_def Let_def PutC_def PutS_wrote) (rule exI, rule refl)
    next
      case 2
      then have qx: "quote_char x = ''%%''" by (simp add: quote_char_def)
      with in_rest y have c: "c = CHR ''%''" "rest i w = CHR ''%'' # y # ys" by auto
      have "ParseFunc (smx e k) t i cur w = (Ok False, wrote cur [x] (advance i 1 w))"
        using ParseFunc_percent [OF c(2)] 2 by simp
      moreover have "GetC i (wrote cur [x] (advance i 1 w)) = (Ok y, ?v)"
        using c(2) Cons.prems(4) qx GetC_Cons [of "wrote cur [x] (advance i 1 w)" i y ys]
        by (simp add: advance_wrote)
      ultimately show ?thesis using c yE by (simp add: n bnd_def sq_def Let_def smx_run) (rule exI, rule refl)
    next
      case 3
      then have qx: "quote_char x = [x]" by (simp add: quote_char_def)
      with in_rest y have c: "c = x" "rest i w = y # ys" by auto
      have "GetC i (wrote cur [x] w) = (Ok y, ?v)"
        using c(2) qx GetC_Cons [of "wrote cur [x] w" i y ys] by (simp add: advance_wrote)
      then show ?thesis using c 3 yE by (simp add: n bnd_def sq_def Let_def PutC_def PutS_wrote) (rule exI, rule refl)
    qed
  qed
  then obtain ns where step: "arg_loop n (smx e (Suc k)) t i cur numsp DQ q lpc c w =
      arg_loop m (smx e (Suc k)) t i cur ns DQ q lpc y ?v" by blast
  have "y # rest i ?v = ?Q"
  proof -
    have "rest i ?v = drop ?l (rest i w)" using Cons.prems(4) by simp
    moreover have "rest i w = tl (quote_char x @ ?Q)" using in_rest by (metis list.sel(3))
    ultimately show ?thesis using y by (auto simp: quote_char_def)
  qed
  then have "arg_loop m (smx e (Suc k)) t i cur ns DQ q lpc y ?v =
      arg_loop (m - length s - 1) (smx e (Suc k)) t i cur 0 NUL q 0 d
        (wrote cur s (advance i (length (concat (map quote_char s)) + 1) ?v))"
    using Cons.prems n by (intro Cons.IH) auto
  with step show ?case by (simp add: n advance_wrote add.assoc)
qed

lemma arg_loop_plain:
  fixes i :: istream and cur :: ostream
  shows "\<forall>x \<in> set s. \<not> needs_quote x \<Longrightarrow> c # rest i w = s @ d # r \<Longrightarrow> d \<noteq> EOF \<Longrightarrow>
   i < length (w_ins w) \<Longrightarrow> length s \<le> n \<Longrightarrow>
   arg_loop n I t i cur 0 NUL q 0 c w =
   arg_loop (n - length s) I t i cur 0 NUL q 0 d (wrote cur s (advance i (length s) w))"
proof (induction s arbitrary: w n c)
  case (Cons x s)
  then obtain m where n: "n = Suc m" by (cases n) auto
  obtain y ys where y: "s @ d # r = y # ys" by (cases "s @ d # r") auto
  have c: "c = x" "rest i w = y # ys" using Cons.prems(2) y by auto
  have yE: "y \<noteq> EOF" using Cons.prems(1,3) y by (cases s) (auto simp: needs_quote_def)
  let ?v = "wrote cur [x] (advance i 1 w)"
  have "GetC i (wrote cur [x] w) = (Ok y, ?v)"
    using c(2) GetC_Cons [of "wrote cur [x] w" i y ys] by (simp add: advance_wrote)
  moreover have "\<not> needs_quote x" using Cons.prems(1) by simp
  ultimately have "arg_loop n I t i cur 0 NUL q 0 c w = arg_loop m I t i cur 0 NUL q 0 y ?v"
    using c(1) yE by (simp add: n bnd_def sq_def Let_def PutC_def PutS_wrote needs_quote_def)
  also have "\<dots> = arg_loop (m - length s) I t i cur 0 NUL q 0 d (wrote cur s (advance i (length s) ?v))"
    using Cons.prems n c(2) y by (intro Cons.IH) auto
  finally show ?case by (simp add: n advance_wrote)
qed auto

text \<open>A quoted argument and the comma or parenthesis after it.\<close>

definition ends_arg :: "char \<Rightarrow> bool" where
  "ends_arg d \<longleftrightarrow> d = CHR '','' \<or> d = CHR '')''"

lemma arg_loop_end:
  assumes "ends_arg d" "0 < n"
  shows "arg_loop n I t i cur 0 NUL q 0 d w = (Ok (d = CHR '',''), w)"
  using assms by (cases n) (auto simp: ends_arg_def bnd_def sq_def ret_def)

lemma ParseArg_SmxQuote:
  fixes i :: istream and cur :: ostream
  assumes "quotable s" "c # rest i w = SmxQuote s @ d # r" "ends_arg d" "i < length (w_ins w)"
  shows "ParseArg (smx e (Suc k)) t i cur c w = (Ok (d = CHR '',''), wrote cur s (advance i (length (SmxQuote s)) w))"
proof (cases "\<exists>x \<in> set s. needs_quote x")
  case True
  let ?I = "smx e (Suc k)"
  have q: "SmxQuote s = [DQ] @ concat (map quote_char s) @ [DQ]" using SmxQuote_quoted [OF True] .
  then have c: "c = DQ" "rest i w = concat (map quote_char s) @ DQ # d # r" using assms(2) by auto
  obtain y ys where y: "concat (map quote_char s) @ DQ # d # r = y # ys"
    by (cases "concat (map quote_char s) @ DQ # d # r") auto
  let ?v = "advance i 1 w" and ?n = "length (rest i w) + 1"
  have G: "GetC i w = (Ok y, ?v)" using c(2) y by (simp add: GetC_Cons)
  have "length s \<le> length (concat (map quote_char s))"
    by (induction s) (auto simp: quote_char_def)
  then have n: "length s + 2 < ?n" unfolding c(2) by simp
  have "y # rest i ?v = concat (map quote_char s) @ DQ # d # r" using assms(4) c(2) y by simp
  then have "arg_loop ?n ?I t i cur 0 DQ 0 0 y ?v = arg_loop (?n - length s - 1) ?I t i cur 0 NUL 0 0 d
      (wrote cur s (advance i (length (concat (map quote_char s)) + 1) ?v))"
    using assms(1,3,4) n by (intro arg_loop_quoted) (auto simp: quotable_def ends_arg_def)
  also have "\<dots> = (Ok (d = CHR '',''), wrote cur s (advance i (length (SmxQuote s)) w))"
    using assms(3) n q by (simp add: arg_loop_end)
  finally have A: "arg_loop ?n ?I t i cur 0 DQ 0 0 y ?v = (Ok (d = CHR '',''), wrote cur s (advance i (length (SmxQuote s)) w))" .
  have "length (rest i ?v) + 2 = ?n" using assms(4) c(2) y by simp
  then show ?thesis
    using A by (simp add: ParseArg_def c(1) bnd_def G room_run del: arg_loop.simps)
next
  case False
  then have q: "SmxQuote s = s" by (simp add: SmxQuote_plain)
  let ?n = "length (rest i w) + 2"
  have c: "c \<noteq> DQ" "c \<noteq> CHR ''{''"
    using assms(1,2,3) False q by (cases s; auto simp: quotable_def ends_arg_def needs_quote_def)+
  have "length (c # rest i w) = length s + 1 + length r" unfolding assms(2) q by simp
  then have n: "length s < ?n" by simp
  have "arg_loop ?n (smx e (Suc k)) t i cur 0 NUL 0 0 c w =
      arg_loop (?n - length s) (smx e (Suc k)) t i cur 0 NUL 0 0 d (wrote cur s (advance i (length s) w))"
    using False assms q n by (intro arg_loop_plain) (auto simp: ends_arg_def)
  also have "\<dots> = (Ok (d = CHR '',''), wrote cur s (advance i (length s) w))"
    using assms(3) n by (intro arg_loop_end) auto
  finally show ?thesis
    using c q by (simp add: ParseArg_def bnd_def room_run del: arg_loop.simps)
qed

lemma arg_text_done:
  assumes "ParseArg I t i (length (w_outs w)) c (w\<lparr>w_outs := w_outs w @ [OBuf []]\<rparr>) =
    (Ok b, wrote (length (w_outs w)) s (advance i n (w\<lparr>w_outs := w_outs w @ [OBuf []]\<rparr>)))"
  shows "arg_text I t i c w = (Ok (s, b), advance i n w)"
  using assms by (cases w) (simp add: arg_text_def with_out_def bnd_def always_def wrote_def advance_def)

section \<open>Reading the arguments\<close>

lemma arg_step:
  fixes i :: istream
  assumes "quotable s" "rest i w = SmxQuote s @ d # r" "ends_arg d" "i < length (w_ins w)"
    and "mark_all [(s, False)] ary = Some ary'"
  shows "args_loop (Suc n) (smx e (Suc k)) t i ary w =
    (let v = advance i (length (SmxQuote s) + 1) w in
     if d = CHR '','' then args_loop n (smx e (Suc k)) t i ary' v else (Ok ary', v))"
proof -
  let ?I = "smx e (Suc k)"
  obtain c cs where c: "SmxQuote s @ d # r = c # cs" by (cases "SmxQuote s @ d # r") auto
  have first: "\<not> c_isspace c" "c \<noteq> SQ" "c \<noteq> EOF"
  proof -
    have "c = d \<or> c = DQ \<or> \<not> needs_quote c"
    proof (cases "\<exists>x \<in> set s. needs_quote x")
      case True
      then show ?thesis using c unfolding SmxQuote_quoted [OF True] by simp
    next
      case False
      then have "s @ d # r = c # cs" using c SmxQuote_plain [of s] by auto
      then show ?thesis using False by (cases s) auto
    qed
    with assms(3) show "\<not> c_isspace c" "c \<noteq> SQ" "c \<noteq> EOF"
      by (auto simp: ends_arg_def needs_quote_def c_char)
  qed
  let ?v = "advance i 1 w" and ?cur = "length (w_outs w)"
  let ?u = "?v\<lparr>w_outs := w_outs ?v @ [OBuf []]\<rparr>"
  have S: "skip_space i w = (Ok c, ?v)" using assms(2) c first by (intro skip_space_one) auto
  have "c # rest i ?u = SmxQuote s @ d # r" using assms(2,4) c by simp
  then have "ParseArg ?I t i (length (w_outs ?v)) c ?u =
      (Ok (d = CHR '',''), wrote (length (w_outs ?v)) s (advance i (length (SmxQuote s)) ?u))"
    using assms(1,3,4) by (intro ParseArg_SmxQuote) auto
  from arg_text_done [OF this]
  have A: "arg_text ?I t i c ?v = (Ok (s, d = CHR '',''), advance i (length (SmxQuote s) + 1) w)"
    by (simp add: add.commute)
  have added: "add_arg ary s False v = (Ok ary', v)" for v
    using assms(5) by (simp add: add_arg_mark del: mark_all.simps)
  show ?thesis
    using S A first by (simp add: bnd_def ret_def added Let_def)
qed

lemma args_loop_quote_args:
  fixes i :: istream
  shows "as \<noteq> [] \<Longrightarrow> list_all quotable as \<Longrightarrow> rest i w = quote_args as @ CHR '')'' # r \<Longrightarrow> i < length (w_ins w) \<Longrightarrow>
   mark_all (map (\<lambda>a. (a, False)) as) ary = Some ary' \<Longrightarrow> length as \<le> n \<Longrightarrow>
   args_loop n (smx e (Suc k)) t i ary w = (Ok ary', advance i (length (quote_args as) + 1) w)"
proof (induction as arbitrary: ary w n rule: quote_args.induct)
  case (2 a)
  then obtain m where n: "n = Suc m" by (cases n) auto
  show ?case
    using 2 arg_step [of a w i "CHR '')''" r ary ary' m e k t] by (simp add: n ends_arg_def del: mark_all.simps args_loop.simps)
next
  case (3 a b bs)
  then obtain m where n: "n = Suc m" by (cases n) auto
  obtain ary1 where ary1: "mark_all [(a, False)] ary = Some ary1"
      "mark_all (map (\<lambda>a. (a, False)) (b # bs)) ary1 = Some ary'"
    using "3.prems"(5) mark_all_append [of "[(a, False)]" "map (\<lambda>a. (a, False)) (b # bs)" ary]
    by (auto simp del: mark_all.simps split: option.splits)
  let ?r = "quote_args (b # bs) @ CHR '')'' # r" and ?v = "advance i (length (SmxQuote a) + 1) w"
  have "args_loop n (smx e (Suc k)) t i ary w = args_loop m (smx e (Suc k)) t i ary1 ?v"
    using "3.prems" arg_step [of a w i "CHR '',''" ?r ary ary1 m e k t] ary1(1)
    by (simp add: n ends_arg_def del: mark_all.simps args_loop.simps)
  also have "\<dots> = (Ok ary', advance i (length (quote_args (b # bs)) + 1) ?v)"
    using "3.prems" ary1(2) n by (intro "3.IH") auto
  finally show ?case by (simp add: add.assoc)
qed simp

text \<open>C10: arguments quoted by the macro that quotes them are read back by the argument parser as they
  were, for up to 112 arguments without the byte 0xFF (which the parser takes for the end of
  the input) and without a leading brace in an argument that needs no quotes (which is not
  quoted and then read as an opening brace).\<close>

theorem ParseArgs_SmxQuote:
  fixes i :: istream
  assumes "as \<noteq> []" "list_all quotable as" "length as \<le> 112"
    and "rest i w = quote_args as @ CHR '')'' # r" "i < length (w_ins w)"
  shows "\<exists>ary. ParseArgs (smx e (Suc k)) t i w = (Ok ary, advance i (length (quote_args as) + 1) w) \<and>
    qa_vals ary = as \<and> (\<forall>j < length as. GetQuot ary j = 0)"
proof -
  let ?xs = "map (\<lambda>a. (a, False)) as"
  obtain ary where ary: "mark_all ?xs no_args = Some ary" "qa_vals ary = map fst ?xs"
      "\<forall>j < length ?xs. GetQuot ary j = mark (snd (?xs ! j))"
    using marks_kept [of ?xs] assms(3) by auto
  have "length as \<le> length (quote_args as) + 1"
    by (induction as rule: quote_args.induct) auto
  then have "length as \<le> length (rest i w) + 2" unfolding assms(4) by simp
  then have "args_loop (length (rest i w) + 2) (smx e (Suc k)) t i no_args w =
      (Ok ary, advance i (length (quote_args as) + 1) w)"
    using assms ary(1) by (intro args_loop_quote_args) auto
  then show ?thesis
    using ary by (intro exI [of _ ary]) (auto simp: ParseArgs_def bnd_def room_run mark_def comp_def)
qed

end
