(* ===== verification/Control.thy ===== *)
theory Control
  imports Errors
begin

text \<open>
  The macros for conditions and loops on arguments without macros in them: which branch is
  written, and how often the body of a counting loop.
\<close>

section \<open>Expanding plain text\<close>

lemma ParseIn_plain:
  assumes "plain s" "\<not> too_deep t w"
  shows "ParseIn (smx e (Suc k)) t s out w = (Ok (), wrote out s w)"
proof -
  let ?i = "length (w_ins w)"
  have "parse_loop (length s + 2) (smx e k) t ?i out (push s w) =
      parse_loop (length s + 2 - length s) (smx e k) t ?i out (wrote out s (advance ?i (length s) (push s w)))"
    using assms(1) by (intro parse_loop_plain [where r = "[]"]) auto
  then have "Parse (smx e k) t ?i out (push s w) = (Ok (), wrote out s (advance ?i (length s) (push s w)))"
    using assms(2) by (simp add: Parse_def bnd_def room_run too_deep_def parse_loop_end)
  then show ?thesis
    unfolding ParseIn_def smx_run by (intro with_in_done_simple)
qed

lemma ParseStr_plain:
  assumes "plain s" "\<not> too_deep t w"
  shows "ParseStr (smx e (Suc k)) t s w = (Ok s, w)"
proof -
  have "\<not> too_deep t (w\<lparr>w_outs := w_outs w @ [OBuf []]\<rparr>)" using assms(2) by (simp add: too_deep_def)
  from ParseIn_plain [OF assms(1) this, of e k "length (w_outs w)"]
  show ?thesis
    unfolding ParseStr_def using capture_done [where rn = False and k = 0 and w = w and c = s] by (simp add: used_def)
qed

lemma too_deep_wrote [simp]: "too_deep t (wrote out s w) = too_deep t w"
  by (simp add: too_deep_def)

section \<open>Conditions\<close>

text \<open>The branch of the first true condition, or the last argument when it stands alone.\<close>

fun chosen :: "bytes list \<Rightarrow> bytes" where
  "chosen (c # b # cs) = (if ParseBool c then b else chosen cs)"
| "chosen [e] = e"
| "chosen [] = []"

lemma if_loop_plain:
  "list_all plain as \<Longrightarrow> \<not> too_deep t w \<Longrightarrow> if_loop (smx e (Suc k)) t out as w = (Ok (), wrote out (chosen as) w)"
  by (induction as rule: chosen.induct) (simp_all add: bnd_def ParseStr_plain ParseIn_plain ret_def)

lemma and_loop_plain:
  "list_all plain as \<Longrightarrow> \<not> too_deep t w \<Longrightarrow>
   and_loop (smx e (Suc k)) t out as w = (Ok (), wrote out (if list_all ParseBool as then ''T'' else []) w)"
  by (induction as) (simp_all add: bnd_def ParseStr_plain PutC_wrote ret_def)

lemma or_loop_plain:
  "list_all plain as \<Longrightarrow> \<not> too_deep t w \<Longrightarrow>
   or_loop (smx e (Suc k)) t out as w = (Ok (), wrote out (if list_ex ParseBool as then ''T'' else []) w)"
  by (induction as) (simp_all add: bnd_def ParseStr_plain PutC_wrote ret_def)

text \<open>On two or more arguments without macros, if writes the branch of the first true condition
  (or the lone last argument), and writes T when every condition is true, or when one is, and
  they change nothing else.\<close>

theorem conditionals:
  assumes "list_all plain (qa_vals args)" "2 \<le> Count args" "\<not> too_deep t w"
  shows "EvalIf (smx e (Suc k)) t out args w = (Ok (), wrote out (chosen (qa_vals args)) w) \<and>
    EvalAnd (smx e (Suc k)) t out args w = (Ok (), wrote out (if list_all ParseBool (qa_vals args) then ''T'' else []) w) \<and>
    EvalOr (smx e (Suc k)) t out args w = (Ok (), wrote out (if list_ex ParseBool (qa_vals args) then ''T'' else []) w)"
  using assms by (simp add: EvalIf_def EvalAnd_def EvalOr_def VALID_ARGM_def if_loop_plain and_loop_plain or_loop_plain)

section \<open>Counting loops\<close>

definition set_cell :: "nat \<Rightarrow> int \<Rightarrow> world \<Rightarrow> world" where
  "set_cell i v w = w\<lparr>w_cells := (w_cells w)[i := Some v]\<rparr>"

definition turns :: "int \<Rightarrow> int \<Rightarrow> int \<Rightarrow> nat" where
  "turns fr to step = (if fr \<le> to then nat ((to - fr) div step + 1) else 0)"

lemma turns_step:
  assumes "0 < step" "fr \<le> to"
  shows "turns fr to step = Suc (turns (fr + step) to step)"
proof -
  have "(to - fr) div step = (to - (fr + step)) div step + 1"
    using assms(1) div_add_self2 [of step "to - (fr + step)"] by simp
  moreover have "(to - (fr + step)) div step = - 1" if "\<not> fr + step \<le> to"
  proof -
    have "- step \<le> to - (fr + step)" "to - (fr + step) < 0" using assms that by auto
    then show ?thesis using assms(1) by (intro int_div_pos_eq [of _ _ _ "to - fr"]) auto
  qed
  moreover have "0 \<le> (to - (fr + step)) div step" if "fr + step \<le> to"
    using that assms(1) by (simp add: pos_imp_zdiv_nonneg_iff)
  ultimately show ?thesis using assms(2) by (auto simp: turns_def)
qed

lemma for_loop_plain:
  assumes "plain body" "0 < step" "to + step < 2 ^ 31" "i \<noteq> ok"
  shows "w_cells w ! i = Some v \<Longrightarrow> w_cells w ! ok = Some 1 \<Longrightarrow> i < length (w_cells w) \<Longrightarrow> \<not> too_deep t w \<Longrightarrow>
   - (2 ^ 31) \<le> v \<Longrightarrow> turns v to step < n \<Longrightarrow>
   \<exists>v'. for_loop n (smx e (Suc k)) t out body i ok to step w =
     (Ok (), wrote out (concat (replicate (turns v to step) body)) (set_cell i v' w))"
proof (induction n arbitrary: v w)
  case (Suc n)
  show ?case
  proof (cases "v \<le> to")
    case False
    have "set_cell i v w = w" using Suc.prems(1,3) by (cases w) (simp add: set_cell_def list_update_same_conv)
    then show ?thesis
      using Suc.prems False assms by (intro exI [of _ v]) (simp add: bnd_def read_cell_def ret_def turns_def)
  next
    case True
    let ?w1 = "wrote out body w" and ?v = "v + step"
    let ?w2 = "set_cell i ?v ?w1"
    have v: "int32 ?v = ?v" using True assms Suc.prems(5) by (intro int32_id) auto
    have P: "ParseIn (smx e (Suc k)) t body out w = (Ok (), ?w1)"
      using assms(1) Suc.prems(4) by (rule ParseIn_plain)
    have cells: "w_cells ?w1 = w_cells w" by (simp add: wrote_def)
    have step: "for_loop (Suc n) (smx e (Suc k)) t out body i ok to step w = for_loop n (smx e (Suc k)) t out body i ok to step ?w2"
      using Suc.prems True assms v P cells
      by (simp add: bnd_def sq_def read_cell_def write_cell_def set_cell_def)
    have "\<exists>v'. for_loop n (smx e (Suc k)) t out body i ok to step ?w2 =
        (Ok (), wrote out (concat (replicate (turns ?v to step) body)) (set_cell i v' ?w2))"
      using Suc.prems assms turns_step [OF assms(2) True] cells
      by (intro Suc.IH) (auto simp: set_cell_def too_deep_def)
    then obtain v' where loop: "for_loop n (smx e (Suc k)) t out body i ok to step ?w2 =
        (Ok (), wrote out (concat (replicate (turns ?v to step) body)) (set_cell i v' ?w2))" by blast
    have "wrote out (concat (replicate (turns ?v to step) body)) (set_cell i v' ?w2) =
        wrote out (concat (replicate (turns v to step) body)) (set_cell i v' w)"
    proof -
      have "set_cell i v' ?w2 = wrote out body (set_cell i v' w)" by (simp add: set_cell_def wrote_def)
      then show ?thesis by (simp add: turns_step [OF assms(2) True])
    qed
    with step loop show ?thesis by auto
  qed
qed simp

lemma after_loop [simp]:
  "w_objs (set_cell i v w) = w_objs w" "w_ctxs (set_cell i v w) = w_ctxs w" "w_outs (set_cell i v w) = w_outs w"
  "w_max (set_cell i v w) = w_max w" "length (w_cells (set_cell i v w)) = length (w_cells w)"
  "w_cells (wrote out s w) = w_cells w"
  by (simp_all add: set_cell_def wrote_def)

text \<open>The world in which the loop of \<^verbatim>\<open>EvalFor\<close> starts: the context with the variable and
  \<^verbatim>\<open>break\<close>, and the two locals.\<close>

definition loop_world :: "world \<Rightarrow> ctx \<Rightarrow> bytes \<Rightarrow> int \<Rightarrow> world" where
  "loop_world w t var fr = (let i = length (w_cells w); a = length (w_objs w) in
     w\<lparr>w_cells := w_cells w @ [Some fr, Some 1],
       w_objs := w_objs w @ [Some (ObjIntP i), Some (ObjFunc (DCell (Suc i)) FBreak None)],
       w_ctxs := w_ctxs w @ [(Construct w (Some t))\<lparr>c_map := [(fold_case var, a), (''break'', Suc a)]\<rparr>]\<rparr>)"

lemma fold_break: "fold_case ''break'' = ''break''"
  by (simp add: fold_case_def cstr_def c_char char_of_def bit_0)

lemma loop_world_setup:
  assumes "var \<noteq> []" "fold_case var \<noteq> ''break''"
    and "m (length (w_ctxs w)) (length (w_cells w)) (Suc (length (w_cells w))) (loop_world w t var fr) = (Ok (), wrote out s (set_cell (length (w_cells w)) v (loop_world w t var fr)))"
  shows "\<exists>w'. with_ctx t (\<lambda>sub. with_cell fr (\<lambda>i. with_cell 1 (\<lambda>ok.
      sq (MapNew sub (ObjIntP i) var)
        (sq (MapNew sub (ObjFunc (DCell ok) FBreak None) ''break'') (m sub i ok))))) w = (Ok (), w') \<and>
      w_outs w' = w_outs (wrote out s w)"
proof -
  have c: "c_map (Construct w (Some t)) = []" by (simp add: Construct_def Let_def)
  have upd: "AList.update ''break'' b [(fold_case var, a)] = [(fold_case var, a), (''break'', b)]" for a b
    using assms(2) by auto
  have find: "al_find [(fold_case var, a)] ''break'' = None" "al_find [] var = None" for a
    using assms(2) by (simp_all add: al_find_def fold_break)
  show ?thesis
    using assms c
    by (simp add: with_ctx_def with_cell_def bnd_def sq_def MapNew_def MapObj_def new_obj_def assert_ok_def ret_def
        al_set_def find upd fold_break put_ctx_def always_def ctx_Clear_def Free_def deref_def set_obj_def nth_append
        loop_world_def Let_def)
       (simp add: wrote_def set_cell_def)
qed


end
