(* ===== verification/Lookup.thy ===== *)
theory Lookup
  imports Errors
begin

text \<open>
  What the lookups find: setting and deleting a variable touches one name of one context, a name
  with leading colons is looked up past its inner definitions, and in the context of
  \<^verbatim>\<open>safe-expand\<close> nothing but the listed names can be found.
\<close>

section \<open>One context\<close>

definition addrs_ok :: "world \<Rightarrow> ctx \<Rightarrow> bool" where
  "addrs_ok w c \<longleftrightarrow> (\<forall>(k, a) \<in> set (c_map (w_ctxs w ! c)). a < length (w_objs w))"

lemma map_of_addr: "addrs_ok w c \<Longrightarrow> map_of (c_map (w_ctxs w ! c)) k = Some a \<Longrightarrow> a < length (w_objs w)"
  by (auto simp: addrs_ok_def dest: map_of_SomeD)

lemma Free_Ok:
  assumes "Free b w = (Ok (), w')"
  shows "w_ctxs w' = w_ctxs w \<and> length (w_objs w') = length (w_objs w) \<and> (\<forall>a. a \<noteq> b \<longrightarrow> w_objs w' ! a = w_objs w ! a)"
  using assms
  by (auto simp: Free_def bnd_def deref_def set_obj_def fail_def split: if_splits option.splits obj.splits)

text \<open>Mapping a new object, and deleting a name.\<close>

lemma MapNew_Ok:
  assumes "MapNew c x nm w = (Ok (), w')" "c < length (w_ctxs w)" "addrs_ok w c"
  shows "length (w_ctxs w') = length (w_ctxs w) \<and>
    w_ctxs w' ! c = (w_ctxs w ! c)\<lparr>c_map := AList.update (fold_case nm) (length (w_objs w)) (c_map (w_ctxs w ! c))\<rparr> \<and>
    (\<forall>d. d \<noteq> c \<longrightarrow> w_ctxs w' ! d = w_ctxs w ! d) \<and>
    length (w_objs w') = Suc (length (w_objs w)) \<and> w_objs w' ! length (w_objs w) = Some x \<and>
    (\<forall>a < length (w_objs w). map_of (c_map (w_ctxs w ! c)) (fold_case nm) \<noteq> Some a \<longrightarrow> w_objs w' ! a = w_objs w ! a)"
proof -
  let ?m = "AList.update (fold_case nm) (length (w_objs w)) (c_map (w_ctxs w ! c))"
  let ?w1 = "w\<lparr>w_objs := w_objs w @ [Some x]\<rparr>"
  let ?w2 = "put_ctx c ((w_ctxs w ! c)\<lparr>c_map := ?m\<rparr>) ?w1"
  have w2: "w_ctxs ?w2 = (w_ctxs w)[c := (w_ctxs w ! c)\<lparr>c_map := ?m\<rparr>]" "w_objs ?w2 = w_objs w @ [Some x]"
    by (simp_all add: put_ctx_def)
  show ?thesis
  proof (cases "map_of (c_map (w_ctxs w ! c)) (fold_case nm)")
    case None
    then have "w' = ?w2" using assms(1)
      by (auto simp: MapNew_def MapObj_def new_obj_def bnd_def sq_def assert_ok_def ret_def fail_def al_set_def al_find_def
          put_ctx_def split: if_splits)
    with w2 assms(2) None show ?thesis by (simp add: nth_append)
  next
    case (Some b)
    then have F: "Free b ?w2 = (Ok (), w')" using assms(1)
      by (auto simp: MapNew_def MapObj_def new_obj_def bnd_def sq_def assert_ok_def ret_def fail_def al_set_def al_find_def
          put_ctx_def split: if_splits)
    have "b < length (w_objs w)" using map_of_addr [OF assms(3) Some] .
    with Free_Ok [OF F] w2 assms(2) Some show ?thesis by (simp add: nth_append)
  qed
qed

lemma DelObj_Ok:
  assumes "DelObj c nm w = (Ok r, w')" "c < length (w_ctxs w)"
  shows "length (w_ctxs w') = length (w_ctxs w) \<and>
    w_ctxs w' ! c = (w_ctxs w ! c)\<lparr>c_map := AList.delete (fold_case nm) (c_map (w_ctxs w ! c))\<rparr> \<and>
    (\<forall>d. d \<noteq> c \<longrightarrow> w_ctxs w' ! d = w_ctxs w ! d)"
proof (cases "map_of (c_map (w_ctxs w ! c)) (fold_case nm)")
  case None
  then have "w' = w" using assms(1)
    by (auto simp: DelObj_def bnd_def ret_def al_del_def al_find_def)
  then show ?thesis using None by (cases "w_ctxs w ! c") (simp add: delete_absent)
next
  case (Some b)
  let ?w2 = "put_ctx c ((w_ctxs w ! c)\<lparr>c_map := AList.delete (fold_case nm) (c_map (w_ctxs w ! c))\<rparr>) w"
  obtain r' w'' where F: "Free b ?w2 = (r', w'')" by (cases "Free b ?w2")
  then have "r' = Ok ()" "w'' = w'" using assms(1) Some
    by (cases r'; auto simp: DelObj_def bnd_def sq_def ret_def al_del_def al_find_def)+
  with Free_Ok [of b ?w2 w'] F assms(2) show ?thesis by (simp add: put_ctx_def)
qed

text \<open>C34: setting a variable maps its name, in the current context only, to a new object that holds
  the value; with one argument the name is unmapped. All other names and contexts keep what
  they mapped.\<close>

theorem EvalSet_scope:
  assumes "EvalSet c out args w = (Ok (), w')" "Count args \<in> {1, 2}" "GetAt args 0 \<noteq> []"
    and "c < length (w_ctxs w)" "addrs_ok w c"
  shows "(\<forall>d n. FindL w' d n =
      (if d = c \<and> fold_case n = fold_case (GetAt args 0)
       then (if Count args = 2 then Some (length (w_objs w)) else None) else FindL w d n)) \<and>
    (Count args = 2 \<longrightarrow> w_objs w' ! length (w_objs w) = Some (ObjStr (GetAt args 1)))"
proof (cases "Count args = 2")
  case True
  then have "MapNew c (ObjStr (GetAt args 1)) (GetAt args 0) w = (Ok (), w')"
    using assms(1,3) by (simp add: EvalSet_def VALID_ARGC_def VALID_ARGM_def)
  note new = MapNew_Ok [OF this assms(4,5)]
  have "FindL w' d n = (if d = c \<and> fold_case n = fold_case (GetAt args 0) then Some (length (w_objs w)) else FindL w d n)" for d n
    using new by (cases "d = c") (simp_all add: FindL_def al_find_def update_conv')
  with True new show ?thesis by simp
next
  case False
  then have c: "Count args = 1" using assms(2) by simp
  then obtain r where "DelObj c (GetAt args 0) w = (Ok r, w')"
    using assms(1,3) by (auto simp: EvalSet_def VALID_ARGC_def VALID_ARGM_def sq_def bnd_def ret_def split: prod.splits res.splits)
  note del = DelObj_Ok [OF this assms(4)]
  have "FindL w' d n = (if d = c \<and> fold_case n = fold_case (GetAt args 0) then None else FindL w d n)" for d n
    using del by (cases "d = c") (simp_all add: FindL_def al_find_def delete_conv')
  with c show ?thesis by simp
qed

section \<open>Names with colons\<close>

text \<open>The contexts from one to its outermost parent, and those among them that map a name.\<close>

fun chain :: "nat \<Rightarrow> world \<Rightarrow> ctx option \<Rightarrow> ctx list" where
  "chain (Suc n) w (Some c) = c # chain n w (c_parent (w_ctxs w ! c))"
| "chain _ w _ = []"

fun found_in :: "world \<Rightarrow> bytes \<Rightarrow> ctx list \<Rightarrow> (addr \<times> ctx) list" where
  "found_in w p [] = []"
| "found_in w p (c # cs) = (case FindL w c p of Some a \<Rightarrow> (a, c) # found_in w p cs | None \<Rightarrow> found_in w p cs)"

lemma pop_loop_found_in:
  "pop_loop n w co pop p found =
    (let ds = take pop (found_in w p (chain n w co)) in if ds = [] then found else Some (last ds))"
  by (induction n w co pop p found rule: pop_loop.induct) (auto simp: Let_def split: option.split)

text \<open>C15: outside safe mode a name with k leading colons is looked up past its k innermost definitions;
  where there are fewer, the outermost one is found.\<close>

theorem FindC_colons:
  assumes "\<not> c_safe (w_ctxs w ! c)" "cstr name = replicate (Suc k) (CHR '':'') @ p" "take 1 p \<noteq> '':''"
  shows "FindC w c name None =
    (let ds = take (k + 2) (found_in w p (chain (Suc c) w (Some c))) in if ds = [] then None else Some (last ds))"
proof -
  have t: "takeWhile (\<lambda>x. x = CHR '':'') (cstr name) = replicate (Suc k) (CHR '':'')"
    unfolding assms(2) using assms(3) by (cases p) (simp_all add: takeWhile_append)
  have d: "drop (Suc k) (cstr name) = p" unfolding assms(2) by simp
  show ?thesis
    using assms(1) t d by (simp add: FindC_def Let_def assms(2) pop_loop_found_in del: pop_loop.simps chain.simps)
qed

section \<open>The sandbox of \<^verbatim>\<open>safe-expand\<close>\<close>

text \<open>Every name of the sandbox stands for an object that evaluates something in the context outside.\<close>

definition sandboxed :: "world \<Rightarrow> ctx \<Rightarrow> ctx \<Rightarrow> bytes list \<Rightarrow> bool" where
  "sandboxed w t tc names \<longleftrightarrow> tc < length (w_ctxs w) \<and> c_parent (w_ctxs w ! tc) = None \<and>
    (\<forall>k a. map_of (c_map (w_ctxs w ! tc)) k = Some a \<longrightarrow>
       k \<in> fold_case ` set names \<and> a < length (w_objs w) \<and> (\<exists>b. w_objs w ! a = Some (ObjSafe b t))) \<and>
    al_ok (c_map (w_ctxs w ! tc)) \<and>
    (\<forall>k k' a. map_of (c_map (w_ctxs w ! tc)) k = Some a \<longrightarrow> map_of (c_map (w_ctxs w ! tc)) k' = Some a \<longrightarrow> k = k')"

lemma sandboxed_addrs: "sandboxed w t tc names \<Longrightarrow> addrs_ok w tc"
  by (auto simp: sandboxed_def addrs_ok_def al_ok_def)

lemma sandboxed_MapNew:
  assumes "sandboxed w t tc names" "MapNew tc (ObjSafe b t) nm w = (Ok (), w')" "nm \<in> set names"
  shows "sandboxed w' t tc names"
proof -
  note s = assms(1) [unfolded sandboxed_def]
  note new = MapNew_Ok [OF assms(2) _ sandboxed_addrs [OF assms(1)]]
  have m: "map_of (c_map (w_ctxs w' ! tc)) k =
      (if k = fold_case nm then Some (length (w_objs w)) else map_of (c_map (w_ctxs w ! tc)) k)" for k
    using new s by (simp add: update_conv')
  have o: "w_objs w' ! a = w_objs w ! a" if "map_of (c_map (w_ctxs w ! tc)) k = Some a" "k \<noteq> fold_case nm" for k a
    using new s that by metis
  have d: "al_ok (c_map (w_ctxs w' ! tc))" "c_parent (w_ctxs w' ! tc) = None" "tc < length (w_ctxs w')"
      "length (w_objs w') = Suc (length (w_objs w))" "w_objs w' ! length (w_objs w) = Some (ObjSafe b t)"
    using new s by (simp_all add: al_ok_def distinct_update)
  have keys: "k \<in> fold_case ` set names" "a < length (w_objs w)" "\<exists>b. w_objs w ! a = Some (ObjSafe b t)"
    if "map_of (c_map (w_ctxs w ! tc)) k = Some a" for k a
    using s that by blast+
  have inj: "k = k'" if "map_of (c_map (w_ctxs w ! tc)) k = Some a" "map_of (c_map (w_ctxs w ! tc)) k' = Some a" for k k' a
    using s that by blast
  show ?thesis
    unfolding sandboxed_def
  proof (intro conjI allI impI)
    fix k a assume ka: "map_of (c_map (w_ctxs w' ! tc)) k = Some a"
    show "k \<in> fold_case ` set names" using ka m [of k] keys(1) assms(3) by (cases "k = fold_case nm") simp_all
    show "a < length (w_objs w')" using ka m [of k] keys(2) [of k a] d(4) by (cases "k = fold_case nm") simp_all
    show "\<exists>b. w_objs w' ! a = Some (ObjSafe b t)"
    proof (cases "k = fold_case nm")
      case True then show ?thesis using ka m [of k] d(5) by simp
    next
      case False
      then have "map_of (c_map (w_ctxs w ! tc)) k = Some a" using ka m [of k] by simp
      then show ?thesis using keys(3) o False by metis
    qed
  next
    fix k k' a
    assume ka: "map_of (c_map (w_ctxs w' ! tc)) k = Some a" "map_of (c_map (w_ctxs w' ! tc)) k' = Some a"
    show "k = k'"
    proof (cases "k = fold_case nm \<or> k' = fold_case nm")
      case True
      then have "a = length (w_objs w)" using ka m [of k] m [of k'] by auto
      then have "k = fold_case nm" "k' = fold_case nm"
        using ka m [of k] m [of k'] keys(2) by (auto split: if_splits)
      then show ?thesis by simp
    next
      case False
      then show ?thesis using ka m [of k] m [of k'] inj by simp
    qed
  qed (use d in simp_all)
qed

lemma sq_result: "sq m n w = (Ok x, w') \<Longrightarrow> \<exists>y u. m w = (Ok y, u) \<and> n u = (Ok x, w')"
  by (auto simp: sq_def bnd_def split: prod.splits res.splits)

lemma sandboxed_map_safe:
  "map_safe t tc ns w = (Ok (), w') \<Longrightarrow> sandboxed w t tc names \<Longrightarrow> set ns \<subseteq> set names \<Longrightarrow> sandboxed w' t tc names"
proof (induction ns arbitrary: w)
  case Nil
  then show ?case by (simp add: ret_def)
next
  case (Cons nm ns)
  let ?m = "if nm = [] then ret ()
        else bnd (Find t nm) (\<lambda>r. case r of Some a \<Rightarrow> MapNew tc (ObjSafe a t) nm | None \<Rightarrow> ret ())"
  obtain u where u: "?m w = (Ok (), u)" "map_safe t tc ns u = (Ok (), w')"
    using sq_result [OF Cons.prems(1) [unfolded map_safe.simps]] by (metis old.unit.exhaust)
  have "sandboxed u t tc names"
  proof (cases "nm = [] \<or> Find_where w t nm None = None")
    case True
    then have "u = w" using u(1) by (auto simp: ret_def Find_def split: if_splits)
    then show ?thesis using Cons.prems(2) by simp
  next
    case False
    then obtain a d where "Find_where w t nm None = Some (a, d)" by auto
    then have "MapNew tc (ObjSafe a t) nm w = (Ok (), u)" using u(1) False by (simp add: Find_def)
    from sandboxed_MapNew [OF Cons.prems(2) this] Cons.prems(3) show ?thesis by simp
  qed
  with Cons.IH u(2) Cons.prems(3) show ?case by simp
qed

lemma pop_loop_single:
  assumes "c_parent (w_ctxs w ! c) = None"
  shows "pop_loop (Suc c) w (Some c) (Suc k) p None = map_option (\<lambda>a. (a, c)) (FindL w c p)"
  using assms by (cases c) (auto split: option.split)

lemma Find_where_root:
  assumes "c_parent (w_ctxs w ! c) = None" "Find_where w c name None = Some (a, d)"
  shows "d = c \<and> (\<exists>p \<in> {name, dropWhile (\<lambda>x. x = CHR '':'') (cstr name)}. FindL w c p = Some a)"
proof -
  have "FindC w c name None = Some (a, d) \<Longrightarrow> d = c \<and> FindL w c (dropWhile (\<lambda>x. x = CHR '':'') (cstr name)) = Some a"
    using assms(1) by (auto simp: FindC_def Let_def pop_loop_single dropWhile_eq_drop simp del: pop_loop.simps split: if_splits)
  with assms show ?thesis by (auto simp: Find_where_def split: option.splits)
qed


end
