(* ===== verification/Recursion.thy ===== *)
theory Recursion
  imports Lookup Compiled
begin

text \<open>
  Macros that call themselves. The nesting limit is tested by \<^verbatim>\<open>Parse\<close>; the body of a macro is
  compiled and run by \<^verbatim>\<open>RunCompiled\<close>, which does not test it: a macro whose body is a call of
  itself never returns, within no bound on the nesting of calls.
\<close>

section \<open>Lookups in a deeper context\<close>

definition parents_ok :: "world \<Rightarrow> bool" where
  "parents_ok w \<longleftrightarrow> (\<forall>c < length (w_ctxs w). \<forall>p. c_parent (w_ctxs w ! c) = Some p \<longrightarrow> p < c)"

lemma FindC_no_colon: "take 1 (cstr nm) \<noteq> '':'' \<Longrightarrow> FindC w c nm lim = None"
  by (simp add: FindC_def Let_def)

lemma Find_from_deeper:
  assumes "take 1 (cstr nm) \<noteq> '':''" "parents_ok w" "w_ctxs w' = w_ctxs w @ xs"
  shows "Find_from n w t nm None = Some r \<Longrightarrow> t < length (w_ctxs w) \<Longrightarrow> n \<le> n' \<Longrightarrow> Find_from n' w' t nm None = Some r"
proof (induction n arbitrary: t n')
  case (Suc n)
  then obtain m where n': "n' = Suc m" by (cases n') auto
  have same: "w_ctxs w' ! t = w_ctxs w ! t" using assms(3) Suc.prems(2) by (simp add: nth_append)
  show ?case
  proof (cases "FindL w t nm")
    case (Some a)
    with Suc.prems same show ?thesis by (simp add: n' FindC_no_colon [OF assms(1)] FindL_def)
  next
    case None
    then obtain p where p: "c_parent (w_ctxs w ! t) = Some p" "Find_from n w p nm None = Some r"
      using Suc.prems(1) by (auto simp: FindC_no_colon [OF assms(1)] split: option.splits)
    have "p < t" using assms(2) Suc.prems(2) p(1) by (auto simp: parents_ok_def)
    then have "p < length (w_ctxs w)" using Suc.prems(2) by simp
    from Suc.IH [OF p(2) this, of m] Suc.prems(3) n' None p(1) same show ?thesis
      by (simp add: FindC_no_colon [OF assms(1)] FindL_def)
  qed
qed simp

section \<open>A macro that calls itself\<close>

text \<open>The contexts map \<^verbatim>\<open>nm\<close> to a definition without parameters whose body is \<^verbatim>\<open>%nm%\<close>.\<close>

definition calls_itself :: "bytes \<Rightarrow> (nat \<Rightarrow> char) \<Rightarrow> bytes \<Rightarrow> addr \<Rightarrow> ctx \<Rightarrow> world \<Rightarrow> bool" where
  "calls_itself pad g nm a t w \<longleftrightarrow> parents_ok w \<and> t < length (w_ctxs w) \<and> a < length (w_objs w) \<and>
    (\<exists>c. Find_where w t nm None = Some (a, c)) \<and>
    (\<exists>refs. w_objs w ! a = Some (ObjDef (code pad g [] [Var nm]) [] [] refs))"

definition self_name :: "bytes \<Rightarrow> bool" where
  "self_name nm \<longleftrightarrow> nm \<noteq> [] \<and> length nm < 2 ^ 31 \<and> take 1 (cstr nm) \<noteq> '':'' \<and>
    fold_case nm \<notin> {fold_case ''arg'', fold_case ''num-args'', fold_case ''argc''}"

text \<open>The world in which the body of a call runs.\<close>

definition body_world :: "addr \<Rightarrow> obj \<Rightarrow> qargs \<Rightarrow> ctx \<Rightarrow> world \<Rightarrow> world" where
  "body_world a d args t w = (let o' = length (w_objs w) in
     w\<lparr>w_objs := (w_objs w)[a := Some d] @
         [Some (ObjDefArgs a args), Some (ObjDbl (int (Count args))), Some (ObjDbl (int (Count args)))],
       w_ctxs := w_ctxs w @ [(Construct w (Some t))\<lparr>c_map := [(fold_case ''arg'', o'), (fold_case ''num-args'', Suc o'),
         (fold_case ''argc'', Suc (Suc o'))]\<rparr>]\<rparr>)"

lemma fold_names:
  "fold_case ''arg'' = ''arg''" "fold_case ''num-args'' = ''num-args''" "fold_case ''argc'' = ''argc''"
  by (simp_all add: fold_case_def cstr_def c_char char_of_def bit_0)

lemma fst_sq_fail: "fst (m w) = NoFuel \<Longrightarrow> fst (sq m n w) = NoFuel"
  by (cases "m w") (auto simp: sq_def bnd_def)

lemma fst_bnd_fail: "fst (m w) = NoFuel \<Longrightarrow> fst (bnd m f w) = NoFuel"
  by (cases "m w") (auto simp: bnd_def)

lemma fst_always_fail: "fst (m w) = NoFuel \<Longrightarrow> fst (always m fin w) = NoFuel"
  by (cases "m w") (auto simp: always_def)

lemma fst_with_in_fail: "fst (f (length (w_ins w)) (push s w)) = NoFuel \<Longrightarrow> fst (with_in s f w) = NoFuel"
  by (simp add: with_in_def bnd_def push_def fst_always_fail)

lemma qObjDef_Eval_fail:
  assumes "a < length (w_objs w)" "w_objs w ! a = Some (ObjDef body [] qm refs)"
    and "fst (with_in body (\<lambda>i. i_RunCompiled I (length (w_ctxs w)) i out)
           (body_world a (ObjDef body [] qm (refs + 1)) args t w)) = NoFuel"
  shows "fst (qObjDef_Eval I a body [] t out args w) = NoFuel"
proof -
  let ?w1 = "w\<lparr>w_objs := (w_objs w)[a := Some (ObjDef body [] qm (refs + 1))]\<rparr>"
  have c: "c_map (Construct w' (Some t)) = []" for w' by (simp add: Construct_def Let_def)
  have A: "AddRef a w = (Ok (), ?w1)"
    using assms(1,2) by (simp add: AddRef_def bnd_def deref_def set_obj_def)
  have same: "Construct ?w1 (Some t) = Construct w (Some t)" by (simp add: Construct_def)
  have "fst (with_ctx t (\<lambda>tmp.
            sq (map_params t tmp [] (qa_vals args))
              (sq (MapNew tmp (ObjDefArgs a args) ''arg'')
                (sq (MapNew tmp (ObjDbl (int (Count args))) ''num-args'')
                  (sq (MapNew tmp (ObjDbl (int (Count args))) ''argc'')
                    (with_in body (\<lambda>i. i_RunCompiled I tmp i out)))))) ?w1) = NoFuel"
    unfolding with_ctx_def using assms(1,3) c
    by (simp add: bnd_def, intro fst_always_fail)
      (simp add: sq_def bnd_def ret_def MapNew_def MapObj_def new_obj_def assert_ok_def al_set_def al_find_def
        fold_names put_ctx_def same body_world_def Let_def)
  then show ?thesis
    unfolding qObjDef_Eval_def by (simp add: sq_Ok [where m = "AddRef a", OF A] fst_sq_fail)
qed

lemma body_world_calls_itself:
  assumes "calls_itself pad g nm a t w" "self_name nm"
    and "w_objs w ! a = Some (ObjDef (code pad g [] [Var nm]) [] [] refs)"
  shows "calls_itself pad g nm a (length (w_ctxs w)) (body_world a (ObjDef (code pad g [] [Var nm]) [] [] (refs + 1)) args t w)"
    (is "calls_itself pad g nm a ?t ?w")
proof -
  note s = assms(1) [unfolded calls_itself_def]
  obtain c where c: "Find_from (Suc t) w t nm None = Some (a, c)" using s by (auto simp: Find_where_def)
  have wf: "parents_ok w" and t: "t < length (w_ctxs w)" using s by auto
  have ctxs: "w_ctxs ?w = w_ctxs w @ [w_ctxs ?w ! ?t]" "c_parent (w_ctxs ?w ! ?t) = Some t"
    by (simp_all add: body_world_def Let_def Construct_def)
  have find: "Find_from ?t ?w t nm None = Some (a, c)"
    using t by (intro Find_from_deeper [OF _ wf ctxs(1) c]) (use assms(2) in \<open>auto simp: self_name_def\<close>)
  have "FindL ?w ?t nm = None"
    using assms(2) by (simp add: FindL_def al_find_def body_world_def Let_def self_name_def)
  then have "Find_where ?w ?t nm None = Some (a, c)"
    using find ctxs(2) assms(2) by (simp add: Find_where_def FindC_no_colon self_name_def)
  moreover have "parents_ok ?w"
    using wf t by (auto simp: parents_ok_def body_world_def Let_def nth_append Construct_def less_Suc_eq)
  moreover have "w_objs ?w ! a = Some (ObjDef (code pad g [] [Var nm]) [] [] (refs + 1))" "a < length (w_objs ?w)"
    using s by (simp_all add: body_world_def Let_def nth_append)
  ultimately show ?thesis by (auto simp: calls_itself_def body_world_def Let_def)
qed

lemma calls_itself_cong:
  assumes "w_ctxs w = w_ctxs w'" "w_objs w = w_objs w'"
  shows "calls_itself pad g nm a t w = calls_itself pad g nm a t w'"
  unfolding calls_itself_def parents_ok_def assms Find_where_cong [OF assms(1)] by (rule refl)

lemma run_self_call:
  fixes i :: istream and out :: ostream
  assumes "calls_itself pad g nm a t w" "self_name nm" "length pad = 2"
    and "rest i w = code pad g [] [Var nm]" "i < length (w_ins w)"
    and "\<And>v. calls_itself pad g nm a t v \<Longrightarrow> fst (i_Eval I a t out no_args v) = NoFuel"
  shows "fst (RunCompiled I t i out w) = NoFuel"
proof -
  let ?c = "call_code pad (g 0) nm"
  let ?h = "C_BASE pad BC_FUNC (int (uc (g 0))) (int (length nm))" and ?s = "scramble (g 0) nm"
  have f: "rest i w = ?h @ ?s @ C_ARGS 0" "length ?h = 8"
    using assms(3,4) by (simp_all add: call_code_def flushed_def)
  let ?w2 = "advance i (8 + length nm) w" and ?w3 = "advance i (8 + length nm + 2) w"
  have h: "GetN i 8 w = (Ok ?h, advance i 8 w)"
    using f by (intro GetN_read) auto
  have b: "GetN i (nat (int (length nm))) (advance i 8 w) = (Ok ?s, ?w2)"
    using assms(5) f GetN_read [of "advance i 8 w" i ?s "C_ARGS 0" "length nm"] by simp
  have v: "GetN i 2 ?w2 = (Ok (C_ARGS 0), ?w3)"
    using assms(5) f GetN_read [of ?w2 i "C_ARGS 0" "[]" 2] by simp
  have same: "w_ctxs ?w3 = w_ctxs w" "w_objs ?w3 = w_objs w" by simp_all
  obtain c refs where a: "Find_where w t nm None = Some (a, c)" "a < length (w_objs w)"
      "w_objs w ! a = Some (ObjDef (code pad g [] [Var nm]) [] [] refs)"
    using assms(1) by (auto simp: calls_itself_def)
  have F: "Find t nm ?w2 = (Ok (Some a), ?w2)" using a by (simp add: Find_def)
  have Q: "GetQmap a ?w3 = (Ok None, ?w3)"
    using a by (simp add: GetQmap_def bnd_def deref_def ret_def)
  have "fst (i_Eval I a t out no_args ?w3) = NoFuel"
    using assms(1,6) calls_itself_cong [OF same] by simp
  then have "fst (run_func I t i out (g 0) nm ?w2) = NoFuel"
    using F v Q by (simp add: run_func_def bnd_def args_cnt_0 Let_def ret_def)
  then have "fst (run_loop (Suc n) I t i out w) = NoFuel" for n
    using h b f(2) base_fields [of pad "int (length nm)"] assms(2,3) sc_codes
    by (simp add: bnd_def self_name_def fst_sq_fail)
  then show ?thesis by (simp add: RunCompiled_def bnd_def room_run del: run_loop.simps)
qed

lemma Eval_self_call:
  assumes "length pad = 2" "self_name nm"
  shows "calls_itself pad g nm a t w \<Longrightarrow> fst (EvalObj (smx e n) a t out args w) = NoFuel"
proof (induction n arbitrary: t w args rule: less_induct)
  case (less n)
  obtain refs where a: "a < length (w_objs w)" "w_objs w ! a = Some (ObjDef (code pad g [] [Var nm]) [] [] refs)"
    using less.prems by (auto simp: calls_itself_def)
  let ?b = "code pad g [] [Var nm]" and ?t = "length (w_ctxs w)"
  let ?w = "body_world a (ObjDef ?b [] [] (refs + 1)) args t w"
  have "calls_itself pad g nm a ?t ?w" using body_world_calls_itself less.prems assms(2) a(2) .
  then have c: "calls_itself pad g nm a ?t (push ?b ?w)"
    using calls_itself_cong [of "push ?b ?w" ?w] by simp
  have "fst (i_RunCompiled (smx e n) ?t (length (w_ins ?w)) out (push ?b ?w)) = NoFuel"
  proof (cases n)
    case 0
    then show ?thesis by (simp add: no_interp_def fail_def smx.simps)
  next
    case (Suc m)
    have "fst (i_Eval (smx e m) a ?t out no_args v) = NoFuel" if "calls_itself pad g nm a ?t v" for v
    proof (cases m)
      case 0
      then show ?thesis by (simp add: no_interp_def fail_def smx.simps)
    next
      case (Suc k)
      then show ?thesis using less.IH [of k ?t v no_args] \<open>n = Suc m\<close> that by (simp add: smx_run)
    qed
    with run_self_call [OF c assms(2,1)] show ?thesis unfolding \<open>n = Suc m\<close> smx_run by simp
  qed
  then have "fst (qObjDef_Eval (smx e n) a ?b [] t out args w) = NoFuel"
    using a by (intro qObjDef_Eval_fail fst_with_in_fail) auto
  then show ?case using a by (simp add: EvalObj_def bnd_def deref_def)
qed

text \<open>C16: a macro without parameters whose body is a call of itself does not return within any bound on
  the nesting of calls, however small the limit on the nesting of contexts is: the limit is
  tested when text is parsed, not when a compiled body is run.\<close>

theorem self_call_never_returns:
  assumes "calls_itself pad g nm a t w" "length pad = 2" "self_name nm"
  shows "fst (EvalObj (smx e n) a t out args w) = NoFuel"
  using Eval_self_call assms by blast

end
