(* ===== verification/Examples.thy ===== *)
theory Examples
  imports Compiled Frame Quoting Control Recursion
begin

text \<open>
  Concrete documents run by the model: the witnesses that the hypotheses of the theorems on the
  interpreter hold for real inputs.
\<close>

definition plain_outside :: outside where
  "plain_outside = \<lparr>o_pad = [NUL, NUL], o_lib = (\<lambda>n a. Inr []), o_getpwnam = (\<lambda>s. None)\<rparr>"

lemmas start_simps = start_world_def bare_world_def LoadCore_def core_table_def
lemmas char_simps = c_char char_of_def bit_0

text \<open>The initial state, evaluated.\<close>

lemma start_world_eq:
  "start_world =
    \<lparr>w_ins = [], w_outs = [],
     w_ctxs =
       [\<lparr>c_map =
          [(''nil'', 0), (''null'', 1), (''for'', 2), (''while'', 3), (''do'', 4), (''if'', 5),
           (''switch'', 6), (''or'', 7), (''and'', 8), (''not'', 9), (''set'', 10), (''let'', 11),
           (''gset'', 12), (''macro'', 13), (''define'', 14), (''gmacro'', 15), (''gdefine'', 16),
           (''defined'', 17), (''get'', 18), (''invoke'', 19), (''expand'', 20), (''safe-expand'', 21),
           (''compile'', 22), (''errorhandler'', 23), (''strict'', 24), (''try'', 25), (''throw'', 26),
           (''abort'', 27), (''macro-quote'', 28), (''safe-mode'', 29), (''safe-uid'', 30),
           (''max-iteration'', 31)],
         c_parent = None, c_try = 0, c_level = 0, c_strict = False, c_safe = False, c_uid = - 1, c_handler = []\<rparr>,
        \<lparr>c_map = [], c_parent = Some 0, c_try = 0, c_level = 1, c_strict = False, c_safe = False, c_uid = - 1,
         c_handler = []\<rparr>],
     w_objs =
       [Some (ObjFunc DNull FNil (Some ''A'')), Some (ObjFunc DNull FNull (Some ''A'')),
        Some (ObjFunc DNull FFor (Some ''0001'')), Some (ObjFunc DNull FWhile (Some ''11'')),
        Some (ObjFunc DNull FDo (Some ''11'')), Some (ObjFunc DNull FIf (Some ''A'')),
        Some (ObjFunc DNull FIf (Some ''A'')), Some (ObjFunc DNull FOr (Some ''A'')),
        Some (ObjFunc DNull FAnd (Some ''A'')), Some (ObjFunc DNull FNot None),
        Some (ObjFunc DNull FSet None), Some (ObjFunc DNull FLet None), Some (ObjFunc DNull FGSet None),
        Some (ObjFunc DNull FDefine None), Some (ObjFunc DNull FDefine (Some ''01'')),
        Some (ObjFunc DNull FGDefine None), Some (ObjFunc DNull FGDefine (Some ''01'')),
        Some (ObjFunc DNull FDefined None), Some (ObjFunc DNull FInvoke None),
        Some (ObjFunc DNull FInvoke None), Some (ObjFunc DNull FExpand None),
        Some (ObjFunc DNull FSafeExpand None), Some (ObjFunc DNull FCompile None),
        Some (ObjFunc DNull FErrorHandler (Some ''1'')), Some (ObjFunc DNull FStrict None),
        Some (ObjFunc DNull FTry (Some ''11'')), Some (ObjFunc DNull FThrow None),
        Some (ObjFunc DNull FAbort None), Some (ObjFunc DNull FSmxQuote None),
        Some (ObjFunc DNull FSafeMode None), Some (ObjFunc DNull FSafeUID None), Some (ObjDbl 5000)],
     w_cells = [], w_max = 2000, w_session = Some 1, w_rand = (\<lambda>i. 0)\<rparr>"
  by (simp add: start_simps run_eval char_simps)

lemma expand_Hi: "fst (expand plain_outside 3 ''Hi %set(x,5)%x%'' start_world) = Ok ''Hi 5''"
  by (simp add: start_world_eq run_eval char_simps)


lemma expand_keeps_frame_witness:
  "frame start_world (snd (expand plain_outside 3 ''Hi %set(x,5)%x%'' start_world))"
  using expand_keeps_frame [of plain_outside 3 "''Hi %set(x,5)%x%''" start_world]
  by (metis expand_Hi prod.collapse res.distinct(5) res.distinct(7))

lemma Parse_plain_witness:
  "fst (Parse (smx plain_outside 1) 0 0 0 (start_world\<lparr>w_ins := [\<lparr>rb_past = [], rb_rest = ''Hi''\<rparr>], w_outs := [OBuf []]\<rparr>)) = Ok ()"
proof -
  have "\<not> too_deep 0 (start_world\<lparr>w_ins := [\<lparr>rb_past = [], rb_rest = ''Hi''\<rparr>], w_outs := [OBuf []]\<rparr>)"
    by (simp add: start_world_eq too_deep_def)
  then show ?thesis
    using Parse_plain [where s = "''Hi''" and i = 0 and t = 0 and w = "start_world\<lparr>w_ins := [\<lparr>rb_past = [], rb_rest = ''Hi''\<rparr>], w_outs := [OBuf []]\<rparr>"]
    by (simp add: plain_def)
qed

section \<open>A template\<close>

definition demo_world :: world where
  "demo_world = bare_world\<lparr>w_ctxs := [(Construct bare_world None)\<lparr>c_map := [(''x'', 0)]\<rparr>],
     w_objs := [Some (ObjStr ''5'')], w_outs := [OBuf []]\<rparr>"

definition demo_template :: "piece list" where
  "demo_template = [Text ''Hi '', Var ''x'']"

lemma demo_simps:
  "source demo_template = ''Hi %x%''" "list_all well_formed demo_template" "vars demo_template = 1"
  "length (o_pad plain_outside) = 2"
  by (simp_all add: demo_template_def plain_def valid_name_def c_char plain_outside_def)

lemma demo_find: "Find_where demo_world 0 ''x'' None = Some (0, 0)"
  by (simp add: demo_world_def bare_world_def Construct_def run_eval char_simps)

lemma demo_ok: "list_all (piece_ok demo_world 0) demo_template" "meaning demo_world 0 demo_template = ''Hi 5''"
    "\<not> too_deep 0 demo_world"
proof -
  have "w_objs demo_world = [Some (ObjStr ''5'')]" "w_ctxs demo_world = [(Construct bare_world None)\<lparr>c_map := [(''x'', 0)]\<rparr>]"
      "w_max demo_world = 2000"
    by (simp_all add: demo_world_def bare_world_def)
  with demo_find show "list_all (piece_ok demo_world 0) demo_template" "meaning demo_world 0 demo_template = ''Hi 5''"
      "\<not> too_deep 0 demo_world"
    by (simp_all add: demo_template_def plain_def valid_name_def c_char string_var_def value_of_def too_deep_def
        Construct_def)
qed

lemma compiled_expands_alike_witness:
  "\<exists>c. capture (comp_Parse (smx plain_outside 3) 0 True ''Hi %x%'') demo_world = (Ok c, used True 1 demo_world) \<and>
    EvalExpand (smx plain_outside 3) 0 0 (one_arg (CMAGIC_V1 @ c)) demo_world = (Ok (), wrote 0 ''Hi 5'' demo_world)"
  using compiled_expands_alike [OF demo_ok(1) _ _ _ demo_ok(3), of plain_outside 0 True 0]
  by (auto simp: demo_simps demo_ok numeral_3_eq_3)

lemma Decompile_compiled_witness:
  "\<exists>c. capture (comp_Parse (smx plain_outside 1) 0 False ''Hi %x%'') demo_world = (Ok c, used False 1 demo_world) \<and>
    Decompile (length c) c = ''Hi %x%''"
  using Decompile_compiled [of demo_template plain_outside 0 0 False demo_world] by (simp add: demo_simps)

section \<open>Errors and limits\<close>


lemma Parse_too_deep_witness:
  "fst (Parse (smx plain_outside 1) 0 0 0 (push ''Hi'' (demo_world\<lparr>w_max := - 1\<rparr>))) = Ok ()"
  using Parse_too_deep [where I = "smx plain_outside 1" and i = 0 and t = 0 and out = 0 and w = "push ''Hi'' (demo_world\<lparr>w_max := - 1\<rparr>)"]
  by (simp add: too_deep_def demo_world_def bare_world_def Construct_def push_def Let_def)

lemma quotable_demo: "list_all quotable [''a b'', [], ''50%'']"
  by (simp add: quotable_def needs_quote_def)

lemma ParseArgs_SmxQuote_witness:
  "\<exists>ary. fst (ParseArgs (smx plain_outside 1) 0 0 (push (quote_args [''a b'', [], ''50%''] @ '')'') demo_world)) = Ok ary \<and>
    qa_vals ary = [''a b'', [], ''50%'']"
proof -
  have "w_ins (push s demo_world) = [\<lparr>rb_past = [], rb_rest = s\<rparr>]" for s
    by (simp add: push_def demo_world_def bare_world_def)
  then show ?thesis
    using ParseArgs_SmxQuote [where as = "[''a b'', [], ''50%'']" and i = 0 and r = "[]" and e = plain_outside and k = 0 and t = 0
        and w = "push (quote_args [''a b'', [], ''50%''] @ '')'') demo_world"] quotable_demo
    by fastforce
qed

section \<open>Conditions and loops\<close>

definition args_of :: "bytes list \<Rightarrow> qargs" where
  "args_of xs = \<lparr>qa_vals = xs, qa_opts = [], qa_n = 0\<rparr>"

lemma conditionals_witness:
  "EvalIf (smx plain_outside 1) 0 0 (args_of [''0'', ''a'', ''1'', ''b'']) demo_world =
    (Ok (), wrote 0 (chosen [''0'', ''a'', ''1'', ''b'']) demo_world)"
  using conditionals [of "args_of [''0'', ''a'', ''1'', ''b'']" 0 demo_world plain_outside 0 0] demo_ok(3)
  by (simp add: args_of_def Count_def plain_def)

lemma ParseInt_digits: "ParseInt ''1'' = 1" "ParseInt ''3'' = 3" "ParseInt [] = 0"
  by code_simp+


section \<open>Lookups\<close>

lemma demo_world_map [simp]:
  "w_ctxs demo_world = [(Construct bare_world None)\<lparr>c_map := [(''x'', 0)]\<rparr>]" "w_objs demo_world = [Some (ObjStr ''5'')]"
  by (simp_all add: demo_world_def bare_world_def)

lemma EvalSet_scope_witness:
  "\<exists>w'. EvalSet 0 0 (args_of [''x'', ''6'']) demo_world = (Ok (), w') \<and> FindL w' 0 ''X'' = Some 1"
proof -
  obtain w' where w': "EvalSet 0 0 (args_of [''x'', ''6'']) demo_world = (Ok (), w')"
    by (simp add: demo_world_def bare_world_def Construct_def args_of_def run_eval char_simps)
  have f: "fold_case ''X'' = fold_case ''x''" by (simp add: fold_case_def cstr_def c_char char_of_def bit_0)
  have "FindL w' 0 ''X'' = Some 1"
    using EvalSet_scope [OF w'] by (simp add: args_of_def Count_def GetAt_def addrs_ok_def f)
  with w' show ?thesis by blast
qed

lemma FindC_colons_witness: "FindC demo_world 0 '':x'' None = Some (0, 0)"
  using FindC_colons [of demo_world 0 "'':x''" 0 "''x''"]
  by (simp add: Construct_def cstr_def FindL_def al_find_def fold_case_def c_char Let_def)


section \<open>Memory errors\<close>

definition self_world :: world where
  "self_world = demo_world\<lparr>w_objs := [Some (ObjDef (code [NUL, NUL] (\<lambda>i. NUL) [] [Var ''x'']) [] [] 1)]\<rparr>"

lemma self_call_never_returns_witness:
  "fst (EvalObj (smx plain_outside 1000) 0 0 0 no_args self_world) = NoFuel"
proof -
  have "w_ctxs self_world = w_ctxs demo_world" by (simp add: self_world_def)
  then have c: "calls_itself [NUL, NUL] (\<lambda>i. NUL) ''x'' 0 0 self_world"
    using demo_find Find_where_cong [of self_world demo_world]
    by (auto simp: calls_itself_def parents_ok_def Construct_def self_world_def)
  have n: "self_name ''x''"
    by (simp add: self_name_def fold_names) (simp add: fold_case_def cstr_def c_char char_of_def bit_0)
  have p: "length [NUL, NUL] = 2" by simp
  show ?thesis by (rule self_call_never_returns [OF c p n])
qed


end
