(* ===== verification/Buffers.thy ===== *)
theory Buffers
  imports Prelude
begin

text \<open>
  The reference-counted buffers of \<^verbatim>\<open>buf_ref.cpp\<close> and the strings \<^verbatim>\<open>CStr\<close> of \<^verbatim>\<open>str.h\<close> on them:
  every string of the program is a handle on such a buffer, shared until it is changed. The
  store holds the allocated buffers and, for every live handle, its \<^verbatim>\<open>m_buf\<close>. A failed assertion,
  a use of freed memory and an access outside a buffer are \<^const>\<open>None\<close>. \<^verbatim>\<open>malloc\<close> is taken to succeed
  (the code asserts that it does) and lengths to stay far below the range of \<^verbatim>\<open>int\<close>.
\<close>

section \<open>Buffers\<close>

text \<open>\<^verbatim>\<open>BUFFER_INFO\<close>: \<^verbatim>\<open>m_x\<close> is the length of the data; a byte that was never written is \<^const>\<open>None\<close>.\<close>

record buf =
  m_ref :: int
  m_n :: nat
  m_data :: "char option list"

record store =
  s_bufs :: "buf option list"
  s_ptr :: "nat \<Rightarrow> nat option option"

definition empty_store :: store where
  "empty_store = \<lparr>s_bufs = [], s_ptr = Map.empty\<rparr>"

definition buf_at :: "store \<Rightarrow> nat \<Rightarrow> buf option" where
  "buf_at s a = (if a < length (s_bufs s) then s_bufs s ! a else None)"

definition set_buf :: "nat \<Rightarrow> buf option \<Rightarrow> store \<Rightarrow> store" where
  "set_buf a b s = s\<lparr>s_bufs := (s_bufs s)[a := b]\<rparr>"

definition set_ptr :: "nat \<Rightarrow> nat option \<Rightarrow> store \<Rightarrow> store" where
  "set_ptr k p s = s\<lparr>s_ptr := (s_ptr s)(k \<mapsto> p)\<rparr>"

definition malloc_buf :: "nat \<Rightarrow> buf \<Rightarrow> store \<Rightarrow> store" where
  "malloc_buf k b s = set_ptr k (Some (length (s_bufs s))) (s\<lparr>s_bufs := s_bufs s @ [Some b]\<rparr>)"

text \<open>What a member function does with \<^verbatim>\<open>m_buf\<close>: one case for a null buffer, one for a live one.\<close>

definition on_buf :: "nat \<Rightarrow> (store \<Rightarrow> 'a option) \<Rightarrow> (nat \<Rightarrow> buf \<Rightarrow> store \<Rightarrow> 'a option) \<Rightarrow> store \<Rightarrow> 'a option" where
  "on_buf k null live s =
    (case s_ptr s k of
       None \<Rightarrow> None
     | Some None \<Rightarrow> null s
     | Some (Some a) \<Rightarrow> Option.bind (buf_at s a) (\<lambda>b. live a b s))"

definition buf_Count :: "nat \<Rightarrow> store \<Rightarrow> nat option" where
  "buf_Count k = on_buf k (\<lambda>s. Some 0) (\<lambda>a b s. Some (m_n b))"

definition buf_Free :: "nat \<Rightarrow> store \<Rightarrow> store option" where
  "buf_Free k = on_buf k Some
    (\<lambda>a b s. Some (set_ptr k None
       (set_buf a (if m_ref b - 1 \<le> 0 then None else Some (b\<lparr>m_ref := m_ref b - 1\<rparr>)) s)))"

definition growby :: nat where
  "growby = 256"

definition resized :: "nat \<Rightarrow> char option list \<Rightarrow> char option list" where
  "resized z d = take z d @ replicate (z - length d) None"

definition grown_size :: "nat \<Rightarrow> nat" where
  "grown_size n = n + max growby (n div 2)"

definition buf_Grow :: "nat \<Rightarrow> nat \<Rightarrow> store \<Rightarrow> store option" where
  "buf_Grow k n = on_buf k
    (\<lambda>s. Some (if n > 0 then malloc_buf k \<lparr>m_ref = 1, m_n = n, m_data = replicate n None\<rparr> s else s))
    (\<lambda>a b s.
       if n > 0 then
         if m_ref b = 1 then
           Some (set_buf a (Some (b\<lparr>m_n := n,
             m_data := (if n > length (m_data b) then resized (grown_size n) (m_data b) else m_data b)\<rparr>)) s)
         else if m_ref b \<ge> 1 then
           map_option (malloc_buf k \<lparr>m_ref = 1, m_n = n,
             m_data = resized (grown_size n) (take (min (m_n b) n) (m_data b))\<rparr>) (buf_Free k s)
         else None
       else if m_ref b = 1 then Some (set_buf a (Some (b\<lparr>m_n := 0\<rparr>)) s)
       else buf_Free k s)"

definition buf_Change :: "nat \<Rightarrow> store \<Rightarrow> store option" where
  "buf_Change k = on_buf k Some
    (\<lambda>a b s. map_option (malloc_buf k \<lparr>m_ref = 1, m_n = m_n b,
       m_data = resized (length (m_data b)) (take (m_n b) (m_data b))\<rparr>) (buf_Free k s))"

definition buf_Copy :: "nat \<Rightarrow> nat \<Rightarrow> store \<Rightarrow> store option" where
  "buf_Copy k j s =
    (if s_ptr s k = s_ptr s j then (if s_ptr s k = None then None else Some s)
     else on_buf j (buf_Free k)
       (\<lambda>a b s. if m_ref b > 0
          then map_option (set_ptr k (Some a)) (buf_Free k (set_buf a (Some (b\<lparr>m_ref := m_ref b + 1\<rparr>)) s))
          else None) s)"

text \<open>Writing into the buffer through \<^verbatim>\<open>m_buf\<close> or \<^verbatim>\<open>Data()\<close>.\<close>

fun store_bytes :: "char option list \<Rightarrow> nat \<Rightarrow> bytes \<Rightarrow> char option list" where
  "store_bytes d i [] = d"
| "store_bytes d i (c # cs) = store_bytes (d[i := Some c]) (Suc i) cs"

definition poke :: "nat \<Rightarrow> nat \<Rightarrow> bytes \<Rightarrow> store \<Rightarrow> store option" where
  "poke k i cs = on_buf k (\<lambda>s. if cs = [] then Some s else None)
    (\<lambda>a b s. if i + length cs \<le> length (m_data b)
       then Some (set_buf a (Some (b\<lparr>m_data := store_bytes (m_data b) i cs\<rparr>)) s) else None)"

text \<open>\<^verbatim>\<open>CBufRefChar(int n)\<close>, which also terminates the buffer.\<close>

definition sized :: "nat \<Rightarrow> nat \<Rightarrow> store \<Rightarrow> store option" where
  "sized k n s =
    (if n > 0 then poke k n [NUL] (malloc_buf k \<lparr>m_ref = 1, m_n = n, m_data = replicate n None\<rparr> s)
     else Some (set_ptr k None s))"

definition destroy :: "nat \<Rightarrow> store \<Rightarrow> store option" where
  "destroy k s = map_option (\<lambda>s. s\<lparr>s_ptr := (s_ptr s)(k := None)\<rparr>)
    (on_buf k Some (\<lambda>a b s. if m_ref b > 0 then buf_Free k s else None) s)"

section \<open>Strings\<close>

definition Length :: "nat \<Rightarrow> store \<Rightarrow> nat option" where
  "Length k s = map_option (\<lambda>n. n - 1) (buf_Count k s)"

definition str_Grow :: "nat \<Rightarrow> nat \<Rightarrow> store \<Rightarrow> store option" where
  "str_Grow k n s =
    (if n > 0 then Option.bind (buf_Grow k (n + 1) s) (poke k n [NUL])
     else Option.bind (buf_Grow k 0 s) (on_buf k Some (\<lambda>a b. poke k 0 [NUL])))"

definition str_new :: "nat \<Rightarrow> store \<Rightarrow> store option" where
  "str_new k s = Some (set_ptr k None s)"

definition str_of :: "nat \<Rightarrow> bytes \<Rightarrow> store \<Rightarrow> store option" where
  "str_of k d s = Option.bind (str_Grow k (length d) (set_ptr k None s)) (poke k 0 d)"

definition str_copy :: "nat \<Rightarrow> nat \<Rightarrow> store \<Rightarrow> store option" where
  "str_copy k j s = buf_Copy k j (set_ptr k None s)"

definition str_assign :: "nat \<Rightarrow> bytes \<Rightarrow> store \<Rightarrow> store option" where
  "str_assign k p s = (let d = cstr p in Option.bind (str_Grow k (length d) s)
    (on_buf k Some (\<lambda>a b s. Option.bind (poke k 0 d s) (poke k (length d) [NUL]))))"

definition Append :: "nat \<Rightarrow> bytes \<Rightarrow> store \<Rightarrow> store option" where
  "Append k d s = Option.bind (Length k s) (\<lambda>o'. Option.bind (str_Grow k (o' + length d) s) (poke k o' d))"

definition AppendC :: "nat \<Rightarrow> char \<Rightarrow> store \<Rightarrow> store option" where
  "AppendC k c s = Option.bind (Length k s) (\<lambda>o'. Option.bind (str_Grow k (o' + 1) s) (poke k o' [c]))"

definition str_LTrim :: "nat \<Rightarrow> store \<Rightarrow> store option" where
  "str_LTrim k = on_buf k Some
    (\<lambda>a b s. if m_n b > 1 then
       (if None \<in> set (take (m_n b) (m_data b)) then None
        else let r = dropWhile c_isspace (map the (take (m_n b) (m_data b)))
             in Some (set_buf a (Some (b\<lparr>m_n := length r, m_data := store_bytes (m_data b) 0 r\<rparr>)) s))
     else Some s)"

section \<open>The invariant of the store\<close>

definition owners :: "store \<Rightarrow> nat \<Rightarrow> nat set" where
  "owners s a = {k. s_ptr s k = Some (Some a)}"

text \<open>Every buffer counts the handles on it, no handle points to freed memory, and no buffer is
  without a handle: nothing leaks.\<close>

definition store_ok :: "store \<Rightarrow> bool" where
  "store_ok s \<longleftrightarrow> finite (dom (s_ptr s)) \<and>
     (\<forall>k a. s_ptr s k = Some (Some a) \<longrightarrow> buf_at s a \<noteq> None) \<and>
     (\<forall>a b. buf_at s a = Some b \<longrightarrow> m_ref b = int (card (owners s a)) \<and> owners s a \<noteq> {} \<and>
        m_n b \<le> length (m_data b) \<and> m_data b \<noteq> [])"

text \<open>What each live handle reads.\<close>

definition view :: "store \<Rightarrow> nat \<Rightarrow> char option list option" where
  "view s k =
    (case s_ptr s k of
       None \<Rightarrow> None
     | Some None \<Rightarrow> Some []
     | Some (Some a) \<Rightarrow> Some (case buf_at s a of None \<Rightarrow> [] | Some b \<Rightarrow> take (m_n b) (m_data b)))"

lemma finite_owners: "store_ok s \<Longrightarrow> finite (owners s a)"
  by (rule finite_subset [of _ "dom (s_ptr s)"]) (auto simp: owners_def store_ok_def)

lemma owners_one: "store_ok s \<Longrightarrow> buf_at s a = Some b \<Longrightarrow> s_ptr s k = Some (Some a) \<Longrightarrow> m_ref b = 1
    \<Longrightarrow> owners s a = {k}"
  using card_1_singletonE [of "owners s a"] unfolding store_ok_def owners_def
  by (metis (mono_tags, lifting) mem_Collect_eq of_nat_eq_1_iff singletonD)

lemma buf_at_simps [simp]:
  "buf_at (set_ptr k p s) a = buf_at s a"
  "a < length (s_bufs s) \<Longrightarrow> buf_at (set_buf a b s) a' = (if a' = a then b else buf_at s a')"
  "s_ptr (set_buf a b s) = s_ptr s"
  "s_ptr (set_ptr k p s) = (s_ptr s)(k \<mapsto> p)"
  "s_ptr (malloc_buf k bf s) = (s_ptr s)(k \<mapsto> Some (length (s_bufs s)))"
  "buf_at (malloc_buf k bf s) a = (if a = length (s_bufs s) then Some bf else buf_at s a)"
  "length (s_bufs (set_buf a b s)) = length (s_bufs s)"
  "length (s_bufs (set_ptr k p s)) = length (s_bufs s)"
  by (auto simp: buf_at_def set_ptr_def set_buf_def malloc_buf_def nth_append)

lemma owners_simps [simp]:
  "owners (set_buf a b s) a' = owners s a'"
  "owners (set_ptr k p s) a' = (if p = Some a' then insert k (owners s a') else owners s a' - {k})"
  "owners (malloc_buf k bf s) a' =
     (if a' = length (s_bufs s) then insert k (owners s a') else owners s a' - {k})"
  by (auto simp: owners_def split: if_splits)

lemma buf_at_less: "buf_at s a = Some b \<Longrightarrow> a < length (s_bufs s)"
  by (simp add: buf_at_def split: if_splits)

lemma view_live: "s_ptr s k = Some (Some a) \<Longrightarrow> buf_at s a = Some b \<Longrightarrow> view s k = Some (take (m_n b) (m_data b))"
  by (simp add: view_def)

lemma view_null: "s_ptr s k = Some None \<Longrightarrow> view s k = Some []"
  by (simp add: view_def)

lemma store_ok_buf: "store_ok s \<Longrightarrow> s_ptr s k = Some (Some a) \<Longrightarrow> (\<And>b. buf_at s a = Some b \<Longrightarrow>
    m_ref b = int (card (owners s a)) \<Longrightarrow> m_n b \<le> length (m_data b) \<Longrightarrow> m_data b \<noteq> [] \<Longrightarrow> k \<in> owners s a \<Longrightarrow> P) \<Longrightarrow> P"
  unfolding store_ok_def owners_def by (metis (mono_tags, lifting) mem_Collect_eq not_None_eq)

text \<open>The four ways a member function changes the store.\<close>

lemma own_ok:
  assumes s: "store_ok s" and p: "s_ptr s k = Some (Some a)" and b: "buf_at s a = Some b" "owners s a = {k}"
    and b': "m_ref b' = 1" "m_n b' \<le> length (m_data b')" "m_data b' \<noteq> []"
  shows "store_ok (set_buf a (Some b') s)"
    "view (set_buf a (Some b') s) = (view s)(k \<mapsto> take (m_n b') (m_data b'))"
proof -
  note less = buf_at_less [OF b(1)]
  show "store_ok (set_buf a (Some b') s)"
    using s b' less b by (auto simp: store_ok_def)
  have "s_ptr s j \<noteq> Some (Some a)" if "j \<noteq> k" for j
    using b(2) that by (auto simp: owners_def)
  then show "view (set_buf a (Some b') s) = (view s)(k \<mapsto> take (m_n b') (m_data b'))"
    using less p by (auto simp: view_def fun_eq_iff split: option.splits)
qed

lemma malloc_ok:
  assumes s: "store_ok s" and k: "\<And>a. s_ptr s k \<noteq> Some (Some a)"
    and b: "m_ref b = 1" "m_n b \<le> length (m_data b)" "m_data b \<noteq> []"
  shows "store_ok (malloc_buf k b s)" "view (malloc_buf k b s) = (view s)(k \<mapsto> take (m_n b) (m_data b))"
    "owners (malloc_buf k b s) (length (s_bufs s)) = {k}"
proof -
  have less: "a < length (s_bufs s)" if "s_ptr s j = Some (Some a)" for j a
    using s that unfolding store_ok_def by (meson buf_at_less option.exhaust)
  have none: "owners s (length (s_bufs s)) = {}"
    using less by (fastforce simp: owners_def)
  have nk: "owners s a - {k} = owners s a" for a
    using k by (auto simp: owners_def)
  show "store_ok (malloc_buf k b s)"
    using s b none nk unfolding store_ok_def by auto
  show "view (malloc_buf k b s) = (view s)(k \<mapsto> take (m_n b) (m_data b))"
    using less by (fastforce simp: view_def fun_eq_iff split: option.splits)
  show "owners (malloc_buf k b s) (length (s_bufs s)) = {k}"
    by (simp add: none)
qed

lemma null_ok:
  assumes "store_ok s" "\<And>a. s_ptr s k \<noteq> Some (Some a)"
  shows "store_ok (set_ptr k None s)" "view (set_ptr k None s) = (view s)(k \<mapsto> [])"
proof -
  have nk: "owners s a - {k} = owners s a" for a
    using assms by (auto simp: owners_def)
  show "store_ok (set_ptr k None s)"
    using assms(1) nk unfolding store_ok_def by auto
qed (auto simp: view_def fun_eq_iff split: option.splits)

lemma share_ok:
  assumes s: "store_ok s" and k: "\<And>a. s_ptr s k \<noteq> Some (Some a)" and j: "s_ptr s j = Some (Some a)" "buf_at s a = Some b"
  shows "store_ok (set_ptr k (Some a) (set_buf a (Some (b\<lparr>m_ref := m_ref b + 1\<rparr>)) s))"
    "view (set_ptr k (Some a) (set_buf a (Some (b\<lparr>m_ref := m_ref b + 1\<rparr>)) s)) = (view s)(k := view s j)"
proof -
  note less = buf_at_less [OF j(2)]
  have nk: "k \<notin> owners s a" "owners s a' - {k} = owners s a'" for a'
    using k by (auto simp: owners_def)
  show "store_ok (set_ptr k (Some a) (set_buf a (Some (b\<lparr>m_ref := m_ref b + 1\<rparr>)) s))"
    using s less j nk finite_owners [OF s] unfolding store_ok_def by auto
  show "view (set_ptr k (Some a) (set_buf a (Some (b\<lparr>m_ref := m_ref b + 1\<rparr>)) s)) = (view s)(k := view s j)"
    using less j by (auto simp: view_def fun_eq_iff split: option.splits)
qed

section \<open>Each member function keeps the invariant\<close>

lemma Free_ok:
  assumes s: "store_ok s" and k: "s_ptr s k \<noteq> None"
  obtains s' where "buf_Free k s = Some s'" "store_ok s'" "view s' = (view s)(k \<mapsto> [])"
    "s_ptr s' = (s_ptr s)(k \<mapsto> None)"
proof (cases "the (s_ptr s k)")
  case None
  then have p: "s_ptr s k = Some None" using k by force
  have "view s = (view s)(k \<mapsto> [])" "s_ptr s = (s_ptr s)(k \<mapsto> None)"
    using p by (auto simp: view_def)
  then show thesis using that [of s] s p by (simp add: buf_Free_def on_buf_def)
next
  case (Some a)
  then have p: "s_ptr s k = Some (Some a)" using k by force
  obtain b where b: "buf_at s a = Some b" "m_ref b = int (card (owners s a))" "k \<in> owners s a"
    using store_ok_buf [OF s p] by metis
  note less = buf_at_less [OF b(1)]
  define x where "x = (if m_ref b - 1 \<le> 0 then None else Some (b\<lparr>m_ref := m_ref b - 1\<rparr>))"
  have other: "k \<notin> owners s a'" if "a' \<noteq> a" for a'
    using p that by (simp add: owners_def)
  have card: "card (owners s a - {k}) = card (owners s a) - 1" "card (owners s a) > 0"
    using b(3) finite_owners [OF s] by (auto simp: card_gt_0_iff)
  have left: "owners s a - {k} = {} \<longleftrightarrow> m_ref b - 1 \<le> 0"
    using card finite_owners [OF s, of a] b(2) card_0_eq [of "owners s a - {k}"] by (simp add: le_diff_conv)
  have "store_ok (set_ptr k None (set_buf a x s))"
    unfolding store_ok_def
  proof (intro conjI allI impI)
    show "finite (dom (s_ptr (set_ptr k None (set_buf a x s))))"
      using s by (simp add: store_ok_def)
  next
    fix j c assume "s_ptr (set_ptr k None (set_buf a x s)) j = Some (Some c)"
    then have j: "j \<noteq> k" "s_ptr s j = Some (Some c)" by (auto split: if_splits)
    have "x \<noteq> None" if "c = a"
      using left j that by (auto simp: x_def owners_def)
    then show "buf_at (set_ptr k None (set_buf a x s)) c \<noteq> None"
      using s j less by (auto simp: store_ok_def)
  next
    fix c d assume d: "buf_at (set_ptr k None (set_buf a x s)) c = Some d"
    note d = d [simplified, unfolded buf_at_simps(2) [OF less]]
    have "(c = a \<and> x = Some d) \<or> (c \<noteq> a \<and> buf_at s c = Some d)"
      using d by (auto split: if_splits)
    then have "m_ref d = int (card (owners s c - {k})) \<and> owners s c - {k} \<noteq> {} \<and> m_n d \<le> length (m_data d) \<and> m_data d \<noteq> []"
    proof
      assume c: "c = a \<and> x = Some d"
      then have "\<not> m_ref b - 1 \<le> 0" "d = b\<lparr>m_ref := m_ref b - 1\<rparr>"
        by (auto simp: x_def split: if_splits)
      then show ?thesis
        using c left card b s by (auto simp: store_ok_def)
    next
      assume c: "c \<noteq> a \<and> buf_at s c = Some d"
      then show ?thesis using other [of c] s by (auto simp: store_ok_def)
    qed
    then show "m_ref d = int (card (owners (set_ptr k None (set_buf a x s)) c))"
      "owners (set_ptr k None (set_buf a x s)) c \<noteq> {}" "m_n d \<le> length (m_data d)" "m_data d \<noteq> []"
      by simp_all
  qed
  moreover have "view (set_ptr k None (set_buf a x s)) = (view s)(k \<mapsto> [])"
  proof
    fix j
    have "x \<noteq> None" if "j \<noteq> k" "s_ptr s j = Some (Some a)"
      using left that by (auto simp: x_def owners_def)
    then show "view (set_ptr k None (set_buf a x s)) j = ((view s)(k \<mapsto> [])) j"
      using less b(1) by (auto simp: view_def x_def split: option.splits if_splits)
  qed
  ultimately show thesis
    using that [of "set_ptr k None (set_buf a x s)"] p b by (simp add: buf_Free_def on_buf_def x_def)
qed

text \<open>Afterwards the handle is the only one on its buffer, so that what is then written through it
  is seen by no other.\<close>

definition sole :: "store \<Rightarrow> nat \<Rightarrow> bool" where
  "sole s k \<longleftrightarrow> (\<exists>a. s_ptr s k = Some (Some a) \<and> owners s a = {k})"

lemma length_resized [simp]: "length (resized z d) = z"
  by (simp add: resized_def)

lemma take_resized: "n \<le> length d \<Longrightarrow> n \<le> z \<Longrightarrow> take n (resized z d) = take n d"
  by (simp add: resized_def)

lemma grown_size: "n \<le> grown_size n" "0 < grown_size n"
  by (simp_all add: grown_size_def growby_def max_def)

lemma Grow_ok:
  assumes s: "store_ok s" and k: "view s k = Some c" and n: "0 < n"
  obtains s' c' where "buf_Grow k n s = Some s'" "store_ok s'" "view s' = (view s)(k \<mapsto> c')" "length c' = n"
    "take (length c) c' = take n c" "sole s' k"
proof (cases "the (s_ptr s k)")
  case None
  then have p: "s_ptr s k = Some None" "c = []" using k by (auto simp: view_def split: option.splits)
  show thesis
    using that [of "malloc_buf k \<lparr>m_ref = 1, m_n = n, m_data = replicate n None\<rparr> s" "replicate n None"]
      malloc_ok [OF s, of k "\<lparr>m_ref = 1, m_n = n, m_data = replicate n None\<rparr>"] p n
    by (simp add: buf_Grow_def on_buf_def sole_def)
next
  case (Some a)
  then have p: "s_ptr s k = Some (Some a)" using k by (auto simp: view_def split: option.splits)
  obtain b where b: "buf_at s a = Some b" "m_ref b = int (card (owners s a))" "k \<in> owners s a"
      "m_n b \<le> length (m_data b)" "m_data b \<noteq> []"
    using store_ok_buf [OF s p] by metis
  have c: "c = take (m_n b) (m_data b)" using view_live [OF p b(1)] k by simp
  show thesis
  proof (cases "m_ref b = 1")
    case True
    define b' where "b' = b\<lparr>m_n := n,
      m_data := (if n > length (m_data b) then resized (grown_size n) (m_data b) else m_data b)\<rparr>"
    have own: "owners s a = {k}" by (rule owners_one [OF s b(1) p True])
    have len: "n \<le> length (m_data b')" "m_data b' \<noteq> []"
      using grown_size [of n] b(5) by (auto simp: b'_def resized_def)
    have "take (length c) (take n (m_data b')) = take n c"
      using b(4) grown_size(1) [of n] by (auto simp: b'_def c resized_def min_def)
    then show thesis
      using that [of "set_buf a (Some b') s" "take n (m_data b')"] own_ok [OF s p b(1) own, of b'] True len n
      by (simp add: buf_Grow_def on_buf_def p b(1) b'_def sole_def own)
  next
    case False
    define b' where "b' = \<lparr>m_ref = 1, m_n = n, m_data = resized (grown_size n) (take (min (m_n b) n) (m_data b))\<rparr>"
    obtain s1 where s1: "buf_Free k s = Some s1" "store_ok s1" "view s1 = (view s)(k \<mapsto> [])" "s_ptr s1 = (s_ptr s)(k \<mapsto> None)"
      using Free_ok [OF s, of k] p by auto
    have "m_ref b \<ge> 1" using b finite_owners [OF s, of a] by (simp add: Suc_le_eq card_gt_0_iff) blast
    moreover have "take (length c) (take n (m_data b')) = take n c"
      using b(4) grown_size(1) [of n] by (auto simp: b'_def c resized_def min_def)
    moreover have "m_data b' \<noteq> []" "n \<le> length (m_data b')"
      using grown_size [of n] by (auto simp: b'_def resized_def)
    ultimately show thesis
      using that [of "malloc_buf k b' s1" "take n (m_data b')"] malloc_ok [OF s1(2), of k b'] s1 False n
      by (simp add: buf_Grow_def on_buf_def p b(1) b'_def sole_def)
  qed
qed

lemma store_bytes_eq: "i + length cs \<le> length d \<Longrightarrow> store_bytes d i cs = take i d @ map Some cs @ drop (i + length cs) d"
proof (induction cs arbitrary: d i)
  case (Cons c cs)
  have "store_bytes (d[i := Some c]) (Suc i) cs
      = take (Suc i) (d[i := Some c]) @ map Some cs @ drop (Suc i + length cs) (d[i := Some c])"
    using Cons.prems by (intro Cons.IH) simp
  also have "take (Suc i) (d[i := Some c]) = take i d @ [Some c]"
    using Cons.prems by (simp add: take_Suc_conv_app_nth)
  finally show ?case by simp
qed simp

lemma poke_ok:
  assumes s: "store_ok s" and c: "view s k = Some c" and sole: "sole s k" and i: "i + length cs \<le> length c"
  obtains s' where "poke k i cs s = Some s'" "store_ok s'" "sole s' k"
    "view s' = (view s)(k \<mapsto> take i c @ map Some cs @ drop (i + length cs) c)"
proof -
  obtain a where p: "s_ptr s k = Some (Some a)" and own: "owners s a = {k}"
    using sole by (auto simp: sole_def)
  obtain b where b: "buf_at s a = Some b" "m_ref b = int (card (owners s a))" "m_n b \<le> length (m_data b)" "m_data b \<noteq> []"
    using store_ok_buf [OF s p] by metis
  have c: "c = take (m_n b) (m_data b)" using view_live [OF p b(1)] c by simp
  define b' where "b' = b\<lparr>m_data := store_bytes (m_data b) i cs\<rparr>"
  have i': "i + length cs \<le> m_n b" "i + length cs \<le> length (m_data b)"
    using i b(3) by (simp_all add: c)
  have "length (m_data b') = length (m_data b)"
    using i' by (simp add: b'_def store_bytes_eq)
  moreover from this have "m_data b' \<noteq> []" using b(4) by auto
  ultimately have "store_ok (set_buf a (Some b') s)" "view (set_buf a (Some b') s) = (view s)(k \<mapsto> take (m_n b') (m_data b'))"
    using own_ok [OF s p b(1) own, of b'] b own by (simp_all add: b'_def)
  moreover have "take (m_n b') (m_data b') = take i c @ map Some cs @ drop (i + length cs) c"
  proof -
    have "min (m_n b) i = i" "min i (length (m_data b)) = i" "min i (m_n b) = i" "min (length (m_data b)) i = i"
      "length cs \<le> m_n b - i"
      using i' by linarith+
    then show ?thesis using i' by (simp add: b'_def c store_bytes_eq drop_take)
  qed
  ultimately show thesis
    using that [of "set_buf a (Some b') s"] i' own by (simp add: poke_def on_buf_def p b(1) b'_def sole_def)
qed

lemma str_Grow_ok:
  assumes s: "store_ok s" and k: "view s k = Some c" and n: "0 < n"
  obtains s' c' where "str_Grow k n s = Some s'" "store_ok s'" "view s' = (view s)(k \<mapsto> c' @ [Some NUL])"
    "length c' = n" "take (length c) c' = take n c" "sole s' k"
proof -
  obtain s1 c1 where s1: "buf_Grow k (n + 1) s = Some s1" "store_ok s1" "view s1 = (view s)(k \<mapsto> c1)"
      "length c1 = n + 1" "take (length c) c1 = take (n + 1) c" "sole s1 k"
    using Grow_ok [OF s k, of "n + 1"] by auto
  obtain s2 where s2: "poke k n [NUL] s1 = Some s2" "store_ok s2" "sole s2 k"
      "view s2 = (view s1)(k \<mapsto> take n c1 @ map Some [NUL] @ drop (n + length [NUL]) c1)"
    using poke_ok [OF s1(2) _ s1(6), of c1 n "[NUL]"] s1(3,4) by auto
  have "take (length c) (take n c1) = take n c"
    using arg_cong [OF s1(5), of "take n"] by (simp add: min.commute)
  then show thesis
    using that [of s2 "take n c1"] s1 s2 n by (simp add: str_Grow_def)
qed

lemma poke_terminator:
  assumes s: "store_ok s" and v: "view s k = Some []" and sole: "sole s k"
  obtains s' where "poke k 0 [NUL] s = Some s'" "store_ok s'" "view s' = view s" "sole s' k"
proof -
  obtain a where p: "s_ptr s k = Some (Some a)" and own: "owners s a = {k}"
    using sole by (auto simp: sole_def)
  obtain b where b: "buf_at s a = Some b" "m_ref b = int (card (owners s a))" "m_data b \<noteq> []"
    using store_ok_buf [OF s p] by metis
  have n: "m_n b = 0" using view_live [OF p b(1)] v b(3) by simp
  have "view (set_buf a (Some (b\<lparr>m_data := (m_data b)[0 := Some NUL]\<rparr>)) s) = view s"
    using own_ok(2) [OF s p b(1) own, of "b\<lparr>m_data := (m_data b)[0 := Some NUL]\<rparr>"] b own n v
    by (simp add: fun_upd_idem)
  then show thesis
    using that [of "set_buf a (Some (b\<lparr>m_data := (m_data b)[0 := Some NUL]\<rparr>)) s"] own n
      own_ok(1) [OF s p b(1) own, of "b\<lparr>m_data := (m_data b)[0 := Some NUL]\<rparr>"] b
    by (simp add: poke_def on_buf_def p sole_def Suc_le_eq)
qed

lemma str_Grow_empty:
  assumes s: "store_ok s" and k: "view s k = Some c"
  obtains s' where "str_Grow k 0 s = Some s'" "store_ok s'" "view s' = (view s)(k \<mapsto> [])"
    "s_ptr s' k = Some None \<or> sole s' k"
proof (cases "the (s_ptr s k)")
  case None
  then have p: "s_ptr s k = Some None" using k by (auto simp: view_def split: option.splits)
  have "view s = (view s)(k \<mapsto> [])" using view_null [OF p] by (simp add: fun_upd_idem)
  then show thesis using that [of s] s p by (simp add: str_Grow_def buf_Grow_def on_buf_def)
next
  case (Some a)
  then have p: "s_ptr s k = Some (Some a)" using k by (auto simp: view_def split: option.splits)
  obtain b where b: "buf_at s a = Some b" "m_ref b = int (card (owners s a))" "m_data b \<noteq> []"
    using store_ok_buf [OF s p] by metis
  show thesis
  proof (cases "m_ref b = 1")
    case True
    define s1 where "s1 = set_buf a (Some (b\<lparr>m_n := 0\<rparr>)) s"
    have own: "owners s a = {k}" by (rule owners_one [OF s b(1) p True])
    have s1: "store_ok s1" "view s1 = (view s)(k \<mapsto> [])" "sole s1 k"
      using own_ok [OF s p b(1) own, of "b\<lparr>m_n := 0\<rparr>"] True b(3) p own by (auto simp: s1_def sole_def)
    obtain s2 where "poke k 0 [NUL] s1 = Some s2" "store_ok s2" "view s2 = view s1" "sole s2 k"
      using poke_terminator [OF s1(1) _ s1(3)] s1(2) by auto
    then show thesis
      using that [of s2] s1 True p b(1) buf_at_less [OF b(1)]
      by (simp add: str_Grow_def buf_Grow_def on_buf_def s1_def)
  next
    case False
    obtain s1 where s1: "buf_Free k s = Some s1" "store_ok s1" "view s1 = (view s)(k \<mapsto> [])" "s_ptr s1 = (s_ptr s)(k \<mapsto> None)"
      using Free_ok [OF s, of k] p by auto
    then show thesis
      using that [of s1] False p b(1) by (simp add: str_Grow_def buf_Grow_def on_buf_def)
  qed
qed

section \<open>Strings are values\<close>

text \<open>What a string built on a buffer reads: the bytes with their terminator, or nothing.\<close>

definition reads :: "bytes \<Rightarrow> char option list \<Rightarrow> bool" where
  "reads d c \<longleftrightarrow> c = map Some (d @ [NUL]) \<or> d = [] \<and> c = []"

definition reads_all :: "store \<Rightarrow> (nat \<rightharpoonup> bytes) \<Rightarrow> bool" where
  "reads_all s m \<longleftrightarrow> store_ok s \<and> (\<forall>k. rel_option reads (m k) (view s k))"

text \<open>The operations on strings, on the store and on a map from handles to their values.\<close>

datatype str_op =
    New nat | Of nat bytes | CopyOf nat nat | AssignStr nat nat | Assign nat bytes
  | App nat bytes | AppC nat char | Delete nat

fun str_step :: "str_op \<Rightarrow> store \<Rightarrow> store option" where
  "str_step (New k) s = str_new k s"
| "str_step (Of k d) s = str_of k d s"
| "str_step (CopyOf k j) s = str_copy k j s"
| "str_step (AssignStr k j) s = buf_Copy k j s"
| "str_step (Assign k d) s = str_assign k d s"
| "str_step (App k d) s = Append k d s"
| "str_step (AppC k c) s = AppendC k c s"
| "str_step (Delete k) s = destroy k s"

definition fresh :: "nat \<Rightarrow> (nat \<rightharpoonup> bytes) \<Rightarrow> bytes option \<Rightarrow> (nat \<rightharpoonup> bytes) option" where
  "fresh k m d = (if m k = None \<and> d \<noteq> None then Some (m(k := d)) else None)"

definition change :: "nat \<Rightarrow> (nat \<rightharpoonup> bytes) \<Rightarrow> (bytes \<Rightarrow> bytes option) \<Rightarrow> (nat \<rightharpoonup> bytes) option" where
  "change k m f = Option.bind (m k) (\<lambda>d. map_option (\<lambda>d'. m(k \<mapsto> d')) (f d))"

fun value_step :: "str_op \<Rightarrow> (nat \<rightharpoonup> bytes) \<Rightarrow> (nat \<rightharpoonup> bytes) option" where
  "value_step (New k) m = fresh k m (Some [])"
| "value_step (Of k d) m = fresh k m (Some d)"
| "value_step (CopyOf k j) m = fresh k m (m j)"
| "value_step (AssignStr k j) m = change k m (\<lambda>d. m j)"
| "value_step (Assign k d) m = change k m (\<lambda>d'. Some (cstr d))"
| "value_step (App k d) m = change k m (\<lambda>d'. Some (d' @ d))"
| "value_step (AppC k c) m = change k m (\<lambda>d'. Some (d' @ [c]))"
| "value_step (Delete k) m = map_option (\<lambda>d. m(k := None)) (m k)"

lemma reads_upd: "reads_all s m \<Longrightarrow> store_ok s' \<Longrightarrow> view s' = (view s)(k := c) \<Longrightarrow> rel_option reads d c \<Longrightarrow>
    reads_all s' (m(k := d))"
  by (simp add: reads_all_def)

lemma reads_allD: "reads_all s m \<Longrightarrow> m k = Some d \<Longrightarrow> (\<And>c. view s k = Some c \<Longrightarrow> reads d c \<Longrightarrow> P) \<Longrightarrow> P"
  unfolding reads_all_def by (metis option_rel_Some1)

lemma view_None [simp]: "view s k = None \<longleftrightarrow> s_ptr s k = None"
  by (simp add: view_def split: option.splits)

lemma reads_all_None: "reads_all s m \<Longrightarrow> m k = None \<longleftrightarrow> s_ptr s k = None"
  unfolding reads_all_def by (metis option.rel_sel view_None)

lemma Count_view: "store_ok s \<Longrightarrow> view s k = Some c \<Longrightarrow> buf_Count k s = Some (length c)"
proof (cases "s_ptr s k")
  case (Some p)
  assume s: "store_ok s" "view s k = Some c"
  show ?thesis
  proof (cases p)
    case (Some a)
    then have p: "s_ptr s k = Some (Some a)" using \<open>s_ptr s k = Some p\<close> by simp
    show ?thesis
      by (rule store_ok_buf [OF s(1) p]) (use s view_live [OF p] p in \<open>auto simp: buf_Count_def on_buf_def\<close>)
  qed (use s \<open>s_ptr s k = Some p\<close> in \<open>auto simp: buf_Count_def on_buf_def view_def\<close>)
qed (auto simp: view_def)

lemma Length_reads: "view s k = Some c \<Longrightarrow> reads d c \<Longrightarrow> store_ok s \<Longrightarrow> Length k s = Some (length d)"
  by (auto simp: Length_def Count_view reads_def)

text \<open>\<^verbatim>\<open>Grow\<close> by some bytes, which are then written: the common part of all that build a string.\<close>

lemma grow_and_write:
  assumes s: "store_ok s" and k: "view s k = Some c" "reads d c" and x: "d @ x \<noteq> []"
  obtains s1 s2 where "str_Grow k (length d + length x) s = Some s1" "poke k (length d) x s1 = Some s2" "store_ok s2"
    "view s2 = (view s)(k \<mapsto> map Some ((d @ x) @ [NUL]))" "s_ptr s1 k \<noteq> None" "s_ptr s1 k \<noteq> Some None" "sole s2 k"
proof -
  obtain s1 c1 where s1: "str_Grow k (length d + length x) s = Some s1" "store_ok s1" "view s1 = (view s)(k \<mapsto> c1 @ [Some NUL])"
      "length c1 = length d + length x" "take (length c) c1 = take (length d + length x) c" "sole s1 k"
    using str_Grow_ok [OF s k(1), of "length d + length x"] x by fastforce
  have pre: "take (length d) c1 = map Some d"
    using k(2) arg_cong [OF s1(5), of "take (length d)"] x by (auto simp: reads_def min_def)
  obtain s2 where "poke k (length d) x s1 = Some s2" "store_ok s2" "sole s2 k"
      "view s2 = (view s1)(k \<mapsto> take (length d) (c1 @ [Some NUL]) @ map Some x @ drop (length d + length x) (c1 @ [Some NUL]))"
    using poke_ok [OF s1(2) _ s1(6), of "c1 @ [Some NUL]" "length d" x] s1(3,4) by auto
  then show thesis
    using that [of s1 s2] s1 pre by (auto simp: sole_def)
qed

lemma buf_Copy_ok:
  assumes s: "store_ok s" and k: "s_ptr s k \<noteq> None" and j: "s_ptr s j \<noteq> None"
  obtains s' where "buf_Copy k j s = Some s'" "store_ok s'" "view s' = (view s)(k := view s j)"
    "s_ptr s' k = s_ptr s' j"
proof -
  consider "s_ptr s k = s_ptr s j" | "s_ptr s k \<noteq> s_ptr s j" "s_ptr s j = Some None"
    | a where "s_ptr s k \<noteq> s_ptr s j" "s_ptr s j = Some (Some a)"
    using j by (cases "s_ptr s j") (auto, metis option.exhaust)
  then show thesis
  proof cases
    case 1
    then have "view s k = view s j" by (simp add: view_def)
    then show thesis using that [of s] 1 s k by (simp add: buf_Copy_def fun_upd_idem)
  next
    case 2
    obtain s1 where "buf_Free k s = Some s1" "store_ok s1" "view s1 = (view s)(k \<mapsto> [])" "s_ptr s1 = (s_ptr s)(k \<mapsto> None)"
      using Free_ok [OF s k] by metis
    then show thesis using that [of s1] 2 view_null [OF 2(2)] by (simp add: buf_Copy_def on_buf_def)
  next
    case (3 a)
    obtain b where b: "buf_at s a = Some b" "m_ref b = int (card (owners s a))" "j \<in> owners s a"
      using store_ok_buf [OF s 3(2)] by metis
    obtain s1 where s1: "buf_Free k s = Some s1" "store_ok s1" "view s1 = (view s)(k \<mapsto> [])" "s_ptr s1 = (s_ptr s)(k \<mapsto> None)"
      using Free_ok [OF s k] by metis
    have neq: "s_ptr s k \<noteq> Some (Some a)" "j \<noteq> k" using 3 by auto
    define inc where "inc = b\<lparr>m_ref := m_ref b + 1\<rparr>"
    note less = buf_at_less [OF b(1)]
    have free: "buf_Free k (set_buf a (Some inc) s) = Some (set_buf a (Some inc) s1)" "buf_at s1 a = Some b"
      using s1(1) neq less b(1)
      by (auto simp: buf_Free_def on_buf_def set_ptr_def set_buf_def buf_at_def list_update_swap
          split: option.splits Option.bind_splits if_splits)
    have "0 < m_ref b" using b finite_owners [OF s, of a] by (auto simp: card_gt_0_iff)
    then show thesis
      using that [of "set_ptr k (Some a) (set_buf a (Some inc) s1)"] 3 b(1) free(1) neq
        share_ok [OF s1(2), of k j a b] s1(3,4) free(2)
      by (simp add: buf_Copy_def on_buf_def inc_def)
  qed
qed

lemma on_buf_sole: "store_ok s \<Longrightarrow> sole s k \<Longrightarrow> on_buf k f (\<lambda>a b. g) s = g s"
  by (auto simp: sole_def on_buf_def elim!: store_ok_buf)

lemma set_buf_same: "buf_at s a = Some b \<Longrightarrow> set_buf a (Some b) s = s"
  by (auto simp: set_buf_def buf_at_def list_update_same_conv split: if_splits intro!: store.equality)

lemma poke_nothing:
  assumes "s_ptr s k = Some None \<or> sole s k" "store_ok s"
  shows "poke k 0 [] s = Some s"
  using assms(1)
proof
  assume "sole s k"
  then obtain a where p: "s_ptr s k = Some (Some a)" by (auto simp: sole_def)
  then show ?thesis
    by (rule store_ok_buf [OF assms(2)]) (simp add: poke_def on_buf_def p set_buf_same)
qed (simp add: poke_def on_buf_def)

lemma str_new_ok:
  assumes s: "reads_all s m" and k: "m k = None"
  shows "reads_all (set_ptr k None s) (m(k \<mapsto> []))" "s_ptr (set_ptr k None s) k = Some None"
  using null_ok [of s k] s k reads_all_None [OF s, of k] by (auto simp: reads_all_def reads_def)

lemma Append_ok:
  assumes s: "reads_all s m" and k: "m k = Some d"
  obtains s' where "Option.bind (str_Grow k (length d + length x) s) (poke k (length d) x) = Some s'"
    "reads_all s' (m(k \<mapsto> d @ x))"
proof -
  obtain c where c: "view s k = Some c" "reads d c" using reads_allD [OF s k] by metis
  have ok: "store_ok s" using s by (simp add: reads_all_def)
  show thesis
  proof (cases "d @ x = []")
    case True
    obtain s1 where "str_Grow k 0 s = Some s1" "store_ok s1" "view s1 = (view s)(k \<mapsto> [])" "s_ptr s1 k = Some None \<or> sole s1 k"
      using str_Grow_empty [OF ok c(1)] by metis
    then show thesis
      using that [of s1] True reads_upd [OF s, of s1 k "Some []" "Some []"] by (simp add: poke_nothing reads_def)
  next
    case False
    obtain s1 s2 where "str_Grow k (length d + length x) s = Some s1" "poke k (length d) x s1 = Some s2" "store_ok s2"
        "view s2 = (view s)(k \<mapsto> map Some ((d @ x) @ [NUL]))"
      using grow_and_write [OF ok c False] by metis
    then show thesis
      using that [of s2] reads_upd [OF s, of s2 k "Some (map Some ((d @ x) @ [NUL]))" "Some (d @ x)"] by (simp add: reads_def)
  qed
qed

lemma str_assign_ok:
  assumes s: "reads_all s m" and k: "m k = Some d0"
  obtains s' where "str_assign k p s = Some s'" "reads_all s' (m(k \<mapsto> cstr p))"
proof -
  define d where "d = cstr p"
  obtain c where c: "view s k = Some c" "reads d0 c" using reads_allD [OF s k] by metis
  have ok: "store_ok s" using s by (simp add: reads_all_def)
  show thesis
  proof (cases "d = []")
    case True
    obtain s1 where s1: "str_Grow k 0 s = Some s1" "store_ok s1" "view s1 = (view s)(k \<mapsto> [])" "s_ptr s1 k = Some None \<or> sole s1 k"
      using str_Grow_empty [OF ok c(1)] by metis
    have "reads_all s1 (m(k \<mapsto> []))"
      using reads_upd [OF s s1(2,3)] by (simp add: reads_def)
    show thesis
    proof (cases "sole s1 k")
      case True
      obtain s2 where "poke k 0 [NUL] s1 = Some s2" "store_ok s2" "view s2 = view s1"
        using poke_terminator [OF s1(2) _ True] s1(3) by auto
      then show thesis
        using that [of s2] s1 \<open>d = []\<close> \<open>reads_all s1 (m(k \<mapsto> []))\<close>
        by (simp add: str_assign_def d_def [symmetric] on_buf_sole [OF s1(2) True] poke_nothing reads_all_def)
    next
      case False
      then show thesis
        using that [of s1] s1 \<open>d = []\<close> \<open>reads_all s1 (m(k \<mapsto> []))\<close>
        by (simp add: str_assign_def d_def [symmetric] on_buf_def)
    qed
  next
    case False
    obtain s1 c1 where s1: "str_Grow k (length d) s = Some s1" "store_ok s1" "view s1 = (view s)(k \<mapsto> c1 @ [Some NUL])"
        "length c1 = length d" "sole s1 k"
      using str_Grow_ok [OF ok c(1), of "length d"] False by (metis length_greater_0_conv)
    obtain s2 where s2: "poke k 0 d s1 = Some s2" "store_ok s2" "sole s2 k"
        "view s2 = (view s1)(k \<mapsto> take 0 (c1 @ [Some NUL]) @ map Some d @ drop (0 + length d) (c1 @ [Some NUL]))"
      using poke_ok [OF s1(2) _ s1(5), of "c1 @ [Some NUL]" 0 d] s1(3,4) by auto
    then have v2: "view s2 k = Some (map Some (d @ [NUL]))" using s1(4) by simp
    obtain s3 where "poke k (length d) [NUL] s2 = Some s3" "store_ok s3"
        "view s3 = (view s2)(k \<mapsto> take (length d) (map Some (d @ [NUL])) @ map Some [NUL] @ drop (length d + length [NUL]) (map Some (d @ [NUL])))"
      using poke_ok [OF s2(2) v2 s2(3), of "length d" "[NUL]"] by auto
    then show thesis
      using that [of s3] s1 s2 reads_upd [OF s, of s3 k "Some (map Some (d @ [NUL]))" "Some d"]
      by (simp add: str_assign_def d_def [symmetric] on_buf_sole reads_def)
  qed
qed

lemma drop_handle:
  assumes s: "store_ok s" and k: "s_ptr s k = Some None"
  shows "store_ok (s\<lparr>s_ptr := (s_ptr s)(k := None)\<rparr>)"
    "view (s\<lparr>s_ptr := (s_ptr s)(k := None)\<rparr>) = (view s)(k := None)"
proof -
  have "owners (s\<lparr>s_ptr := (s_ptr s)(k := None)\<rparr>) = owners s"
    "buf_at (s\<lparr>s_ptr := (s_ptr s)(k := None)\<rparr>) = buf_at s"
    using k by (auto simp: owners_def buf_at_def fun_eq_iff)
  then show "store_ok (s\<lparr>s_ptr := (s_ptr s)(k := None)\<rparr>)"
    "view (s\<lparr>s_ptr := (s_ptr s)(k := None)\<rparr>) = (view s)(k := None)"
    using s by (auto simp: store_ok_def view_def fun_eq_iff split: option.splits)
qed

lemma destroy_ok:
  assumes s: "reads_all s m" and k: "m k = Some d"
  obtains s' where "destroy k s = Some s'" "reads_all s' (m(k := None))"
proof -
  have ok: "store_ok s" using s by (simp add: reads_all_def)
  obtain s1 where s1: "buf_Free k s = Some s1" "store_ok s1" "view s1 = (view s)(k \<mapsto> [])" "s_ptr s1 = (s_ptr s)(k \<mapsto> None)"
    using Free_ok [OF ok, of k] reads_all_None [OF s, of k] k by force
  have "on_buf k Some (\<lambda>a b s. if m_ref b > 0 then buf_Free k s else None) s = Some s1"
  proof (cases "s_ptr s k = Some None")
    case True
    then show ?thesis using s1(1) by (simp add: on_buf_def buf_Free_def)
  next
    case False
    then obtain a where p: "s_ptr s k = Some (Some a)"
      using reads_all_None [OF s, of k] k by auto
    then obtain b where "buf_at s a = Some b" "m_ref b = int (card (owners s a))" "k \<in> owners s a"
      using store_ok_buf [OF ok p] by metis
    moreover from this have "0 < card (owners s a)" using finite_owners [OF ok] by (auto simp: card_gt_0_iff)
    ultimately show ?thesis using s1(1) p by (simp add: on_buf_def)
  qed
  then show thesis
    using that [of "s1\<lparr>s_ptr := (s_ptr s1)(k := None)\<rparr>"] drop_handle [OF s1(2), of k] s1(3,4)
      reads_upd [OF s, of "s1\<lparr>s_ptr := (s_ptr s1)(k := None)\<rparr>" k None None]
    by (simp add: destroy_def)
qed

lemma str_step_ok:
  assumes s: "reads_all s m" and v: "value_step p m = Some m'"
  shows "\<exists>s'. str_step p s = Some s' \<and> reads_all s' m'"
proof (cases p)
  case (New k)
  then show ?thesis using v str_new_ok [OF s, of k] by (auto simp: str_new_def fresh_def split: if_splits)
next
  case (Of k d)
  then have k: "m k = None" "m' = m(k \<mapsto> d)" using v by (auto simp: fresh_def split: if_splits)
  obtain s' where "Option.bind (str_Grow k (length [] + length d) (set_ptr k None s)) (poke k (length []) d) = Some s'"
      "reads_all s' ((m(k \<mapsto> []))(k \<mapsto> [] @ d))"
    using Append_ok [OF str_new_ok(1) [OF s k(1)], of k "[]" d] by auto
  then show ?thesis using Of k(2) by (simp add: str_of_def)
next
  case (CopyOf k j)
  then have k: "m k = None" "m' = m(k := m j)" "m j \<noteq> None" "k \<noteq> j" using v by (auto simp: fresh_def split: if_splits)
  note s0 = str_new_ok [OF s k(1)]
  have ok: "store_ok (set_ptr k None s)" using s0(1) by (simp add: reads_all_def)
  have live: "s_ptr (set_ptr k None s) k \<noteq> None" "s_ptr (set_ptr k None s) j \<noteq> None"
    using k reads_all_None [OF s, of j] by auto
  obtain s' where s': "buf_Copy k j (set_ptr k None s) = Some s'" "store_ok s'"
      "view s' = (view (set_ptr k None s))(k := view (set_ptr k None s) j)"
    using buf_Copy_ok [OF ok live] by metis
  have "rel_option reads (m j) (view (set_ptr k None s) j)"
    using s0(1) k(4) unfolding reads_all_def by (metis fun_upd_other)
  then show ?thesis using reads_upd [OF s0(1) s'(2,3), of "m j"] CopyOf k s'(1) by (simp add: str_copy_def)
next
  case (AssignStr k j)
  then obtain d d' where k: "m k = Some d" "m j = Some d'" "m' = m(k := m j)"
    using v by (auto simp: change_def Option.bind_eq_Some_conv)
  have ok: "store_ok s" "rel_option reads (m j) (view s j)" using s by (simp_all add: reads_all_def)
  have live: "s_ptr s k \<noteq> None" "s_ptr s j \<noteq> None" using k reads_all_None [OF s] by force+
  obtain s' where s': "buf_Copy k j s = Some s'" "store_ok s'" "view s' = (view s)(k := view s j)"
    using buf_Copy_ok [OF ok(1) live] by metis
  then show ?thesis using reads_upd [OF s s'(2,3) ok(2)] AssignStr k(3) by simp
next
  case (Assign k d)
  then obtain d0 where k: "m k = Some d0" "m' = m(k \<mapsto> cstr d)"
    using v by (auto simp: change_def Option.bind_eq_Some_conv)
  then show ?thesis using str_assign_ok [OF s k(1), of d] Assign by auto
next
  case (App k d)
  then obtain d0 where k: "m k = Some d0" "m' = m(k \<mapsto> d0 @ d)"
    using v by (auto simp: change_def Option.bind_eq_Some_conv)
  obtain c where c: "view s k = Some c" "reads d0 c" using reads_allD [OF s k(1)] by metis
  have "Length k s = Some (length d0)" using Length_reads [OF c] s by (simp add: reads_all_def)
  then show ?thesis using Append_ok [OF s k(1), of d] App k(2) by (auto simp: Append_def)
next
  case (AppC k x)
  then obtain d0 where k: "m k = Some d0" "m' = m(k \<mapsto> d0 @ [x])"
    using v by (auto simp: change_def Option.bind_eq_Some_conv)
  obtain c where c: "view s k = Some c" "reads d0 c" using reads_allD [OF s k(1)] by metis
  have "Length k s = Some (length d0)" using Length_reads [OF c] s by (simp add: reads_all_def)
  then show ?thesis using Append_ok [OF s k(1), of "[x]"] AppC k(2) by (auto simp: AppendC_def)
next
  case (Delete k)
  then obtain d where k: "m k = Some d" "m' = m(k := None)" using v by auto
  then show ?thesis using destroy_ok [OF s k(1)] Delete by auto
qed

interpretation strs: simulation str_step value_step reads_all
  by unfold_locales (rule str_step_ok)

lemma reads_all_empty: "reads_all empty_store Map.empty"
  by (simp add: reads_all_def empty_store_def store_ok_def buf_at_def view_def)

text \<open>The value of a handle.\<close>

definition str_value :: "store \<Rightarrow> nat \<Rightarrow> bytes option" where
  "str_value s k = map_option (\<lambda>c. map the (butlast c)) (view s k)"

lemma reads_all_value: "reads_all s m \<Longrightarrow> str_value s = m"
proof
  fix k assume "reads_all s m"
  then have "rel_option reads (m k) (view s k)" by (simp add: reads_all_def)
  then show "str_value s k = m k"
    by (cases "m k"; cases "view s k") (auto simp: str_value_def reads_def comp_def)
qed

lemma nothing_left: "reads_all s Map.empty \<Longrightarrow> b \<in> set (s_bufs s) \<Longrightarrow> b = None"
proof (rule ccontr)
  assume s: "reads_all s Map.empty" and b: "b \<in> set (s_bufs s)" "b \<noteq> None"
  then obtain a where "a < length (s_bufs s)" "s_bufs s ! a = b" by (auto simp: in_set_conv_nth)
  then obtain x where "buf_at s a = Some x" using b(2) by (auto simp: buf_at_def)
  then have "owners s a \<noteq> {}" using s by (auto simp: reads_all_def store_ok_def)
  then obtain k where "s_ptr s k \<noteq> None" by (auto simp: owners_def)
  then show False using reads_all_None [OF s, of k] by simp
qed

section \<open>Properties\<close>

text \<open>C7: whatever strings are made, copied, assigned, appended to and destroyed, every handle reads
  as a value of its own: sharing is not seen, no assertion fails, nothing is read after it was freed.\<close>

theorem strings_are_values:
  assumes "runs value_step ops Map.empty = Some m"
  shows "\<exists>s. runs str_step ops empty_store = Some s \<and> str_value s = m"
  using strs.runs_ok [OF reads_all_empty assms] reads_all_value by blast

lemma strings_are_values_witness:
  "\<exists>s. runs str_step [Of 0 ''ab'', CopyOf 1 0, App 1 ''c'', Assign 0 ''x''] empty_store = Some s \<and>
     str_value s = [0 \<mapsto> ''x'', 1 \<mapsto> ''abc'']"
  by (rule strings_are_values) (simp add: fresh_def change_def cstr_def fun_upd_twist)

text \<open>C22: when the last handle is destroyed every buffer has been freed.\<close>

theorem no_string_leaks:
  assumes "runs value_step ops Map.empty = Some Map.empty"
  shows "\<exists>s. runs str_step ops empty_store = Some s \<and> set (s_bufs s) \<subseteq> {None}"
  using strs.runs_ok [OF reads_all_empty assms] nothing_left by blast

lemma no_string_leaks_witness:
  "\<exists>s. runs str_step [Of 0 ''ab'', CopyOf 1 0, Delete 0, AppC 1 CHR ''c'', Delete 1] empty_store = Some s \<and>
     set (s_bufs s) \<subseteq> {None}"
  by (rule no_string_leaks) (simp add: fresh_def change_def)

lemma dropWhile_terminated: "dropWhile c_isspace (d @ [NUL]) = dropWhile c_isspace d @ [NUL]"
  by (induction d) (simp_all add: c_isspace_def uc_def)

lemma LTrim_shared:
  assumes s: "store_ok s" and v: "view s k = Some c" "reads d c" and j: "s_ptr s j = s_ptr s k"
  shows "\<exists>s'. str_LTrim k s = Some s' \<and> str_value s' j = Some (dropWhile c_isspace d)"
proof (cases "the (s_ptr s k)")
  case None
  then have "s_ptr s k = Some None" "d = []" using v by (auto simp: view_def reads_def split: option.splits)
  then show ?thesis using j by (simp add: str_LTrim_def on_buf_def str_value_def view_def)
next
  case (Some a)
  then have p: "s_ptr s k = Some (Some a)" using v by (auto simp: view_def split: option.splits)
  obtain b where b: "buf_at s a = Some b" "m_n b \<le> length (m_data b)"
    using store_ok_buf [OF s p] by metis
  note less = buf_at_less [OF b(1)]
  have c: "take (m_n b) (m_data b) = c" using view_live [OF p b(1)] v(1) by simp
  then have n: "m_n b = length c" using b(2) by auto
  show ?thesis
  proof (cases "d = []")
    case True
    then show ?thesis
      using v(2) j p b(1) c n by (auto simp: reads_def str_LTrim_def on_buf_def str_value_def view_def)
  next
    case False
    then have c': "c = map Some (d @ [NUL])" using v(2) by (simp add: reads_def)
    define r where "r = dropWhile c_isspace (d @ [NUL])"
    have r: "length r \<le> length (m_data b)" "r = dropWhile c_isspace d @ [NUL]"
      using b(2) n length_dropWhile_le [of c_isspace "d @ [NUL]"] c' by (auto simp: r_def dropWhile_terminated)
    have "map the (take (m_n b) (m_data b)) = d @ [NUL]" "None \<notin> set (take (m_n b) (m_data b))" "m_n b > 1"
      using False n unfolding c by (auto simp: c' comp_def)
    then have "str_LTrim k s = Some (set_buf a (Some (b\<lparr>m_n := length r, m_data := store_bytes (m_data b) 0 r\<rparr>)) s)"
      by (simp add: str_LTrim_def on_buf_def p b(1) r_def Let_def)
    moreover have "view (set_buf a (Some (b\<lparr>m_n := length r, m_data := store_bytes (m_data b) 0 r\<rparr>)) s) j = Some (map Some r)"
      using less r(1) j p by (simp add: view_def store_bytes_eq)
    ultimately show ?thesis by (simp add: str_value_def r(2) comp_def butlast_append flip: map_butlast)
  qed
qed

text \<open>C38: the trimming functions write into the shared buffer without taking a copy first: trimming a
  copy of a string trims the string it was copied from.\<close>

theorem trimming_is_shared:
  "\<exists>s. Option.bind (runs str_step [Of 0 d, CopyOf 1 0] empty_store) (str_LTrim 1) = Some s \<and>
     str_value s 0 = Some (dropWhile c_isspace d)"
proof -
  obtain s where s: "str_of 0 d empty_store = Some s" "reads_all s [0 \<mapsto> d]"
    using str_step_ok [OF reads_all_empty, of "Of 0 d" "[0 \<mapsto> d]"] by (auto simp: fresh_def)
  note s0 = str_new_ok [OF s(2), of 1, simplified]
  have ok: "store_ok (set_ptr 1 None s)" using s0(1) by (simp add: reads_all_def)
  have live: "s_ptr (set_ptr 1 None s) 1 \<noteq> None" "s_ptr (set_ptr 1 None s) 0 \<noteq> None"
    using reads_all_None [OF s(2), of 0] by auto
  obtain s1 where s1: "buf_Copy 1 0 (set_ptr 1 None s) = Some s1" "store_ok s1"
      "view s1 = (view (set_ptr 1 None s))(1 := view (set_ptr 1 None s) 0)" "s_ptr s1 1 = s_ptr s1 0"
    using buf_Copy_ok [OF ok live] by metis
  obtain c where c: "view (set_ptr 1 None s) 0 = Some c" "reads d c"
    using reads_allD [OF s0(1), of 0 d] by auto
  have "view s1 1 = Some c" using s1(3) c(1) by simp
  then obtain s2 where "str_LTrim 1 s1 = Some s2" "str_value s2 0 = Some (dropWhile c_isspace d)"
    using LTrim_shared [OF s1(2) _ c(2), of 1 0] s1(4) by auto
  then show ?thesis using s(1) s1(1) by (simp add: str_copy_def)
qed

lemma sized_overruns: "n > 0 \<Longrightarrow> sized k n s = None"
  by (simp add: sized_def poke_def on_buf_def)

end
