(* ===== verification/Base64.thy ===== *)
theory Base64
  imports Prelude
begin

text \<open>
  The base 64 coder of \<^verbatim>\<open>base64.cpp\<close>, with the bit operations of the source on the unsigned
  bytes. The decoder stops at the first NUL, drops the bytes that come out as zero and counts
  every character outside the alphabet, a line break too, as the digit 0.
\<close>

section \<open>Encoding\<close>

definition encode_map :: bytes where
  "encode_map = ''ABCDEFGHIJKLMNOPQRSTUVWXYZabcdefghijklmnopqrstuvwxyz0123456789+/''"

definition pm :: "nat \<Rightarrow> char" where
  "pm c = encode_map ! c"

fun base64 :: "bytes \<Rightarrow> bytes" where
  "base64 [] = []"
| "base64 [x] =
    (let c1 = drop_bit 2 (uc x); c2 = push_bit 4 (uc x) AND 0x30
     in [pm c1, pm c2, CHR ''='', CHR ''=''])"
| "base64 [x, y] =
    (let c1 = drop_bit 2 (uc x); c2 = push_bit 4 (uc x) AND 0x30;
         c1' = c2 OR (drop_bit 4 (uc y) AND 0xF); c2' = push_bit 2 (uc y) AND 0x3C
     in [pm c1, pm c1', pm c2', CHR ''=''])"
| "base64 (x # y # z # r) =
    (let c1 = drop_bit 2 (uc x); c2 = push_bit 4 (uc x) AND 0x30;
         c1' = c2 OR (drop_bit 4 (uc y) AND 0xF); c2' = push_bit 2 (uc y) AND 0x3C
     in [pm c1, pm c1', pm (c2' OR (drop_bit 6 (uc z) AND 3)), pm (uc z AND 0x3F)] @ base64 r)"

text \<open>\<^verbatim>\<open>mime64\<close>: the size it allocates and the lines it writes.\<close>

definition mime64_size :: "nat \<Rightarrow> nat" where
  "mime64_size len = 4 * ((len - len mod 3) div 3 + (if len mod 3 \<noteq> 0 then 1 else 0)) + 2 * (1 + len div 48) + 1 + 2"

definition CRLF :: bytes where
  "CRLF = [CHR 0x0D, NL]"

function mime64_lines :: "bytes \<Rightarrow> bytes" where
  "mime64_lines s =
    (if length s > 48 then base64 (take 48 s) @ CRLF @ mime64_lines (drop 48 s)
     else if length s > 0 then base64 s @ CRLF
     else [])"
  by pat_completeness auto
termination
  by (relation "measure length") auto

declare mime64_lines.simps [simp del]

text \<open>A length of 0 asks for the length of the string.\<close>

definition mime64 :: "bytes \<Rightarrow> nat \<Rightarrow> bytes" where
  "mime64 str len = (let n = (if len = 0 then length (cstr str) else len) in mime64_lines (take n str))"

section \<open>Decoding\<close>

definition decode_map :: "char \<Rightarrow> nat" where
  "decode_map c =
    (case find (\<lambda>i. encode_map ! i = c) [0..<64] of Some i \<Rightarrow> i | None \<Rightarrow> 0)"

definition emit :: "nat \<Rightarrow> bytes" where
  "emit v =
    (if v AND 0xFF0000 \<noteq> 0 then [char_of (drop_bit 16 (v AND 0xFF0000))] else []) @
    (if v AND 0xFF00 \<noteq> 0 then [char_of (drop_bit 8 (v AND 0xFF00))] else []) @
    (if v AND 0xFF \<noteq> 0 then [char_of (v AND 0xFF)] else [])"

text \<open>A byte from 0x80 on is a negative index into the table.\<close>

fun decode_loop :: "nat \<Rightarrow> nat \<Rightarrow> bytes \<Rightarrow> bytes option" where
  "decode_loop v j [] = Some []"
| "decode_loop v j (c # cs) =
    (if sc c < 0 then None
     else let v' = v + push_bit ((3 - j) * 6) (decode_map c)
          in if j + 1 = 4 then map_option ((@) (emit v')) (decode_loop 0 0 cs)
             else decode_loop v' (j + 1) cs)"

definition base64_decode :: "bytes \<Rightarrow> bytes option" where
  "base64_decode str = decode_loop 0 0 (cstr str)"

section \<open>Digits\<close>

lemma and_shifted_mask: "(v :: nat) AND push_bit k (mask n) = push_bit k (take_bit n (drop_bit k v))"
  by (rule bit_eqI) (auto simp: bit_simps)

lemma mask_30: "(v :: nat) AND 0x30 = v div 16 mod 4 * 16"
  using and_shifted_mask [of v 4 2]
  by (simp add: mask_eq_exp_minus_1 push_bit_eq_mult take_bit_eq_mod drop_bit_eq_div)

lemma mask_0F: "(v :: nat) AND 0xF = v mod 16"
  using and_shifted_mask [of v 0 4]
  by (simp add: mask_eq_exp_minus_1 push_bit_eq_mult take_bit_eq_mod drop_bit_eq_div)

lemma mask_3C: "(v :: nat) AND 0x3C = v div 4 mod 16 * 4"
  using and_shifted_mask [of v 2 4]
  by (simp add: mask_eq_exp_minus_1 push_bit_eq_mult take_bit_eq_mod drop_bit_eq_div)

lemma mask_03: "(v :: nat) AND 3 = v mod 4"
  using and_shifted_mask [of v 0 2]
  by (simp add: mask_eq_exp_minus_1 push_bit_eq_mult take_bit_eq_mod drop_bit_eq_div)

lemma mask_3F: "(v :: nat) AND 0x3F = v mod 64"
  using and_shifted_mask [of v 0 6]
  by (simp add: mask_eq_exp_minus_1 push_bit_eq_mult take_bit_eq_mod drop_bit_eq_div)

lemma mask_FF0000: "(v :: nat) AND 0xFF0000 = v div 65536 mod 256 * 65536"
  using and_shifted_mask [of v 16 8]
  by (simp add: mask_eq_exp_minus_1 push_bit_eq_mult take_bit_eq_mod drop_bit_eq_div)

lemma mask_FF00: "(v :: nat) AND 0xFF00 = v div 256 mod 256 * 256"
  using and_shifted_mask [of v 8 8]
  by (simp add: mask_eq_exp_minus_1 push_bit_eq_mult take_bit_eq_mod drop_bit_eq_div)

lemma mask_FF: "(v :: nat) AND 0xFF = v mod 256"
  using and_shifted_mask [of v 0 8]
  by (simp add: mask_eq_exp_minus_1 push_bit_eq_mult take_bit_eq_mod drop_bit_eq_div)

lemmas masks = mask_30 mask_0F mask_3C mask_03 mask_3F mask_FF0000 mask_FF00 mask_FF

lemma or_low: "y < 2 ^ k \<Longrightarrow> (x * 2 ^ k) OR y = x * 2 ^ k + (y :: nat)"
proof -
  assume "y < 2 ^ k"
  then have "take_bit k y = y" by (simp add: take_bit_eq_mod)
  moreover have "push_bit k x AND take_bit k y = 0"
    by (rule bit_eqI) (auto simp: bit_simps)
  ultimately have "push_bit k x AND y = 0" by simp
  then show ?thesis by (simp add: push_bit_eq_mult disjunctive_add_eq_or [symmetric])
qed

lemma find_index: "distinct xs \<Longrightarrow> i < length xs \<Longrightarrow> find (\<lambda>j. xs ! j = xs ! i) [0..<length xs] = Some i"
  by (subst find_unique) (auto simp: nth_eq_iff_index_eq)

lemma encode_map_facts: "distinct encode_map" "length encode_map = 64" "list_all (\<lambda>c. \<not> sc c < 0 \<and> c \<noteq> NUL) encode_map"
  "CHR ''='' \<notin> set encode_map" "CHR 0x0D \<notin> set encode_map" "NL \<notin> set encode_map"
  by (simp_all add: encode_map_def sc_def uc_def)

lemma decode_pm: "i < 64 \<Longrightarrow> decode_map (pm i) = i \<and> \<not> sc (pm i) < 0 \<and> pm i \<noteq> NUL"
  using find_index [OF encode_map_facts(1), of i] encode_map_facts(2,3)
  by (auto simp: decode_map_def pm_def list_all_length)

lemma digits_value:
  fixes a b c :: nat
  assumes "a < 256" "b < 256" "c < 256"
  shows "a div 4 * 2 ^ 18 + (a mod 4 * 16 + b div 16) * 2 ^ 12 + (b mod 16 * 4 + c div 64) * 2 ^ 6 + c mod 64
    = a * 65536 + b * 256 + c"
proof -
  have *: "a = a div 4 * 4 + a mod 4" "b = b div 16 * 16 + b mod 16" "c = c div 64 * 64 + c mod 64"
    by (simp_all add: div_mult_mod_eq)
  show ?thesis by (simp, insert *, linarith)
qed

lemma emit_value:
  assumes "a < 256" "b < 256" "c < 256"
  shows "emit (a * 65536 + b * 256 + c) = filter (\<lambda>x. x \<noteq> NUL) [char_of a, char_of b, char_of c]"
proof -
  have "(a * 65536 + b * 256 + c) div 65536 = a" "(a * 65536 + b * 256 + c) div 256 = a * 256 + b"
    using assms by (auto intro!: div_nat_eqI)
  then have "(a * 65536 + b * 256 + c) div 65536 mod 256 = a" "(a * 65536 + b * 256 + c) div 256 mod 256 = b"
    "(a * 65536 + b * 256 + c) mod 256 = c"
    using assms by (simp_all add: mod_add_eq [symmetric] flip: mult.assoc)
  moreover have "char_of n = NUL \<longleftrightarrow> n = 0" if "n < 256" for n :: nat
    using that uc_inject [of "char_of n" NUL] by (simp add: uc_def)
  ultimately show ?thesis
    using assms by (auto simp: emit_def masks drop_bit_eq_div)
qed

lemma decode_other: "c \<notin> set encode_map \<Longrightarrow> decode_map c = 0"
proof -
  assume "c \<notin> set encode_map"
  then have "find (\<lambda>i. encode_map ! i = c) [0..<64] = None"
    using encode_map_facts(2) nth_mem [of _ encode_map] by (fastforce simp: find_None_iff)
  then show ?thesis by (simp add: decode_map_def)
qed

lemma decode_four:
  assumes "\<not> sc x1 < 0" "\<not> sc x2 < 0" "\<not> sc x3 < 0" "\<not> sc x4 < 0"
    "decode_map x1 * 2 ^ 18 + decode_map x2 * 2 ^ 12 + decode_map x3 * 2 ^ 6 + decode_map x4 = v"
  shows "decode_loop 0 0 (x1 # x2 # x3 # x4 # r) = map_option ((@) (emit v)) (decode_loop 0 0 r)"
  using assms by (simp add: push_bit_eq_mult)

lemma pad_digit: "decode_map (CHR ''='') = 0" "\<not> sc (CHR ''='') < 0"
  by (simp_all add: decode_other encode_map_facts sc_def uc_def)

lemma group_digits:
  "drop_bit 2 (uc x) = uc x div 4" "push_bit 4 (uc x) AND 0x30 = uc x mod 4 * 16"
  "(push_bit 4 (uc x) AND 0x30) OR (drop_bit 4 (uc y) AND 0xF) = uc x mod 4 * 16 + uc y div 16"
  "push_bit 2 (uc y) AND 0x3C = uc y mod 16 * 4"
  "(push_bit 2 (uc y) AND 0x3C) OR (drop_bit 6 (uc z) AND 3) = uc y mod 16 * 4 + uc z div 64"
proof -
  have y: "uc y div 16 mod 16 = uc y div 16" and z: "uc z div 64 mod 4 = uc z div 64"
    using uc_less [of y] uc_less [of z] by (simp_all add: less_mult_imp_div_less)
  show "drop_bit 2 (uc x) = uc x div 4" "push_bit 4 (uc x) AND 0x30 = uc x mod 4 * 16"
    "push_bit 2 (uc y) AND 0x3C = uc y mod 16 * 4"
    by (simp_all add: masks push_bit_eq_mult drop_bit_eq_div)
  show "(push_bit 4 (uc x) AND 0x30) OR (drop_bit 4 (uc y) AND 0xF) = uc x mod 4 * 16 + uc y div 16"
    using or_low [of "uc y div 16" 4 "uc x mod 4"] uc_less [of y]
    by (simp add: masks push_bit_eq_mult drop_bit_eq_div y less_mult_imp_div_less)
  show "(push_bit 2 (uc y) AND 0x3C) OR (drop_bit 6 (uc z) AND 3) = uc y mod 16 * 4 + uc z div 64"
    using or_low [of "uc z div 64" 2 "uc y mod 16"] uc_less [of z]
    by (simp add: masks push_bit_eq_mult drop_bit_eq_div z less_mult_imp_div_less)
qed

lemma group_digits_less:
  "uc x div 4 < 64" "uc x mod 4 * 16 < 64" "uc x mod 4 * 16 + uc y div 16 < 64" "uc y mod 16 * 4 < 64"
  "uc y mod 16 * 4 + uc z div 64 < 64" "uc z mod 64 < 64"
proof -
  have "uc y div 16 < 16" "uc z div 64 < 4" "uc x div 4 < 64"
    using uc_less [of x] uc_less [of y] uc_less [of z] by (simp_all add: less_mult_imp_div_less)
  moreover have "uc x mod 4 < 4" "uc y mod 16 < 16" "uc z mod 64 < 64" by simp_all
  ultimately show "uc x div 4 < 64" "uc x mod 4 * 16 < 64" "uc x mod 4 * 16 + uc y div 16 < 64" "uc y mod 16 * 4 < 64"
    "uc y mod 16 * 4 + uc z div 64 < 64" "uc z mod 64 < 64"
    by linarith+
qed

lemmas group_pm = group_digits_less [THEN decode_pm]

lemma base64_arith:
  "base64 [] = []"
  "base64 [x] = [pm (uc x div 4), pm (uc x mod 4 * 16), CHR ''='', CHR ''='']"
  "base64 [x, y] = [pm (uc x div 4), pm (uc x mod 4 * 16 + uc y div 16), pm (uc y mod 16 * 4), CHR ''='']"
  "base64 (x # y # z # r) = [pm (uc x div 4), pm (uc x mod 4 * 16 + uc y div 16),
     pm (uc y mod 16 * 4 + uc z div 64), pm (uc z mod 64)] @ base64 r"
  unfolding base64.simps Let_def unfolding group_digits(3,5) unfolding group_digits(1,2,4) mask_3F by simp_all

declare base64.simps [simp del]

lemma base64_no_NUL: "NUL \<notin> set (base64 s)"
  by (induction s rule: base64.induct)
    (simp_all add: base64_arith group_pm [THEN conjunct2, THEN conjunct2, symmetric])

lemma length_base64: "length (base64 s) = 4 * ((length s + 2) div 3)"
proof (induction s rule: base64.induct)
  case (4 x y z r)
  have "(5 + n) div 3 = Suc (Suc (Suc n) div 3)" for n :: nat by presburger
  then show ?case using 4 by (simp add: base64_arith)
qed (simp_all add: base64_arith)

lemma groups_of_three: "(n - n mod 3) div 3 + (if n mod 3 \<noteq> 0 then 1 else 0) = (n + 2) div (3 :: nat)"
proof -
  have "(3 * q + r - (3 * q + r) mod 3) div 3 + (if (3 * q + r) mod 3 \<noteq> 0 then 1 else 0) = (3 * q + r + 2) div (3 :: nat)"
    if "r < 3" for q r
    using that by (cases "r = 0"; cases "r = 1"; cases "r = 2") (auto simp: div_add1_eq)
  from this [of "n mod 3" "n div 3"] show ?thesis by (simp add: mult_div_mod_eq)
qed

lemma append_functions: "(@) [] = (\<lambda>a. a)" "(@) [x] = (#) x" "(@) [x, y] = (\<lambda>a. x # y # a)"
  by auto

lemma char_of_0: "char_of (0 :: nat) = NUL"
  by (simp add: char_of_def)

lemma decode_base64:
  "decode_loop 0 0 (base64 s @ r) = map_option ((@) (filter (\<lambda>c. c \<noteq> NUL) s)) (decode_loop 0 0 r)"
proof (induction s rule: base64.induct)
  case (2 x)
  have "decode_loop 0 0 (base64 [x] @ r) = map_option ((@) (emit (uc x * 65536 + 0 * 256 + 0))) (decode_loop 0 0 r)"
    unfolding base64_arith append_Cons append_Nil
    by (rule decode_four; simp only: group_pm pad_digit not_False_eq_True)
      (use digits_value [of "uc x" 0 0] in simp)
  then show ?case using emit_value [of "uc x" 0 0] by (simp add: char_of_0 append_functions)
next
  case (3 x y)
  have "decode_loop 0 0 (base64 [x, y] @ r) = map_option ((@) (emit (uc x * 65536 + uc y * 256 + 0))) (decode_loop 0 0 r)"
    unfolding base64_arith append_Cons append_Nil
    by (rule decode_four; simp only: group_pm pad_digit not_False_eq_True)
      (use digits_value [of "uc x" "uc y" 0] in simp)
  then show ?case using emit_value [of "uc x" "uc y" 0] by (simp add: char_of_0 append_functions)
next
  case (4 x y z s)
  have "decode_loop 0 0 (base64 (x # y # z # s) @ r)
      = map_option ((@) (emit (uc x * 65536 + uc y * 256 + uc z))) (decode_loop 0 0 (base64 s @ r))"
    unfolding base64_arith append_Cons append_Nil
    by (rule decode_four; simp only: group_pm not_False_eq_True digits_value uc_less)
  then show ?case using emit_value [of "uc x" "uc y" "uc z"] 4 by (simp add: option.map_comp comp_def)
qed (simp add: base64_arith append_functions option.map_ident)

lemma length_mime64_lines: "length (mime64_lines s) = 4 * ((length s + 2) div 3) + 2 * ((length s + 47) div 48)"
proof (induction s rule: mime64_lines.induct)
  case (1 s)
  show ?case
  proof (cases "length s > 48")
    case True
    define k where "k = length (drop 48 s)"
    have n: "length s = 48 + k" using True by (simp add: k_def)
    have "(48 + k + 2) div 3 = 16 + (k + 2) div 3" "(48 + k + 47) div 48 = 1 + (k + 47) div 48"
      by (simp_all add: add.assoc)
    moreover have "length (mime64_lines s) = 4 * 16 + 2 + (4 * ((k + 2) div 3) + 2 * ((k + 47) div 48))"
      using 1 [OF True] n unfolding mime64_lines.simps [of s] k_def [symmetric] by (simp add: length_base64 CRLF_def)
    ultimately show ?thesis unfolding n by linarith
  next
    case False
    have "(length s + 47) div 48 = 1" if "s \<noteq> []"
      using False that by (intro div_nat_eqI) (auto simp: Suc_le_eq)
    then show ?thesis using False by (cases "s = []") (simp_all add: mime64_lines.simps [of s] mime64_lines.simps [of "[]"] length_base64 CRLF_def)
  qed
qed

lemma decode_CRLF: "decode_loop 0 0 CRLF = Some []"
  by (simp add: CRLF_def decode_other encode_map_facts sc_def uc_def)

section \<open>Properties\<close>

text \<open>C32: what the encoder writes is decoded to the bytes encoded, but for those that are zero, which the
  decoder drops.\<close>

theorem base64_round_trip: "base64_decode (base64 s) = Some (filter (\<lambda>c. c \<noteq> NUL) s)"
  using decode_base64 [of s "[]"] by (simp add: base64_decode_def cstr_id base64_no_NUL)

text \<open>The lines of \<^verbatim>\<open>mime64\<close> and their terminator fit into the memory it allocates.\<close>

theorem mime64_fits:
  assumes "len \<le> length str"
  shows "length (mime64 str len) + 1 \<le> mime64_size (if len = 0 then length (cstr str) else len)"
proof -
  define n where "n = (if len = 0 then length (cstr str) else len)"
  have "length (take n str) = n" using assms length_cstr_le [of str] by (simp add: n_def)
  moreover have "(n + 47) div 48 \<le> 1 + n div 48" by (simp add: div_le_mono flip: div_add_self2)
  ultimately show ?thesis
    unfolding mime64_def Let_def n_def [symmetric] mime64_size_def groups_of_three length_mime64_lines by simp
qed

lemma mime64_fits_witness: "length (mime64 (replicate 48 CHR ''x'') 48) + 1 \<le> mime64_size 48"
  using mime64_fits [of 48 "replicate 48 CHR ''x''"] by simp

text \<open>of one line the decoder gives the text back. Of a second line it does not: the line break
  counts as two digits.\<close>

theorem mime64_one_line:
  "(0 < length s \<and> length s \<le> 48 \<longrightarrow> base64_decode (mime64 s (length s)) = Some (filter (\<lambda>c. c \<noteq> NUL) s)) \<and>
   base64_decode (mime64 (replicate 49 CHR ''A'') 49) \<noteq> Some (replicate 49 CHR ''A'')"
proof
  have "base64_decode (mime64 s (length s)) = Some (filter (\<lambda>c. c \<noteq> NUL) s)" if "0 < length s" "length s \<le> 48"
    using that decode_base64 [of s CRLF] decode_CRLF
    by (simp add: mime64_def mime64_lines.simps base64_decode_def cstr_id base64_no_NUL CRLF_def)
  then show "0 < length s \<and> length s \<le> 48 \<longrightarrow> base64_decode (mime64 s (length s)) = Some (filter (\<lambda>c. c \<noteq> NUL) s)"
    by blast
next
  have tail: "decode_loop 0 0 (CRLF @ base64 [CHR ''A''] @ CRLF) = Some [CHR 0x04, CHR 0x10]"
    using decode_pm [of 16]
    by (simp add: CRLF_def base64_arith pad_digit decode_other encode_map_facts push_bit_eq_mult emit_def masks
      drop_bit_eq_div sc_def uc_def char_of_def bit_iff_odd)
  have "mime64 (replicate 49 CHR ''A'') 49 = base64 (replicate 48 CHR ''A'') @ CRLF @ base64 [CHR ''A''] @ CRLF"
    by (simp add: mime64_def mime64_lines.simps)
  then have "base64_decode (mime64 (replicate 49 CHR ''A'') 49) = Some (replicate 48 CHR ''A'' @ [CHR 0x04, CHR 0x10])"
    using decode_base64 [of "replicate 48 CHR ''A''"] tail
    by (simp add: base64_decode_def cstr_id base64_no_NUL CRLF_def)
  then show "base64_decode (mime64 (replicate 49 CHR ''A'') 49) \<noteq> Some (replicate 49 CHR ''A'')"
    by (simp add: numeral_eq_Suc)
qed

lemma mime64_one_line_witness: "base64_decode (mime64 ''AB'' 2) = Some ''AB''"
  using mime64_one_line [of "''AB''"] by (simp add: numeral_2_eq_2)

end
