(* ===== verification/Card.thy ===== *)
theory Card
  imports World
begin

text \<open>
  The check of payment card numbers of \<^verbatim>\<open>card.cpp\<close>: the table of prefixes with its binary search,
  the checksum over the digits from the right, and the two macros.
\<close>

section \<open>Tables\<close>

datatype cc_type =
    cc_unknown | cc_enroute | cc_diners | cc_amex | cc_visa | cc_mc | cc_discover | cc_jcb
  | cc_switch | cc_bankcard

definition CC_PREFIX :: "bytes list" where
  "CC_PREFIX = [''1800'', ''2014'', ''2131'', ''2149'', ''300'', ''301'', ''302'', ''303'', ''304'', ''305'', ''34'',
     ''36'', ''37'', ''38'', ''4'', ''51'', ''52'', ''53'', ''54'', ''55'', ''56'', ''6011'']"

definition CC_MAP :: "cc_type list" where
  "CC_MAP = [cc_jcb, cc_enroute, cc_jcb, cc_enroute, cc_diners, cc_diners, cc_diners, cc_diners, cc_diners,
     cc_diners, cc_amex, cc_diners, cc_amex, cc_diners, cc_visa, cc_mc, cc_mc, cc_mc, cc_mc, cc_mc,
     cc_bankcard, cc_discover]"

text \<open>\<^verbatim>\<open>CC_NAMES\<close>, indexed by the type in \<^verbatim>\<open>GetCardName\<close>.\<close>

fun GetCardName :: "cc_type \<Rightarrow> bytes" where
  "GetCardName cc_unknown = ''unknown''"
| "GetCardName cc_enroute = ''enroute''"
| "GetCardName cc_diners = ''diners''"
| "GetCardName cc_amex = ''amex''"
| "GetCardName cc_visa = ''visa''"
| "GetCardName cc_mc = ''mc''"
| "GetCardName cc_discover = ''discover''"
| "GetCardName cc_jcb = ''jcb''"
| "GetCardName cc_switch = ''switch''"
| "GetCardName cc_bankcard = ''bankcard''"

section \<open>The checksum\<close>

definition digit_term :: "bool \<Rightarrow> char \<Rightarrow> int" where
  "digit_term flag c =
    (let n = sc c - 48 in
     if flag then (let n = n * 2 in if n \<ge> 10 then n - 9 else n) else n)"

text \<open>The loop from the last character to the first.\<close>

fun checksum_loop :: "bool \<Rightarrow> bytes \<Rightarrow> int \<Rightarrow> int" where
  "checksum_loop flag [] acc = acc"
| "checksum_loop flag (c # cs) acc = checksum_loop (\<not> flag) cs (acc + digit_term flag c)"

definition ConfirmChecksum :: "bytes \<Rightarrow> bool" where
  "ConfirmChecksum CardNumber = (c_rem (checksum_loop False (rev CardNumber) 0) 10 = 0)"

section \<open>The type of a card\<close>

definition ShiftMask :: "nat \<Rightarrow> int" where
  "ShiftMask n = push_bit (n - 12) 1"

fun GetMask :: "cc_type \<Rightarrow> int" where
  "GetMask cc_mc = ShiftMask 16"
| "GetMask cc_visa = ShiftMask 13 OR ShiftMask 16"
| "GetMask cc_amex = ShiftMask 15"
| "GetMask cc_diners = ShiftMask 14"
| "GetMask cc_discover = ShiftMask 16"
| "GetMask cc_jcb = ShiftMask 16 OR ShiftMask 15"
| "GetMask cc_switch = ShiftMask 16 OR ShiftMask 18 OR ShiftMask 19"
| "GetMask cc_bankcard = ShiftMask 16"
| "GetMask _ = ShiftMask 13 OR ShiftMask 14 OR ShiftMask 15 OR ShiftMask 16"

text \<open>One step of the search compares a prefix with the number: 0 when it is one, otherwise on which
  side of the prefix the number is. The number ends with a NUL.\<close>

fun compare_prefix :: "bytes \<Rightarrow> bytes \<Rightarrow> int" where
  "compare_prefix [] p = 0"
| "compare_prefix (x # p2) [] = (if 0 > sc x then 1 else - 1)"
| "compare_prefix (x # p2) (y # p) =
    (if x = y then compare_prefix p2 p else if sc y > sc x then 1 else - 1)"

function search :: "bytes \<Rightarrow> int \<Rightarrow> int \<Rightarrow> cc_type option" where
  "search b l h =
    (if h \<ge> l then
       (let m = (h + l) div 2; c = compare_prefix (CC_PREFIX ! nat m) b
        in if c = 0 then Some (CC_MAP ! nat m)
           else if c > 0 then search b (m + 1) h
           else search b l (m - 1))
     else None)"
  by pat_completeness auto
termination
  by (relation "measure (\<lambda>(b, l, h). nat (h - l + 1))") auto

declare search.simps [simp del]

definition GetCardType :: "bytes \<Rightarrow> nat \<Rightarrow> cc_type" where
  "GetCardType b len =
    (case search b 0 21 of
       Some t \<Rightarrow> t
     | None \<Rightarrow>
         if len = 16 \<and> take 1 b = ''3'' then cc_jcb
         else if len = 18 \<or> len = 19 then cc_switch
         else cc_unknown)"

section \<open>The check\<close>

definition CleanCard :: "bytes \<Rightarrow> bytes option" where
  "CleanCard n =
    Option.bind (ReplaceStr n ''-'' []) (\<lambda>n. Option.bind (ReplaceStr n '' '' []) (\<lambda>n. ReplaceStr n ''.'' []))"

text \<open>The digits are those before the first NUL, the checksum is over the whole string.\<close>

definition VerifyCard :: "bytes \<Rightarrow> bytes option" where
  "VerifyCard CardNumber = map_option (\<lambda>n.
    if n = [] then []
    else if \<not> list_all c_isdigit (cstr n) then []
    else let l = length (cstr n) in
      if l > 28 then []
      else let t = GetCardType (cstr n) l; mask = GetMask t in
        if l < 12 \<or> \<not> (ShiftMask l \<noteq> 0 \<and> mask \<noteq> 0) then []
        else if t \<noteq> cc_enroute \<and> \<not> ConfirmChecksum n then []
        else GetCardName t) (CleanCard CardNumber)"

text \<open>The replacement of the separators always returns, \<^const>\<open>NoFuel\<close> stands for one that did not.\<close>

definition EvalVerifyCard :: "ostream \<Rightarrow> qargs \<Rightarrow> unit run" where
  "EvalVerifyCard out args = (case VerifyCard (GetAt args 0) of Some r \<Rightarrow> PutS out r | None \<Rightarrow> fail NoFuel)"

definition EvalCardPrefix :: "ostream \<Rightarrow> qargs \<Rightarrow> unit run" where
  "EvalCardPrefix out args =
    (case CleanCard (GetAt args 0) of
       Some tmp \<Rightarrow> PutSn out tmp (min (int (length tmp)) (ParseInt (GetAt args 1)))
     | None \<Rightarrow> fail NoFuel)"

section \<open>The checksum finds single errors\<close>

lemma checksum_loop_append:
  "checksum_loop f (xs @ ys) acc = checksum_loop (f \<noteq> odd (length xs)) ys (checksum_loop f xs acc)"
proof (induction xs arbitrary: f acc)
  case (Cons x xs)
  then show ?case by (cases f; cases "odd (length xs)") simp_all
qed simp

lemma checksum_loop_acc: "checksum_loop f xs acc = acc + checksum_loop f xs 0"
proof (induction xs arbitrary: f acc)
  case (Cons x xs)
  show ?case using Cons.IH [of "\<not> f" "acc + digit_term f x"] Cons.IH [of "\<not> f" "digit_term f x"] by simp
qed simp

lemma c_rem_0: "0 \<le> a \<Longrightarrow> c_rem a 10 = a mod 10"
  by (cases "a = 0") (auto simp: c_rem_def c_quot_def minus_mult_div_eq_mod)

lemma digit_sc: "c_isdigit c \<Longrightarrow> \<exists>d. d \<in> {0..9} \<and> sc c = 48 + d"
  by (intro exI [of _ "sc c - 48"]) (auto simp: c_isdigit_def sc_def)

lemma digit_term_range: "c_isdigit c \<Longrightarrow> 0 \<le> digit_term f c \<and> digit_term f c \<le> 9"
  using digit_sc [of c] by (auto simp: digit_term_def Let_def)

lemma digit_term_inj:
  assumes "c_isdigit c" "c_isdigit d" "digit_term f c = digit_term f d"
  shows "c = d"
proof -
  have "sc c = sc d"
    using assms digit_sc [of c] digit_sc [of d] by (auto simp: digit_term_def Let_def split: if_splits) presburger+
  then show ?thesis
    using assms(1,2) by (auto simp: sc_def c_isdigit_def uc_inject split: if_splits)
qed

lemma checksum_loop_nonneg: "list_all c_isdigit xs \<Longrightarrow> 0 \<le> acc \<Longrightarrow> 0 \<le> checksum_loop f xs acc"
  using digit_term_range by (induction xs arbitrary: f acc) fastforce+

lemma ConfirmChecksum_parts:
  assumes "list_all c_isdigit (xs @ zs @ ys)"
  shows "ConfirmChecksum (xs @ zs @ ys) \<longleftrightarrow>
    (checksum_loop False (rev ys) 0 + checksum_loop (odd (length ys)) (rev zs) 0
      + checksum_loop (odd (length ys) \<noteq> odd (length zs)) (rev xs) 0) mod 10 = 0"
proof -
  have "0 \<le> checksum_loop False (rev (xs @ zs @ ys)) 0"
    using assms by (intro checksum_loop_nonneg) auto
  then have "ConfirmChecksum (xs @ zs @ ys) \<longleftrightarrow> checksum_loop False (rev (xs @ zs @ ys)) 0 mod 10 = 0"
    by (simp add: ConfirmChecksum_def c_rem_0)
  also have "checksum_loop False (rev (xs @ zs @ ys)) 0 = checksum_loop False (rev ys) 0 + checksum_loop (odd (length ys)) (rev zs) 0
      + checksum_loop (odd (length ys) \<noteq> odd (length zs)) (rev xs) 0"
    using checksum_loop_acc [of "odd (length ys) \<noteq> odd (length zs)" "rev xs"
        "checksum_loop (odd (length ys)) (rev zs) (checksum_loop False (rev ys) 0)"]
      checksum_loop_acc [of "odd (length ys)" "rev zs" "checksum_loop False (rev ys) 0"]
    by (simp only: rev_append append_assoc checksum_loop_append length_rev not_False_eq_True simp_thms)
  finally show ?thesis .
qed

lemma same_residue:
  fixes t u :: int
  assumes "(a + t + b) mod 10 = 0" "(a + u + b) mod 10 = 0" "0 \<le> t \<and> t \<le> 9" "0 \<le> u \<and> u \<le> 9"
  shows "t = u"
proof -
  have "10 dvd (a + t + b) - (a + u + b)"
    using assms(1,2) by (intro dvd_diff) auto
  then obtain k where "t - u = 10 * k" by (auto elim: dvdE)
  moreover from this have "k = 0" using assms(3,4) by presburger
  ultimately show ?thesis by simp
qed

lemma ConfirmChecksum_digit:
  assumes "list_all c_isdigit (xs @ ys)" "c_isdigit d"
  shows "ConfirmChecksum (xs @ [d] @ ys) \<longleftrightarrow>
    (checksum_loop False (rev ys) 0 + digit_term (odd (length ys)) d + checksum_loop (odd (length ys) \<noteq> True) (rev xs) 0) mod 10 = 0"
  using ConfirmChecksum_parts [of xs "[d]" ys] assms by simp

text \<open>A number and the number with another digit in one place do not both pass the checksum.\<close>

theorem checksum_finds_digit:
  assumes "list_all c_isdigit (xs @ [d] @ ys)" "c_isdigit e" "d \<noteq> e"
    and "ConfirmChecksum (xs @ [d] @ ys)"
  shows "\<not> ConfirmChecksum (xs @ [e] @ ys)"
proof
  assume e: "ConfirmChecksum (xs @ [e] @ ys)"
  have "digit_term (odd (length ys)) d = digit_term (odd (length ys)) e"
    by (rule same_residue [OF iffD1 [OF ConfirmChecksum_digit assms(4)] iffD1 [OF ConfirmChecksum_digit e]])
      (use assms(1,2) digit_term_range in auto)
  then show False using digit_term_inj assms by auto
qed

lemma checksum_finds_digit_witness: "\<not> ConfirmChecksum (''411111111111111'' @ [CHR ''2''] @ [])"
proof (rule checksum_finds_digit)
  show "ConfirmChecksum (''411111111111111'' @ [CHR ''1''] @ [])"
    by (simp add: ConfirmChecksum_def digit_term_def sc_def uc_def c_rem_def c_quot_def)
qed (simp_all add: c_isdigit_def uc_def)

section \<open>The search finds the prefix\<close>

fun below :: "bytes \<Rightarrow> bytes \<Rightarrow> bool" where
  "below (x # a) (y # b) = (if x = y then below a b else sc x < sc y)"
| "below _ _ = False"

lemma compare_prefix_0: "compare_prefix p s = 0 \<longleftrightarrow> prefix p s"
  by (induction p s rule: compare_prefix.induct) auto

lemma compare_prefix_cases: "compare_prefix p s = 0 \<or> compare_prefix p s = 1 \<or> compare_prefix p s = - 1"
  by (induction p s rule: compare_prefix.induct) auto

lemma compare_below:
  assumes "below a b" "\<forall>c \<in> set b. 0 < sc c"
  shows "compare_prefix b s \<ge> 0 \<Longrightarrow> compare_prefix a s = 1" "compare_prefix a s \<le> 0 \<Longrightarrow> compare_prefix b s = - 1"
proof -
  have "(compare_prefix b s \<ge> 0 \<longrightarrow> compare_prefix a s = 1) \<and> (compare_prefix a s \<le> 0 \<longrightarrow> compare_prefix b s = - 1)"
    using assms
  proof (induction a b arbitrary: s rule: below.induct)
    case (1 x a y b)
    show ?case
    proof (cases s)
      case Nil
      then show ?thesis using 1 by (auto split: if_splits)
    next
      case (Cons z r)
      show ?thesis
      proof (cases "x = y")
        case True
        then show ?thesis using 1(1) [of r] 1(2,3) Cons by simp
      next
        case False
        then have "sc x < sc y" using 1(2) by simp
        then show ?thesis using False Cons by (cases "x = z"; cases "y = z") auto
      qed
    qed
  qed simp_all
  then show "compare_prefix b s \<ge> 0 \<Longrightarrow> compare_prefix a s = 1" "compare_prefix a s \<le> 0 \<Longrightarrow> compare_prefix b s = - 1"
    by simp_all
qed

lemma CC_PREFIX_sorted: "sorted_wrt below CC_PREFIX"
  by (simp add: CC_PREFIX_def sc_def uc_def)

lemma CC_PREFIX_positive: "list_all (list_all (\<lambda>c. 0 < sc c)) CC_PREFIX"
  by (simp add: CC_PREFIX_def sc_def uc_def)

lemma length_CC_PREFIX: "length CC_PREFIX = 22"
  by (simp add: CC_PREFIX_def)

abbreviation side :: "bytes \<Rightarrow> nat \<Rightarrow> int" where
  "side b i \<equiv> compare_prefix (CC_PREFIX ! i) b"

lemma side_order:
  assumes "i < j" "j < 22"
  shows "side b j \<ge> 0 \<Longrightarrow> side b i = 1" "side b i \<le> 0 \<Longrightarrow> side b j = - 1"
proof -
  have "below (CC_PREFIX ! i) (CC_PREFIX ! j)" "\<forall>c \<in> set (CC_PREFIX ! j). 0 < sc c"
    using assms sorted_wrt_nth_less [OF CC_PREFIX_sorted] CC_PREFIX_positive
    by (auto simp: length_CC_PREFIX list_all_length simp flip: list_all_iff)
  then show "side b j \<ge> 0 \<Longrightarrow> side b i = 1" "side b i \<le> 0 \<Longrightarrow> side b j = - 1"
    by (simp_all add: compare_below)
qed

definition lookup :: "bytes \<Rightarrow> cc_type option" where
  "lookup b = map_option ((!) CC_MAP) (find (\<lambda>i. prefix (CC_PREFIX ! i) b) [0..<22])"

lemma side_unique: "x < 22 \<Longrightarrow> y < 22 \<Longrightarrow> side b x = 0 \<Longrightarrow> side b y = 0 \<Longrightarrow> x = y"
proof (rule ccontr)
  assume *: "x < 22" "y < 22" "side b x = 0" "side b y = 0" "x \<noteq> y"
  then consider "x < y" | "y < x" by linarith
  then show False
    using side_order(1) [OF _ *(2), of x b] side_order(1) [OF _ *(1), of y b] *(3,4) by cases simp_all
qed

lemma lookup_found:
  assumes "i < 22" "side b i = 0"
  shows "lookup b = Some (CC_MAP ! i)"
proof -
  have "find (\<lambda>i. prefix (CC_PREFIX ! i) b) [0..<22] = Some i \<longleftrightarrow> i \<in> set [0..<22] \<and> prefix (CC_PREFIX ! i) b"
    by (rule find_unique) (use side_unique in \<open>simp only: set_upt atLeastLessThan_iff compare_prefix_0 [symmetric]\<close>)
  then have "find (\<lambda>i. prefix (CC_PREFIX ! i) b) [0..<22] = Some i"
    using assms by (simp only: set_upt atLeastLessThan_iff compare_prefix_0 le0 simp_thms)
  then show ?thesis by (simp only: lookup_def option.map)
qed

lemma search_lookup:
  assumes "0 \<le> l" "h \<le> 21" "\<forall>i. int i < l \<longrightarrow> side b i = 1" "\<forall>i. h < int i \<longrightarrow> i < 22 \<longrightarrow> side b i = - 1"
  shows "search b l h = lookup b"
  using assms
proof (induction b l h rule: search.induct)
  case (1 b l h)
  show ?case
  proof (cases "h \<ge> l")
    case False
    have "side b i \<noteq> 0" if "i < 22" for i
      using 1(5,6) [rule_format, of i] False that by (cases "int i < l") simp_all
    then have "find (\<lambda>i. prefix (CC_PREFIX ! i) b) [0..<22] = None"
      by (simp only: find_None_iff set_upt atLeastLessThan_iff compare_prefix_0 [symmetric] bex_simps) blast
    then have "lookup b = None" by (simp only: lookup_def option.map)
    then show ?thesis using False by (simp add: search.simps [of b l h])
  next
    case True
    define m where "m = nat ((h + l) div 2)"
    have m: "l \<le> int m" "int m \<le> h" "m < 22" "(h + l) div 2 = int m"
    proof -
      have "l \<le> (h + l) div 2" "(h + l) div 2 \<le> h" using True by linarith+
      then show "l \<le> int m" "int m \<le> h" "m < 22" "(h + l) div 2 = int m"
        using 1(3,4) unfolding m_def by linarith+
    qed
    consider "side b m = 0" | "side b m = 1" | "side b m = - 1" using compare_prefix_cases [of "CC_PREFIX ! m" b] by metis
    then show ?thesis
    proof cases
      case 1
      then show ?thesis using True m lookup_found [of m b] by (simp add: search.simps [of b l h])
    next
      case 2
      have "side b i = 1" if "int i < int m + 1" for i
        using that 2 side_order(1) [of i m b] m(3) by (cases "i = m") simp_all
      have "search b (int m + 1) h = lookup b"
        by (rule 1(1) [OF True m(4) [symmetric] refl]) (use 2 1(3-6) m \<open>\<And>i. int i < int m + 1 \<Longrightarrow> side b i = 1\<close> in simp_all)
      then show ?thesis using True m 2 by (simp add: search.simps [of b l h])
    next
      case 3
      have "side b i = - 1" if "int m - 1 < int i" "i < 22" for i
        using that 3 side_order(2) [of m i b] by (cases "i = m") simp_all
      have "search b l (int m - 1) = lookup b"
        by (rule 1(2) [OF True m(4) [symmetric] refl]) (use 3 1(3-6) m \<open>\<And>i. int m - 1 < int i \<Longrightarrow> i < 22 \<Longrightarrow> side b i = - 1\<close> in simp_all)
      then show ?thesis using True m 3 by (simp add: search.simps [of b l h])
    qed
  qed
qed

text \<open>The binary search finds the entry of the table whose prefix the number has; numbers without
  an entry are told apart by their length.\<close>

theorem GetCardType_lookup:
  "GetCardType b len =
    (case find (\<lambda>i. prefix (CC_PREFIX ! i) b) [0..<length CC_PREFIX] of
       Some i \<Rightarrow> CC_MAP ! i
     | None \<Rightarrow> if len = 16 \<and> prefix ''3'' b then cc_jcb else if len = 18 \<or> len = 19 then cc_switch else cc_unknown)"
proof -
  have "take 1 b = ''3'' \<longleftrightarrow> prefix ''3'' b" by (cases b) auto
  then show ?thesis
    unfolding GetCardType_def using search_lookup [of 0 21 b]
    by (simp add: lookup_def length_CC_PREFIX split: option.splits)
qed

section \<open>Which numbers are accepted\<close>

lemma strstr_char_Some: "strstr i [c] = Some k \<Longrightarrow> NUL \<notin> set i \<Longrightarrow> c \<noteq> NUL \<Longrightarrow>
    i = take k i @ c # drop (k + 1) i"
proof -
  assume *: "strstr i [c] = Some k" "NUL \<notin> set i" "c \<noteq> NUL"
  then have "prefix [c] (drop k i)"
    using find_sub_Some [of i "[c]" k] by (simp add: strstr_def cstr_id)
  then obtain r where r: "drop k i = c # r" by (auto simp: prefix_def)
  then have "drop (k + 1) i = r" by (metis Suc_eq_plus1 drop_Suc list.sel(3) tl_drop)
  then show ?thesis using r append_take_drop_id [of k i] by simp
qed

lemma replace_loop_ends:
  assumes "NUL \<notin> set i" "c \<noteq> NUL" "i = [] \<or> last i = c"
  shows "snd (replace_loop strstr i [c] to res) = []"
  using assms(1,3)
proof (induction "length i" arbitrary: i res rule: less_induct)
  case less
  show ?case
  proof (cases "strstr i [c]")
    case None
    have "i = []"
    proof (rule ccontr)
      assume "i \<noteq> []"
      then obtain j where "i = j @ [c]" using less(3) by (metis append_butlast_last_id)
      then have "prefix [c] (drop (length j) i)" by simp
      then show False
        using find_sub_None [of i "[c]"] None less(2) assms(2) by (simp add: strstr_def cstr_id)
    qed
    then show ?thesis using None by (subst replace_loop.simps) simp
  next
    case (Some k)
    note i = strstr_char_Some [OF Some less(2) assms(2)]
    define r where "r = drop (k + 1) i"
    have "length r < length i" using arg_cong [OF i, of length] by (simp add: r_def)
    moreover have "NUL \<notin> set r" using less(2) by (auto simp: r_def dest: in_set_dropD)
    moreover have "i \<noteq> []" using arg_cong [OF i, of length] by auto
    moreover from this have "r = [] \<or> last r = c"
      using less(3) arg_cong [OF i, of last] by (auto simp: r_def split: if_splits)
    ultimately have "snd (replace_loop strstr r [c] to (res @ take k i @ to)) = []"
      using less(1) by blast
    then show ?thesis using Some \<open>i \<noteq> []\<close> by (subst replace_loop.simps) (simp add: r_def)
  qed
qed

lemma replace_all_char: "replace_all prefix [c] [] s = filter (\<lambda>x. x \<noteq> c) s"
  by (induction s) (simp_all add: replace_all.simps [of prefix "[c]" "[]"])

text \<open>One separator is removed, except from a text that ends with it.\<close>

lemma ReplaceStr_char:
  assumes "NUL \<notin> set s" "c \<noteq> NUL"
  shows "ReplaceStr s [c] [] = Some (if s \<noteq> [] \<and> last s = c then s else filter (\<lambda>x. x \<noteq> c) s)"
proof (cases "s \<noteq> [] \<and> last s = c")
  case True
  then have "snd (replace_loop strstr s [c] [] []) = []"
    using replace_loop_ends [OF assms] by simp
  then show ?thesis using True by (auto simp: ReplaceStr_def split: prod.splits)
next
  case False
  then have "\<not> suffix [c] s" by (auto simp: suffix_def)
  then have "ReplaceStr s [c] [] = Some (filter (\<lambda>x. x \<noteq> c) s)"
    using ReplaceStr_all [OF assms(1), of "[c]" "[]"] assms(2) by (simp add: replace_all_char)
  then show ?thesis by (simp only: if_not_P [OF False])
qed

definition separators :: "char set" where
  "separators = {CHR ''-'', CHR '' '', CHR ''.''}"

lemma last_filter: "xs \<noteq> [] \<Longrightarrow> P (last xs) \<Longrightarrow> filter P xs \<noteq> [] \<and> last (filter P xs) = last xs"
  by (induction xs) (auto split: if_splits)

lemma CleanCard_spec:
  assumes "NUL \<notin> set s"
  shows "\<exists>n. CleanCard s = Some n \<and> NUL \<notin> set n \<and>
    (if s \<noteq> [] \<and> last s \<in> separators then n \<noteq> [] \<and> last n \<in> separators
     else n = filter (\<lambda>c. c \<notin> separators) s)"
proof -
  define f where "f c x = (if x \<noteq> [] \<and> last x = c then x else filter (\<lambda>y. y \<noteq> c) x)" for c and x :: bytes
  have f: "ReplaceStr x [c] [] = Some (f c x)" "NUL \<notin> set (f c x)" if "NUL \<notin> set x" "c \<noteq> NUL" for x c
    using that ReplaceStr_char by (auto simp: f_def)
  have keep: "x \<noteq> [] \<Longrightarrow> f c x \<noteq> [] \<and> last (f c x) = last x" for x c
    using last_filter [of x "\<lambda>y. y \<noteq> c"] by (auto simp: f_def)
  define n where "n = f (CHR ''.'') (f (CHR '' '') (f (CHR ''-'') s))"
  have clean: "CleanCard s = Some n" "NUL \<notin> set n"
    using f assms by (simp_all add: CleanCard_def n_def)
  show ?thesis
  proof (cases "s \<noteq> [] \<and> last s \<in> separators")
    case True
    then have "n \<noteq> [] \<and> last n = last s" using keep unfolding n_def by metis
    then show ?thesis using clean True by simp
  next
    case False
    have plain: "f c x = filter (\<lambda>y. y \<noteq> c) x" if "x = [] \<or> last x \<notin> separators" "c \<in> separators" for x c
      using that by (auto simp: f_def)
    have more: "f c x = [] \<or> last (f c x) \<notin> separators" if "x = [] \<or> last x \<notin> separators" for x c
      using that keep [of x c] by (cases "x = []") (auto simp: f_def)
    have seps: "CHR ''-'' \<in> separators" "CHR '' '' \<in> separators" "CHR ''.'' \<in> separators"
      by (simp_all add: separators_def)
    have s: "s = [] \<or> last s \<notin> separators" using False by blast
    have "n = filter (\<lambda>y. y \<noteq> CHR ''.'') (filter (\<lambda>y. y \<noteq> CHR '' '') (filter (\<lambda>y. y \<noteq> CHR ''-'') s))"
      unfolding n_def unfolding plain [OF more [OF more [OF s]] seps(3)] unfolding plain [OF more [OF s] seps(2)]
      unfolding plain [OF s seps(1)] ..
    also have "\<dots> = filter (\<lambda>c. c \<notin> separators) s"
      by (auto simp: separators_def intro!: filter_cong)
    finally show ?thesis unfolding if_not_P [OF False] using clean by blast
  qed
qed

lemma GetMask_pos: "GetMask t \<noteq> 0"
  by (cases t) (simp_all add: ShiftMask_def)

text \<open>C30: a number is accepted exactly when its digits, the separators left out, are between 12 and 28
  and pass the checksum or are an enroute number: the lengths of the type of card are not tested.
  A number with a separator at its end is rejected.\<close>

theorem VerifyCard_spec:
  assumes "NUL \<notin> set s"
  shows "VerifyCard s = Some
    (let n = filter (\<lambda>c. c \<notin> separators) s; t = GetCardType n (length n)
     in if (s = [] \<or> last s \<notin> separators) \<and> list_all c_isdigit n \<and> 12 \<le> length n \<and> length n \<le> 28 \<and>
           (t = cc_enroute \<or> ConfirmChecksum n)
        then GetCardName t else [])"
proof -
  obtain n where n: "CleanCard s = Some n" "NUL \<notin> set n"
      "if s \<noteq> [] \<and> last s \<in> separators then n \<noteq> [] \<and> last n \<in> separators
       else n = filter (\<lambda>c. c \<notin> separators) s"
    using CleanCard_spec [OF assms] by blast
  show ?thesis
  proof (cases "s \<noteq> [] \<and> last s \<in> separators")
    case True
    then have "\<not> list_all c_isdigit n"
    proof -
      have "n \<noteq> []" "last n \<in> separators" using n(3) True by simp_all
      moreover from this have "\<not> c_isdigit (last n)" by (auto simp: separators_def c_isdigit_def uc_def)
      ultimately show ?thesis by (meson last_in_set list_all_iff)
    qed
    then show ?thesis using n(1,2) True by (simp add: VerifyCard_def cstr_id Let_def)
  next
    case False
    then have "filter (\<lambda>c. c \<notin> separators) s = n" using n(3) by simp
    moreover have "ShiftMask l \<noteq> 0" for l by (simp add: ShiftMask_def)
    ultimately show ?thesis
      using n(1,2) False GetMask_pos by (auto simp: VerifyCard_def cstr_id Let_def)
  qed
qed

lemma VerifyCard_spec_witness: "VerifyCard ''4111-1111-1111-1111'' = Some ''visa'' \<and> VerifyCard ''4000000000000002-'' = Some []"
  using VerifyCard_spec [of "''4111-1111-1111-1111''"] VerifyCard_spec [of "''4000000000000002-''"]
  by (simp add: separators_def c_isdigit_def uc_def GetCardType_def search.simps CC_PREFIX_def CC_MAP_def
    ConfirmChecksum_def digit_term_def sc_def c_rem_def c_quot_def Let_def)

end
