(* ===== verification/StringMacros.thy ===== *)
theory StringMacros
  imports CoreMacros
begin

text \<open>
  Macros of \<^verbatim>\<open>string.cpp\<close>: searching, comparing, wildcards, replacing, trimming, padding, slicing,
  tokens, quoting for comma separated values and letter case. They read their arguments and write to
  the output stream; a context is needed only to report a wrong number of arguments.
\<close>

section \<open>Comparing\<close>

text \<open>Search in the arguments from the second on.\<close>

fun in_loop :: "(bytes \<Rightarrow> bytes \<Rightarrow> nat \<Rightarrow> bool) \<Rightarrow> ostream \<Rightarrow> bytes \<Rightarrow> int \<Rightarrow> bytes list \<Rightarrow> unit run" where
  "in_loop eq out str i [] = ret ()"
| "in_loop eq out str i (cur # vals) =
    (if length cur = length str \<and> eq str cur (length str) then PutN out i
     else in_loop eq out str (i + 1) vals)"

definition EvalIn :: "ostream \<Rightarrow> qargs \<Rightarrow> unit run" where
  "EvalIn out args = in_loop strnicmp_eq out (GetAt args 0) 1 (drop 1 (qa_vals args))"

definition EvalXin :: "ostream \<Rightarrow> qargs \<Rightarrow> unit run" where
  "EvalXin out args = in_loop strncmp_eq out (GetAt args 0) 1 (drop 1 (qa_vals args))"

definition EvalEqS :: "ostream \<Rightarrow> qargs \<Rightarrow> unit run" where
  "EvalEqS out args =
    (let a = GetAt args 0; b = GetAt args 1 in
     if Count args > 1 \<and> (a = [] \<and> b = []) \<or>
        a \<noteq> [] \<and> b \<noteq> [] \<and> length a = length b \<and> strnicmp_eq a b (length a)
     then PutC out CHR ''T'' else ret ())"

definition EvalEqB :: "ostream \<Rightarrow> qargs \<Rightarrow> unit run" where
  "EvalEqB out args =
    (let a = GetAt args 0; b = GetAt args 1 in
     if Count args > 1 \<and> (a = [] \<and> b = []) \<or>
        a \<noteq> [] \<and> b \<noteq> [] \<and> length a = length b \<and> strncmp_eq a b (length a)
     then PutC out CHR ''T'' else ret ())"

definition EvalStricmp :: "ostream \<Rightarrow> qargs \<Rightarrow> unit run" where
  "EvalStricmp out args =
    (if Count args > 1 then PutZ out (itoa (stricmp (GetAt args 0) (GetAt args 1))) else ret ())"

text \<open>The character that a pointer to a terminated string points to.\<close>

definition first :: "bytes \<Rightarrow> char" where
  "first s = (case cstr s of [] \<Rightarrow> NUL | c # cs \<Rightarrow> c)"

definition EvalIsUpper :: "ostream \<Rightarrow> qargs \<Rightarrow> unit run" where
  "EvalIsUpper out args =
    (if Count args > 0 \<and> c_isupper (first (GetAt args 0)) then PutSn out ''T'' 1 else ret ())"

definition EvalIsLower :: "ostream \<Rightarrow> qargs \<Rightarrow> unit run" where
  "EvalIsLower out args =
    (if Count args > 0 \<and> c_islower (first (GetAt args 0)) then PutSn out ''T'' 1 else ret ())"

section \<open>Wildcards\<close>

text \<open>\<^verbatim>\<open>IsWcmX\<close> and \<^verbatim>\<open>IsWcm\<close>, which differ in the comparison of characters only, on the bytes before the
  terminator. \<^verbatim>\<open>wcm_star\<close> is the loop that tries the rest of the pattern from every position.\<close>

function wcm :: "(char \<Rightarrow> char \<Rightarrow> bool) \<Rightarrow> bytes \<Rightarrow> bytes \<Rightarrow> bool"
  and wcm_star :: "(char \<Rightarrow> char \<Rightarrow> bool) \<Rightarrow> bytes \<Rightarrow> bytes \<Rightarrow> bool" where
  "wcm eq a [] = (a = [])"
| "wcm eq a (c # w) =
    (if c = CHR ''*'' then
       (let w' = dropWhile (\<lambda>c. c = CHR ''*'') w in if w' = [] then True else wcm_star eq a w')
     else if c = CHR ''?'' then a \<noteq> [] \<and> wcm eq (tl a) w
     else a \<noteq> [] \<and> eq (hd a) c \<and> wcm eq (tl a) w)"
| "wcm_star eq [] w = False"
| "wcm_star eq (x # a) w = (wcm eq (x # a) w \<or> wcm_star eq a w)"
  by pat_completeness auto
termination
  by (relation "measures [\<lambda>p. (case p of Inl (e, a, w) \<Rightarrow> length w | Inr (e, a, w) \<Rightarrow> length w),
      \<lambda>p. (case p of Inl (e, a, w) \<Rightarrow> length a | Inr (e, a, w) \<Rightarrow> length a),
      \<lambda>p. (case p of Inl _ \<Rightarrow> 0 | Inr _ \<Rightarrow> 1)]")
    (auto simp: less_Suc_eq_le length_dropWhile_le)

definition IsWcmX :: "bytes \<Rightarrow> bytes \<Rightarrow> bool" where
  "IsWcmX a w = wcm (\<lambda>x y. x = y) (cstr a) (cstr w)"

definition IsWcm :: "bytes \<Rightarrow> bytes \<Rightarrow> bool" where
  "IsWcm a w = wcm (\<lambda>x y. c_tolower x = c_tolower y) (cstr a) (cstr w)"

definition EvalWcm :: "ostream \<Rightarrow> qargs \<Rightarrow> unit run" where
  "EvalWcm out args =
    (if Count args > 1 \<and> IsWcm (GetAt args 0) (GetAt args 1) then PutC out CHR ''T'' else ret ())"

definition EvalWcmX :: "ostream \<Rightarrow> qargs \<Rightarrow> unit run" where
  "EvalWcmX out args =
    (if Count args > 1 \<and> IsWcmX (GetAt args 0) (GetAt args 1) then PutC out CHR ''T'' else ret ())"

section \<open>Joining and replacing\<close>

definition EvalConcat :: "ostream \<Rightarrow> qargs \<Rightarrow> unit run" where
  "EvalConcat out args = each (\<lambda>i. PutS out (GetAt args i)) [0..<Count args]"

text \<open>Pairs of a text and its replacement; a missing last replacement is empty. A replacement that
  never returns is \<^const>\<open>None\<close>.\<close>

fun replace_pairs :: "(bytes \<Rightarrow> bytes \<Rightarrow> bytes \<Rightarrow> bytes option) \<Rightarrow> bytes list \<Rightarrow> bytes \<Rightarrow> bytes option" where
  "replace_pairs rep [] in_s = Some in_s"
| "replace_pairs rep [from] in_s = (if in_s \<noteq> [] \<and> from \<noteq> [] then rep in_s from [] else Some in_s)"
| "replace_pairs rep (from # to # ps) in_s =
    Option.bind (if in_s \<noteq> [] \<and> from \<noteq> [] then rep in_s from to else Some in_s) (replace_pairs rep ps)"

definition EvalReplace :: "ostream \<Rightarrow> qargs \<Rightarrow> unit run" where
  "EvalReplace out args =
    (case replace_pairs (\<lambda>i f t. Some (ReplaceStrI i f t)) (drop 1 (qa_vals args)) (GetAt args 0) of
       Some r \<Rightarrow> PutS out r | None \<Rightarrow> fail NoFuel)"

definition EvalXReplace :: "ostream \<Rightarrow> qargs \<Rightarrow> unit run" where
  "EvalXReplace out args =
    (case replace_pairs ReplaceStr (drop 1 (qa_vals args)) (GetAt args 0) of
       Some r \<Rightarrow> PutS out r | None \<Rightarrow> fail NoFuel)"

section \<open>Trimming\<close>

definition crash_if_none :: "bytes option \<Rightarrow> (bytes \<Rightarrow> unit run) \<Rightarrow> unit run" where
  "crash_if_none r f = (case r of Some s \<Rightarrow> f s | None \<Rightarrow> fail Crash)"

text \<open>\<^verbatim>\<open>strchr(toks, c)\<close> finds the terminator too.\<close>

definition strchr :: "bytes \<Rightarrow> char \<Rightarrow> bool" where
  "strchr toks c = (c = NUL \<or> c \<in> set (cstr toks))"

definition strspn :: "bytes \<Rightarrow> bytes \<Rightarrow> nat" where
  "strspn p toks = length (takeWhile (\<lambda>c. c \<in> set (cstr toks)) (cstr p))"

definition EvalLTrim :: "ctx \<Rightarrow> ostream \<Rightarrow> qargs \<Rightarrow> unit run" where
  "EvalLTrim t out args = VALID_ARGC ''ltrim'' 1 2 t out args
    (if Count args > 1 then
       (let str = GetAt args 0; toks = GetAt args 1 in
        if str = [] then ret ()
        else if length toks = 0 then PutS out str
        else if length toks = 1 then crash_if_none (LTrimC (hd toks) str) (PutS out)
        else (let i = strspn str toks in PutSn out (drop i str) (int (length str - i))))
     else PutS out (LTrim (GetAt args 0)))"

definition EvalRTrim :: "ctx \<Rightarrow> ostream \<Rightarrow> qargs \<Rightarrow> unit run" where
  "EvalRTrim t out args = VALID_ARGC ''ltrim'' 1 2 t out args
    (if Count args > 1 then
       (let str = GetAt args 0; toks = GetAt args 1 in
        if str = [] then ret ()
        else if length toks = 0 then PutS out str
        else if length toks = 1 then PutS out (RTrimC (hd toks) str)
        else PutS out (rev (dropWhile (strchr toks) (rev str))))
     else PutS out (RTrim (GetAt args 0)))"

definition EvalTrim :: "ctx \<Rightarrow> ostream \<Rightarrow> qargs \<Rightarrow> unit run" where
  "EvalTrim t out args = VALID_ARGC ''trim'' 1 2 t out args
    (if Count args > 1 then
       (let str = GetAt args 0; toks = GetAt args 1 in
        if str = [] then ret ()
        else if length toks = 0 then PutS out str
        else if length toks = 1 then crash_if_none (LTrimC (hd toks) str) (\<lambda>s. PutS out (RTrimC (hd toks) s))
        else (let i = strspn str toks in PutS out (rev (dropWhile (strchr toks) (rev (drop i str))))))
     else PutS out (Trim (GetAt args 0)))"

section \<open>Lengths and padding\<close>

definition EvalLen :: "ostream \<Rightarrow> qargs \<Rightarrow> unit run" where
  "EvalLen out args = PutN out (fold (\<lambda>s acc. int32 (acc + int (length s))) (qa_vals args) 0)"

text \<open>\<^verbatim>\<open>PadParams\<close>: the text, the width and the filling.\<close>

definition PadParams :: "qargs \<Rightarrow> bytes \<times> int \<times> bytes" where
  "PadParams args =
    (GetAt args 0,
     if Count args > 1 then ParseInt (GetAt args 1) else 0,
     if Count args > 2 then GetAt args 2 else '' '')"

text \<open>\<^verbatim>\<open>for (; i < p; ++i) out->PutC(f[j++ % l])\<close>; the result is the last \<^verbatim>\<open>i\<close> and \<^verbatim>\<open>j\<close>.\<close>

definition pad_loop :: "ostream \<Rightarrow> bytes \<Rightarrow> int \<Rightarrow> int \<Rightarrow> nat \<Rightarrow> (int \<times> nat) run" where
  "pad_loop out f i p j =
    (let n = nat (p - i) in
     sq (each (\<lambda>k. PutC out (f ! (k mod length f))) [j..<j + n]) (ret (max i p, j + n)))"

definition EvalLPad :: "ostream \<Rightarrow> qargs \<Rightarrow> unit run" where
  "EvalLPad out args =
    (case PadParams args of (s, p, f) \<Rightarrow>
       sq (if length f > 0 then sq (pad_loop out f (int (length s)) p 0) (ret ()) else ret ()) (PutS out s))"

definition EvalRPad :: "ostream \<Rightarrow> qargs \<Rightarrow> unit run" where
  "EvalRPad out args =
    (case PadParams args of (s, p, f) \<Rightarrow>
       sq (PutS out s)
         (if length f > 0 then sq (pad_loop out f (int (length s)) p 0) (ret ()) else ret ()))"

text \<open>\<^verbatim>\<open>EvalCPad\<close> starts the left half at the length of the text, as the other two do. The bound
  overflows for the lowest widths.\<close>

definition EvalCPad :: "ostream \<Rightarrow> qargs \<Rightarrow> unit run" where
  "EvalCPad out args =
    (case PadParams args of (s, p, f) \<Rightarrow>
       if length f > 0 then
         bnd (pad_loop out f (int (length s)) (c_quot (int32 (p - int (length s))) 2) 0) (\<lambda>(i, j).
           sq (PutS out s) (sq (pad_loop out f i p j) (ret ())))
       else PutS out s)"

section \<open>Parts of a string\<close>

definition EvalLeft :: "ostream \<Rightarrow> qargs \<Rightarrow> unit run" where
  "EvalLeft out args =
    (if Count args \<ge> 2 then
       (let tmp = GetAt args 0; index = ParseInt (GetAt args 1) in
        if index > 0 then
          if index < int (length tmp) then PutSn out tmp index else PutS out tmp
        else ret ())
     else ret ())"

definition EvalRight :: "ostream \<Rightarrow> qargs \<Rightarrow> unit run" where
  "EvalRight out args =
    (if Count args \<ge> 2 then
       (let tmp = GetAt args 0; index = ParseInt (GetAt args 1) in
        if index > 0 then
          if index < int (length tmp) then PutSn out (drop (nat (int (length tmp) - index)) tmp) index
          else PutS out tmp
        else ret ())
     else ret ())"

text \<open>\<^verbatim>\<open>abs\<close> of the least \<^verbatim>\<open>int\<close> is that \<^verbatim>\<open>int\<close> again.\<close>

definition c_abs :: "int \<Rightarrow> int" where
  "c_abs i = int32 \<bar>i\<bar>"

definition EvalMid :: "ostream \<Rightarrow> qargs \<Rightarrow> unit run" where
  "EvalMid out args =
    (if Count args \<ge> 2 then
       (let tmp = GetAt args 0; l = int (length tmp); index = ParseInt (GetAt args 1) in
        if Count args \<ge> 3 then
          (let len = ParseInt (GetAt args 2) in
           if c_abs index < l then
             if index \<ge> 0 then PutSn out (drop (nat index) tmp) (min (l - index) len)
             else PutSn out (drop (nat (max (int32 (l + index - c_abs len)) 0)) tmp) (min l len)
           else ret ())
        else if c_abs index < l then
          if index \<ge> 0 then PutSn out (drop (nat index) tmp) (l - index)
          else PutSn out tmp (l + index)
        else ret ())
     else ret ())"

definition EvalDup :: "ostream \<Rightarrow> qargs \<Rightarrow> unit run" where
  "EvalDup out args =
    (if Count args \<ge> 2 then each (\<lambda>i. PutS out (GetAt args 0)) [0..<nat (ParseInt (GetAt args 1))]
     else ret ())"

section \<open>Tokens\<close>

text \<open>The loop of \<^verbatim>\<open>EvalGetToken\<close> from a token on: what \<^verbatim>\<open>p\<close> points to when the loop is left, or
  \<^const>\<open>None\<close> for the return without output.\<close>

function token_loop :: "bytes \<Rightarrow> bytes \<Rightarrow> int \<Rightarrow> bytes option" where
  "token_loop t p ind =
    (if p = [] then Some []
     else let k = length (takeWhile (\<lambda>c. c \<notin> set t) p) in
       if k < length p then
         (let ind = int32 (ind - 1) in
          if ind < 0 then Some (take k p)
          else (let e = drop (k + 1) p in token_loop t (drop (strspn e t) e) ind))
       else if ind > 0 then None
       else Some p)"
  by pat_completeness auto
termination
  by (relation "measure (\<lambda>(t, p, ind). length p)") auto

declare token_loop.simps [simp del]

definition EvalGetToken :: "ostream \<Rightarrow> qargs \<Rightarrow> unit run" where
  "EvalGetToken out args =
    (if Count args \<ge> 3 then
       (let b = cstr (GetAt args 0); t = cstr (GetAt args 1); ind = ParseInt (GetAt args 2) in
        case token_loop t (drop (strspn b t) b) ind of Some p \<Rightarrow> PutZ out p | None \<Rightarrow> ret ())
     else ret ())"

section \<open>Quoting\<close>

definition CsvQuoteQ :: "bytes \<Rightarrow> bytes" where
  "CsvQuoteQ pi = concat (map (\<lambda>c. if c = DQ then [DQ, c] else [c]) (cstr pi))"

definition EvalCsvQuote :: "ostream \<Rightarrow> qargs \<Rightarrow> unit run" where
  "EvalCsvQuote out args =
    (if Count args > 0 then
       (let s = GetAt args 0; k = length (takeWhile (\<lambda>c. c \<noteq> DQ \<and> c \<noteq> CHR '','') (cstr s)) in
        if k < length (cstr s) then PutS out ([DQ] @ take k s @ CsvQuoteQ (drop k s) @ [DQ])
        else PutSn out s (int (length s)))
     else ret ())"

definition EvalCsvQuoteQ :: "ostream \<Rightarrow> qargs \<Rightarrow> unit run" where
  "EvalCsvQuoteQ out args =
    (if Count args > 0 then PutS out ([DQ] @ CsvQuoteQ (GetAt args 0) @ [DQ]) else ret ())"

section \<open>Letter case\<close>

definition on_cstr :: "(char \<Rightarrow> char) \<Rightarrow> bytes \<Rightarrow> bytes" where
  "on_cstr f s = map f (cstr s) @ drop (length (cstr s)) s"

definition EvalUcase :: "ostream \<Rightarrow> qargs \<Rightarrow> unit run" where
  "EvalUcase out args = (if Count args > 0 then PutS out (on_cstr c_toupper (GetAt args 0)) else ret ())"

definition EvalLcase :: "ostream \<Rightarrow> qargs \<Rightarrow> unit run" where
  "EvalLcase out args = (if Count args > 0 then PutS out (on_cstr c_tolower (GetAt args 0)) else ret ())"

definition uclist :: "bytes list" where
  "uclist = [''LLC'', ''LLP'', ''LP'', ''SCOR'']"

definition pcasew :: "bytes \<Rightarrow> bytes" where
  "pcasew w =
    (if list_ex (\<lambda>s. strnicmp_eq w s (length w)) uclist then w
     else c_toupper (hd w) # map c_tolower (tl w))"

text \<open>A word starts with a letter and goes on over letters, digits and apostrophes.\<close>

definition word_char :: "char \<Rightarrow> bool" where
  "word_char c = (c_isalnum c \<or> c = SQ)"

function pcase_loop :: "bytes \<Rightarrow> bytes" where
  "pcase_loop [] = []"
| "pcase_loop (c # p) =
    (if c_isalpha c then pcasew (c # takeWhile word_char p) @ pcase_loop (dropWhile word_char p)
     else c # pcase_loop p)"
  by pat_completeness auto
termination
  by (relation "measure length") (auto simp: less_Suc_eq_le length_dropWhile_le)

definition EvalPcase :: "ostream \<Rightarrow> qargs \<Rightarrow> unit run" where
  "EvalPcase out args =
    (if Count args > 0 then
       (let s = GetAt args 0 in PutS out (pcase_loop (cstr s) @ drop (length (cstr s)) s))
     else ret ())"

end
