(* ===== verification/StringFacts.thy ===== *)
theory StringFacts
  imports StringMacros Templates
begin

text \<open>
  What the macros of \<^verbatim>\<open>StringMacros\<close> write: the wildcard matcher against the relation it decides,
  the width of padded texts, the parts of a string, tokens, and the round trip of quoted fields.
\<close>

section \<open>Wildcards\<close>

inductive glob :: "(char \<Rightarrow> char \<Rightarrow> bool) \<Rightarrow> bytes \<Rightarrow> bytes \<Rightarrow> bool" for eq where
  empty: "glob eq [] []"
| star: "glob eq a w \<Longrightarrow> glob eq (x @ a) (CHR ''*'' # w)"
| any: "glob eq a w \<Longrightarrow> glob eq (y # a) (CHR ''?'' # w)"
| char: "c \<noteq> CHR ''*'' \<Longrightarrow> c \<noteq> CHR ''?'' \<Longrightarrow> eq y c \<Longrightarrow> glob eq a w \<Longrightarrow> glob eq (y # a) (c # w)"

abbreviation unstar :: "bytes \<Rightarrow> bytes" where
  "unstar \<equiv> dropWhile (\<lambda>c. c = CHR ''*'')"

lemma glob_stars: "glob eq a (unstar w) \<Longrightarrow> glob eq a w"
proof (induction w)
  case (Cons c w)
  then show ?case using glob.star [of eq a w "[]"] by (cases "c = CHR ''*''") simp_all
qed simp

lemma wcm_sound:
  "wcm eq a w \<Longrightarrow> glob eq a w"
  "wcm_star eq' b v \<Longrightarrow> \<exists>x b'. b = x @ b' \<and> glob eq' b' v"
proof (induction eq a w and eq' b v rule: wcm_wcm_star.induct)
  case (1 eq a)
  then show ?case by (simp add: glob.empty)
next
  case (2 eq a c w)
  show ?case
  proof (cases "c = CHR ''*''")
    case True
    show ?thesis
    proof (cases "unstar w = []")
      case True
      have "glob eq [] w" by (rule glob_stars) (simp only: True glob.empty)
      then show ?thesis using glob.star [of eq "[]" w a] \<open>c = CHR ''*''\<close> by simp
    next
      case False
      then have "wcm_star eq a (unstar w)" using 2(4) True by (simp add: Let_def)
      then obtain x b where b: "a = x @ b" "glob eq b (unstar w)" using 2(1) [OF True refl False] by blast
      show ?thesis using glob.star [OF glob_stars [OF b(2)], of x] b(1) True by simp
    qed
  next
    case False
    then obtain y b where a: "a = y # b" using 2(4) by (cases a) (simp_all split: if_splits)
    show ?thesis
    proof (cases "c = CHR ''?''")
      case True
      then show ?thesis using 2(2) [OF False True] 2(4) False a glob.any by simp
    next
      case c: False
      have "eq y c" "glob eq b w" using 2(3) [OF False c] 2(4) False c a by simp_all
      then show ?thesis using glob.char [OF False c] a by simp
    qed
  qed
next
  case (4 eq x a w)
  show ?case
  proof (cases "wcm eq (x # a) w")
    case True
    then show ?thesis using 4(1) by (intro exI [of _ "[]"] exI [of _ "x # a"]) simp
  next
    case False
    then obtain y b where "a = y @ b" "glob eq b w" using 4(2,3) by auto
    then show ?thesis by (intro exI [of _ "x # y"] exI [of _ b]) simp
  qed
qed simp

lemma wcm_star_append: "wcm_star eq a w \<Longrightarrow> wcm_star eq (x @ a) w"
  by (induction x) simp_all

lemma glob_wcm: "glob eq a w \<Longrightarrow> wcm eq a w"
proof (induction rule: glob.induct)
  case (star a w x)
  show ?case
  proof (cases "unstar w = []")
    case False
    have "wcm_star eq a (unstar w)"
    proof (cases w)
      case (Cons c v)
      show ?thesis
      proof (cases "c = CHR ''*''")
        case True
        then show ?thesis using star.IH Cons False by (simp add: Let_def)
      next
        case c: False
        then obtain y b where "a = y # b" using star.IH Cons by (cases a) (auto split: if_splits)
        then show ?thesis using star.IH Cons c by (cases "c = CHR ''?''") simp_all
      qed
    qed (use False in simp)
    then show ?thesis using False by (simp add: wcm_star_append)
  qed simp
qed simp_all

text \<open>C29: the wildcard matchers decide the relation in which a star stands for any text, a question mark
  for any character and every other character for itself, with or without regard to case.\<close>

theorem wildcards:
  "IsWcmX a w = glob (\<lambda>x y. x = y) (cstr a) (cstr w) \<and>
   IsWcm a w = glob (\<lambda>x y. c_tolower x = c_tolower y) (cstr a) (cstr w)"
  using wcm_sound glob_wcm unfolding IsWcmX_def IsWcm_def by blast

section \<open>Writing characters one by one\<close>

lemma each_PutC: "each (\<lambda>k. PutC out (g k)) ks w = (Ok (), wrote out (map g ks) w)"
proof (induction ks arbitrary: w)
  case (Cons k ks)
  have "PutC out (g k) w = (Ok (), wrote out [g k] w)" by (simp add: PutC_def PutS_wrote)
  then show ?case using Cons by (simp add: sq_Ok)
qed (simp add: ret_def)

text \<open>\<^verbatim>\<open>n\<close> characters of the filling, from the \<^verbatim>\<open>j\<close>-th on.\<close>

definition filling :: "bytes \<Rightarrow> nat \<Rightarrow> nat \<Rightarrow> bytes" where
  "filling f j n = map (\<lambda>k. f ! (k mod length f)) [j..<j + n]"

lemma length_filling [simp]: "length (filling f j n) = n"
  by (simp add: filling_def)

lemma pad_loop_run: "pad_loop out f i p j w = (Ok (max i p, j + nat (p - i)), wrote out (filling f j (nat (p - i))) w)"
proof -
  have "each (\<lambda>k. PutC out (f ! (k mod length f))) [j..<j + nat (p - i)] w
      = (Ok (), wrote out (filling f j (nat (p - i))) w)"
    by (simp add: each_PutC filling_def)
  then show ?thesis by (simp add: pad_loop_def Let_def sq_Ok ret_def)
qed

text \<open>padding fills up to the width, before, after or on both sides of the text. The left side of
  \<^verbatim>\<open>cpad\<close> starts at the length of the text: it is shorter than the right one.\<close>

theorem padding:
  assumes "PadParams args = (s, p, f)" "f \<noteq> []" "int (length s) \<le> p" "p < 2 ^ 31"
  shows "\<exists>n h. int (length s + n) = p \<and> int h = max 0 ((p - int (length s)) div 2 - int (length s)) \<and>
     EvalLPad out args w = (Ok (), wrote out (filling f 0 n @ s) w) \<and>
     EvalRPad out args w = (Ok (), wrote out (s @ filling f 0 n) w) \<and>
     EvalCPad out args w = (Ok (), wrote out (filling f 0 h @ s @ filling f h (n - h)) w)"
proof -
  define l where "l = int (length s)"
  define n where "n = nat (p - l)"
  define q where "q = (p - l) div 2"
  define h where "h = nat (q - l)"
  have l: "0 \<le> l" by (simp add: l_def)
  have "int32 (p - l) = p - l" using assms(3,4) l by (intro int32_id) (auto simp: l_def)
  moreover have "0 \<le> p - l" using assms(3) by (simp add: l_def)
  ultimately have quot: "c_quot (int32 (p - l)) 2 = q"
    by (simp add: c_quot_nonneg q_def)
  have "EvalLPad out args w = (Ok (), wrote out (filling f 0 n @ s) w)"
    using assms(1,2) by (simp add: EvalLPad_def sq_def bnd_def pad_loop_run PutS_wrote ret_def n_def l_def)
  moreover have "EvalRPad out args w = (Ok (), wrote out (s @ filling f 0 n) w)"
    using assms(1,2) by (simp add: EvalRPad_def sq_def bnd_def pad_loop_run PutS_wrote ret_def n_def l_def)
  moreover have "nat (p - max l q) = n - h"
    using assms(3) l by (auto simp: n_def h_def q_def l_def)
  then have "EvalCPad out args w = (Ok (), wrote out (filling f 0 h @ s @ filling f h (n - h)) w)"
    using assms(1,2)
    by (simp add: EvalCPad_def sq_def bnd_def pad_loop_run PutS_wrote ret_def h_def quot flip: l_def)
  moreover have "int (length s + n) = p" "int h = max 0 (q - l)"
    using assms(3) by (simp_all add: n_def l_def h_def)
  ultimately show ?thesis unfolding q_def l_def by blast
qed

lemma padding_witness:
  "\<exists>h. EvalCPad 0 \<lparr>qa_vals = [''ab'', ''9'', ''-+''], qa_opts = [], qa_n = 0\<rparr> bare_world
     = (Ok (), wrote 0 (filling ''-+'' 0 h @ ''ab'' @ filling ''-+'' h (7 - h)) bare_world)"
proof -
  have "PadParams \<lparr>qa_vals = [''ab'', ''9'', ''-+''], qa_opts = [], qa_n = 0\<rparr> = (''ab'', 9, ''-+'')"
    by (simp add: PadParams_def Count_def GetAt_def ParseInt_def strtol10_def cstr_def clamp64_def int32_def c_char)
  moreover have "''-+'' \<noteq> []" "int (length ''ab'') \<le> 9" "(9 :: int) < 2 ^ 31" by simp_all
  ultimately obtain n h where "int (length ''ab'' + n) = 9"
    "EvalCPad 0 \<lparr>qa_vals = [''ab'', ''9'', ''-+''], qa_opts = [], qa_n = 0\<rparr> bare_world
       = (Ok (), wrote 0 (filling ''-+'' 0 h @ ''ab'' @ filling ''-+'' h (n - h)) bare_world)"
    using padding [of _ "''ab''" 9 "''-+''" 0 bare_world] by blast
  moreover from this(1) have "n = 7" by simp
  ultimately show ?thesis by blast
qed

section \<open>Parts of a string\<close>

lemma PutSn_wrote:
  assumes "0 \<le> i" "i \<le> int (length s)"
  shows "PutSn out s i w = (Ok (), wrote out (take (nat i) s) w)"
proof (cases "w_outs w ! out = ONull")
  case True
  then have "(w_outs w)[out := ONull] = w_outs w" by (metis list_update_id)
  then show ?thesis using True by (simp add: PutSn_def wrote_def)
qed (use assms in \<open>simp add: PutSn_def PutS_wrote\<close>)

text \<open>\<^verbatim>\<open>left\<close> and \<^verbatim>\<open>mid\<close> with the same number write the two parts of a text, \<^verbatim>\<open>right\<close> its end.\<close>

theorem slices:
  assumes "Count args = 2" "ParseInt (GetAt args 1) = n" "0 < n" "n < int (length s)" "GetAt args 0 = s"
    and "length s < 2 ^ 31"
  shows "\<exists>a b c. EvalLeft out args w = (Ok (), wrote out a w) \<and> EvalMid out args w = (Ok (), wrote out b w) \<and>
     EvalRight out args w = (Ok (), wrote out c w) \<and>
     a @ b = s \<and> int (length a) = n \<and> suffix c s \<and> int (length c) = n"
proof -
  have n: "c_abs n = n" using assms(3,4,6) by (simp add: c_abs_def int32_id)
  have "EvalLeft out args w = (Ok (), wrote out (take (nat n) s) w)"
    using assms PutSn_wrote by (simp add: EvalLeft_def Let_def)
  moreover have "EvalMid out args w = (Ok (), wrote out (drop (nat n) s) w)"
    using assms PutSn_wrote n by (simp add: EvalMid_def Let_def)
  moreover have "EvalRight out args w = (Ok (), wrote out (drop (nat (int (length s) - n)) s) w)"
    using assms PutSn_wrote by (simp add: EvalRight_def Let_def)
  moreover have "take (nat n) s @ drop (nat n) s = s" "int (length (take (nat n) s)) = n"
    "suffix (drop (nat (int (length s) - n)) s) s" "int (length (drop (nat (int (length s) - n)) s)) = n"
    using assms(3,4) by (simp_all add: suffix_drop)
  ultimately show ?thesis by blast
qed

lemma slices_witness:
  "\<exists>a b c. EvalLeft 0 \<lparr>qa_vals = [''abc'', ''1''], qa_opts = [], qa_n = 0\<rparr> bare_world = (Ok (), wrote 0 a bare_world) \<and>
     EvalMid 0 \<lparr>qa_vals = [''abc'', ''1''], qa_opts = [], qa_n = 0\<rparr> bare_world = (Ok (), wrote 0 b bare_world) \<and>
     EvalRight 0 \<lparr>qa_vals = [''abc'', ''1''], qa_opts = [], qa_n = 0\<rparr> bare_world = (Ok (), wrote 0 c bare_world) \<and>
     a @ b = ''abc'' \<and> int (length a) = 1 \<and> suffix c ''abc'' \<and> int (length c) = 1"
  by (rule slices) (simp_all add: Count_def GetAt_def ParseInt_def strtol10_def cstr_def clamp64_def int32_def c_char)

text \<open>a negative third argument of \<^verbatim>\<open>mid\<close> is passed on as the number of bytes to copy: it crashes
  wherever the second argument lies within the text.\<close>

theorem mid_negative_length:
  assumes "Count args = 3" "ParseInt (GetAt args 2) < 0" "\<bar>ParseInt (GetAt args 1)\<bar> < int (length (GetAt args 0))"
    and "length (GetAt args 0) < 2 ^ 31" "w_outs w ! out \<noteq> ONull"
  shows "fst (EvalMid out args w) = Crash"
proof -
  have "c_abs (ParseInt (GetAt args 1)) = \<bar>ParseInt (GetAt args 1)\<bar>"
    using assms(3,4) by (simp add: c_abs_def int32_id)
  then show ?thesis using assms by (simp add: EvalMid_def Let_def PutSn_def min_def)
qed

lemma mid_negative_length_witness:
  "fst (EvalMid 0 \<lparr>qa_vals = [''abc'', ''1'', ''-1''], qa_opts = [], qa_n = 0\<rparr> (bare_world\<lparr>w_outs := [OBuf []]\<rparr>)) = Crash"
  by (rule mid_negative_length)
    (simp_all add: Count_def GetAt_def ParseInt_def strtol10_def cstr_def clamp64_def int32_def c_char)

section \<open>Tokens\<close>

text \<open>The non-empty parts of a text between delimiters.\<close>

function tokens :: "bytes \<Rightarrow> bytes \<Rightarrow> bytes list" where
  "tokens t s =
    (let s' = dropWhile (\<lambda>c. c \<in> set t) s in
     if s' = [] then [] else takeWhile (\<lambda>c. c \<notin> set t) s' # tokens t (dropWhile (\<lambda>c. c \<notin> set t) s'))"
  by pat_completeness auto
termination
proof (relation "measure (\<lambda>(t, s). length s)", goal_cases)
  case (2 t s s')
  then obtain c r where s': "s' = c # r" by (meson neq_Nil_conv)
  then have "c \<notin> set t" using 2 by (metis hd_dropWhile list.sel(1))
  then have "length (dropWhile (\<lambda>c. c \<notin> set t) s') \<le> length r" by (simp add: s' length_dropWhile_le)
  moreover have "Suc (length r) \<le> length s" using 2(1) s' by (metis length_Cons length_dropWhile_le)
  ultimately show ?case by simp
qed simp

declare tokens.simps [simp del]

lemma drop_strspn: "NUL \<notin> set s \<Longrightarrow> NUL \<notin> set t \<Longrightarrow> drop (strspn s t) s = dropWhile (\<lambda>c. c \<in> set t) s"
  by (simp add: strspn_def cstr_id dropWhile_eq_drop)

lemma drop_delimiter: "k = length (takeWhile P s) \<Longrightarrow> k < length s \<Longrightarrow> dropWhile P s = s ! k # drop (k + 1) s \<and> \<not> P (s ! k)"
  by (metis Cons_nth_drop_Suc Suc_eq_plus1 dropWhile_eq_drop nth_length_takeWhile)

lemma token_loop_tokens:
  assumes "NUL \<notin> set p" "NUL \<notin> set t" "0 \<le> ind" "ind < 2 ^ 31" "p = [] \<or> hd p \<notin> set t"
  shows "(case token_loop t p ind of Some q \<Rightarrow> q | None \<Rightarrow> []) =
    (if ind < int (length (tokens t p)) then tokens t p ! nat ind else [])"
  using assms
proof (induction t p ind rule: token_loop.induct)
  case (1 t p ind)
  show ?case
  proof (cases "p = []")
    case True
    then show ?thesis using 1(4) by (simp add: token_loop.simps [of t "[]"] tokens.simps [of t "[]"])
  next
    case False
    have p: "dropWhile (\<lambda>c. c \<in> set t) p = p" using 1(6) False by (cases p) auto
    define k where "k = length (takeWhile (\<lambda>c. c \<notin> set t) p)"
    have tok: "tokens t p = takeWhile (\<lambda>c. c \<notin> set t) p # tokens t (dropWhile (\<lambda>c. c \<notin> set t) p)"
      using False p by (simp add: tokens.simps [of t p] Let_def)
    have take: "take k p = takeWhile (\<lambda>c. c \<notin> set t) p" unfolding k_def by (rule takeWhile_eq_take [symmetric])
    show ?thesis
    proof (cases "k < length p")
      case k: True
      define e where "e = drop (k + 1) p"
      define r where "r = dropWhile (\<lambda>c. c \<in> set t) e"
      have d: "dropWhile (\<lambda>c. c \<notin> set t) p = p ! k # e" "p ! k \<in> set t"
        using drop_delimiter [OF k_def k] by (simp_all add: e_def)
      have e: "NUL \<notin> set e" using 1(2) by (auto simp: e_def dest: in_set_dropD)
      have r: "drop (strspn e t) e = r" using drop_strspn [OF e 1(3)] by (simp add: r_def)
      have nr: "NUL \<notin> set r" "r = [] \<or> hd r \<notin> set t"
        using e set_dropWhileD [of NUL _ e] hd_dropWhile [of "\<lambda>c. c \<in> set t" e] unfolding r_def by blast+
      have rr: "dropWhile (\<lambda>c. c \<in> set t) r = r" using nr(2) by (cases r) simp_all
      have rest: "tokens t (dropWhile (\<lambda>c. c \<notin> set t) p) = tokens t r"
        using d by (simp add: tokens.simps [of t "p ! k # e"] tokens.simps [of t r] rr Let_def flip: r_def)
      have i: "int32 (ind - 1) = ind - 1" using 1(4,5) by (intro int32_id) auto
      show ?thesis
      proof (cases "ind = 0")
        case True
        then show ?thesis using False k i tok take by (simp add: token_loop.simps [of t p] k_def [symmetric] Let_def)
      next
        case ind: False
        have "(case token_loop t r (ind - 1) of Some q \<Rightarrow> q | None \<Rightarrow> []) =
            (if ind - 1 < int (length (tokens t r)) then tokens t r ! nat (ind - 1) else [])"
          using 1(1) [OF False k_def k i [symmetric] _ e_def] ind 1(3-5) nr by (simp add: r)
        moreover have "nat ind = Suc (nat (ind - 1))" using ind 1(4) by simp
        ultimately show ?thesis
          using False k i ind 1(4) tok rest
          by (simp add: token_loop.simps [of t p] k_def [symmetric] r [unfolded e_def, simplified] Let_def)
      qed
    next
      case k: False
      then have whole: "takeWhile (\<lambda>c. c \<notin> set t) p = p" using take by simp
      then have d: "dropWhile (\<lambda>c. c \<notin> set t) p = []" by (metis append_self_conv takeWhile_dropWhile_id)
      have "tokens t p = [p]" using tok unfolding whole d by (simp add: tokens.simps [of t "[]"])
      moreover have "token_loop t p ind = (if ind > 0 then None else Some p)"
        using False k by (simp add: token_loop.simps [of t p] k_def [symmetric] Let_def)
      ultimately show ?thesis using 1(4) by simp
    qed
  qed
qed

text \<open>\<^verbatim>\<open>gettoken\<close> writes the token with the given number, counted from 0, and nothing when there are
  not so many.\<close>

theorem GetToken_nth:
  assumes "Count args \<ge> 3" "NUL \<notin> set (GetAt args 0)" "NUL \<notin> set (GetAt args 1)"
    and "0 \<le> ParseInt (GetAt args 2)"
  shows "EvalGetToken out args w = (Ok (), wrote out
    (let ts = tokens (GetAt args 1) (GetAt args 0); n = nat (ParseInt (GetAt args 2))
     in if n < length ts then ts ! n else []) w)"
proof -
  define t where "t = GetAt args 1"
  define b where "b = GetAt args 0"
  define ind where "ind = ParseInt (GetAt args 2)"
  define p where "p = drop (strspn b t) b"
  have p: "p = dropWhile (\<lambda>c. c \<in> set t) b" using assms(2,3) by (simp add: p_def t_def b_def drop_strspn)
  have np: "NUL \<notin> set p" "p = [] \<or> hd p \<notin> set t"
    using assms(2) set_dropWhileD [of NUL _ b] hd_dropWhile [of "\<lambda>c. c \<in> set t" b] unfolding p b_def by blast+
  have pp: "dropWhile (\<lambda>c. c \<in> set t) p = p" using np(2) by (cases p) simp_all
  have "tokens t p = tokens t b" unfolding tokens.simps [of t p] tokens.simps [of t b] Let_def p [symmetric] pp ..
  moreover have "ind < 2 ^ 31" unfolding ind_def ParseInt_def by (rule int32_range)
  ultimately have *: "(case token_loop t p ind of Some q \<Rightarrow> q | None \<Rightarrow> []) =
      (if nat ind < length (tokens t b) then tokens t b ! nat ind else [])"
    using token_loop_tokens [OF np(1) _ _ _ np(2), of ind] assms(3,4) by (auto simp: t_def ind_def)
  have "NUL \<notin> set q" if "token_loop t p ind = Some q" for q
    using that np(1)
  proof (induction t p ind rule: token_loop.induct)
    case (1 t p ind)
    show ?case
      using 1(2,3) 1(1) [OF _ refl _ refl _ refl]
      by (subst (asm) token_loop.simps)
        (auto simp: Let_def split: if_splits dest: in_set_takeD in_set_dropD)
  qed
  then have "EvalGetToken out args w = (Ok (), wrote out (case token_loop t p ind of Some q \<Rightarrow> q | None \<Rightarrow> []) w)"
    using assms by (auto simp: EvalGetToken_def cstr_id t_def b_def ind_def p_def PutZ_def PutS_wrote ret_def Let_def
        split: option.splits)
  then show ?thesis unfolding * by (simp add: t_def b_def ind_def Let_def)
qed

lemma GetToken_nth_witness:
  "EvalGetToken 0 \<lparr>qa_vals = [''a,b;c'', '',;'', ''1''], qa_opts = [], qa_n = 0\<rparr> bare_world = (Ok (), wrote 0 ''b'' bare_world)"
proof -
  have "ParseInt ''1'' = 1"
    by (simp add: ParseInt_def strtol10_def cstr_def clamp64_def int32_def c_char)
  then show ?thesis
    using GetToken_nth [of "\<lparr>qa_vals = [''a,b;c'', '',;'', ''1''], qa_opts = [], qa_n = 0\<rparr>" 0 bare_world]
    by (simp add: Count_def GetAt_def tokens.simps Let_def)
qed

section \<open>Quoted fields\<close>

text \<open>Reading one field of a line of comma separated values: what is in it, and what follows it.\<close>

fun read_quoted :: "bytes \<Rightarrow> bytes \<times> bytes" where
  "read_quoted [] = ([], [])"
| "read_quoted [c] = (if c = DQ then ([], []) else ([c], []))"
| "read_quoted (c # d # r) =
    (if c = DQ then (if d = DQ then map_prod ((#) DQ) id (read_quoted r) else ([], d # r))
     else map_prod ((#) c) id (read_quoted (d # r)))"

definition read_field :: "bytes \<Rightarrow> bytes \<times> bytes" where
  "read_field s =
    (if s \<noteq> [] \<and> hd s = DQ then read_quoted (tl s)
     else (takeWhile (\<lambda>c. c \<noteq> CHR '','' \<and> c \<noteq> NL) s, dropWhile (\<lambda>c. c \<noteq> CHR '','' \<and> c \<noteq> NL) s))"

lemma CsvQuoteQ_simps: "CsvQuoteQ [] = []" "c \<noteq> NUL \<Longrightarrow> CsvQuoteQ (c # s) = (if c = DQ then [DQ, c] else [c]) @ CsvQuoteQ s"
  by (simp_all add: CsvQuoteQ_def cstr_Cons)

lemma CsvQuoteQ_append: "NUL \<notin> set s \<Longrightarrow> CsvQuoteQ (s @ t) = CsvQuoteQ s @ CsvQuoteQ t"
  by (induction s) (auto simp: CsvQuoteQ_simps)

lemma CsvQuoteQ_plain: "NUL \<notin> set s \<Longrightarrow> DQ \<notin> set s \<Longrightarrow> CsvQuoteQ s = s"
  by (induction s) (auto simp: CsvQuoteQ_simps)

lemma read_quoted_CsvQuoteQ:
  "NUL \<notin> set s \<Longrightarrow> r = [] \<or> hd r \<noteq> DQ \<Longrightarrow> read_quoted (CsvQuoteQ s @ DQ # r) = (s, r)"
proof (induction s)
  case Nil
  then show ?case by (cases r) (simp_all add: CsvQuoteQ_simps)
next
  case (Cons c s)
  then have IH: "read_quoted (CsvQuoteQ s @ DQ # r) = (s, r)" by simp
  obtain d v where v: "CsvQuoteQ s @ DQ # r = d # v" by (cases "CsvQuoteQ s @ DQ # r") auto
  show ?case
  proof (cases "c = DQ")
    case True
    then show ?thesis using Cons.prems IH by (simp add: CsvQuoteQ_simps)
  next
    case False
    then have "read_quoted (CsvQuoteQ (c # s) @ DQ # r) = read_quoted (c # d # v)"
      using Cons.prems(1) v CsvQuoteQ_simps(2) [of c s] by auto
    then show ?thesis using IH v False by simp
  qed
qed



section \<open>Searching a set\<close>

lemma strnicmp_same_length: "NUL \<notin> set a \<Longrightarrow> NUL \<notin> set b \<Longrightarrow> length b = length a \<Longrightarrow>
    strnicmp_eq a b (length a) \<longleftrightarrow> map c_tolower b = map c_tolower a"
  using strnicmp_eq_imatch [of a b] by (auto simp: imatch_def)

lemma in_loop_run:
  assumes "NUL \<notin> set str" "\<forall>v \<in> set vals. NUL \<notin> set v"
  shows "in_loop strnicmp_eq out str i vals w = (Ok (), wrote out
    (case find (\<lambda>j. map c_tolower (vals ! j) = map c_tolower str) [0..<length vals] of
       None \<Rightarrow> [] | Some j \<Rightarrow> itoa (i + int j)) w)"
  using assms(2)
proof (induction vals arbitrary: i)
  case Nil
  then show ?case by (simp add: ret_def)
next
  case (Cons v vals)
  have same: "length v = length str \<and> strnicmp_eq str v (length str) \<longleftrightarrow> map c_tolower v = map c_tolower str"
    using strnicmp_same_length [of str v] assms(1) Cons.prems by (auto dest: map_eq_imp_length_eq)
  have shift: "find (\<lambda>j. map c_tolower ((v # vals) ! j) = map c_tolower str) [0..<length (v # vals)] =
      (if map c_tolower v = map c_tolower str then Some 0
       else map_option Suc (find (\<lambda>j. map c_tolower (vals ! j) = map c_tolower str) [0..<length vals]))"
  proof -
    have "find P (map Suc xs) = map_option Suc (find (\<lambda>j. P (Suc j)) xs)" for P xs
      by (induction xs) auto
    moreover have "[0..<length (v # vals)] = 0 # map Suc [0..<length vals]"
      by (simp add: upt_conv_Cons map_Suc_upt del: upt_Suc)
    ultimately show ?thesis by simp
  qed
  show ?case
  proof (cases "map c_tolower v = map c_tolower str")
    case True
    then show ?thesis using same unfolding shift by (simp add: PutN_def PutS_wrote)
  next
    case False
    then have "in_loop strnicmp_eq out str i (v # vals) w = in_loop strnicmp_eq out str (i + 1) vals w"
      using same by auto
    also have "\<dots> = (Ok (), wrote out
        (case find (\<lambda>j. map c_tolower (vals ! j) = map c_tolower str) [0..<length vals] of
           None \<Rightarrow> [] | Some j \<Rightarrow> itoa (i + 1 + int j)) w)"
      using Cons by simp
    finally show ?thesis using False unfolding shift by (simp add: algebra_simps split: option.splits)
  qed
qed

text \<open>\<^verbatim>\<open>in\<close> writes the position of the first of the further arguments that equals the first one but
  for case, and nothing when there is none.\<close>

theorem EvalIn_first:
  assumes "qa_vals args = str # vals" "NUL \<notin> set str" "\<forall>v \<in> set vals. NUL \<notin> set v"
  shows "EvalIn out args w = (Ok (), wrote out
    (case find (\<lambda>j. map c_tolower (vals ! j) = map c_tolower str) [0..<length vals] of
       None \<Rightarrow> [] | Some j \<Rightarrow> itoa (1 + int j)) w)"
  using in_loop_run [OF assms(2,3)] assms(1) by (simp add: EvalIn_def GetAt_def Count_def)

lemma EvalIn_first_witness:
  "EvalIn 0 \<lparr>qa_vals = [''b'', ''a'', ''B''], qa_opts = [], qa_n = 0\<rparr> bare_world = (Ok (), wrote 0 (itoa 2) bare_world)"
  using EvalIn_first [of "\<lparr>qa_vals = [''b'', ''a'', ''B''], qa_opts = [], qa_n = 0\<rparr>" "''b''" "[''a'', ''B'']" 0 bare_world]
  by (simp add: c_char char_of_def bit_0)

end
