(* ===== verification/IntMacros.thy ===== *)
theory IntMacros
  imports CoreMacros Templates
begin

text \<open>
  The integer macros of \<^verbatim>\<open>math.cpp\<close>, on 32-bit integers that wrap around. A division that the processor
  traps, by zero or of the least integer by -1, ends in the handler of \<^verbatim>\<open>SIGFPE\<close>, which jumps back and
  returns without output. (The handler then stays installed; signals are not part of the model.)
\<close>

section \<open>Definitions\<close>

definition EvalIAdd :: "ostream \<Rightarrow> qargs \<Rightarrow> unit run" where
  "EvalIAdd out args = PutN out (fold (\<lambda>s acc. int32 (acc + ParseInt s)) (qa_vals args) 0)"

definition EvalISub :: "ostream \<Rightarrow> qargs \<Rightarrow> unit run" where
  "EvalISub out args =
    PutN out (fold (\<lambda>s acc. int32 (acc - ParseInt s)) (drop 1 (qa_vals args)) (ParseInt (GetAt args 0)))"

definition EvalIMult :: "ostream \<Rightarrow> qargs \<Rightarrow> unit run" where
  "EvalIMult out args =
    PutN out (fold (\<lambda>s acc. int32 (acc * ParseInt s)) (drop 1 (qa_vals args)) (ParseInt (GetAt args 0)))"

text \<open>The division instruction: \<^const>\<open>None\<close> when it traps.\<close>

definition traps :: "int \<Rightarrow> int \<Rightarrow> bool" where
  "traps a b \<longleftrightarrow> b = 0 \<or> a = - (2 ^ 31) \<and> b = - 1"

definition divided :: "int \<Rightarrow> int \<Rightarrow> int option" where
  "divided a b = (if traps a b then None else Some (c_quot a b))"

definition EvalIDiv :: "ctx \<Rightarrow> ostream \<Rightarrow> qargs \<Rightarrow> unit run" where
  "EvalIDiv t out args = VALID_ARGC ''idiv'' 2 2 t out args
    (case fold (\<lambda>s acc. Option.bind acc (\<lambda>a. divided a (ParseInt s))) (drop 1 (qa_vals args)) (Some (ParseInt (GetAt args 0))) of
       Some acc \<Rightarrow> PutN out acc
     | None \<Rightarrow> ret ())"

definition EvalIMod :: "ctx \<Rightarrow> ostream \<Rightarrow> qargs \<Rightarrow> unit run" where
  "EvalIMod t out args = VALID_ARGC ''imod'' 2 2 t out args
    (let v1 = ParseInt (GetAt args 0); v2 = ParseInt (GetAt args 1) in
     if traps v1 v2 then ret () else PutN out (c_rem v1 v2))"

section \<open>Wrapping around\<close>

lemma int32_cong: "a mod 2 ^ 32 = b mod 2 ^ 32 \<Longrightarrow> int32 a = int32 b"
  unfolding int32_def by (metis mod_add_cong)

lemma int32_mod: "int32 a mod 2 ^ 32 = a mod 2 ^ 32"
proof -
  have "int32 a mod 2 ^ 32 = (a + 2 ^ 31 - 2 ^ 31) mod 2 ^ 32"
    unfolding int32_def by (rule mod_diff_left_eq)
  then show ?thesis by simp
qed

lemma int32_add: "int32 (int32 a + b) = int32 (a + b)"
  by (rule int32_cong) (metis int32_mod mod_add_left_eq)

lemma int32_diff: "int32 (int32 a - b) = int32 (a - b)"
  by (rule int32_cong) (metis int32_mod mod_diff_left_eq)

lemma int32_mult: "int32 (int32 a * b) = int32 (a * b)"
  by (rule int32_cong) (metis int32_mod mod_mult_left_eq)

lemma fold_wrapped:
  assumes "\<And>a b. int32 (f (int32 a) b) = int32 (f a b)"
  shows "int32 a = a \<Longrightarrow> fold (\<lambda>s acc. int32 (f acc (g s))) xs a = int32 (fold (\<lambda>s acc. f acc (g s)) xs a)"
proof -
  have "fold (\<lambda>s acc. int32 (f acc (g s))) xs (int32 a) = int32 (fold (\<lambda>s acc. f acc (g s)) xs a)"
  proof (induction xs arbitrary: a)
    case (Cons x xs)
    show ?case using Cons [of "f a (g x)"] assms by simp
  qed simp
  then show "int32 a = a \<Longrightarrow> fold (\<lambda>s acc. int32 (f acc (g s))) xs a = int32 (fold (\<lambda>s acc. f acc (g s)) xs a)"
    by simp
qed

lemma int32_ParseInt: "int32 (ParseInt s) = ParseInt s"
  by (simp add: ParseInt_def int32_idem)

lemma fold_minus: "fold (\<lambda>s acc. acc - g s) xs a = a - (\<Sum>x\<leftarrow>xs. g x :: int)"
  by (induction xs arbitrary: a) auto

lemma fold_plus: "fold (\<lambda>s acc. acc + g s) xs a = a + (\<Sum>x\<leftarrow>xs. g x :: int)"
  by (induction xs arbitrary: a) auto

lemma fold_times: "fold (\<lambda>s acc. acc * g s) xs a = a * (\<Prod>x\<leftarrow>xs. g x :: int)"
  by (induction xs arbitrary: a) (auto simp: ac_simps)

section \<open>Properties\<close>

text \<open>Sums, differences and products of any number of arguments are the exact ones, wrapped around to
  32 bits once at the end.\<close>

theorem integer_macros_wrap:
  "EvalIAdd out args w = (Ok (), wrote out (itoa (int32 (\<Sum>s\<leftarrow>qa_vals args. ParseInt s))) w) \<and>
   EvalISub out args w = (Ok (), wrote out (itoa (int32 (ParseInt (GetAt args 0) - (\<Sum>s\<leftarrow>drop 1 (qa_vals args). ParseInt s)))) w) \<and>
   EvalIMult out args w = (Ok (), wrote out (itoa (int32 (ParseInt (GetAt args 0) * (\<Prod>s\<leftarrow>drop 1 (qa_vals args). ParseInt s)))) w)"
  using fold_wrapped [of "(+)" 0 ParseInt "qa_vals args", OF int32_add]
    fold_wrapped [of "(-)" "ParseInt (GetAt args 0)" ParseInt "drop 1 (qa_vals args)", OF int32_diff int32_ParseInt]
    fold_wrapped [of "(*)" "ParseInt (GetAt args 0)" ParseInt "drop 1 (qa_vals args)", OF int32_mult int32_ParseInt]
  by (simp add: EvalIAdd_def EvalISub_def EvalIMult_def PutN_def PutS_wrote fold_plus fold_minus fold_times int32_id)

end
