(* ===== verification/Regx.thy ===== *)
theory Regx
  imports Prelude
begin

text \<open>
  The regular expressions of \<^verbatim>\<open>regx.cpp\<close> and \<^verbatim>\<open>regx.h\<close> (class \<^verbatim>\<open>CRegX\<close>): a compiler from patterns to a
  linear program of nodes, and a matcher that runs the program on a text by backtracking. A node is
  an operation code with a 16-bit offset to the next node, then its operand. A pointer into the
  program or into the text is an index. \<^verbatim>\<open>malloc\<close> and \<^verbatim>\<open>realloc\<close> are taken to succeed.
\<close>

section \<open>The object\<close>

record rx =
  m_code :: bytes
  m_code_size :: nat
  m_sensitive :: bool
  m_errmsg :: "bytes option"
  m_start :: char
  m_anchor :: bool
  m_must :: "nat option"
  m_must_len :: nat
  m_input :: bytes
  m_input_ptr :: nat
  m_subx_count :: int
  m_startp :: "nat option list"
  m_endp :: "nat option list"

text \<open>
  \<^verbatim>\<open>m_code\<close> is the program written so far (\<^verbatim>\<open>m_code_ptr\<close> is its length), \<^verbatim>\<open>m_code_size\<close> the allocated
  size, 0 for a null \<^verbatim>\<open>m_code\<close>. The constructor leaves all of \<^verbatim>\<open>m_startp\<close> and \<^verbatim>\<open>m_endp\<close> but the first
  element unset, which is \<^verbatim>\<open>None\<close> here; a search does not reset the groups it does not come to.
\<close>

definition MAX_SUBX :: nat where "MAX_SUBX = 35"
definition s_code_grow :: nat where "s_code_grow = 2048"

definition new_rx :: rx where
  "new_rx = \<lparr>m_code = [], m_code_size = 0, m_sensitive = True, m_errmsg = None, m_start = NUL, m_anchor = False,
     m_must = None, m_must_len = 0, m_input = [], m_input_ptr = 0, m_subx_count = -1,
     m_startp = replicate MAX_SUBX None, m_endp = replicate MAX_SUBX None\<rparr>"

definition SetCase :: "bool \<Rightarrow> rx \<Rightarrow> rx" where
  "SetCase b x = x\<lparr>m_sensitive := b\<rparr>"

text \<open>
  Results: \<^verbatim>\<open>Refused\<close> is a null return of the compiler, with the message set; \<^verbatim>\<open>Wild\<close> an access outside
  the buffers or through a pointer into a buffer that \<^verbatim>\<open>realloc\<close> has taken away; \<^verbatim>\<open>Deep\<close> is
  recursion beyond the bound of the model.
\<close>

datatype 'a step = Done 'a rx | Refused rx | Wild | Deep

fun bind_step :: "'a step \<Rightarrow> ('a \<Rightarrow> rx \<Rightarrow> 'b step) \<Rightarrow> 'b step" where
  "bind_step (Done a x) f = f a x"
| "bind_step (Refused x) f = Refused x"
| "bind_step Wild f = Wild"
| "bind_step Deep f = Deep"

definition SetError :: "bytes \<Rightarrow> rx \<Rightarrow> rx" where
  "SetError msg x = x\<lparr>m_errmsg := Some msg\<rparr>"

definition FAIL :: "bytes \<Rightarrow> rx \<Rightarrow> 'a step" where
  "FAIL msg x = Refused (SetError msg x)"

section \<open>Nodes\<close>

abbreviation (input) END :: nat where "END \<equiv> 0"
abbreviation (input) BOL :: nat where "BOL \<equiv> 1"
abbreviation (input) EOL :: nat where "EOL \<equiv> 2"
abbreviation (input) ANY :: nat where "ANY \<equiv> 3"
abbreviation (input) ANYOF :: nat where "ANYOF \<equiv> 4"
abbreviation (input) ANYBUT :: nat where "ANYBUT \<equiv> 5"
abbreviation (input) BRANCH :: nat where "BRANCH \<equiv> 6"
abbreviation (input) BACK :: nat where "BACK \<equiv> 7"
abbreviation (input) EXACTLY :: nat where "EXACTLY \<equiv> 8"
abbreviation (input) NOTHING :: nat where "NOTHING \<equiv> 9"
abbreviation (input) STAR :: nat where "STAR \<equiv> 10"
abbreviation (input) PLUS :: nat where "PLUS \<equiv> 11"
abbreviation (input) WORDA :: nat where "WORDA \<equiv> 12"
abbreviation (input) WORDZ :: nat where "WORDZ \<equiv> 13"
abbreviation (input) STARX :: nat where "STARX \<equiv> 14"
abbreviation (input) PLUSX :: nat where "PLUSX \<equiv> 15"
abbreviation (input) OPEN :: nat where "OPEN \<equiv> 20"
abbreviation (input) CLOSE :: nat where "CLOSE \<equiv> 56"
abbreviation (input) MAGIC :: nat where "MAGIC \<equiv> 92"

definition OP :: "bytes \<Rightarrow> nat \<Rightarrow> nat" where
  "OP c p = uc (c ! p)"

definition NEXT :: "bytes \<Rightarrow> nat \<Rightarrow> nat" where
  "NEXT c p = uc (c ! (p + 1)) * 256 + uc (c ! (p + 2))"

abbreviation OPERAND :: "nat \<Rightarrow> nat" where
  "OPERAND p \<equiv> p + 3"

text \<open>A node that can be read, its next pointer included.\<close>

definition node_ok :: "bytes \<Rightarrow> nat \<Rightarrow> bool" where
  "node_ok c p \<longleftrightarrow> p + 2 < length c \<and> (OP c p = BACK \<longrightarrow> NEXT c p \<le> p)"

definition ParseNext :: "bytes \<Rightarrow> nat \<Rightarrow> nat option" where
  "ParseNext c p =
    (if NEXT c p = 0 then None
     else if OP c p = BACK then Some (p - NEXT c p) else Some (p + NEXT c p))"

text \<open>The string operand of a node; without a terminator it runs out of the program.\<close>

definition opnd :: "bytes \<Rightarrow> nat \<Rightarrow> bytes" where
  "opnd c p = cstr (drop (OPERAND p) c)"

definition opnd_ok :: "bytes \<Rightarrow> nat \<Rightarrow> bool" where
  "opnd_ok c p \<longleftrightarrow> NUL \<in> set (drop (OPERAND p) c)"

section \<open>Writing the program\<close>

definition put_code :: "bytes \<Rightarrow> rx \<Rightarrow> unit step" where
  "put_code bs x = (if length (m_code x) + length bs \<le> m_code_size x
     then Done () (x\<lparr>m_code := m_code x @ bs\<rparr>) else Wild)"

definition RxParseC :: "char \<Rightarrow> rx \<Rightarrow> unit step" where
  "RxParseC b = put_code [b]"

definition ParseNode :: "nat \<Rightarrow> rx \<Rightarrow> nat step" where
  "ParseNode op x = bind_step (put_code [char_of op, NUL, NUL] x) (\<lambda>_. Done (length (m_code x)))"

definition ParseInsert :: "nat \<Rightarrow> nat \<Rightarrow> rx \<Rightarrow> unit step" where
  "ParseInsert op p x = (if length (m_code x) + 3 \<le> m_code_size x
     then Done () (x\<lparr>m_code := take p (m_code x) @ [char_of op, NUL, NUL] @ drop p (m_code x)\<rparr>) else Wild)"

definition ParseGrowBuf :: "nat \<Rightarrow> rx \<Rightarrow> rx" where
  "ParseGrowBuf n x = (if length (m_code x) + n > m_code_size x
     then x\<lparr>m_code_size := m_code_size x + s_code_grow\<rparr> else x)"

text \<open>The last node of a chain. The first argument bounds the length of the chain.\<close>

fun chain_end :: "nat \<Rightarrow> bytes \<Rightarrow> nat \<Rightarrow> nat option" where
  "chain_end 0 c p = None"
| "chain_end (Suc n) c p =
    (if node_ok c p then (case ParseNext c p of None \<Rightarrow> Some p | Some q \<Rightarrow> chain_end n c q) else None)"

definition set_next :: "bytes \<Rightarrow> nat \<Rightarrow> nat \<Rightarrow> bytes" where
  "set_next c p val =
    (let offset = (if OP c p = BACK then int p - int val else int val - int p)
     in c[p + 1 := char_of (nat (offset div 256 mod 256)), p + 2 := char_of (nat (offset mod 256))])"

definition ParseTail :: "nat \<Rightarrow> nat \<Rightarrow> rx \<Rightarrow> unit step" where
  "ParseTail p val x =
    (case chain_end (length (m_code x)) (m_code x) p of None \<Rightarrow> Wild
     | Some q \<Rightarrow> Done () (x\<lparr>m_code := set_next (m_code x) q val\<rparr>))"

definition ParseOpTail :: "nat \<Rightarrow> nat \<Rightarrow> rx \<Rightarrow> unit step" where
  "ParseOpTail p val x = (if OP (m_code x) p \<noteq> BRANCH then Done () x else ParseTail (OPERAND p) val x)"

text \<open>The tails of the branches are hooked to the closing node.\<close>

fun hook_tails :: "nat \<Rightarrow> nat \<Rightarrow> nat \<Rightarrow> rx \<Rightarrow> unit step" where
  "hook_tails 0 br ender x = Wild"
| "hook_tails (Suc n) br ender x =
    (if node_ok (m_code x) br then
       bind_step (ParseOpTail br ender x) (\<lambda>_ x.
         case ParseNext (m_code x) br of None \<Rightarrow> Done () x | Some q \<Rightarrow> hook_tails n q ender x)
     else Wild)"

section \<open>Patterns\<close>

text \<open>What \<^verbatim>\<open>*parse\<close> reads; the rest of the pattern has no NUL before its end.\<close>

definition peek :: "bytes \<Rightarrow> char" where
  "peek s = (case s of [] \<Rightarrow> NUL | c # _ \<Rightarrow> c)"

record flags =
  HASWIDTH :: bool
  SIMPLE :: bool
  SPSTART :: bool

definition WORST :: flags where
  "WORST = \<lparr>HASWIDTH = False, SIMPLE = False, SPSTART = False\<rparr>"

definition ISMULT :: "char \<Rightarrow> bool" where
  "ISMULT c \<longleftrightarrow> c = CHR ''*'' \<or> c = CHR ''+'' \<or> c = CHR ''?''"

text \<open>The characters a range adds: those after its first, which is written already.\<close>

definition range_chars :: "bool \<Rightarrow> nat \<Rightarrow> nat \<Rightarrow> bytes" where
  "range_chars sensitive a b =
    (if sensitive then map char_of [a..<b + 1]
     else concat (map (\<lambda>i. if c_isalpha (char_of i) then [c_tolower (char_of i), c_toupper (char_of i)] else [char_of i])
       [a..<b + 1]))"

text \<open>The characters of a set up to the closing bracket; the first argument is the previous one.\<close>

fun class_loop :: "char \<Rightarrow> bytes \<Rightarrow> rx \<Rightarrow> bytes step" where
  "class_loop prev [] x = Done [] x"
| "class_loop prev (c # s) x =
    (if c = CHR '']'' then Done (c # s) x
     else if c = CHR ''-'' then
       (case s of
          [] \<Rightarrow> bind_step (RxParseC c x) (\<lambda>_. Done [])
        | d # s' \<Rightarrow>
          if d = CHR '']'' then bind_step (RxParseC c x) (\<lambda>_. Done s)
          else if uc prev + 1 > uc d + 1 then FAIL ''invalid [] range'' x
          else bind_step (put_code (range_chars (m_sensitive x) (uc prev + 1) (uc d)) x) (\<lambda>_. class_loop d s'))
     else bind_step (RxParseC c x) (\<lambda>_. class_loop c s))"

definition ParseClass :: "bytes \<Rightarrow> rx \<Rightarrow> (nat \<times> bytes) step" where
  "ParseClass s x =
    bind_step (if peek s = CHR ''^'' then bind_step (ParseNode ANYBUT x) (\<lambda>r. Done (r, tl s))
               else bind_step (ParseNode ANYOF x) (\<lambda>r. Done (r, s)))
    (\<lambda>(r, s) x. bind_step
      (if peek s = CHR '']'' \<or> peek s = CHR ''-''
       then bind_step (RxParseC (peek s) x) (\<lambda>_. class_loop (peek s) (tl s))
       else class_loop (CHR ''['') s x)
    (\<lambda>s x. bind_step (RxParseC NUL x)
    (\<lambda>_ x. if peek s \<noteq> CHR '']'' then FAIL ''unmatched []'' x else Done (r, tl s) x)))"

text \<open>
  A run of ordinary characters, up to one that a \<^verbatim>\<open>*\<close>, \<^verbatim>\<open>+\<close> or \<^verbatim>\<open>?\<close> follows. The first argument is
  \<^verbatim>\<open>regprev\<close>: where the character at hand starts, null for the first one.
\<close>

definition magic_char :: "char \<Rightarrow> bool" where
  "magic_char c \<longleftrightarrow> c \<in> set ''.[()|$^'' \<or> c = NL \<or> c = NUL"

fun lit_loop :: "bytes option \<Rightarrow> bytes \<Rightarrow> rx \<Rightarrow> (bytes option \<times> bytes) step" where
  "lit_loop regprev [] x = Wild"
| "lit_loop regprev (ch # s) x =
    (if magic_char (peek s) then bind_step (RxParseC ch x) (\<lambda>_. Done (regprev, s))
     else if ISMULT (peek s) then
       (case regprev of None \<Rightarrow> bind_step (RxParseC ch x) (\<lambda>_. Done (regprev, s))
        | Some b \<Rightarrow> Done (regprev, b) x)
     else if peek s = BSL then
       bind_step (RxParseC ch x) (\<lambda>_ x.
         if peek (tl s) = NUL \<or> peek (tl s) = CHR ''<'' \<or> peek (tl s) = CHR ''>'' then Done (regprev, s) x
         else lit_loop (Some s) (tl s) x)
     else bind_step (RxParseC ch x) (\<lambda>_. lit_loop (Some s) s))"

definition ParseLit :: "bytes \<Rightarrow> rx \<Rightarrow> (nat \<times> flags \<times> bytes) step" where
  "ParseLit s x =
    bind_step (ParseNode EXACTLY x) (\<lambda>r x.
    bind_step (lit_loop None s x) (\<lambda>(regprev, s) x.
    bind_step (RxParseC NUL x) (\<lambda>_.
    Done (r, WORST\<lparr>HASWIDTH := True, SIMPLE := (regprev = None)\<rparr>, s))))"

section \<open>The compiler\<close>

text \<open>
  The parser's functions take the rest of the pattern and return the first node, the flags and the
  rest. \<^verbatim>\<open>alt_loop\<close> and \<^verbatim>\<open>branch_loop\<close> are the loops of \<^verbatim>\<open>Parse\<close> and \<^verbatim>\<open>ParseBranch\<close>; each turn reads a
  character. \<^verbatim>\<open>RxParse\<close> (\<^verbatim>\<open>Parse\<close> in the source) is bounded by the nesting of parentheses. Growing the
  buffer in \<^verbatim>\<open>ParsePiece\<close> moves it away from the pointers its callers hold.
\<close>

definition ParseMult :: "nat \<Rightarrow> flags \<Rightarrow> bytes \<Rightarrow> rx \<Rightarrow> (nat \<times> flags \<times> bytes) step" where
  "ParseMult r fl s x =
    (let op = peek s;
         fl' = (if op \<noteq> CHR ''+'' then WORST\<lparr>SPSTART := True\<rparr> else WORST\<lparr>HASWIDTH := True\<rparr>);
         lazy = (peek (tl s) = CHR ''?'')
     in bind_step
      (if \<not> HASWIDTH fl \<and> op \<noteq> CHR ''?'' then FAIL ''*+ operand could be empty'' x
       else if op = CHR ''*'' \<and> SIMPLE fl then
         (if lazy then bind_step (ParseInsert STARX r x) (\<lambda>_. Done (tl s))
          else bind_step (ParseInsert STAR r x) (\<lambda>_. Done s))
       else if op = CHR ''*'' then
         bind_step (ParseInsert BRANCH r x) (\<lambda>_ x.
         bind_step (ParseNode BACK x) (\<lambda>b x.
         bind_step (ParseOpTail r b x) (\<lambda>_ x.
         bind_step (ParseOpTail r r x) (\<lambda>_ x.
         bind_step (ParseNode BRANCH x) (\<lambda>b x.
         bind_step (ParseTail r b x) (\<lambda>_ x.
         bind_step (ParseNode NOTHING x) (\<lambda>b x.
         bind_step (ParseTail r b x) (\<lambda>_. Done s))))))))
       else if op = CHR ''+'' \<and> SIMPLE fl then
         (if lazy then bind_step (ParseInsert PLUSX r x) (\<lambda>_. Done (tl s))
          else bind_step (ParseInsert PLUS r x) (\<lambda>_. Done s))
       else if op = CHR ''+'' then
         bind_step (ParseNode BRANCH x) (\<lambda>next x.
         bind_step (ParseTail r next x) (\<lambda>_ x.
         bind_step (ParseNode BACK x) (\<lambda>b x.
         bind_step (ParseTail b r x) (\<lambda>_ x.
         bind_step (ParseNode BRANCH x) (\<lambda>b x.
         bind_step (ParseTail next b x) (\<lambda>_ x.
         bind_step (ParseNode NOTHING x) (\<lambda>b x.
         bind_step (ParseTail r b x) (\<lambda>_. Done s))))))))
       else
         bind_step (ParseInsert BRANCH r x) (\<lambda>_ x.
         bind_step (ParseNode BRANCH x) (\<lambda>b x.
         bind_step (ParseTail r b x) (\<lambda>_ x.
         bind_step (ParseNode NOTHING x) (\<lambda>next x.
         bind_step (ParseTail r next x) (\<lambda>_ x.
         bind_step (ParseOpTail r next x) (\<lambda>_. Done s)))))))
     (\<lambda>s x. if ISMULT (peek (tl s)) then FAIL ''nested *?+'' x else Done (r, fl', tl s) x))"

type_synonym piece_parser = "bytes \<Rightarrow> rx \<Rightarrow> (nat \<times> flags \<times> bytes) step"

text \<open>\<^verbatim>\<open>P\<close> parses what follows an opening parenthesis.\<close>

definition ParseAtom :: "piece_parser \<Rightarrow> piece_parser" where
  "ParseAtom P s x =
    (let c = peek s in
     if c = CHR ''^'' then bind_step (ParseNode BOL x) (\<lambda>r. Done (r, WORST, tl s))
     else if c = CHR ''$'' then bind_step (ParseNode EOL x) (\<lambda>r. Done (r, WORST, tl s))
     else if c = CHR ''.'' then bind_step (ParseNode ANY x) (\<lambda>r. Done (r, WORST\<lparr>HASWIDTH := True, SIMPLE := True\<rparr>, tl s))
     else if c = CHR ''['' then
       bind_step (ParseClass (tl s) x) (\<lambda>(r, s). Done (r, WORST\<lparr>HASWIDTH := True, SIMPLE := True\<rparr>, s))
     else if c = CHR ''('' then
       bind_step (P (tl s) x) (\<lambda>(r, fl, s). Done (r, fl\<lparr>SIMPLE := False\<rparr>, s))
     else if c = NUL \<or> c = CHR ''|'' \<or> c = NL \<or> c = CHR '')'' then FAIL ''internal urp'' x
     else if ISMULT c then FAIL ''?+* follows nothing'' x
     else if c = BSL then
       (let d = peek (tl s) in
        if d = NUL then FAIL (''trailing '' @ [BSL]) x
        else if d = CHR ''<'' then bind_step (ParseNode WORDA x) (\<lambda>r. Done (r, WORST, tl (tl s)))
        else if d = CHR ''>'' then bind_step (ParseNode WORDZ x) (\<lambda>r. Done (r, WORST, tl (tl s)))
        else ParseLit (tl s) x)
     else ParseLit s x)"

definition ParsePiece :: "piece_parser \<Rightarrow> piece_parser" where
  "ParsePiece P s x =
    (if m_code_size (ParseGrowBuf 255 x) \<noteq> m_code_size x then Wild
     else bind_step (ParseAtom P s x) (\<lambda>(r, fl, s) x.
       if ISMULT (peek s) then ParseMult r fl s x else Done (r, fl, s) x))"

fun branch_loop :: "nat \<Rightarrow> piece_parser \<Rightarrow> nat option \<Rightarrow> flags \<Rightarrow> bytes \<Rightarrow> rx \<Rightarrow> (flags \<times> bytes) step" where
  "branch_loop 0 P chain fl s x = Deep"
| "branch_loop (Suc n) P chain fl s x =
    (if peek s \<noteq> NUL \<and> peek s \<noteq> CHR '')'' \<and> peek s \<noteq> NL \<and> peek s \<noteq> CHR ''|'' then
       bind_step (ParsePiece P s x) (\<lambda>(latest, fl', s) x.
       bind_step (case chain of None \<Rightarrow> Done () x | Some p \<Rightarrow> ParseTail p latest x) (\<lambda>_.
       branch_loop n P (Some latest)
         (fl\<lparr>HASWIDTH := HASWIDTH fl \<or> HASWIDTH fl', SPSTART := SPSTART fl \<or> (chain = None \<and> SPSTART fl')\<rparr>) s))
     else case chain of None \<Rightarrow> bind_step (ParseNode NOTHING x) (\<lambda>_. Done (fl, s)) | Some _ \<Rightarrow> Done (fl, s) x)"

definition ParseBranch :: "piece_parser \<Rightarrow> piece_parser" where
  "ParseBranch P s x =
    bind_step (ParseNode BRANCH x) (\<lambda>r x.
    bind_step (branch_loop (length s + 1) P None WORST s x) (\<lambda>(fl, s). Done (r, fl, s)))"

fun alt_loop :: "nat \<Rightarrow> piece_parser \<Rightarrow> nat \<Rightarrow> flags \<Rightarrow> bytes \<Rightarrow> rx \<Rightarrow> (flags \<times> bytes) step" where
  "alt_loop 0 P ret fl s x = Deep"
| "alt_loop (Suc n) P ret fl s x =
    (if peek s = CHR ''|'' \<or> peek s = NL then
       bind_step (ParseBranch P (tl s) x) (\<lambda>(br, fl', s) x.
       bind_step (ParseTail ret br x) (\<lambda>_.
       alt_loop n P ret (fl\<lparr>HASWIDTH := HASWIDTH fl \<and> HASWIDTH fl', SPSTART := SPSTART fl \<or> SPSTART fl'\<rparr>) s))
     else Done (fl, s) x)"

primrec RxParse :: "nat \<Rightarrow> bool \<Rightarrow> piece_parser" where
  "RxParse 0 paren s x = Deep"
| "RxParse (Suc n) paren s x =
    (if paren \<and> m_subx_count x \<ge> int MAX_SUBX then FAIL ''too many ()'' x
     else
       let parno = nat (m_subx_count x); P = RxParse n True in
       bind_step
         (if paren then bind_step (ParseNode (OPEN + parno) (x\<lparr>m_subx_count := m_subx_count x + 1\<rparr>)) (\<lambda>r. Done (Some r))
          else Done None x) (\<lambda>first x.
       bind_step (ParseBranch P s x) (\<lambda>(br, fl, s) x.
       bind_step (case first of Some r \<Rightarrow> ParseTail r br x | None \<Rightarrow> Done () x) (\<lambda>_ x.
       let ret = (case first of Some r \<Rightarrow> r | None \<Rightarrow> br) in
       bind_step (alt_loop (length s + 1) P ret (WORST\<lparr>HASWIDTH := HASWIDTH fl, SPSTART := SPSTART fl\<rparr>) s x) (\<lambda>(fl, s) x.
       bind_step (ParseNode (if paren then CLOSE + parno else END) x) (\<lambda>ender x.
       bind_step (ParseTail ret ender x) (\<lambda>_ x.
       bind_step (hook_tails (length (m_code x)) ret ender x) (\<lambda>_ x.
       if paren \<and> peek s \<noteq> CHR '')'' then FAIL ''unmatched ()'' x
       else if \<not> paren \<and> peek s \<noteq> NUL then
         (if peek s = CHR '')'' then FAIL ''unmatched ()'' x else FAIL ''junk on end'' x)
       else Done (ret, fl, if paren then tl s else s) x))))))))"

text \<open>The longest literal on the chain of the only branch, the last of several.\<close>

fun longest_must :: "nat \<Rightarrow> bytes \<Rightarrow> nat \<Rightarrow> nat option \<Rightarrow> nat \<Rightarrow> (nat option \<times> nat) option" where
  "longest_must 0 c scan longest len = None"
| "longest_must (Suc n) c scan longest len =
    (if node_ok c scan \<and> (OP c scan = EXACTLY \<longrightarrow> opnd_ok c scan) then
       let (longest, len) =
         (if OP c scan = EXACTLY \<and> length (opnd c scan) \<ge> len then (Some (OPERAND scan), length (opnd c scan))
          else (longest, len))
       in (case ParseNext c scan of None \<Rightarrow> Some (longest, len) | Some q \<Rightarrow> longest_must n c q longest len)
     else None)"

definition Optimise :: "flags \<Rightarrow> rx \<Rightarrow> bool step" where
  "Optimise fl x =
    (let c = m_code x; x = x\<lparr>m_start := NUL, m_anchor := False, m_must := None, m_must_len := 0\<rparr> in
     if \<not> node_ok c 1 then Wild
     else case ParseNext c 1 of None \<Rightarrow> Wild
     | Some q \<Rightarrow>
       if \<not> q < length c then Wild
       else if OP c q \<noteq> END then Done True x
       else
         let scan = OPERAND 1;
             x = (if OP c scan = EXACTLY then x\<lparr>m_start := c ! OPERAND scan\<rparr>
                  else if OP c scan = BOL then x\<lparr>m_anchor := True\<rparr> else x)
         in if SPSTART fl then
              (case longest_must (length c) c scan None 0 of None \<Rightarrow> Wild
               | Some (longest, len) \<Rightarrow> Done True (x\<lparr>m_must := longest, m_must_len := len\<rparr>))
            else Done True x)"

definition Compile :: "bytes option \<Rightarrow> rx \<Rightarrow> bool step" where
  "Compile exp x =
    (case exp of None \<Rightarrow> Done False (SetError ''NULL argument'' x)
     | Some exp \<Rightarrow>
       let exp = cstr exp;
           x = (if m_code_size x = 0 then ParseGrowBuf (length exp * 3 + 8) x else x);
           r = bind_step (RxParseC (char_of MAGIC) (x\<lparr>m_subx_count := 1, m_code := []\<rparr>))
             (\<lambda>_ x. bind_step (RxParse (length exp + 1) False exp x) (\<lambda>(_, fl, _). Optimise fl))
       in (case r of Refused x \<Rightarrow> Done False x | _ \<Rightarrow> r))"

section \<open>The matcher\<close>

text \<open>The character at a position of the text; the text ends with a NUL.\<close>

definition char_at :: "bytes \<Rightarrow> nat \<Rightarrow> char" where
  "char_at s i = (if i < length s then s ! i else NUL)"

definition wordchar :: "char \<Rightarrow> bool" where
  "wordchar c \<longleftrightarrow> c_isalnum c \<or> c = CHR ''_''"

definition same_char :: "bool \<Rightarrow> char \<Rightarrow> char \<Rightarrow> bool" where
  "same_char sensitive a b \<longleftrightarrow> (if sensitive then a = b else c_tolower a = c_tolower b)"

definition lit_here :: "bool \<Rightarrow> bytes \<Rightarrow> bytes \<Rightarrow> bool" where
  "lit_here sensitive w t \<longleftrightarrow> peek w = peek t \<and>
    (length w > 1 \<longrightarrow>
      (if sensitive then take (length w) t = w else map c_tolower (take (length w) t) = map c_tolower w))"

text \<open>\<^verbatim>\<open>MatchRepeat\<close>: how often the simple operand at \<^verbatim>\<open>p\<close> matches.\<close>

definition MatchRepeat :: "nat \<Rightarrow> rx \<Rightarrow> nat step" where
  "MatchRepeat p x =
    (let c = m_code x; t = drop (m_input_ptr x) (m_input x) in
     if \<not> p < length c \<or> (OP c p \<in> {ANYOF, ANYBUT, EXACTLY} \<and> \<not> opnd_ok c p) then Wild
     else if OP c p = ANY then Done (length t) (x\<lparr>m_input_ptr := m_input_ptr x + length t\<rparr>)
     else if OP c p = EXACTLY then
       (if opnd c p = [] then Wild
        else let n = length (takeWhile (\<lambda>d. same_char (m_sensitive x) (hd (opnd c p)) d) t)
             in Done n (x\<lparr>m_input_ptr := m_input_ptr x + n\<rparr>))
     else if OP c p = ANYOF then
       (let n = length (takeWhile (\<lambda>d. d \<in> set (opnd c p)) t) in Done n (x\<lparr>m_input_ptr := m_input_ptr x + n\<rparr>))
     else if OP c p = ANYBUT then
       (let n = length (takeWhile (\<lambda>d. d \<notin> set (opnd c p)) t) in Done n (x\<lparr>m_input_ptr := m_input_ptr x + n\<rparr>))
     else Done 0 (SetError ''MatchRepeat - internal foulup'' x))"

text \<open>The loops that try what follows after fewer and fewer, or more and more, repetitions.\<close>

definition next_ok :: "bytes \<Rightarrow> nat option \<Rightarrow> bool" where
  "next_ok c next =
    (case next of None \<Rightarrow> True | Some q \<Rightarrow> q < length c \<and> (OP c q = EXACTLY \<longrightarrow> OPERAND q < length c))"

definition next_char :: "bytes \<Rightarrow> nat option \<Rightarrow> char" where
  "next_char c next = (case next of None \<Rightarrow> NUL | Some q \<Rightarrow> if OP c q = EXACTLY then c ! OPERAND q else NUL)"

definition could_work :: "char \<Rightarrow> rx \<Rightarrow> bool" where
  "could_work nextch x \<longleftrightarrow>
    nextch = NUL \<or> same_char (m_sensitive x) (char_at (m_input x) (m_input_ptr x)) nextch"

fun greedy_loop :: "(rx \<Rightarrow> bool step) \<Rightarrow> char \<Rightarrow> nat \<Rightarrow> nat \<Rightarrow> nat \<Rightarrow> rx \<Rightarrow> bool step" where
  "greedy_loop m nextch save mini no x =
    (if no < mini then Done False x
     else bind_step (if could_work nextch x then m x else Done False x) (\<lambda>b x.
       if b then Done True x
       else case no of 0 \<Rightarrow> Done False x
         | Suc n \<Rightarrow> greedy_loop m nextch save mini n (x\<lparr>m_input_ptr := save + n\<rparr>)))"

function lazy_loop :: "(rx \<Rightarrow> bool step) \<Rightarrow> char \<Rightarrow> nat \<Rightarrow> nat \<Rightarrow> nat \<Rightarrow> rx \<Rightarrow> bool step" where
  "lazy_loop m nextch save maxi no x =
    (if no > maxi then Done False x
     else let x = x\<lparr>m_input_ptr := save + no\<rparr> in
       bind_step (if could_work nextch x then m x else Done False x) (\<lambda>b x.
       if b then Done True x else lazy_loop m nextch save maxi (no + 1) x))"
  by pat_completeness auto
termination by (relation "measure (\<lambda>(m, nextch, save, maxi, no, x). maxi + 1 - no)") auto

text \<open>The alternatives of a chain of branches; the first argument bounds its length.\<close>

fun try_branches :: "nat \<Rightarrow> (nat \<Rightarrow> rx \<Rightarrow> bool step) \<Rightarrow> nat option \<Rightarrow> rx \<Rightarrow> bool step" where
  "try_branches 0 m scan x = Deep"
| "try_branches (Suc n) m scan x =
    (case scan of None \<Rightarrow> Done False x
     | Some p \<Rightarrow>
       if \<not> node_ok (m_code x) p then Wild
       else if OP (m_code x) p \<noteq> BRANCH then Done False x
       else let save = m_input_ptr x in
         bind_step (m (OPERAND p) x) (\<lambda>b x.
           if b then Done True x
           else try_branches n m (ParseNext (m_code x) p) (x\<lparr>m_input_ptr := save\<rparr>)))"

text \<open>
  One node of \<^verbatim>\<open>MatchX\<close>, which is \<^verbatim>\<open>M\<close>; a turn of its loop that goes on with \<^verbatim>\<open>next\<close> is a call.
\<close>

definition match_node :: "(nat option \<Rightarrow> rx \<Rightarrow> bool step) \<Rightarrow> nat \<Rightarrow> nat \<Rightarrow> rx \<Rightarrow> bool step" where
  "match_node M n scan x =
    (let c = m_code x; s = m_input x; i = m_input_ptr x; here = char_at s i; next = ParseNext c scan;
           op = OP c scan
       in
       if \<not> node_ok c scan \<or> (op \<in> {EXACTLY, ANYOF, ANYBUT} \<and> \<not> opnd_ok c scan)
          \<or> (op \<in> {BRANCH, STAR, PLUS, STARX, PLUSX} \<and> \<not> next_ok c next) then Wild
       else if op = BOL then (if i \<noteq> 0 then Done False x else M next x)
       else if op = EOL then (if here \<noteq> NUL then Done False x else M next x)
       else if op = WORDA then
         (if \<not> wordchar here \<or> (i > 0 \<and> wordchar (char_at s (i - 1))) then Done False x else M next x)
       else if op = WORDZ then (if wordchar here then Done False x else M next x)
       else if op = ANY then (if here = NUL then Done False x else M next (x\<lparr>m_input_ptr := i + 1\<rparr>))
       else if op = EXACTLY then
         (if lit_here (m_sensitive x) (opnd c scan) (drop i s)
          then M next (x\<lparr>m_input_ptr := i + length (opnd c scan)\<rparr>) else Done False x)
       else if op = ANYOF then
         (if here = NUL \<or> here \<notin> set (opnd c scan) then Done False x else M next (x\<lparr>m_input_ptr := i + 1\<rparr>))
       else if op = ANYBUT then
         (if here = NUL \<or> here \<in> set (opnd c scan) then Done False x else M next (x\<lparr>m_input_ptr := i + 1\<rparr>))
       else if op = NOTHING \<or> op = BACK then M next x
       else if OPEN + 1 \<le> op \<and> op \<le> OPEN + 9 then
         (let no = op - OPEN;
              x = (if int no > m_subx_count x
                   then x\<lparr>m_subx_count := int no, m_startp := (m_startp x)[no := None], m_endp := (m_endp x)[no := None]\<rparr>
                   else x)
          in bind_step (M next x) (\<lambda>b x.
            if b then Done True (x\<lparr>m_startp := (m_startp x)[no := Some i]\<rparr>) else Done False x))
       else if CLOSE + 1 \<le> op \<and> op \<le> CLOSE + 9 then
         (let no = op - CLOSE
          in bind_step (M next x) (\<lambda>b x.
            if b then Done True (if m_endp x ! no = None then x\<lparr>m_endp := (m_endp x)[no := Some i]\<rparr> else x)
            else Done False x))
       else if op = BRANCH then
         (if next = None \<or> OP c (the next) \<noteq> BRANCH then M (Some (OPERAND scan)) x
          else try_branches n (\<lambda>p. M (Some p)) (Some scan) x)
       else if op = STAR \<or> op = PLUS then
         bind_step (MatchRepeat (OPERAND scan) x) (\<lambda>no.
           greedy_loop (M next) (next_char c next) i (if op = STAR then 0 else 1) no)
       else if op = STARX \<or> op = PLUSX then
         bind_step (MatchRepeat (OPERAND scan) x) (\<lambda>maxi.
           lazy_loop (M next) (next_char c next) i maxi (if op = STARX then 0 else 1))
       else if op = END then Done True x
       else Done False (SetError ''invalid opcode'' x))"

primrec MatchX :: "nat \<Rightarrow> nat option \<Rightarrow> rx \<Rightarrow> bool step" where
  "MatchX 0 prog x = Deep"
| "MatchX (Suc n) prog x =
    (case prog of None \<Rightarrow> Done False (SetError ''corrupted pointers'' x)
     | Some scan \<Rightarrow> match_node (MatchX n) n scan x)"

definition MatchTry :: "nat \<Rightarrow> nat \<Rightarrow> rx \<Rightarrow> bool step" where
  "MatchTry n i x =
    bind_step (MatchX n (Some 1) (x\<lparr>m_input_ptr := i, m_subx_count := 0\<rparr>)) (\<lambda>b x.
      if b then Done True (x\<lparr>m_startp := (m_startp x)[0 := Some i], m_endp := (m_endp x)[0 := Some (m_input_ptr x)]\<rparr>)
      else Done False (x\<lparr>m_subx_count := -1\<rparr>))"

text \<open>The positions tried, from \<^verbatim>\<open>i\<close> on: those with the character a match must start with, or all.\<close>

function match_from :: "nat \<Rightarrow> bytes \<Rightarrow> nat \<Rightarrow> rx \<Rightarrow> nat step" where
  "match_from n s i x =
    (if i > length s then Done 0 x
     else if m_start x \<noteq> NUL \<and> char_at s i \<noteq> m_start x then match_from n s (i + 1) x
     else bind_step (MatchTry n i x) (\<lambda>b x. if b then Done (i + 1) x else match_from n s (i + 1) x))"
  by pat_completeness auto
termination by (relation "measure (\<lambda>(n, s, i, x). length s + 1 - i)") auto

definition match_anchored :: "nat \<Rightarrow> bytes \<Rightarrow> rx \<Rightarrow> nat step" where
  "match_anchored n s x =
    (let x = x\<lparr>m_input := s, m_subx_count := -1\<rparr> in
     if m_anchor x then bind_step (MatchTry n 0 x) (\<lambda>b. Done (if b then 1 else 0))
     else match_from n s 0 x)"

fun has_must :: "bytes \<Rightarrow> bytes \<Rightarrow> bool" where
  "has_must must [] = False"
| "has_must must (c # t) = (take (length must) (c # t) = must \<or> has_must must t)"

definition Match :: "nat \<Rightarrow> bytes option \<Rightarrow> rx \<Rightarrow> nat step" where
  "Match n string x =
    (case string of None \<Rightarrow> Done 0 (SetError ''NULL parameter'' x)
     | Some s \<Rightarrow>
       if m_code_size x = 0 then Done 0 (SetError ''NULL parameter'' x)
       else if m_code x = [] then Wild
       else if OP (m_code x) 0 \<noteq> MAGIC then Done 0 (SetError ''corrupted program'' x)
       else case m_must x of
         Some p \<Rightarrow>
           if \<not> p < length (m_code x) then Wild
           else if \<not> has_must (take (m_must_len x) (drop p (m_code x))) (cstr s) then Done 0 x
           else match_anchored n (cstr s) x
       | None \<Rightarrow> match_anchored n (cstr s) x)"

definition GetMatchInfo :: "nat \<Rightarrow> rx \<Rightarrow> (nat \<times> nat option) option" where
  "GetMatchInfo k x =
    (if int k \<le> m_subx_count x then map_option (\<lambda>p. (p, m_endp x ! k)) (m_startp x ! k) else None)"

end
