(* ===== verification/RegxCode.thy ===== *)
theory RegxCode
  imports Regx
begin

text \<open>
  The compiler of regular expressions is correct: patterns are given as abstract syntax with the
  text they are written as and the program they should become, and compiling the text of any
  well-formed pattern writes that program.
\<close>

section \<open>Patterns\<close>

text \<open>A character of a literal, with a flag for a backslash before it.\<close>

type_synonym lit = "bool \<times> char"

datatype item = Item char | Range char char
datatype assertion = LineStart | LineEnd | WordStart | WordEnd
datatype single = Dot | Class bool "item list" | Char lit

text \<open>
  In \<^verbatim>\<open>Rep pos lazy s\<close> and \<^verbatim>\<open>Many pos r\<close> the flag \<^verbatim>\<open>pos\<close> tells \<^verbatim>\<open>+\<close> from \<^verbatim>\<open>*\<close>; \<^verbatim>\<open>Class neg its\<close> is the
  complement if \<^verbatim>\<open>neg\<close> is set, and \<^verbatim>\<open>Alt nl b r\<close> is written with a line feed if \<^verbatim>\<open>nl\<close> is set.
\<close>

datatype piece =
    Lit "lit list" | Assert assertion | One single | Rep bool bool single
  | Group regex | Many bool regex | Opt piece
and branch = Empty | Seq piece branch
and regex = Last branch | Alt bool branch regex

subsection \<open>Text\<close>

fun text_char :: "lit \<Rightarrow> bytes" where
  "text_char (esc, c) = (if esc then [BSL, c] else [c])"

fun text_item :: "item \<Rightarrow> bytes" where
  "text_item (Item c) = [c]"
| "text_item (Range a b) = [a, CHR ''-'', b]"

fun text_single :: "single \<Rightarrow> bytes" where
  "text_single Dot = ''.''"
| "text_single (Class neg its) = ''['' @ (if neg then ''^'' else []) @ concat (map text_item its) @ '']''"
| "text_single (Char l) = text_char l"

fun text_assert :: "assertion \<Rightarrow> bytes" where
  "text_assert LineStart = ''^''"
| "text_assert LineEnd = ''$''"
| "text_assert WordStart = [BSL, CHR ''<'']"
| "text_assert WordEnd = [BSL, CHR ''>'']"

abbreviation mult_sign :: "bool \<Rightarrow> char" where
  "mult_sign pos \<equiv> (if pos then CHR ''+'' else CHR ''*'')"

primrec text_piece :: "piece \<Rightarrow> bytes" and text_branch :: "branch \<Rightarrow> bytes" and text_regex :: "regex \<Rightarrow> bytes" where
  "text_piece (Lit cs) = concat (map text_char cs)"
| "text_piece (Assert a) = text_assert a"
| "text_piece (One s) = text_single s"
| "text_piece (Rep pos lazy s) = text_single s @ [mult_sign pos] @ (if lazy then ''?'' else [])"
| "text_piece (Group r) = ''('' @ text_regex r @ '')''"
| "text_piece (Many pos r) = ''('' @ text_regex r @ '')'' @ [mult_sign pos]"
| "text_piece (Opt p) = text_piece p @ ''?''"
| "text_branch Empty = []"
| "text_branch (Seq p b) = text_piece p @ text_branch b"
| "text_regex (Last b) = text_branch b"
| "text_regex (Alt nl b r) = text_branch b @ [if nl then NL else CHR ''|''] @ text_regex r"

subsection \<open>Well-formed patterns\<close>

definition ordinary :: "char \<Rightarrow> bool" where
  "ordinary c \<longleftrightarrow> \<not> magic_char c \<and> \<not> ISMULT c \<and> c \<noteq> BSL"

fun wf_char :: "lit \<Rightarrow> bool" where
  "wf_char (esc, c) \<longleftrightarrow> c \<noteq> NUL \<and> (if esc then c \<noteq> CHR ''<'' \<and> c \<noteq> CHR ''>'' else ordinary c)"

text \<open>
  A bracket or a minus sign stands for itself at the beginning of a set only; ranges are not empty.
\<close>

fun wf_item :: "item \<Rightarrow> bool" where
  "wf_item (Item c) \<longleftrightarrow> c \<noteq> NUL \<and> c \<noteq> CHR '']'' \<and> c \<noteq> CHR ''-''"
| "wf_item (Range a b) \<longleftrightarrow> a \<noteq> NUL \<and> a \<noteq> CHR '']'' \<and> a \<noteq> CHR ''-'' \<and> b \<noteq> NUL \<and> b \<noteq> CHR '']'' \<and> uc a \<le> uc b"

fun wf_first_item :: "item \<Rightarrow> bool" where
  "wf_first_item (Item c) \<longleftrightarrow> c \<noteq> NUL"
| "wf_first_item (Range a b) \<longleftrightarrow> a \<noteq> NUL \<and> b \<noteq> NUL \<and> b \<noteq> CHR '']'' \<and> uc a \<le> uc b"

fun wf_single :: "single \<Rightarrow> bool" where
  "wf_single Dot \<longleftrightarrow> True"
| "wf_single (Class neg its) \<longleftrightarrow> its \<noteq> [] \<and> wf_first_item (hd its) \<and> (\<forall>i \<in> set (tl its). wf_item i)
     \<and> (\<not> neg \<longrightarrow> peek (text_item (hd its)) \<noteq> CHR ''^'')"
| "wf_single (Char l) \<longleftrightarrow> wf_char l"

text \<open>The flags of the parser: never empty, and beginning with an optional or repeated part.\<close>

primrec width :: "piece \<Rightarrow> bool" and bwidth :: "branch \<Rightarrow> bool" and rwidth :: "regex \<Rightarrow> bool" where
  "width (Lit cs) = True"
| "width (Assert a) = False"
| "width (One s) = True"
| "width (Rep pos lazy s) = pos"
| "width (Group r) = rwidth r"
| "width (Many pos r) = pos"
| "width (Opt p) = False"
| "bwidth Empty = False"
| "bwidth (Seq p b) = (width p \<or> bwidth b)"
| "rwidth (Last b) = bwidth b"
| "rwidth (Alt nl b r) = (bwidth b \<and> rwidth r)"

primrec spstart :: "piece \<Rightarrow> bool" and bspstart :: "branch \<Rightarrow> bool" and rspstart :: "regex \<Rightarrow> bool" where
  "spstart (Lit cs) = False"
| "spstart (Assert a) = False"
| "spstart (One s) = False"
| "spstart (Rep pos lazy s) = (\<not> pos)"
| "spstart (Group r) = rspstart r"
| "spstart (Many pos r) = (\<not> pos)"
| "spstart (Opt p) = True"
| "bspstart Empty = False"
| "bspstart (Seq p b) = spstart p"
| "rspstart (Last b) = bspstart b"
| "rspstart (Alt nl b r) = (bspstart b \<or> rspstart r)"

fun is_lit :: "piece \<Rightarrow> bool" where
  "is_lit (Lit cs) = True"
| "is_lit _ = False"

fun optional :: "piece \<Rightarrow> bool" where
  "optional (Lit cs) \<longleftrightarrow> length cs = 1"
| "optional (Assert a) = True"
| "optional (One s) = True"
| "optional (Group r) = True"
| "optional _ = False"

fun starts_lit :: "branch \<Rightarrow> bool" where
  "starts_lit (Seq p b) = is_lit p"
| "starts_lit Empty = False"

text \<open>Literals are as long as they can be, and what is repeated has a width.\<close>

primrec wf_piece :: "piece \<Rightarrow> bool" and wf_branch :: "branch \<Rightarrow> bool" and wf_regex :: "regex \<Rightarrow> bool" where
  "wf_piece (Lit cs) \<longleftrightarrow> cs \<noteq> [] \<and> (\<forall>c \<in> set cs. wf_char c)"
| "wf_piece (Assert a) \<longleftrightarrow> True"
| "wf_piece (One s) \<longleftrightarrow> wf_single s \<and> (\<forall>l. s \<noteq> Char l)"
| "wf_piece (Rep pos lazy s) \<longleftrightarrow> wf_single s"
| "wf_piece (Group r) \<longleftrightarrow> wf_regex r"
| "wf_piece (Many pos r) \<longleftrightarrow> wf_regex r \<and> rwidth r"
| "wf_piece (Opt p) \<longleftrightarrow> wf_piece p \<and> optional p"
| "wf_branch Empty \<longleftrightarrow> True"
| "wf_branch (Seq p b) \<longleftrightarrow> wf_piece p \<and> wf_branch b \<and> \<not> (is_lit p \<and> starts_lit b)"
| "wf_regex (Last b) \<longleftrightarrow> wf_branch b"
| "wf_regex (Alt nl b r) \<longleftrightarrow> wf_branch b \<and> wf_regex r"

text \<open>The number of groups, and how deep they nest.\<close>

primrec groups :: "piece \<Rightarrow> nat" and bgroups :: "branch \<Rightarrow> nat" and rgroups :: "regex \<Rightarrow> nat" where
  "groups (Lit cs) = 0"
| "groups (Assert a) = 0"
| "groups (One s) = 0"
| "groups (Rep pos lazy s) = 0"
| "groups (Group r) = Suc (rgroups r)"
| "groups (Many pos r) = Suc (rgroups r)"
| "groups (Opt p) = groups p"
| "bgroups Empty = 0"
| "bgroups (Seq p b) = groups p + bgroups b"
| "rgroups (Last b) = bgroups b"
| "rgroups (Alt nl b r) = bgroups b + rgroups r"

primrec depth :: "piece \<Rightarrow> nat" and bdepth :: "branch \<Rightarrow> nat" and rdepth :: "regex \<Rightarrow> nat" where
  "depth (Lit cs) = 0"
| "depth (Assert a) = 0"
| "depth (One s) = 0"
| "depth (Rep pos lazy s) = 0"
| "depth (Group r) = Suc (rdepth r)"
| "depth (Many pos r) = Suc (rdepth r)"
| "depth (Opt p) = depth p"
| "bdepth Empty = 0"
| "bdepth (Seq p b) = max (depth p) (bdepth b)"
| "rdepth (Last b) = bdepth b"
| "rdepth (Alt nl b r) = max (bdepth b) (rdepth r)"

section \<open>Programs\<close>

definition node :: "nat \<Rightarrow> nat \<Rightarrow> bytes" where
  "node op k = [char_of op, char_of (k div 256), char_of (k mod 256)]"

text \<open>The characters of a set as the compiler lists them (case matters while it compiles).\<close>

fun item_chars :: "item \<Rightarrow> bytes" where
  "item_chars (Item c) = [c]"
| "item_chars (Range a b) = a # map char_of [uc a + 1..<uc b + 1]"

fun single_code :: "nat \<Rightarrow> single \<Rightarrow> bytes" where
  "single_code k Dot = node ANY k"
| "single_code k (Class neg its) = node (if neg then ANYBUT else ANYOF) k @ concat (map item_chars its) @ [NUL]"
| "single_code k (Char l) = node EXACTLY k @ [snd l, NUL]"

fun single_len :: "single \<Rightarrow> nat" where
  "single_len Dot = 3"
| "single_len (Class neg its) = 4 + length (concat (map item_chars its))"
| "single_len (Char l) = 5"

fun assert_op :: "assertion \<Rightarrow> nat" where
  "assert_op LineStart = BOL"
| "assert_op LineEnd = EOL"
| "assert_op WordStart = WORDA"
| "assert_op WordEnd = WORDZ"

definition rep_op :: "bool \<Rightarrow> bool \<Rightarrow> nat" where
  "rep_op pos lazy = (if pos then if lazy then PLUSX else PLUS else if lazy then STARX else STAR)"

text \<open>Lengths, and where the node is whose next pointer leaves the code.\<close>

primrec plen :: "piece \<Rightarrow> nat" and tlen :: "branch \<Rightarrow> nat" and rlen :: "regex \<Rightarrow> nat" where
  "plen (Lit cs) = 4 + length cs"
| "plen (Assert a) = 3"
| "plen (One s) = single_len s"
| "plen (Rep pos lazy s) = 3 + single_len s"
| "plen (Group r) = 6 + rlen r"
| "plen (Many pos r) = 18 + rlen r"
| "plen (Opt p) = 9 + plen p"
| "tlen Empty = 0"
| "tlen (Seq p b) = plen p + tlen b"
| "rlen (Last b) = 3 + (if b = Empty then 3 else tlen b)"
| "rlen (Alt nl b r) = 3 + (if b = Empty then 3 else tlen b) + rlen r"

definition blen :: "branch \<Rightarrow> nat" where
  "blen b = (if b = Empty then 3 else tlen b)"

fun plast :: "piece \<Rightarrow> nat" where
  "plast (Group r) = 3 + rlen r"
| "plast (Many pos r) = 15 + rlen r"
| "plast (Opt p) = 6 + plen p"
| "plast _ = 0"

fun blast :: "branch \<Rightarrow> nat" where
  "blast Empty = 0"
| "blast (Seq p b) = (if b = Empty then plast p else plen p + blast b)"

fun rlast :: "regex \<Rightarrow> nat" where
  "rlast (Last b) = 0"
| "rlast (Alt nl b r) = 3 + blen b + rlast r"

text \<open>
  The code with \<^verbatim>\<open>k\<close> as the next pointer of that node; \<^verbatim>\<open>n\<close> is the number of the first group. While
  a regular expression is compiled its branches are not yet hooked to what follows.
\<close>

primrec pcode :: "nat \<Rightarrow> nat \<Rightarrow> piece \<Rightarrow> bytes" and tcode :: "nat \<Rightarrow> nat \<Rightarrow> branch \<Rightarrow> bytes"
  and rcode :: "nat \<Rightarrow> bool \<Rightarrow> nat \<Rightarrow> regex \<Rightarrow> bytes" where
  "pcode n k (Lit cs) = node EXACTLY k @ map snd cs @ [NUL]"
| "pcode n k (Assert a) = node (assert_op a) k"
| "pcode n k (One s) = single_code k s"
| "pcode n k (Rep pos lazy s) = node (rep_op pos lazy) k @ single_code 0 s"
| "pcode n k (Group r) = node (OPEN + n) 3 @ rcode (Suc n) True (rlen r - rlast r) r @ node (CLOSE + n) k"
| "pcode n k (Many pos r) =
    (let g = (\<lambda>k. node (OPEN + n) 3 @ rcode (Suc n) True (rlen r - rlast r) r @ node (CLOSE + n) k)
     in if pos then g 3 @ node BRANCH 6 @ node BACK (9 + rlen r) @ node BRANCH 3 @ node NOTHING k
        else node BRANCH (12 + rlen r) @ g 3 @ node BACK (9 + rlen r) @ node BRANCH 3 @ node NOTHING k)"
| "pcode n k (Opt p) = node BRANCH (3 + plen p) @ pcode n (plen p - plast p + 3) p @ node BRANCH 3 @ node NOTHING k"
| "tcode n k Empty = []"
| "tcode n k (Seq p b) = pcode n (if b = Empty then k else plen p - plast p) p @ tcode (n + groups p) k b"
| "rcode n h k (Last b) =
    node BRANCH k @
    (let k' = (if h then blen b - blast b else 0) in if b = Empty then node NOTHING k' else tcode n k' b)"
| "rcode n h k (Alt nl b r) =
    node BRANCH (3 + blen b) @
    (let k' = (if h then blen b - blast b + rlen r else 0) in if b = Empty then node NOTHING k' else tcode n k' b) @
    rcode (n + bgroups b) h k r"

text \<open>The whole program.\<close>

definition program :: "regex \<Rightarrow> bytes" where
  "program r = [char_of MAGIC] @ rcode 1 True (rlen r - rlast r) r @ node END 0"

section \<open>Unfolding\<close>

definition bcode :: "nat \<Rightarrow> nat \<Rightarrow> branch \<Rightarrow> bytes" where
  "bcode n k b = (if b = Empty then node NOTHING k else tcode n k b)"

lemma rlen_simps [simp]: "rlen (Last b) = 3 + blen b" "rlen (Alt nl b r) = 3 + blen b + rlen r"
  by (simp_all add: blen_def)

lemma rcode_simps [simp]:
  "rcode n h k (Last b) = node BRANCH k @ bcode n (if h then blen b - blast b else 0) b"
  "rcode n h k (Alt nl b r) =
    node BRANCH (3 + blen b) @ bcode n (if h then blen b - blast b + rlen r else 0) b @ rcode (n + bgroups b) h k r"
  by (simp_all add: bcode_def)

declare rlen.simps [simp del] rcode.simps [simp del]

lemma bcode_Seq:
  "bcode n k (Seq p b) =
    (if b = Empty then pcode n k p else pcode n (plen p - plast p) p @ bcode (n + groups p) k b)"
  by (simp add: bcode_def)

lemma blen_Seq: "blen (Seq p b) = (if b = Empty then plen p else plen p + blen b)"
  by (simp add: blen_def)

end
