(* ===== verification/RegxChain.thy ===== *)
theory RegxChain
  imports RegxCode
begin

text \<open>
  The links between nodes. The functions of the compiler find the node to link by walking the chain of
  the part written before; \<^verbatim>\<open>open_code\<close> collects what they rely on, and the programs of patterns have it.
\<close>

section \<open>Nodes and chains\<close>

lemma length_node [simp]: "length (node op k) = 3"
  by (simp add: node_def)

lemma node_nth:
  assumes "length a = p"
  shows "(a @ node op k @ d) ! p = char_of op" "(a @ node op k @ d) ! (p + 1) = char_of (k div 256)"
    "(a @ node op k @ d) ! (p + 2) = char_of (k mod 256)" "(a @ node op k @ d) ! Suc p = char_of (k div 256)"
    "(a @ node op k @ d) ! Suc (Suc p) = char_of (k mod 256)"
  using assms by (auto simp: node_def nth_append)

lemma OP_node [simp]: "length a = p \<Longrightarrow> op < 256 \<Longrightarrow> OP (a @ node op k @ d) p = op"
  by (simp add: OP_def node_nth)

lemma NEXT_node: "length a = p \<Longrightarrow> k < 65536 \<Longrightarrow> NEXT (a @ node op k @ d) p = k"
  by (simp add: NEXT_def node_nth uc_def)

lemma node_ok_node: "length a = p \<Longrightarrow> op < 256 \<Longrightarrow> op \<noteq> BACK \<Longrightarrow> node_ok (a @ node op k @ d) p"
  unfolding node_ok_def by (subst OP_node) auto

lemma nth_append_front: "i < length c \<Longrightarrow> (c @ d) ! i = c ! i"
  by (simp add: nth_append)

lemma node_ok_append: "node_ok c p \<Longrightarrow> OP (c @ d) p = OP c p \<and> NEXT (c @ d) p = NEXT c p \<and> node_ok (c @ d) p"
  by (auto simp: node_ok_def OP_def NEXT_def nth_append_front)

lemma node_ok_shift:
  "node_ok c p \<Longrightarrow> OP (b @ c) (length b + p) = OP c p \<and> NEXT (b @ c) (length b + p) = NEXT c p
     \<and> node_ok (b @ c) (length b + p)"
  by (auto simp: node_ok_def OP_def NEXT_def nth_append)

text \<open>
  \<^verbatim>\<open>path x c p q\<close>: the next pointers lead from \<^verbatim>\<open>p\<close> forward to \<^verbatim>\<open>q\<close>, with no \<^verbatim>\<open>BACK\<close> and no node \<^verbatim>\<open>x\<close> on the way.
\<close>

inductive path :: "nat \<Rightarrow> bytes \<Rightarrow> nat \<Rightarrow> nat \<Rightarrow> bool" for x c where
  here: "path x c p p"
| link: "node_ok c p \<Longrightarrow> OP c p \<noteq> BACK \<Longrightarrow> OP c p \<noteq> x \<Longrightarrow> NEXT c p \<noteq> 0 \<Longrightarrow> path x c (p + NEXT c p) q \<Longrightarrow> path x c p q"

abbreviation reach :: "bytes \<Rightarrow> nat \<Rightarrow> nat \<Rightarrow> bool" where
  "reach \<equiv> path BACK"

lemma reach_le: "path x c p q \<Longrightarrow> p \<le> q"
  by (induction rule: path.induct) auto

lemma reach_trans: "path x c p q \<Longrightarrow> path x c q r \<Longrightarrow> path x c p r"
  by (induction rule: path.induct) (auto intro: path.link)

lemma reach_append: "path x c p q \<Longrightarrow> path x (c @ d) p q"
proof (induction rule: path.induct)
  case (link p q)
  then show ?case using node_ok_append [of c p d] by (auto intro: path.link)
qed (rule path.here)

lemma reach_shift: "path x c p q \<Longrightarrow> path x (b @ c) (length b + p) (length b + q)"
proof (induction rule: path.induct)
  case (link p q)
  then show ?case using node_ok_shift [of c p b] by (auto intro: path.link simp: add.assoc)
qed (rule path.here)

lemma reach_in: "path x c 0 l \<Longrightarrow> p = length b \<Longrightarrow> q = length b + l \<Longrightarrow> path x (b @ c @ d) p q"
  using reach_shift [of x "c @ d" 0 l b] reach_append by fastforce

lemma reach_node:
  "length a = p \<Longrightarrow> op < 256 \<Longrightarrow> op \<noteq> BACK \<Longrightarrow> op \<noteq> x \<Longrightarrow> 0 < k \<Longrightarrow> k < 65536 \<Longrightarrow> q = p + k
    \<Longrightarrow> path x (a @ node op k @ d) p q"
  using path.link [of "a @ node op k @ d" p x "p + k"] path.here
  by (simp add: NEXT_node node_ok_node)

lemma chain_end_reach:
  assumes "reach c p q" "node_ok c q" "ParseNext c q = None"
  shows "q - p < n \<Longrightarrow> chain_end n c p = Some q"
  using assms
proof (induction arbitrary: n rule: path.induct)
  case (here p)
  then show ?case by (cases n) auto
next
  case (link p q)
  obtain m where m: "n = Suc m" using link.prems(1) by (cases n) auto
  have "p + NEXT c p \<le> q" by (rule reach_le [OF link.hyps(5)])
  then have "chain_end m c (p + NEXT c p) = Some q" using link m by (intro link.IH) auto
  then show ?case using link.hyps m by (simp add: ParseNext_def)
qed

section \<open>Code with one open end\<close>

definition opened :: "nat \<Rightarrow> (nat \<Rightarrow> bytes) \<Rightarrow> nat \<Rightarrow> bool" where
  "opened x f l \<longleftrightarrow>
    (\<exists>a op d. op < 256 \<and> op \<noteq> BACK \<and> op \<noteq> x \<and> length a = l \<and> (\<forall>k. f k = a @ node op k @ d)) \<and> (\<forall>k. path x (f k) 0 l)"

abbreviation open_code :: "(nat \<Rightarrow> bytes) \<Rightarrow> nat \<Rightarrow> bool" where
  "open_code \<equiv> opened BACK"

lemma open_codeI:
  assumes "op < 256" "op \<noteq> BACK" "op \<noteq> x" "length a = l" "\<And>k. f k = a @ node op k @ d" "\<And>k. path x (f k) 0 l"
  shows "opened x f l"
  using assms unfolding opened_def by blast

lemma open_node: "op < 256 \<Longrightarrow> op \<noteq> BACK \<Longrightarrow> op \<noteq> x \<Longrightarrow> opened x (\<lambda>k. node op k @ d) 0"
  by (rule open_codeI [where a = "[]" and op = op and d = d]) (auto intro: path.here)

lemma node_update: "p = length a \<Longrightarrow> (a @ node op j @ d) [p + 1 := x, p + 2 := y] = a @ [char_of op, x, y] @ d"
  by (simp add: node_def list_update_append)

lemma offset_bytes:
  "char_of (nat (int k div 256 mod 256)) = (char_of (k div 256) :: char)"
  "char_of (nat (int k mod 256)) = (char_of (k mod 256) :: char)"
proof -
  have "int k div 256 mod 256 = int (k div 256 mod 256)" "int k mod 256 = int (k mod 256)"
    by (simp_all add: zdiv_int zmod_int)
  then show "char_of (nat (int k div 256 mod 256)) = (char_of (k div 256) :: char)"
    "char_of (nat (int k mod 256)) = (char_of (k mod 256) :: char)"
    by (simp_all only: nat_int) simp
qed

lemma set_next_node:
  assumes "op < 256" "op \<noteq> BACK" "p = length a" "v = p + k"
  shows "set_next (a @ node op j @ d) p v = a @ node op k @ d"
proof -
  have "OP (a @ node op j @ d) p = op" using assms by simp
  moreover have "int v - int p = int k" using assms by simp
  ultimately have "set_next (a @ node op j @ d) p v =
    (a @ node op j @ d) [p + 1 := char_of (k div 256), p + 2 := char_of (k mod 256)]"
    unfolding set_next_def Let_def using assms(2) by (simp only: if_False offset_bytes)
  also have "\<dots> = a @ node op k @ d" unfolding node_update [OF assms(3)] by (simp add: node_def)
  finally show ?thesis .
qed

lemma ParseTail_open:
  assumes f: "open_code f l" and x: "m_code x = b @ f 0 @ d" and p: "p = length b" and v: "v = p + l + k"
  shows "ParseTail p v x = Done () (x\<lparr>m_code := b @ f k @ d\<rparr>)"
proof -
  obtain a op e where op: "op < 256" "op \<noteq> BACK" "length a = l" and fk: "\<And>k. f k = a @ node op k @ e"
    and r: "reach (f 0) 0 l"
    using f unfolding opened_def by blast
  let ?c = "m_code x" and ?q = "p + l"
  have c: "?c = (b @ a) @ node op 0 @ (e @ d)" using x fk by simp
  have q: "length (b @ a) = ?q" using op p by simp
  have "reach ?c p ?q" unfolding x using r p by (intro reach_in) auto
  moreover have "node_ok ?c ?q" unfolding c using op q by (intro node_ok_node) auto
  moreover have "NEXT ?c ?q = 0" unfolding c using q by (rule NEXT_node) simp
  then have "ParseNext ?c ?q = None" by (simp add: ParseNext_def)
  moreover have "?q - p < length ?c" using c op by simp
  ultimately have e: "chain_end (length ?c) ?c p = Some ?q" by (rule chain_end_reach)
  have "set_next ?c ?q v = (b @ a) @ node op k @ (e @ d)"
    unfolding c using op q v by (intro set_next_node) auto
  then show ?thesis unfolding ParseTail_def using e fk by simp
qed

lemma ParseTail_0:
  assumes "open_code f l" "m_code x = b @ f 0" "p = length b" "v = p + l + k"
  shows "ParseTail p v x = Done () (x\<lparr>m_code := b @ f k\<rparr>)"
  using ParseTail_open [of f l x b "[]"] assms by simp


lemma open_closed: "opened x f l \<Longrightarrow> 0 < k \<Longrightarrow> k < 65536 \<Longrightarrow> q = l + k \<Longrightarrow> path x (f k) 0 q"
proof -
  assume f: "opened x f l" and k: "0 < k" "k < 65536" and q: "q = l + k"
  obtain a op d where op: "op < 256" "op \<noteq> BACK" "op \<noteq> x" "length a = l" and fk: "\<And>k. f k = a @ node op k @ d"
    using f unfolding opened_def by blast
  have "path x (f k) 0 l" using f unfolding opened_def by blast
  moreover have "path x (f k) l q" unfolding fk using op k q by (intro reach_node) auto
  ultimately show ?thesis by (rule reach_trans)
qed

lemma open_ext:
  assumes f: "opened x f l" and a: "path x a 0 (length a)" and m: "m = length a + l"
    and g: "\<And>k. g k = a @ f k @ d"
  shows "opened x g m"
proof -
  obtain b op e where op: "op < 256" "op \<noteq> BACK" "op \<noteq> x" "length b = l" and fk: "\<And>k. f k = b @ node op k @ e"
    using f unfolding opened_def by blast
  show ?thesis
  proof (rule open_codeI [where a = "a @ b" and d = "e @ d" and op = op])
    show "path x (g k) 0 m" for k
    proof -
      have "path x (f k) 0 l" using f unfolding opened_def by blast
      then have "path x (a @ f k @ d) (length a) m" using m by (intro reach_in) auto
      moreover have "path x (a @ f k @ d) 0 (length a)" by (rule reach_append [OF a])
      ultimately show ?thesis unfolding g by (blast intro: reach_trans)
    qed
  qed (use op m fk g in auto)
qed

section \<open>The programs of patterns\<close>

lemma length_single [simp]: "length (single_code k s) = single_len s"
  by (cases s) auto

lemma lengths [simp]:
  "length (pcode n k p) = plen p" "length (tcode n k b) = tlen b" "length (rcode n h k r) = rlen r"
  by (induction p and b and r arbitrary: n k and n k and n h k rule: piece.induct branch.induct regex.induct)
    (auto simp: Let_def rcode.simps rlen.simps simp del: rcode_simps rlen_simps)

lemma length_bcode [simp]: "length (bcode n k b) = blen b"
  by (simp add: bcode_def blen_def)

lemma plen_ge: "plast p + 3 \<le> plen p"
proof (cases p)
  case (One s)
  then show ?thesis by (cases s) auto
qed auto

lemma blen_ge: "blast b + 3 \<le> blen b"
proof (induction b rule: blast.induct)
  case (2 p b)
  then show ?case using plen_ge [of p] by (auto simp: blen_def)
qed (simp add: blen_def)

lemma rlen_ge: "rlast r + 6 \<le> rlen r"
proof (induction r rule: rlast.induct)
  case (1 b)
  then show ?case using blen_ge [of b] by (auto simp: blen_def)
next
  case (2 nl b r)
  then show ?case using blen_ge [of b] by (auto simp: blen_def)
qed

lemma open_regex: "rlen r < 65536 \<Longrightarrow> x \<in> {BACK, EXACTLY} \<Longrightarrow> opened x (\<lambda>k. rcode n h k r) (rlast r)"
proof (induction r arbitrary: n rule: rlast.induct)
  case (1 b)
  show ?case unfolding rcode_simps rlast.simps by (rule open_node) (use 1 in auto)
next
  case (2 nl b r)
  let ?a = "node BRANCH (3 + blen b) @ bcode n (if h then blen b - blast b + rlen r else 0) b"
  have f: "opened x (\<lambda>k. rcode (n + bgroups b) h k r) (rlast r)" using 2 by simp
  have "path x ([] @ ?a) 0 (length ?a)" using 2 by (intro reach_node) auto
  then have a: "path x ?a 0 (length ?a)" by simp
  show ?case by (rule open_ext [OF f a, where d = "[]"]) auto
qed

lemma open_close: "n < 200 \<Longrightarrow> x \<in> {BACK, EXACTLY} \<Longrightarrow> opened x (\<lambda>k. node (CLOSE + n) k) 0"
  using open_node [of "CLOSE + n" x "[]"] by auto

lemma open_group:
  assumes "plen (Group r) < 65536" "n < 200" "x \<in> {BACK, EXACTLY}"
  shows "opened x (\<lambda>k. pcode n k (Group r)) (plast (Group r))"
proof -
  let ?b = "rcode (Suc n) True (rlen r - rlast r) r"
  let ?a = "node (OPEN + n) 3 @ ?b"
  have "path x ?b 0 (rlen r)"
    using assms rlen_ge [of r] by (intro open_closed [OF open_regex]) auto
  then have "path x (node (OPEN + n) 3 @ ?b @ []) 3 (length ?a)"
    by (intro reach_in) auto
  moreover have "path x ([] @ ?a) 0 3" using assms by (intro reach_node) auto
  ultimately have "path x ?a 0 (length ?a)" by (auto intro: reach_trans)
  then show ?thesis by (rule open_ext [OF open_close [OF assms(2,3)], where d = "[]"]) auto
qed


lemma open_single: "x \<noteq> EXACTLY \<or> (\<forall>l. s \<noteq> Char l) \<Longrightarrow> x \<in> {BACK, EXACTLY} \<Longrightarrow> opened x (\<lambda>k. single_code k s) 0"
proof (cases s)
  case Dot
  assume "x \<in> {BACK, EXACTLY}"
  then show ?thesis using Dot open_node [of ANY x "[]"] by auto
next
  case (Class neg its)
  assume "x \<in> {BACK, EXACTLY}"
  then show ?thesis
    using Class open_node [of "if neg then ANYBUT else ANYOF" x "concat (map item_chars its) @ [NUL]"] by auto
next
  case (Char l)
  assume "x \<noteq> EXACTLY \<or> (\<forall>l. s \<noteq> Char l)" "x \<in> {BACK, EXACTLY}"
  then show ?thesis using Char open_node [of EXACTLY x "[snd l, NUL]"] by auto
qed

lemma reach_first: "op < 256 \<Longrightarrow> op \<noteq> BACK \<Longrightarrow> op \<noteq> x \<Longrightarrow> 0 < k \<Longrightarrow> k < 65536 \<Longrightarrow> q = k \<Longrightarrow> path x (node op k @ d) 0 q"
  using reach_node [of "[]" 0 op x k q d] by simp

lemma rep_op: "rep_op pos lazy < 256" "rep_op pos lazy \<noteq> BACK" "rep_op pos lazy \<noteq> EXACTLY"
  by (auto simp: rep_op_def)

lemma open_nothing:
  assumes "path x a 0 (length a)" "m = length a" "\<And>k. g k = a @ node NOTHING k" "x \<in> {BACK, EXACTLY}"
  shows "opened x g m"
  using open_ext [of x "\<lambda>k. node NOTHING k @ []" 0 a m g "[]"] open_node [of NOTHING x "[]"] assms by auto

definition literal :: "piece \<Rightarrow> bool" where
  "literal p \<longleftrightarrow> is_lit p \<or> (\<exists>l. p = One (Char l))"

lemma open_piece:
  assumes len: "plen p < 65536" and n: "n + groups p \<le> 200" and x: "x \<in> {BACK, EXACTLY}" "x = EXACTLY \<longrightarrow> \<not> literal p"
  shows "opened x (\<lambda>k. pcode n k p) (plast p)"
proof (cases p)
  case (Lit cs)
  then show ?thesis using open_node [of EXACTLY x "map snd cs @ [NUL]"] x by (auto simp: literal_def)
next
  case (Assert a)
  then show ?thesis using open_node [of "assert_op a" x "[]"] x by (cases a) auto
next
  case (One s)
  then show ?thesis using open_single [of x s] x by (auto simp: literal_def)
next
  case (Rep pos lazy s)
  then show ?thesis using open_node [OF rep_op(1,2), of _ _ x "single_code 0 s"] rep_op x by auto
next
  case (Group r)
  then show ?thesis using open_group [of r n x] len n x by simp
next
  case (Many pos r)
  let ?g = "pcode n 3 (Group r)"
  let ?t = "node BACK (9 + rlen r) @ node BRANCH 3"
  have g: "path x ?g 0 (6 + rlen r)"
    by (rule open_closed [OF open_group]) (use len n Many x in auto)
  show ?thesis
  proof (cases pos)
    case True
    let ?a = "?g @ node BRANCH 6 @ ?t"
    have "path x ?a 0 (6 + rlen r)" by (rule reach_append [OF g])
    moreover have "path x ?a (6 + rlen r) (12 + rlen r)"
      using len Many x by (intro reach_node) auto
    moreover have "path x ((?g @ node BRANCH 6 @ node BACK (9 + rlen r)) @ node BRANCH 3 @ []) (12 + rlen r) (15 + rlen r)"
      by (rule reach_node) (use x in auto)
    ultimately have "path x ?a 0 (length ?a)" by (auto intro: reach_trans)
    then show ?thesis by (rule open_nothing) (use Many True x in auto)
  next
    case False
    let ?h = "node BRANCH (12 + rlen r) @ ?g @ node BACK (9 + rlen r)"
    let ?a = "node BRANCH (12 + rlen r) @ ?g @ ?t"
    have "path x ?a 0 (12 + rlen r)" using len Many x by (intro reach_first) auto
    moreover have "path x (?h @ node BRANCH 3 @ []) (12 + rlen r) (15 + rlen r)"
      by (rule reach_node) (use x in auto)
    ultimately have "path x ?a 0 (length ?a)" by (auto intro: reach_trans)
    then show ?thesis by (rule open_nothing) (use Many False x in auto)
  qed
next
  case (Opt q)
  let ?h = "node BRANCH (3 + plen q) @ pcode n (plen q - plast q + 3) q"
  have "path x (?h @ node BRANCH 3) 0 (3 + plen q)" using len Opt x by (simp add: reach_first) (intro reach_first; auto)
  moreover have "path x (?h @ node BRANCH 3 @ []) (3 + plen q) (6 + plen q)" by (rule reach_node) (use x in auto)
  ultimately have "path x (?h @ node BRANCH 3) 0 (length (?h @ node BRANCH 3))" by (auto intro: reach_trans)
  then show ?thesis by (rule open_nothing) (use Opt x in auto)
qed

lemma closed_piece:
  assumes "plen p < 65536" "n + groups p \<le> 200" "x \<in> {BACK, EXACTLY}" "x = EXACTLY \<longrightarrow> \<not> literal p"
  shows "path x (pcode n (plen p - plast p) p) 0 (plen p)"
  by (rule open_closed [OF open_piece [OF assms]]) (use assms plen_ge [of p] in auto)

lemma open_branch: "blen b < 65536 \<Longrightarrow> n + bgroups b \<le> 200 \<Longrightarrow> open_code (\<lambda>k. bcode n k b) (blast b)"
proof (induction b arbitrary: n rule: blast.induct)
  case 1
  show ?case using open_node [of NOTHING BACK "[]"] by (simp add: bcode_def)
next
  case (2 p b)
  show ?case
  proof (cases "b = Empty")
    case True
    then show ?thesis using 2 open_piece [of p n] by (simp add: bcode_Seq blen_Seq)
  next
    case False
    have f: "open_code (\<lambda>k. bcode (n + groups p) k b) (blast b)"
      using 2 False by (simp add: blen_Seq)
    have a: "reach (pcode n (plen p - plast p) p) 0 (length (pcode n (plen p - plast p) p))"
      using closed_piece [of p n] 2 False by (simp add: blen_Seq)
    show ?thesis by (rule open_ext [OF f a, where d = "[]"]) (use False in \<open>auto simp: bcode_Seq\<close>)
  qed
qed


section \<open>Hooking the branches\<close>

lemma ParseNext_node: "length a = p \<Longrightarrow> op < 256 \<Longrightarrow> op \<noteq> BACK \<Longrightarrow> 0 < k \<Longrightarrow> k < 65536
    \<Longrightarrow> ParseNext (a @ node op k @ d) p = Some (p + k)"
  by (simp add: ParseNext_def NEXT_node)

lemma ParseNext_null: "length a = p \<Longrightarrow> ParseNext (a @ node op 0 @ d) p = None"
  by (simp add: ParseNext_def NEXT_node)

lemma hook_step:
  assumes x: "m_code x = c @ node BRANCH (3 + blen b) @ bcode n 0 b @ d" and p: "p = length c"
    and e: "ender = p + 3 + blast b + k" and len: "3 + blen b < 65536" and n: "n + bgroups b \<le> 200"
  shows "hook_tails (Suc N) p ender x = hook_tails N (p + 3 + blen b) ender
    (x\<lparr>m_code := c @ node BRANCH (3 + blen b) @ bcode n k b @ d\<rparr>)"
proof -
  have ok: "node_ok (m_code x) p" "OP (m_code x) p = BRANCH"
    unfolding x using p by (auto intro: node_ok_node)
  have "ParseTail (OPERAND p) ender x = Done () (x\<lparr>m_code := (c @ node BRANCH (3 + blen b)) @ bcode n k b @ d\<rparr>)"
    by (rule ParseTail_open [OF open_branch [of b n]]) (use len n x p e in auto)
  then have "ParseOpTail p ender x = Done () (x\<lparr>m_code := c @ node BRANCH (3 + blen b) @ bcode n k b @ d\<rparr>)"
    using ok by (simp add: ParseOpTail_def)
  moreover have "ParseNext (c @ node BRANCH (3 + blen b) @ bcode n k b @ d) p = Some (p + 3 + blen b)"
    using ParseNext_node [of c p BRANCH "3 + blen b"] p len by simp
  ultimately show ?thesis using ok by simp
qed

lemma hook_end:
  assumes "m_code x = c @ node op 0 @ d" "op \<noteq> BRANCH" "op \<noteq> BACK" "op < 256" "p = length c"
  shows "hook_tails (Suc N) p ender x = Done () x"
  using assms by (simp add: ParseOpTail_def node_ok_node ParseNext_null)

lemma hook_tails_ok:
  assumes "m_code x = c @ rcode n False (rlen r - rlast r) r @ node op 0" "p = length c" "ender = p + rlen r"
    "op \<noteq> BRANCH" "op \<noteq> BACK" "op < 256" "rlen r < 65536" "n + rgroups r \<le> 200" "rlen r \<le> N"
  shows "hook_tails N p ender x = Done () (x\<lparr>m_code := c @ rcode n True (rlen r - rlast r) r @ node op 0\<rparr>)"
  using assms
proof (induction r arbitrary: n c x p N rule: rlast.induct)
  case (1 b)
  have N: "N = Suc (Suc (N - 2))" using 1 blen_ge [of b] by simp
  let ?x = "x\<lparr>m_code := c @ node BRANCH (3 + blen b) @ bcode n (blen b - blast b) b @ node op 0\<rparr>"
  have "hook_tails N p ender x = hook_tails (Suc (N - 2)) (p + 3 + blen b) ender ?x"
    by (subst N, rule hook_step) (use 1 blen_ge [of b] in auto)
  also have "\<dots> = Done () ?x"
    by (rule hook_end [where c = "c @ node BRANCH (3 + blen b) @ bcode n (blen b - blast b) b" and d = "[]"])
      (use 1 in auto)
  finally show ?case by simp
next
  case (2 nl b r)
  have N: "N = Suc (N - 1)" using 2 by simp
  let ?c = "c @ node BRANCH (3 + blen b) @ bcode n (blen b - blast b + rlen r) b"
  have l: "rlen (Alt nl b r) - rlast (Alt nl b r) = rlen r - rlast r" by simp
  have "hook_tails N p ender x = hook_tails (N - 1) (p + 3 + blen b) ender
      (x\<lparr>m_code := ?c @ rcode (n + bgroups b) False (rlen r - rlast r) r @ node op 0\<rparr>)"
    by (subst N, subst hook_step [where k = "blen b - blast b + rlen r"
      and d = "rcode (n + bgroups b) False (rlen r - rlast r) r @ node op 0"])
      (use 2 blen_ge [of b] l in auto)
  also have "\<dots> = Done () (x\<lparr>m_code := c @ rcode n True (rlen r - rlast r) (Alt nl b r) @ node op 0\<rparr>)"
    using 2 by (subst "2.IH" [of _ ?c "n + bgroups b"]) auto
  finally show ?case using l by simp
qed

end
