(* ===== verification/RegxCompile.thy ===== *)
theory RegxCompile
  imports RegxChain
begin

text \<open>
  Compiling the text of a well-formed pattern writes its program: one specification per function of the
  compiler, proved together by induction on patterns, and what the optimiser finds.
\<close>

section \<open>Writing nodes and literals\<close>

abbreviation has_room :: "rx \<Rightarrow> nat \<Rightarrow> bool" where
  "has_room x n \<equiv> length (m_code x) + n \<le> m_code_size x"

lemma put_code_room: "has_room x (length bs) \<Longrightarrow> put_code bs x = Done () (x\<lparr>m_code := m_code x @ bs\<rparr>)"
  by (simp add: put_code_def)

lemma RxParseC_room: "has_room x 1 \<Longrightarrow> RxParseC b x = Done () (x\<lparr>m_code := m_code x @ [b]\<rparr>)"
  by (simp add: RxParseC_def put_code_room)

lemma char_of_zero: "char_of (0 :: nat) = NUL"
  by (simp add: char_of_def bit_0)

lemma node_0: "node op 0 = [char_of op, NUL, NUL]"
  by (simp add: node_def char_of_zero)

lemma ParseNode_room: "has_room x 3 \<Longrightarrow> ParseNode op x = Done (length (m_code x)) (x\<lparr>m_code := m_code x @ node op 0\<rparr>)"
  by (simp add: ParseNode_def put_code_room node_0)

lemma ParseInsert_room:
  "m_code x = c @ d \<Longrightarrow> p = length c \<Longrightarrow> has_room x 3 \<Longrightarrow> ParseInsert op p x = Done () (x\<lparr>m_code := c @ node op 0 @ d\<rparr>)"
  by (simp add: ParseInsert_def node_0)

text \<open>What may follow a literal.\<close>

definition lit_follow :: "bytes \<Rightarrow> bool" where
  "lit_follow t \<longleftrightarrow> magic_char (peek t) \<or> (peek t = BSL \<and> peek (tl t) \<in> {CHR ''<'', CHR ''>''})
    \<or> (\<exists>l m t'. wf_char l \<and> ISMULT m \<and> t = text_char l @ m # t')"

lemma peek_simps [simp]: "peek (c # s) = c" "peek [] = NUL"
  by (simp_all add: peek_def)

lemma ISMULT_not_magic: "ISMULT m \<Longrightarrow> \<not> magic_char m \<and> m \<noteq> BSL \<and> m \<noteq> NUL"
  by (auto simp: ISMULT_def magic_char_def)

lemma BSL_plain: "\<not> magic_char BSL" "\<not> ISMULT BSL"
  by (auto simp: ISMULT_def magic_char_def)

lemma ordinaryD: "ordinary c \<Longrightarrow> \<not> magic_char c \<and> \<not> ISMULT c \<and> c \<noteq> BSL"
  by (simp add: ordinary_def)

lemma lit_ordinary:
  "ordinary (peek s) \<Longrightarrow> has_room x 1 \<Longrightarrow> lit_loop rp (c # s) x = lit_loop (Some s) s (x\<lparr>m_code := m_code x @ [c]\<rparr>)"
  by (subst lit_loop.simps) (simp add: RxParseC_room ordinary_def)

lemma lit_escape:
  "peek s = BSL \<Longrightarrow> peek (tl s) \<notin> {NUL, CHR ''<'', CHR ''>''} \<Longrightarrow> has_room x 1 \<Longrightarrow>
    lit_loop rp (c # s) x = lit_loop (Some s) (tl s) (x\<lparr>m_code := m_code x @ [c]\<rparr>)"
  by (subst lit_loop.simps) (simp add: RxParseC_room BSL_plain)

lemma lit_next:
  assumes "wf_char (e, d)" "has_room x 1"
  shows "lit_loop rp (c # text_char (e, d) @ t) x =
    lit_loop (Some (text_char (e, d) @ t)) (d # t) (x\<lparr>m_code := m_code x @ [c]\<rparr>)"
proof (cases e)
  case True
  then show ?thesis using lit_escape [of "BSL # d # t" x rp c] assms by simp
next
  case False
  then show ?thesis using lit_ordinary [of "d # t" x rp c] assms by simp
qed

lemma lit_magic: "magic_char (peek s) \<Longrightarrow> has_room x 1 \<Longrightarrow> lit_loop rp (c # s) x = Done (rp, s) (x\<lparr>m_code := m_code x @ [c]\<rparr>)"
  by (subst lit_loop.simps) (simp add: RxParseC_room)

lemma lit_word: "peek s = BSL \<Longrightarrow> peek (tl s) \<in> {NUL, CHR ''<'', CHR ''>''} \<Longrightarrow> has_room x 1 \<Longrightarrow>
    lit_loop rp (c # s) x = Done (rp, s) (x\<lparr>m_code := m_code x @ [c]\<rparr>)"
  by (subst lit_loop.simps) (auto simp: RxParseC_room BSL_plain)

lemma lit_mult: "ISMULT (peek s) \<Longrightarrow> lit_loop (Some b) (c # s) x = Done (Some b, b) x"
  using ISMULT_not_magic by (subst lit_loop.simps) simp

lemma lit_single: "ISMULT (peek s) \<Longrightarrow> has_room x 1 \<Longrightarrow>
    lit_loop None (c # s) x = Done (None, s) (x\<lparr>m_code := m_code x @ [c]\<rparr>)"
  using ISMULT_not_magic [of "peek s"] by (subst lit_loop.simps) (simp add: RxParseC_room)

declare lit_loop.simps [simp del]

lemma lit_loop_end:
  assumes "lit_follow t" "has_room x 1"
  shows "\<exists>rp'. lit_loop rp (c # t) x = Done (rp', t) (x\<lparr>m_code := m_code x @ [c]\<rparr>)"
proof -
  from assms(1) show ?thesis unfolding lit_follow_def
  proof (elim disjE conjE exE)
    assume "magic_char (peek t)"
    then show ?thesis using lit_magic assms(2) by blast
  next
    assume "peek t = BSL" "peek (tl t) \<in> {CHR ''<'', CHR ''>''}"
    then show ?thesis using lit_word [of t x rp c] assms(2) by auto
  next
    fix l m t'
    assume l: "wf_char l" "ISMULT m" "t = text_char l @ m # t'"
    obtain e d where "l = (e, d)" by (cases l)
    then show ?thesis unfolding l(3)
      using lit_next [of e d x rp c "m # t'"] l lit_mult [of "m # t'"] assms(2) by simp
  qed
qed

lemma lit_loop_ok:
  "\<forall>l \<in> set cs. wf_char l \<Longrightarrow> lit_follow t \<Longrightarrow> has_room x (Suc (length cs)) \<Longrightarrow>
    \<exists>rp'. lit_loop rp (c # concat (map text_char cs) @ t) x = Done (rp', t) (x\<lparr>m_code := m_code x @ c # map snd cs\<rparr>)"
proof (induction cs arbitrary: rp c x)
  case Nil
  then show ?case using lit_loop_end by simp
next
  case (Cons l cs)
  obtain e d where l: "l = (e, d)" by (cases l)
  let ?s = "concat (map text_char (l # cs)) @ t" and ?x = "x\<lparr>m_code := m_code x @ [c]\<rparr>"
  have "lit_loop rp (c # ?s) x = lit_loop (Some ?s) (d # concat (map text_char cs) @ t) ?x"
    using lit_next [of e d x rp c "concat (map text_char cs) @ t"] Cons.prems l by simp
  moreover obtain rp' where "lit_loop (Some ?s) (d # concat (map text_char cs) @ t) ?x =
      Done (rp', t) (?x\<lparr>m_code := m_code ?x @ d # map snd cs\<rparr>)"
    using Cons.IH [of ?x "Some ?s" d] Cons.prems by auto
  ultimately show ?case using l by auto
qed

lemma ordinary_chars:
  assumes "ordinary c"
  shows "c \<noteq> CHR ''^''" "c \<noteq> CHR ''$''" "c \<noteq> CHR ''.''" "c \<noteq> CHR ''[''" "c \<noteq> CHR ''(''" "c \<noteq> CHR '')''"
    "c \<noteq> CHR ''|''" "c \<noteq> NL" "c \<noteq> NUL" "c \<noteq> BSL" "\<not> ISMULT c"
  using assms by (auto simp: ordinary_def magic_char_def)

lemma ParseAtom_lit: "wf_char l \<Longrightarrow> ParseAtom P (text_char l @ t) x = ParseLit (snd l # t) x"
proof (cases l)
  case (Pair e c)
  assume wf: "wf_char l"
  show ?thesis
  proof (cases e)
    case True
    then show ?thesis using wf Pair by (simp add: ParseAtom_def Let_def ISMULT_def)
  next
    case False
    then have "ordinary c" using wf Pair by simp
    note ordinary_chars [OF this]
    then show ?thesis using Pair False by (simp add: ParseAtom_def Let_def)
  qed
qed


lemma ParseLit_ok:
  assumes cs: "cs \<noteq> []" "\<forall>l \<in> set cs. wf_char l" and t: "lit_follow t" and r: "has_room x (4 + length cs)"
  shows "\<exists>sim. ParseLit (snd (hd cs) # concat (map text_char (tl cs)) @ t) x =
    Done (length (m_code x), \<lparr>HASWIDTH = True, SIMPLE = sim, SPSTART = False\<rparr>, t)
      (x\<lparr>m_code := m_code x @ pcode n 0 (Lit cs)\<rparr>)"
proof -
  obtain l ls where l: "cs = l # ls" using cs(1) by (cases cs) auto
  let ?x = "x\<lparr>m_code := m_code x @ node EXACTLY 0\<rparr>"
  obtain rp where "lit_loop None (snd l # concat (map text_char ls) @ t) ?x =
      Done (rp, t) (?x\<lparr>m_code := m_code ?x @ snd l # map snd ls\<rparr>)"
    using lit_loop_ok [of ls t ?x None "snd l"] cs t r l by auto
  then show ?thesis using r l by (simp add: ParseLit_def ParseNode_room RxParseC_room WORST_def)
qed

lemma ParseLit_single:
  assumes "ISMULT (peek t)" "has_room x 5"
  shows "ParseLit (c # t) x = Done (length (m_code x), \<lparr>HASWIDTH = True, SIMPLE = True, SPSTART = False\<rparr>, t)
      (x\<lparr>m_code := m_code x @ node EXACTLY 0 @ [c, NUL]\<rparr>)"
  using assms by (simp add: ParseLit_def ParseNode_room RxParseC_room WORST_def lit_single)

section \<open>Sets\<close>

lemma class_loop_ok:
  "\<forall>i \<in> set its. wf_item i \<Longrightarrow> has_room x (length (concat (map item_chars its))) \<Longrightarrow> m_sensitive x \<Longrightarrow>
    class_loop prev (concat (map text_item its) @ CHR '']'' # t) x =
      Done (CHR '']'' # t) (x\<lparr>m_code := m_code x @ concat (map item_chars its)\<rparr>)"
proof (induction its arbitrary: prev x)
  case (Cons i its)
  let ?x = "x\<lparr>m_code := m_code x @ item_chars i\<rparr>"
  have IH: "class_loop p (concat (map text_item its) @ CHR '']'' # t) ?x =
      Done (CHR '']'' # t) (?x\<lparr>m_code := m_code ?x @ concat (map item_chars its)\<rparr>)" for p
    using Cons.prems by (intro Cons.IH) auto
  show ?case
  proof (cases i)
    case (Item c)
    then show ?thesis using Cons.prems IH [of c] by (simp add: RxParseC_room)
  next
    case (Range a b)
    then show ?thesis using Cons.prems IH [of b]
      by (simp add: RxParseC_room put_code_room range_chars_def)
  qed
qed simp

lemma class_first_ok:
  assumes "wf_first_item i" "\<forall>i \<in> set its. wf_item i" "has_room x (length (concat (map item_chars (i # its))))" "m_sensitive x"
  shows "(let s = concat (map text_item (i # its)) @ CHR '']'' # t in
      if peek s = CHR '']'' \<or> peek s = CHR ''-''
      then bind_step (RxParseC (peek s) x) (\<lambda>_. class_loop (peek s) (tl s))
      else class_loop (CHR ''['') s x) =
    Done (CHR '']'' # t) (x\<lparr>m_code := m_code x @ concat (map item_chars (i # its))\<rparr>)"
proof (cases "wf_item i")
  case True
  then have "peek (text_item i @ u) \<noteq> CHR '']''" "peek (text_item i @ u) \<noteq> CHR ''-''" for u
    by (cases i; auto)+
  then show ?thesis using True assms class_loop_ok [of "i # its" x] by (simp add: Let_def del: class_loop.simps)
next
  case False
  let ?x = "x\<lparr>m_code := m_code x @ item_chars i\<rparr>"
  have IH: "class_loop p (concat (map text_item its) @ CHR '']'' # t) ?x =
      Done (CHR '']'' # t) (?x\<lparr>m_code := m_code ?x @ concat (map item_chars its)\<rparr>)" for p
    using assms by (intro class_loop_ok) auto
  show ?thesis
  proof (cases i)
    case (Item c)
    then show ?thesis using False assms IH [of c] by (auto simp: RxParseC_room Let_def)
  next
    case (Range a b)
    then show ?thesis using False assms IH [of b]
      by (auto simp: RxParseC_room put_code_room range_chars_def Let_def)
  qed
qed

lemma ParseClass_ok:
  assumes "wf_single (Class neg its)" "has_room x (single_len (Class neg its))" "m_sensitive x"
  shows "ParseClass ((if neg then ''^'' else []) @ concat (map text_item its) @ CHR '']'' # t) x =
    Done (length (m_code x), t) (x\<lparr>m_code := m_code x @ single_code 0 (Class neg its)\<rparr>)"
proof -
  obtain i is' where i: "its = i # is'" using assms(1) by (cases its) auto
  let ?s = "concat (map text_item its) @ CHR '']'' # t"
  let ?op = "if neg then ANYBUT else ANYOF"
  let ?x = "x\<lparr>m_code := m_code x @ node ?op 0\<rparr>"
  have "\<not> neg \<Longrightarrow> peek ?s \<noteq> CHR ''^''" using assms(1) i by (cases i) auto
  then have 1: "(if peek ((if neg then ''^'' else []) @ ?s) = CHR ''^''
      then bind_step (ParseNode ANYBUT x) (\<lambda>r. Done (r, tl ((if neg then ''^'' else []) @ ?s)))
      else bind_step (ParseNode ANYOF x) (\<lambda>r. Done (r, (if neg then ''^'' else []) @ ?s)))
    = Done (length (m_code x), ?s) ?x"
    using assms(2) by (auto simp: ParseNode_room)
  have 2: "(let s = ?s in if peek s = CHR '']'' \<or> peek s = CHR ''-''
      then bind_step (RxParseC (peek s) ?x) (\<lambda>_. class_loop (peek s) (tl s))
      else class_loop (CHR ''['') s ?x) =
    Done (CHR '']'' # t) (?x\<lparr>m_code := m_code ?x @ concat (map item_chars its)\<rparr>)"
    unfolding i by (rule class_first_ok) (use assms i in auto)
  show ?thesis unfolding ParseClass_def 1 using 2 [unfolded Let_def] assms(2)
    by (simp add: RxParseC_room)
qed

lemma ParseAtom_single:
  assumes "wf_single s" "has_room x (single_len s)" "m_sensitive x" "(\<forall>l. s \<noteq> Char l) \<or> ISMULT (peek t)"
  shows "ParseAtom P (text_single s @ t) x =
    Done (length (m_code x), \<lparr>HASWIDTH = True, SIMPLE = True, SPSTART = False\<rparr>, t) (x\<lparr>m_code := m_code x @ single_code 0 s\<rparr>)"
proof (cases s)
  case Dot
  then show ?thesis using assms by (simp add: ParseAtom_def ParseNode_room WORST_def)
next
  case (Class neg its)
  then show ?thesis using assms ParseClass_ok [of neg its x t] by (simp add: ParseAtom_def WORST_def)
next
  case (Char l)
  then show ?thesis using assms ParseLit_single [of t x "snd l"] by (simp add: ParseAtom_lit)
qed

lemma ParseAtom_assert:
  "has_room x 3 \<Longrightarrow> ParseAtom P (text_assert a @ t) x =
    Done (length (m_code x), WORST, t) (x\<lparr>m_code := m_code x @ node (assert_op a) 0\<rparr>)"
  by (cases a) (simp_all add: ParseAtom_def ParseNode_room ISMULT_def)


section \<open>Repetition\<close>

lemma ParseTail_back:
  assumes r: "reach (m_code x) p q" and x: "m_code x = a @ node BACK 0 @ d" and q: "q = length a" "q = v + k"
  shows "ParseTail p v x = Done () (x\<lparr>m_code := a @ node BACK k @ d\<rparr>)"
proof -
  have op: "OP (m_code x) q = BACK" "NEXT (m_code x) q = 0" unfolding x using q by (simp_all add: NEXT_node)
  have "node_ok (m_code x) q" unfolding node_ok_def using op x q by simp
  moreover have "ParseNext (m_code x) q = None" using op by (simp add: ParseNext_def)
  moreover have "q - p < length (m_code x)" using x q by simp
  ultimately have e: "chain_end (length (m_code x)) (m_code x) p = Some q" using chain_end_reach [OF r] by blast
  have "int q - int v = int k" using q by simp
  then have "set_next (m_code x) q v = (m_code x) [q + 1 := char_of (k div 256), q + 2 := char_of (k mod 256)]"
    unfolding set_next_def Let_def using op by (simp only: refl if_True offset_bytes)
  also have "\<dots> = a @ node BACK k @ d" unfolding x node_update [OF q(1)] by (simp add: node_def)
  finally show ?thesis unfolding ParseTail_def using e by simp
qed

definition mult_flags :: "bool \<Rightarrow> flags" where
  "mult_flags pos = \<lparr>HASWIDTH = pos, SIMPLE = False, SPSTART = \<not> pos\<rparr>"

lemma ParseMult_rep:
  assumes "HASWIDTH fl" "SIMPLE fl" "m_code x = c @ single_code 0 s" "p = length c" "has_room x 3" "\<not> ISMULT (peek t)"
  shows "ParseMult p fl (mult_sign pos # (if lazy then ''?'' else []) @ t) x =
    Done (p, mult_flags pos, t) (x\<lparr>m_code := c @ node (rep_op pos lazy) 0 @ single_code 0 s\<rparr>)"
proof -
  have "peek t \<noteq> CHR ''?''" using assms(6) by (auto simp: ISMULT_def)
  then show ?thesis using assms
    by (cases pos; cases lazy) (simp_all add: ParseMult_def ParseInsert_room rep_op_def mult_flags_def WORST_def)
qed

lemma ParseOpTail_branch:
  assumes "open_code f l" "m_code x = c @ node BRANCH j @ f 0 @ d" "p = length c" "v = p + 3 + l + k"
  shows "ParseOpTail p v x = Done () (x\<lparr>m_code := c @ node BRANCH j @ f k @ d\<rparr>)"
proof -
  have "OP (m_code x) p = BRANCH" unfolding assms(2) using assms(3) by simp
  moreover have "ParseTail (OPERAND p) v x = Done () (x\<lparr>m_code := (c @ node BRANCH j) @ f k @ d\<rparr>)"
    by (rule ParseTail_open [OF assms(1)]) (use assms in auto)
  ultimately show ?thesis by (simp add: ParseOpTail_def)
qed

lemma open_BRANCH: "open_code (\<lambda>k. node BRANCH k) 0"
  using open_node [of BRANCH BACK "[]"] by simp

lemma open_after:
  assumes "reach a 0 (length a)" "m = length a"
  shows "open_code (\<lambda>k. a @ node BRANCH k) m"
  using open_ext [OF open_BRANCH assms(1), where d = "[]"] assms(2) by simp

lemma ParseMult_star:
  assumes fl: "HASWIDTH fl" "\<not> SIMPLE fl" and x: "m_code x = c @ pcode n 0 (Group r)" and p: "p = length c"
    and m: "has_room x 12" and t: "\<not> ISMULT (peek t)" and len: "plen (Many False r) < 65536" and n: "n < 200"
  shows "ParseMult p fl (CHR ''*'' # t) x = Done (p, mult_flags False, t) (x\<lparr>m_code := c @ pcode n 0 (Many False r)\<rparr>)"
proof -
  define G where "G k = pcode n k (Group r)" for k
  have G: "open_code G (3 + rlen r)" using open_group [of r n] len n unfolding G_def by simp
  have Glen: "length (G k) = 6 + rlen r" for k by (simp add: G_def)
  let ?B = "node BRANCH" and ?K = "node BACK" and ?R = "12 + rlen r"
  have 1: "ParseOpTail p (p + 9 + rlen r) (x\<lparr>m_code := c @ ?B 0 @ G 0 @ ?K 0\<rparr>) =
      Done () (x\<lparr>m_code := c @ ?B 0 @ G 3 @ ?K 0\<rparr>)"
    by (subst ParseOpTail_branch [OF G, where c = c and d = "?K 0" and k = 3 and j = 0]) (use p in auto)
  have 2: "ParseOpTail p p (x\<lparr>m_code := c @ ?B 0 @ G 3 @ ?K 0\<rparr>) =
      Done () (x\<lparr>m_code := c @ ?B 0 @ G 3 @ ?K (9 + rlen r)\<rparr>)"
  proof -
    have "reach (G 3) 0 (6 + rlen r)" by (rule open_closed [OF G]) auto
    then have "reach ((c @ ?B 0) @ G 3 @ ?K 0) (p + 3) (p + 9 + rlen r)"
      using p by (intro reach_in) auto
    then have "ParseTail (p + 3) p (x\<lparr>m_code := c @ ?B 0 @ G 3 @ ?K 0\<rparr>) =
      Done () (x\<lparr>m_code := (c @ ?B 0 @ G 3) @ ?K (9 + rlen r) @ []\<rparr>)"
      by (subst ParseTail_back [where a = "c @ ?B 0 @ G 3" and d = "[]" and q = "p + 9 + rlen r" and k = "9 + rlen r"])
        (use p Glen in auto)
    moreover have "OP (c @ ?B 0 @ G 3 @ ?K 0) p = BRANCH" using p by simp
    ultimately show ?thesis by (simp add: ParseOpTail_def)
  qed
  have 3: "ParseTail p (p + ?R) (x\<lparr>m_code := c @ ?B 0 @ G 3 @ ?K (9 + rlen r) @ ?B 0\<rparr>) =
      Done () (x\<lparr>m_code := c @ ?B ?R @ G 3 @ ?K (9 + rlen r) @ ?B 0\<rparr>)"
    by (subst ParseTail_open [OF open_BRANCH, where b = c and k = ?R and d = "G 3 @ ?K (9 + rlen r) @ ?B 0"]) (use p in auto)
  let ?a = "?B ?R @ G 3 @ ?K (9 + rlen r)"
  have "reach ?a 0 (length ?a)" using len Glen by (intro reach_first) auto
  then have o: "open_code (\<lambda>k. ?a @ ?B k) ?R" by (rule open_after) (use Glen in auto)
  have 4: "ParseTail p (p + 15 + rlen r) (x\<lparr>m_code := c @ ?a @ ?B 0 @ node NOTHING 0\<rparr>) =
      Done () (x\<lparr>m_code := c @ ?a @ ?B 3 @ node NOTHING 0\<rparr>)"
    by (subst ParseTail_open [OF o, where b = c and k = 3 and d = "node NOTHING 0"]) (use p in auto)
  have G0: "m_code x = c @ G 0" using x by (simp add: G_def)
  have "has_room x 3" using m by simp
  note ins = ParseInsert_room [OF G0 p this, of BRANCH]
  have P: "pcode n 0 (Many False r) = ?a @ ?B 3 @ node NOTHING 0" by (simp add: G_def)
  have sz: "length c + rlen r + 18 \<le> m_code_size x" using m G0 Glen by simp
  show ?thesis unfolding P using fl t sz Glen 1 2 3 4 p
    by (simp add: ParseMult_def Let_def ins [unfolded p] ParseNode_room mult_flags_def WORST_def add.commute add.left_commute)
qed


lemma ParseMult_plus:
  assumes fl: "HASWIDTH fl" "\<not> SIMPLE fl" and x: "m_code x = c @ pcode n 0 (Group r)" and p: "p = length c"
    and m: "has_room x 12" and t: "\<not> ISMULT (peek t)" and len: "plen (Many True r) < 65536" and n: "n < 200"
  shows "ParseMult p fl (CHR ''+'' # t) x = Done (p, mult_flags True, t) (x\<lparr>m_code := c @ pcode n 0 (Many True r)\<rparr>)"
proof -
  define G where "G k = pcode n k (Group r)" for k
  have G: "open_code G (3 + rlen r)" using open_group [of r n] len n unfolding G_def by simp
  have Glen: "length (G k) = 6 + rlen r" for k by (simp add: G_def)
  let ?B = "node BRANCH" and ?K = "node BACK" and ?N = "p + 6 + rlen r"
  have 1: "ParseTail p ?N (x\<lparr>m_code := c @ G 0 @ ?B 0\<rparr>) = Done () (x\<lparr>m_code := c @ G 3 @ ?B 0\<rparr>)"
    by (subst ParseTail_open [OF G, where b = c and d = "?B 0" and k = 3]) (use p in auto)
  have 2: "ParseTail (p + 9 + rlen r) p (x\<lparr>m_code := c @ G 3 @ ?B 0 @ ?K 0\<rparr>) =
      Done () (x\<lparr>m_code := c @ G 3 @ ?B 0 @ ?K (9 + rlen r)\<rparr>)"
    by (subst ParseTail_back [where a = "c @ G 3 @ ?B 0" and d = "[]" and q = "p + 9 + rlen r" and k = "9 + rlen r"])
      (use p Glen in \<open>auto intro: path.here\<close>)
  have 3: "ParseTail ?N (p + 12 + rlen r) (x\<lparr>m_code := c @ G 3 @ ?B 0 @ ?K (9 + rlen r) @ ?B 0\<rparr>) =
      Done () (x\<lparr>m_code := c @ G 3 @ ?B 6 @ ?K (9 + rlen r) @ ?B 0\<rparr>)"
    by (subst ParseTail_open [OF open_BRANCH, where b = "c @ G 3" and k = 6 and d = "?K (9 + rlen r) @ ?B 0"])
      (use p Glen in auto)
  let ?a = "G 3 @ ?B 6 @ ?K (9 + rlen r)"
  have "reach (G 3) 0 (6 + rlen r)" by (rule open_closed [OF G]) auto
  then have "reach ?a 0 (6 + rlen r)" by (rule reach_append)
  moreover have "reach ?a (6 + rlen r) (12 + rlen r)" using Glen by (intro reach_node) auto
  ultimately have "reach ?a 0 (length ?a)" using Glen by (auto intro: reach_trans)
  then have o: "open_code (\<lambda>k. ?a @ ?B k) (12 + rlen r)" by (rule open_after) (use Glen in auto)
  have 4: "ParseTail p (p + 15 + rlen r) (x\<lparr>m_code := c @ ?a @ ?B 0 @ node NOTHING 0\<rparr>) =
      Done () (x\<lparr>m_code := c @ ?a @ ?B 3 @ node NOTHING 0\<rparr>)"
    by (subst ParseTail_open [OF o, where b = c and k = 3 and d = "node NOTHING 0"]) (use p in auto)
  have x': "m_code x = c @ G 0" using x by (simp add: G_def)
  have P: "pcode n 0 (Many True r) = ?a @ ?B 3 @ node NOTHING 0" by (simp add: G_def)
  have sz: "length c + rlen r + 18 \<le> m_code_size x" using m x' Glen by simp
  show ?thesis unfolding P using fl t sz Glen 1 2 3 4 x'
    by (simp add: p ParseMult_def Let_def ParseNode_room mult_flags_def WORST_def add.commute add.left_commute)
qed

lemma ParseMult_opt:
  assumes x: "m_code x = c @ pcode n 0 q" and p: "p = length c" and g: "n + groups q \<le> 200"
    and m: "has_room x 9" and t: "\<not> ISMULT (peek t)" and len: "plen (Opt q) < 65536"
  shows "ParseMult p fl (CHR ''?'' # t) x = Done (p, mult_flags False, t) (x\<lparr>m_code := c @ pcode n 0 (Opt q)\<rparr>)"
proof -
  define F where "F k = pcode n k q" for k
  have F: "open_code F (plast q)" using open_piece [of q n] len g unfolding F_def by simp
  have Flen: "length (F k) = plen q" for k by (simp add: F_def)
  let ?B = "node BRANCH" and ?K = "plen q - plast q + 3" and ?L = "3 + plen q"
  have 1: "ParseTail p (p + ?L) (x\<lparr>m_code := c @ ?B 0 @ F 0 @ ?B 0\<rparr>) =
      Done () (x\<lparr>m_code := c @ ?B ?L @ F 0 @ ?B 0\<rparr>)"
    by (subst ParseTail_open [OF open_BRANCH, where b = c and k = ?L and d = "F 0 @ ?B 0"]) (use p in auto)
  have "reach (?B ?L @ F 0) 0 (length (?B ?L @ F 0))" using len Flen by (intro reach_first) auto
  then have o: "open_code (\<lambda>k. (?B ?L @ F 0) @ ?B k) ?L" by (rule open_after) (use Flen in auto)
  have 2: "ParseTail p (p + 6 + plen q) (x\<lparr>m_code := c @ ?B ?L @ F 0 @ ?B 0 @ node NOTHING 0\<rparr>) =
      Done () (x\<lparr>m_code := c @ ?B ?L @ F 0 @ ?B 3 @ node NOTHING 0\<rparr>)"
    by (subst ParseTail_open [OF o, where b = c and k = 3 and d = "node NOTHING 0"]) (use p in auto)
  have 3: "ParseOpTail p (p + 6 + plen q) (x\<lparr>m_code := c @ ?B ?L @ F 0 @ ?B 3 @ node NOTHING 0\<rparr>) =
      Done () (x\<lparr>m_code := c @ ?B ?L @ F ?K @ ?B 3 @ node NOTHING 0\<rparr>)"
    by (subst ParseOpTail_branch [OF F, where c = c and d = "?B 3 @ node NOTHING 0" and k = ?K and j = ?L])
      (use p plen_ge [of q] in auto)
  have x': "m_code x = c @ F 0" using x by (simp add: F_def)
  have "has_room x 3" using m by simp
  note ins = ParseInsert_room [OF x' p this, of BRANCH]
  have P: "pcode n 0 (Opt q) = ?B ?L @ F ?K @ ?B 3 @ node NOTHING 0" by (simp add: F_def)
  have sz: "length c + plen q + 9 \<le> m_code_size x" using m x' Flen by simp
  show ?thesis unfolding P using t sz Flen 1 2 3
    by (simp add: p ParseMult_def Let_def ins [unfolded p] ParseNode_room mult_flags_def WORST_def add.commute add.left_commute)
qed


section \<open>The compiler on whole patterns\<close>

definition upd_rx :: "rx \<Rightarrow> bytes \<Rightarrow> nat \<Rightarrow> rx" where
  "upd_rx x c n = x\<lparr>m_code := c, m_subx_count := int n\<rparr>"

lemma upd_rx_simps [simp]:
  "m_code (upd_rx x c n) = c" "m_subx_count (upd_rx x c n) = int n" "m_code_size (upd_rx x c n) = m_code_size x"
  "m_sensitive (upd_rx x c n) = m_sensitive x" "(upd_rx x c n)\<lparr>m_code := c'\<rparr> = upd_rx x c' n"
  "upd_rx (upd_rx x c n) c' n' = upd_rx x c' n'"
  by (simp_all add: upd_rx_def)

lemma upd_rx_code: "m_subx_count x = int n \<Longrightarrow> x\<lparr>m_code := c\<rparr> = upd_rx x c n"
  by (cases x) (simp add: upd_rx_def)

definition ready :: "rx \<Rightarrow> nat \<Rightarrow> nat \<Rightarrow> nat \<Rightarrow> bool" where
  "ready x n g len \<longleftrightarrow> m_subx_count x = int n \<and> n + g \<le> 35 \<and> m_sensitive x \<and> has_room x (len + 255) \<and> m_code_size x < 65000"

lemma readyD:
  assumes "ready x n g len"
  shows "m_subx_count x = int n" "n + g \<le> 35" "m_sensitive x" "has_room x (len + 255)" "len < 65000"
    "m_code_size x < 65000"
  using assms by (simp_all add: ready_def)

definition atom_spec :: "nat \<Rightarrow> piece \<Rightarrow> bool" where
  "atom_spec d p \<longleftrightarrow> (\<forall>n x t. ready x n (groups p) (plen p) \<longrightarrow> (is_lit p \<longrightarrow> ISMULT (peek t)) \<longrightarrow>
    (\<exists>sim. ParseAtom (RxParse d True) (text_piece p @ t) x =
      Done (length (m_code x), \<lparr>HASWIDTH = width p, SIMPLE = sim, SPSTART = spstart p\<rparr>, t)
        (upd_rx x (m_code x @ pcode n 0 p) (n + groups p))))"

definition piece_spec :: "nat \<Rightarrow> piece \<Rightarrow> bool" where
  "piece_spec d p \<longleftrightarrow> (\<forall>n x t. ready x n (groups p) (plen p) \<longrightarrow> \<not> ISMULT (peek t) \<longrightarrow> (is_lit p \<longrightarrow> lit_follow t) \<longrightarrow>
    (\<exists>sim. ParsePiece (RxParse d True) (text_piece p @ t) x =
      Done (length (m_code x), \<lparr>HASWIDTH = width p, SIMPLE = sim, SPSTART = spstart p\<rparr>, t)
        (upd_rx x (m_code x @ pcode n 0 p) (n + groups p))))"

definition stop_char :: "char \<Rightarrow> bool" where
  "stop_char c \<longleftrightarrow> c = NUL \<or> c = CHR '')'' \<or> c = NL \<or> c = CHR ''|''"

definition loop_spec :: "nat \<Rightarrow> branch \<Rightarrow> bool" where
  "loop_spec d b \<longleftrightarrow> (\<forall>n x t c f l k fl. ready x n (bgroups b) (tlen b) \<longrightarrow> stop_char (peek t) \<longrightarrow>
     open_code f l \<longrightarrow> m_code x = c @ f 0 \<longrightarrow> length (text_branch b) < k \<longrightarrow>
    branch_loop k (RxParse d True) (Some (length c)) fl (text_branch b @ t) x =
      Done (fl\<lparr>HASWIDTH := HASWIDTH fl \<or> bwidth b\<rparr>, t)
        (upd_rx x (if b = Empty then c @ f 0 else c @ f (length (f 0) - l) @ bcode n 0 b) (n + bgroups b)))"

definition branch_spec :: "nat \<Rightarrow> branch \<Rightarrow> bool" where
  "branch_spec d b \<longleftrightarrow> (\<forall>n x t. ready x n (bgroups b) (3 + blen b) \<longrightarrow> stop_char (peek t) \<longrightarrow>
    ParseBranch (RxParse d True) (text_branch b @ t) x =
      Done (length (m_code x), \<lparr>HASWIDTH = bwidth b, SIMPLE = False, SPSTART = bspstart b\<rparr>, t)
        (upd_rx x (m_code x @ node BRANCH 0 @ bcode n 0 b) (n + bgroups b)))"

definition alt_spec :: "nat \<Rightarrow> regex \<Rightarrow> bool" where
  "alt_spec d r \<longleftrightarrow> (\<forall>n x t c f l k fl. ready x n (rgroups r) (rlen r) \<longrightarrow> peek t \<in> {NUL, CHR '')''} \<longrightarrow>
     open_code f l \<longrightarrow> m_code x = c @ f 0 \<longrightarrow> length (text_regex r) < k \<longrightarrow>
    bind_step (ParseBranch (RxParse d True) (text_regex r @ t) x) (\<lambda>(br, fl', s) x.
       bind_step (ParseTail (length c) br x) (\<lambda>_.
       alt_loop k (RxParse d True) (length c)
         (fl\<lparr>HASWIDTH := HASWIDTH fl \<and> HASWIDTH fl', SPSTART := SPSTART fl \<or> SPSTART fl'\<rparr>) s)) =
      Done (fl\<lparr>HASWIDTH := HASWIDTH fl \<and> rwidth r, SPSTART := SPSTART fl \<or> rspstart r\<rparr>, t)
        (upd_rx x (c @ f (length (f 0) - l) @ rcode n False 0 r) (n + rgroups r)))"

lemma ParsePiece_atom:
  assumes "ready x n g len" "ParseAtom P s x = Done (r, fl, t) x'"
  shows "ParsePiece P s x = (if ISMULT (peek t) then ParseMult r fl t x' else Done (r, fl, t) x')"
  using assms by (simp add: ParsePiece_def ParseGrowBuf_def ready_def)

lemma lit_atom:
  assumes "wf_piece (Lit cs)" "length cs = 1"
  shows "atom_spec d (Lit cs)"
  unfolding atom_spec_def
proof (intro allI impI)
  fix n x t
  assume r: "ready x n (groups (Lit cs)) (plen (Lit cs))" and t: "is_lit (Lit cs) \<longrightarrow> ISMULT (peek t)"
  obtain l where l: "cs = [l]" using assms(2) by (cases cs) auto
  show "\<exists>sim. ParseAtom (RxParse d True) (text_piece (Lit cs) @ t) x =
      Done (length (m_code x), \<lparr>HASWIDTH = width (Lit cs), SIMPLE = sim, SPSTART = spstart (Lit cs)\<rparr>, t)
        (upd_rx x (m_code x @ pcode n 0 (Lit cs)) (n + groups (Lit cs)))"
    using readyD [OF r] t assms l ParseLit_single [of t x "snd l"]
    by (auto simp: ParseAtom_lit upd_rx_code [symmetric])
qed

lemma lit_piece:
  assumes "wf_piece (Lit cs)"
  shows "piece_spec d (Lit cs)"
  unfolding piece_spec_def
proof (intro allI impI)
  fix n x t
  assume r: "ready x n (groups (Lit cs)) (plen (Lit cs))" and t: "\<not> ISMULT (peek t)" "is_lit (Lit cs) \<longrightarrow> lit_follow t"
  obtain l ls where l: "cs = l # ls" using assms by (cases cs) auto
  obtain sim where "ParseLit (snd (hd cs) # concat (map text_char (tl cs)) @ t) x =
    Done (length (m_code x), \<lparr>HASWIDTH = True, SIMPLE = sim, SPSTART = False\<rparr>, t) (x\<lparr>m_code := m_code x @ pcode n 0 (Lit cs)\<rparr>)"
    using ParseLit_ok [of cs t x n] assms t readyD [OF r] by auto
  then have "ParseAtom (RxParse d True) (text_piece (Lit cs) @ t) x =
    Done (length (m_code x), \<lparr>HASWIDTH = True, SIMPLE = sim, SPSTART = False\<rparr>, t) (x\<lparr>m_code := m_code x @ pcode n 0 (Lit cs)\<rparr>)"
    using ParseAtom_lit [of l "RxParse d True" "concat (map text_char ls) @ t" x] assms l by simp
  from ParsePiece_atom [OF r this] t(1) readyD [OF r]
  show "\<exists>sim. ParsePiece (RxParse d True) (text_piece (Lit cs) @ t) x =
      Done (length (m_code x), \<lparr>HASWIDTH = width (Lit cs), SIMPLE = sim, SPSTART = spstart (Lit cs)\<rparr>, t)
        (upd_rx x (m_code x @ pcode n 0 (Lit cs)) (n + groups (Lit cs)))"
    by (auto simp: upd_rx_code [symmetric])
qed

lemma single_atom:
  assumes "wf_piece (One s)"
  shows "atom_spec d (One s)"
  unfolding atom_spec_def
proof (intro allI impI)
  fix n x t
  assume r: "ready x n (groups (One s)) (plen (One s))"
  show "\<exists>sim. ParseAtom (RxParse d True) (text_piece (One s) @ t) x =
      Done (length (m_code x), \<lparr>HASWIDTH = width (One s), SIMPLE = sim, SPSTART = spstart (One s)\<rparr>, t)
        (upd_rx x (m_code x @ pcode n 0 (One s)) (n + groups (One s)))"
    using readyD [OF r] assms ParseAtom_single [of s x t "RxParse d True"] by (auto simp: upd_rx_code [symmetric])
qed

lemma assert_atom: "atom_spec d (Assert a)"
  unfolding atom_spec_def using ParseAtom_assert
  by (auto simp: upd_rx_code [symmetric] ready_def WORST_def)

lemma atom_piece:
  assumes "atom_spec d p" "\<not> is_lit p"
  shows "piece_spec d p"
  unfolding piece_spec_def
proof (intro allI impI)
  fix n x t
  assume r: "ready x n (groups p) (plen p)" and t: "\<not> ISMULT (peek t)"
  obtain sim where "ParseAtom (RxParse d True) (text_piece p @ t) x =
      Done (length (m_code x), \<lparr>HASWIDTH = width p, SIMPLE = sim, SPSTART = spstart p\<rparr>, t)
        (upd_rx x (m_code x @ pcode n 0 p) (n + groups p))"
    using assms r unfolding atom_spec_def by blast
  from ParsePiece_atom [OF r this] t
  show "\<exists>sim. ParsePiece (RxParse d True) (text_piece p @ t) x =
      Done (length (m_code x), \<lparr>HASWIDTH = width p, SIMPLE = sim, SPSTART = spstart p\<rparr>, t)
        (upd_rx x (m_code x @ pcode n 0 p) (n + groups p))"
    by auto
qed

lemma rep_piece:
  assumes "wf_piece (Rep pos lazy s)"
  shows "piece_spec d (Rep pos lazy s)"
  unfolding piece_spec_def
proof (intro allI impI)
  fix n x t
  assume r: "ready x n (groups (Rep pos lazy s)) (plen (Rep pos lazy s))" and t: "\<not> ISMULT (peek t)"
  let ?c = "m_code x" and ?t = "mult_sign pos # (if lazy then ''?'' else []) @ t"
  have m: "ISMULT (peek ?t)" by (simp add: ISMULT_def)
  have "ParseAtom (RxParse d True) (text_single s @ ?t) x =
      Done (length ?c, \<lparr>HASWIDTH = True, SIMPLE = True, SPSTART = False\<rparr>, ?t) (x\<lparr>m_code := ?c @ single_code 0 s\<rparr>)"
    by (rule ParseAtom_single) (use assms readyD [OF r] m in auto)
  from ParsePiece_atom [OF r this] m
  have "ParsePiece (RxParse d True) (text_single s @ ?t) x =
      ParseMult (length ?c) \<lparr>HASWIDTH = True, SIMPLE = True, SPSTART = False\<rparr> ?t (x\<lparr>m_code := ?c @ single_code 0 s\<rparr>)"
    by simp
  also have "\<dots> = Done (length ?c, mult_flags pos, t) (x\<lparr>m_code := ?c @ node (rep_op pos lazy) 0 @ single_code 0 s\<rparr>)"
    by (subst ParseMult_rep [where c = ?c and s = s]) (use readyD [OF r] t in auto)
  finally show "\<exists>sim. ParsePiece (RxParse d True) (text_piece (Rep pos lazy s) @ t) x =
      Done (length ?c, \<lparr>HASWIDTH = width (Rep pos lazy s), SIMPLE = sim, SPSTART = spstart (Rep pos lazy s)\<rparr>, t)
        (upd_rx x (?c @ pcode n 0 (Rep pos lazy s)) (n + groups (Rep pos lazy s)))"
    using readyD [OF r] by (auto simp: upd_rx_code [symmetric] mult_flags_def)
qed


lemma opt_piece:
  assumes q: "atom_spec d q" "optional q"
  shows "piece_spec d (Opt q)"
  unfolding piece_spec_def
proof (intro allI impI)
  fix n x t
  assume r: "ready x n (groups (Opt q)) (plen (Opt q))" and t: "\<not> ISMULT (peek t)"
  let ?c = "m_code x" and ?t = "CHR ''?'' # t"
  have m: "ISMULT (peek ?t)" by (simp add: ISMULT_def)
  have rq: "ready x n (groups q) (plen q)" using r by (simp add: ready_def)
  obtain sim where a: "ParseAtom (RxParse d True) (text_piece q @ ?t) x =
      Done (length ?c, \<lparr>HASWIDTH = width q, SIMPLE = sim, SPSTART = spstart q\<rparr>, ?t) (upd_rx x (?c @ pcode n 0 q) (n + groups q))"
    using q(1) rq m unfolding atom_spec_def by blast
  let ?fl = "\<lparr>HASWIDTH = width q, SIMPLE = sim, SPSTART = spstart q\<rparr>"
  from ParsePiece_atom [OF r a] m
  have "ParsePiece (RxParse d True) (text_piece q @ ?t) x = ParseMult (length ?c) ?fl ?t (upd_rx x (?c @ pcode n 0 q) (n + groups q))"
    by simp
  also have "\<dots> = Done (length ?c, mult_flags False, t) (upd_rx x (?c @ pcode n 0 (Opt q)) (n + groups q))"
    by (subst ParseMult_opt [where c = ?c and n = n and q = q]) (use readyD [OF r] t in auto)
  finally show "\<exists>sim. ParsePiece (RxParse d True) (text_piece (Opt q) @ t) x =
      Done (length ?c, \<lparr>HASWIDTH = width (Opt q), SIMPLE = sim, SPSTART = spstart (Opt q)\<rparr>, t)
        (upd_rx x (?c @ pcode n 0 (Opt q)) (n + groups (Opt q)))"
    by (auto simp: mult_flags_def)
qed

definition group_spec :: "nat \<Rightarrow> regex \<Rightarrow> bool" where
  "group_spec d r \<longleftrightarrow> (\<forall>n x t. ready x n (groups (Group r)) (plen (Group r)) \<longrightarrow>
    RxParse d True (text_regex r @ CHR '')'' # t) x =
      Done (length (m_code x), \<lparr>HASWIDTH = rwidth r, SIMPLE = False, SPSTART = rspstart r\<rparr>, t)
        (upd_rx x (m_code x @ pcode n 0 (Group r)) (n + groups (Group r))))"

lemma ParseAtom_group:
  assumes "group_spec d r" "ready x n (groups (Group r)) (plen (Group r))"
  shows "ParseAtom (RxParse d True) (text_piece (Group r) @ t) x =
      Done (length (m_code x), \<lparr>HASWIDTH = rwidth r, SIMPLE = False, SPSTART = rspstart r\<rparr>, t)
        (upd_rx x (m_code x @ pcode n 0 (Group r)) (n + groups (Group r)))"
proof -
  have "RxParse d True (text_regex r @ CHR '')'' # t) x =
      Done (length (m_code x), \<lparr>HASWIDTH = rwidth r, SIMPLE = False, SPSTART = rspstart r\<rparr>, t)
        (upd_rx x (m_code x @ pcode n 0 (Group r)) (n + groups (Group r)))"
    using assms unfolding group_spec_def by blast
  then show ?thesis by (simp add: ParseAtom_def del: pcode.simps groups.simps RxParse.simps)
qed

lemma group_atom: "group_spec d r \<Longrightarrow> atom_spec d (Group r)"
  unfolding atom_spec_def using ParseAtom_group by fastforce

lemma many_piece:
  assumes g: "group_spec d r" and w: "rwidth r"
  shows "piece_spec d (Many pos r)"
  unfolding piece_spec_def
proof (intro allI impI)
  fix n x t
  assume r: "ready x n (groups (Many pos r)) (plen (Many pos r))" and t: "\<not> ISMULT (peek t)"
  let ?c = "m_code x" and ?t = "mult_sign pos # t" and ?x = "upd_rx x (m_code x @ pcode n 0 (Group r)) (n + groups (Group r))"
  let ?fl = "\<lparr>HASWIDTH = rwidth r, SIMPLE = False, SPSTART = rspstart r\<rparr>"
  have m: "ISMULT (peek ?t)" by (simp add: ISMULT_def)
  have "ready x n (groups (Group r)) (plen (Group r))" using r by (simp add: ready_def)
  from ParseAtom_group [OF g this]
  have "ParsePiece (RxParse d True) (text_piece (Group r) @ ?t) x = ParseMult (length ?c) ?fl ?t ?x"
    using ParsePiece_atom [OF r] m by simp
  also have "\<dots> = Done (length ?c, mult_flags pos, t) (upd_rx x (?c @ pcode n 0 (Many pos r)) (n + groups (Many pos r)))"
  proof (cases pos)
    case True
    have "ParseMult (length ?c) ?fl (CHR ''+'' # t) ?x =
        Done (length ?c, mult_flags True, t) (?x\<lparr>m_code := ?c @ pcode n 0 (Many True r)\<rparr>)"
      by (rule ParseMult_plus) (use readyD [OF r] t w in \<open>auto simp del: pcode.simps\<close>)
    then show ?thesis using True by (simp del: pcode.simps)
  next
    case False
    have "ParseMult (length ?c) ?fl (CHR ''*'' # t) ?x =
        Done (length ?c, mult_flags False, t) (?x\<lparr>m_code := ?c @ pcode n 0 (Many False r)\<rparr>)"
      by (rule ParseMult_star) (use readyD [OF r] t w in \<open>auto simp del: pcode.simps\<close>)
    then show ?thesis using False by (simp del: pcode.simps)
  qed
  finally show "\<exists>sim. ParsePiece (RxParse d True) (text_piece (Many pos r) @ t) x =
      Done (length ?c, \<lparr>HASWIDTH = width (Many pos r), SIMPLE = sim, SPSTART = spstart (Many pos r)\<rparr>, t)
        (upd_rx x (?c @ pcode n 0 (Many pos r)) (n + groups (Many pos r)))"
    by (auto simp: mult_flags_def simp del: pcode.simps)
qed

text \<open>What comes after a piece neither repeats it nor yields on with its literal.\<close>

lemma peek_append: "s \<noteq> [] \<Longrightarrow> peek (s @ t) = peek s"
  by (cases s) auto

lemma text_char_peek: "wf_char l \<Longrightarrow> \<not> ISMULT (peek (text_char l @ t)) \<and> \<not> stop_char (peek (text_char l @ t))"
  by (cases l) (auto simp: ordinary_def magic_char_def ISMULT_def stop_char_def)

lemma text_single_peek: "wf_single s \<Longrightarrow> \<not> ISMULT (peek (text_single s @ t)) \<and> \<not> stop_char (peek (text_single s @ t))"
  using text_char_peek by (cases s) (auto simp: ISMULT_def stop_char_def)

lemma text_piece_peek:
  assumes "wf_piece p"
  shows "\<not> ISMULT (peek (text_piece p @ t)) \<and> \<not> stop_char (peek (text_piece p @ t))"
proof -
  have lit: "\<not> ISMULT (peek (text_piece q @ u)) \<and> \<not> stop_char (peek (text_piece q @ u))"
    if q: "wf_piece q" "\<forall>r. q \<noteq> Opt r" for q u
  proof (cases q)
    case (Lit cs)
    then obtain l ls where "cs = l # ls" using q by (cases cs) auto
    then show ?thesis using q Lit text_char_peek [of l] by simp
  next
    case (Assert a)
    then show ?thesis by (cases a) (auto simp: ISMULT_def stop_char_def)
  qed (use q text_single_peek in \<open>auto simp: ISMULT_def stop_char_def\<close>)
  show ?thesis
  proof (cases p)
    case (Opt q)
    then have "wf_piece q" "\<forall>r. q \<noteq> Opt r" using assms by auto
    then show ?thesis using lit Opt by simp
  qed (use assms lit in blast)+
qed


lemma stop_magic: "stop_char c \<Longrightarrow> magic_char c \<and> \<not> ISMULT c"
  by (auto simp: stop_char_def magic_char_def ISMULT_def)

lemma text_branch_peek: "wf_branch b \<Longrightarrow> stop_char (peek t) \<Longrightarrow> \<not> ISMULT (peek (text_branch b @ t))"
  using text_piece_peek stop_magic by (cases b) auto

lemma single_follow:
  assumes "wf_single s" "(\<forall>l. s \<noteq> Char l) \<or> ISMULT (peek u)"
  shows "lit_follow (text_single s @ u)"
proof (cases s)
  case (Char l)
  then obtain m v where "u = m # v" "ISMULT m" using assms(2) by (cases u) (auto simp: ISMULT_def)
  moreover have "wf_char l" using assms(1) Char by simp
  ultimately have "wf_char l \<and> ISMULT m \<and> text_single s @ u = text_char l @ m # v" using Char by simp
  then show ?thesis unfolding lit_follow_def by blast
qed (simp_all add: lit_follow_def magic_char_def)

lemma piece_follow:
  assumes "wf_piece p" "\<not> is_lit p"
  shows "lit_follow (text_piece p @ u)"
proof -
  have assert: "lit_follow (text_assert a @ u)" for a u
    by (cases a) (auto simp: lit_follow_def magic_char_def)
  have paren: "lit_follow (CHR ''('' # u)" for u by (simp add: lit_follow_def magic_char_def)
  show ?thesis
  proof (cases p)
    case (Rep pos lazy s)
    then show ?thesis using assms single_follow [of s "mult_sign pos # (if lazy then ''?'' else []) @ u"]
      by (auto simp: ISMULT_def)
  next
    case (Opt q)
    have m: "ISMULT (peek (CHR ''?'' # u))" by (simp add: ISMULT_def)
    have "wf_piece q" "optional q" using assms Opt by auto
    then show ?thesis
    proof (cases q)
      case (Lit cs)
      then obtain l where "cs = [l]" using \<open>optional q\<close> by (cases cs) auto
      then show ?thesis using single_follow [of "Char l" "CHR ''?'' # u"] Opt Lit \<open>wf_piece q\<close> m by simp
    next
      case (One s)
      then show ?thesis using single_follow [of s "CHR ''?'' # u"] Opt \<open>wf_piece q\<close> m by simp
    qed (use Opt assert paren \<open>optional q\<close> in auto)
  next
    case (One s)
    then show ?thesis using single_follow [of s u] assms by simp
  qed (use assms assert paren in auto)
qed

lemma branch_follow:
  assumes "wf_branch b" "\<not> starts_lit b" "stop_char (peek t)"
  shows "lit_follow (text_branch b @ t)"
proof (cases b)
  case Empty
  then show ?thesis using assms stop_magic by (simp add: lit_follow_def)
next
  case (Seq p c)
  then show ?thesis using assms piece_follow [of p] by simp
qed

lemma tlen_pos: "b \<noteq> Empty \<Longrightarrow> blen b = tlen b"
  by (simp add: blen_def)

lemma text_piece_nonempty: "wf_piece p \<Longrightarrow> text_piece p \<noteq> []"
  using text_piece_peek [of p "[NUL]"] by (auto simp: stop_char_def)

lemma loop_cons:
  assumes p: "piece_spec d p" and b: "loop_spec d b" and wf: "wf_branch (Seq p b)"
  shows "loop_spec d (Seq p b)"
  unfolding loop_spec_def
proof (intro allI impI)
  fix n x t c f l k fl
  assume r: "ready x n (bgroups (Seq p b)) (tlen (Seq p b))" and t: "stop_char (peek t)" and f: "open_code f l"
    and x: "m_code x = c @ f 0" and k: "length (text_branch (Seq p b)) < k"
  obtain k' where k': "k = Suc k'" using k by (cases k) auto
  let ?u = "text_branch b @ t" and ?P = "RxParse d True"
  have wfp: "wf_piece p" using wf by simp
  have u: "\<not> ISMULT (peek ?u)" "is_lit p \<longrightarrow> lit_follow ?u"
    using wf t text_branch_peek [of b t] branch_follow [of b t] by auto
  have "ready x n (groups p) (plen p)" using r by (simp add: ready_def)
  then obtain sim where 1: "ParsePiece ?P (text_piece p @ ?u) x =
      Done (length (m_code x), \<lparr>HASWIDTH = width p, SIMPLE = sim, SPSTART = spstart p\<rparr>, ?u)
        (upd_rx x (m_code x @ pcode n 0 p) (n + groups p))"
    using p u unfolding piece_spec_def by blast
  have fl: "length (f (length (f 0) - l)) = length (f 0)" "l + 3 \<le> length (f 0)"
    using f unfolding opened_def by auto
  let ?c = "c @ f (length (f 0) - l)"
  have 2: "ParseTail (length c) (length (m_code x)) (upd_rx x (m_code x @ pcode n 0 p) (n + groups p)) =
      Done () (upd_rx x (?c @ pcode n 0 p) (n + groups p))"
    by (subst ParseTail_open [OF f, where b = c and d = "pcode n 0 p" and k = "length (f 0) - l"]) (use x fl in auto)
  have len: "plen p < 65000" "n + groups p \<le> 35" using r by (auto simp: ready_def)
  have 3: "branch_loop k' ?P (Some (length ?c)) (fl\<lparr>HASWIDTH := HASWIDTH fl \<or> width p\<rparr>) ?u
      (upd_rx x (?c @ pcode n 0 p) (n + groups p)) =
    Done (fl\<lparr>HASWIDTH := (HASWIDTH fl \<or> width p) \<or> bwidth b\<rparr>, t)
     (upd_rx x (if b = Empty then ?c @ pcode n 0 p else ?c @ pcode n (plen p - plast p) p @ bcode (n + groups p) 0 b)
       (n + groups p + bgroups b))"
  proof -
    have o: "open_code (\<lambda>k. pcode n k p) (plast p)" using len by (intro open_piece) auto
    have k: "length (text_branch b) < k'" using k k' text_piece_nonempty [OF wfp] by (cases "text_piece p") auto
    have "ready (upd_rx x (?c @ pcode n 0 p) (n + groups p)) (n + groups p) (bgroups b) (tlen b)"
      using r x fl by (auto simp: ready_def)
    then show ?thesis
      using b [unfolded loop_spec_def, rule_format, of "upd_rx x (?c @ pcode n 0 p) (n + groups p)" "n + groups p" t
        "\<lambda>k. pcode n k p" "plast p" ?c k' "fl\<lparr>HASWIDTH := HASWIDTH fl \<or> width p\<rparr>"] t o k
      by simp
  qed
  have np: "\<not> stop_char (peek (text_piece p @ ?u))" using text_piece_peek [OF wfp] by blast
  have "branch_loop k ?P (Some (length c)) fl (text_piece p @ ?u) x =
     Done (fl\<lparr>HASWIDTH := (HASWIDTH fl \<or> width p) \<or> bwidth b\<rparr>, t)
     (upd_rx x (if b = Empty then ?c @ pcode n 0 p else ?c @ pcode n (plen p - plast p) p @ bcode (n + groups p) 0 b)
       (n + groups p + bgroups b))"
    unfolding k' using np 1 2 3 x fl by (simp add: stop_char_def)
  then show "branch_loop k ?P (Some (length c)) fl (text_branch (Seq p b) @ t) x =
      Done (fl\<lparr>HASWIDTH := HASWIDTH fl \<or> bwidth (Seq p b)\<rparr>, t)
        (upd_rx x (if Seq p b = Empty then c @ f 0 else c @ f (length (f 0) - l) @ bcode n 0 (Seq p b)) (n + bgroups (Seq p b)))"
    by (simp add: bcode_Seq add.assoc disj_assoc)
qed

lemma loop_nil: "loop_spec d Empty"
  unfolding loop_spec_def
proof (intro allI impI)
  fix n x t c l k fl and f :: "nat \<Rightarrow> bytes"
  assume "ready x n (bgroups Empty) (tlen Empty)" "stop_char (peek t)" "m_code x = c @ f 0" "length (text_branch Empty) < k"
  then show "branch_loop k (RxParse d True) (Some (length c)) fl (text_branch Empty @ t) x =
      Done (fl\<lparr>HASWIDTH := HASWIDTH fl \<or> bwidth Empty\<rparr>, t)
        (upd_rx x (if Empty = Empty then c @ f 0 else c @ f (length (f 0) - l) @ bcode n 0 Empty) (n + bgroups Empty))"
    by (cases k) (auto simp: stop_char_def ready_def upd_rx_code [symmetric])
qed


lemma branch_nil: "branch_spec d Empty"
  unfolding branch_spec_def
proof (intro allI impI)
  fix n x t
  assume r: "ready x n (bgroups Empty) (3 + blen Empty)" and t: "stop_char (peek t)"
  show "ParseBranch (RxParse d True) (text_branch Empty @ t) x =
      Done (length (m_code x), \<lparr>HASWIDTH = bwidth Empty, SIMPLE = False, SPSTART = bspstart Empty\<rparr>, t)
        (upd_rx x (m_code x @ node BRANCH 0 @ bcode n 0 Empty) (n + bgroups Empty))"
    using readyD [OF r] t
    by (auto simp: ParseBranch_def ParseNode_room WORST_def bcode_def blen_def stop_char_def upd_rx_code [symmetric])
qed

lemma branch_cons:
  assumes p: "piece_spec d p" and b: "loop_spec d b" and wf: "wf_branch (Seq p b)"
  shows "branch_spec d (Seq p b)"
  unfolding branch_spec_def
proof (intro allI impI)
  fix n x t
  assume r: "ready x n (bgroups (Seq p b)) (3 + blen (Seq p b))" and t: "stop_char (peek t)"
  let ?u = "text_branch b @ t" and ?P = "RxParse d True" and ?c = "m_code x @ node BRANCH 0" and ?n = "n + groups p"
  have wfp: "wf_piece p" using wf by simp
  have u: "\<not> ISMULT (peek ?u)" "is_lit p \<longrightarrow> lit_follow ?u"
    using wf t text_branch_peek [of b t] branch_follow [of b t] by auto
  have bl: "blen (Seq p b) = plen p + tlen b" by (simp add: blen_def)
  have len: "plen p < 65000" "?n \<le> 35" using r by (auto simp: ready_def bl)
  have "ready (upd_rx x ?c n) n (groups p) (plen p)" using r by (auto simp: ready_def bl)
  then obtain sim where 1: "ParsePiece ?P (text_piece p @ ?u) (upd_rx x ?c n) =
      Done (length ?c, \<lparr>HASWIDTH = width p, SIMPLE = sim, SPSTART = spstart p\<rparr>, ?u) (upd_rx x (?c @ pcode n 0 p) ?n)"
    using p u unfolding piece_spec_def by fastforce
  have o: "open_code (\<lambda>k. pcode n k p) (plast p)" using len by (intro open_piece) auto
  have k: "length (text_branch b) < length (text_piece p @ ?u)"
    using text_piece_nonempty [OF wfp] by (cases "text_piece p") auto
  have "ready (upd_rx x (?c @ pcode n 0 p) ?n) ?n (bgroups b) (tlen b)" using r by (auto simp: ready_def bl)
  then have 2: "branch_loop (length (text_piece p @ ?u)) ?P (Some (length ?c))
      \<lparr>HASWIDTH = width p, SIMPLE = False, SPSTART = spstart p\<rparr> ?u (upd_rx x (?c @ pcode n 0 p) ?n) =
    Done (\<lparr>HASWIDTH = width p \<or> bwidth b, SIMPLE = False, SPSTART = spstart p\<rparr>, t)
     (upd_rx x (if b = Empty then ?c @ pcode n 0 p else ?c @ pcode n (plen p - plast p) p @ bcode ?n 0 b) (?n + bgroups b))"
    using b [unfolded loop_spec_def, rule_format, of "upd_rx x (?c @ pcode n 0 p) ?n" ?n t "\<lambda>k. pcode n k p" "plast p" ?c
        "length (text_piece p @ ?u)" "\<lparr>HASWIDTH = width p, SIMPLE = False, SPSTART = spstart p\<rparr>"] t o k
    by (simp del: append_assoc)
  have np: "\<not> stop_char (peek (text_piece p @ ?u))" using text_piece_peek [OF wfp] by blast
  have "branch_loop (Suc (length (text_piece p @ ?u))) ?P None WORST (text_piece p @ ?u) (upd_rx x ?c n) =
    Done (\<lparr>HASWIDTH = width p \<or> bwidth b, SIMPLE = False, SPSTART = spstart p\<rparr>, t)
     (upd_rx x (if b = Empty then ?c @ pcode n 0 p else ?c @ pcode n (plen p - plast p) p @ bcode ?n 0 b) (?n + bgroups b))"
    using np 1 2 by (simp add: stop_char_def WORST_def)
  moreover have "ParseNode BRANCH x = Done (length (m_code x)) (upd_rx x ?c n)"
    using readyD [OF r] by (simp add: ParseNode_room upd_rx_code [symmetric])
  ultimately show "ParseBranch ?P (text_branch (Seq p b) @ t) x =
      Done (length (m_code x), \<lparr>HASWIDTH = bwidth (Seq p b), SIMPLE = False, SPSTART = bspstart (Seq p b)\<rparr>, t)
        (upd_rx x (m_code x @ node BRANCH 0 @ bcode n 0 (Seq p b)) (n + bgroups (Seq p b)))"
    by (simp add: ParseBranch_def bcode_Seq add.assoc)
qed

fun first_branch :: "regex \<Rightarrow> branch" where
  "first_branch (Last b) = b"
| "first_branch (Alt nl b r) = b"

fun rest_text :: "regex \<Rightarrow> bytes" where
  "rest_text (Last b) = []"
| "rest_text (Alt nl b r) = (if nl then NL else CHR ''|'') # text_regex r"

fun rest_ok :: "nat \<Rightarrow> regex \<Rightarrow> bool" where
  "rest_ok d (Last b) = True"
| "rest_ok d (Alt nl b r) = alt_spec d r"

lemma text_regex_first: "text_regex r = text_branch (first_branch r) @ rest_text r"
  by (cases r) auto

lemma rest_stop: "peek t \<in> {NUL, CHR '')''} \<Longrightarrow> stop_char (peek (rest_text r @ t))"
  by (cases r) (auto simp: stop_char_def)

text \<open>The loop over the alternatives, when the first branch follows \<^verbatim>\<open>a\<close>.\<close>

lemma alts_after:
  assumes rest: "rest_ok d r" and t: "peek t \<in> {NUL, CHR '')''}" and a: "reach a 0 (length a)"
    and x: "m_code x = c @ a @ node BRANCH 0 @ bcode n 0 (first_branch r)"
    and rd: "ready x (n + bgroups (first_branch r)) (rgroups r - bgroups (first_branch r)) (rlen r - (3 + blen (first_branch r)))"
    and len: "rlen r < 65000" and k: "length (rest_text r) < k"
  shows "alt_loop k (RxParse d True) (length c) fl (rest_text r @ t) x =
      Done (fl\<lparr>HASWIDTH := HASWIDTH fl \<and> (\<forall>nl b r'. r = Alt nl b r' \<longrightarrow> rwidth r'),
               SPSTART := SPSTART fl \<or> (\<exists>nl b r'. r = Alt nl b r' \<and> rspstart r')\<rparr>, t)
        (upd_rx x (c @ a @ rcode n False 0 r) (n + rgroups r))"
proof (cases r)
  case (Last b)
  obtain k' where "k = Suc k'" using k by (cases k) auto
  then show ?thesis using Last t x readyD [OF rd] by (auto simp: upd_rx_code [symmetric] bcode_def)
next
  case (Alt nl b r')
  obtain k' where k': "k = Suc k'" using k by (cases k) auto
  let ?f = "\<lambda>j. a @ node BRANCH j @ bcode n 0 b"
  have o: "open_code ?f (length a)"
    by (rule open_ext [OF open_BRANCH a]) auto
  have "ready x (n + bgroups b) (rgroups r') (rlen r')" using rd Alt by simp
  moreover have "length (text_regex r') < k'" using k k' Alt by simp
  ultimately have "bind_step (ParseBranch (RxParse d True) (text_regex r' @ t) x) (\<lambda>(br, fl', s) x.
       bind_step (ParseTail (length c) br x) (\<lambda>_.
       alt_loop k' (RxParse d True) (length c)
         (fl\<lparr>HASWIDTH := HASWIDTH fl \<and> HASWIDTH fl', SPSTART := SPSTART fl \<or> SPSTART fl'\<rparr>) s)) =
      Done (fl\<lparr>HASWIDTH := HASWIDTH fl \<and> rwidth r', SPSTART := SPSTART fl \<or> rspstart r'\<rparr>, t)
        (upd_rx x (c @ ?f (length (?f 0) - length a) @ rcode (n + bgroups b) False 0 r') (n + bgroups b + rgroups r'))"
    using rest Alt t o x by (auto simp: alt_spec_def)
  then show ?thesis using Alt k' by (simp add: add.assoc)
qed


lemma ParseBranch_first:
  assumes b: "branch_spec d (first_branch r)" and rd: "ready x n (rgroups r) (rlen r)" and t: "peek t \<in> {NUL, CHR '')''}"
  shows "ParseBranch (RxParse d True) (text_regex r @ t) x =
      Done (length (m_code x),
          \<lparr>HASWIDTH = bwidth (first_branch r), SIMPLE = False, SPSTART = bspstart (first_branch r)\<rparr>, rest_text r @ t)
        (upd_rx x (m_code x @ node BRANCH 0 @ bcode n 0 (first_branch r)) (n + bgroups (first_branch r)))"
proof -
  have "ready x n (bgroups (first_branch r)) (3 + blen (first_branch r))"
    using rd by (cases r) (auto simp: ready_def)
  then show ?thesis using b rest_stop [OF t, of r] unfolding branch_spec_def by (simp add: text_regex_first)
qed

lemma flags_first:
  "bwidth (first_branch r) \<and> (\<forall>nl b r'. r = Alt nl b r' \<longrightarrow> rwidth r') \<longleftrightarrow> rwidth r"
  "bspstart (first_branch r) \<or> (\<exists>nl b r'. r = Alt nl b r' \<and> rspstart r') \<longleftrightarrow> rspstart r"
  by (cases r; auto)+

lemma alt_intro:
  assumes b: "branch_spec d (first_branch r)" and rest: "rest_ok d r"
  shows "alt_spec d r"
  unfolding alt_spec_def
proof (intro allI impI)
  fix n x t c f l k fl
  assume rd: "ready x n (rgroups r) (rlen r)" and t: "peek t \<in> {NUL, CHR '')''}" and f: "open_code f l"
    and x: "m_code x = c @ f 0" and k: "length (text_regex r) < k"
  let ?b = "first_branch r" and ?L = "length (f 0) - l"
  have fl: "length (f ?L) = length (f 0)" "l + 3 \<le> length (f 0)"
    using f unfolding opened_def by auto
  let ?x = "upd_rx x (c @ f ?L @ node BRANCH 0 @ bcode n 0 ?b) (n + bgroups ?b)"
  have 1: "ParseTail (length c) (length (m_code x)) (upd_rx x (m_code x @ node BRANCH 0 @ bcode n 0 ?b) (n + bgroups ?b)) =
      Done () ?x"
    by (subst ParseTail_open [OF f, where b = c and d = "node BRANCH 0 @ bcode n 0 ?b" and k = ?L]) (use x fl in auto)
  have 2: "alt_loop k (RxParse d True) (length c) g (rest_text r @ t) ?x =
      Done (g\<lparr>HASWIDTH := HASWIDTH g \<and> (\<forall>nl b r'. r = Alt nl b r' \<longrightarrow> rwidth r'),
               SPSTART := SPSTART g \<or> (\<exists>nl b r'. r = Alt nl b r' \<and> rspstart r')\<rparr>, t)
        (upd_rx ?x (c @ f ?L @ rcode n False 0 r) (n + rgroups r))" for g
  proof (rule alts_after [OF rest t])
    have "length (f 0) < 65000" using x readyD [OF rd] by simp
    then show "reach (f ?L) 0 (length (f ?L))" using fl by (intro open_closed [OF f]) auto
    show "ready ?x (n + bgroups ?b) (rgroups r - bgroups ?b) (rlen r - (3 + blen ?b))"
      using rd x fl by (cases r) (auto simp: ready_def)
    show "rlen r < 65000" using readyD [OF rd] by simp
    show "length (rest_text r) < k" using k by (simp add: text_regex_first)
  qed simp
  show "bind_step (ParseBranch (RxParse d True) (text_regex r @ t) x) (\<lambda>(br, fl', s) x.
       bind_step (ParseTail (length c) br x) (\<lambda>_.
       alt_loop k (RxParse d True) (length c)
         (fl\<lparr>HASWIDTH := HASWIDTH fl \<and> HASWIDTH fl', SPSTART := SPSTART fl \<or> SPSTART fl'\<rparr>) s)) =
      Done (fl\<lparr>HASWIDTH := HASWIDTH fl \<and> rwidth r, SPSTART := SPSTART fl \<or> rspstart r\<rparr>, t)
        (upd_rx x (c @ f ?L @ rcode n False 0 r) (n + rgroups r))"
    unfolding ParseBranch_first [OF b rd t] using 1 2 flags_first [of r] by (auto simp: conj_assoc disj_assoc)
qed

text \<open>The closing node, with everything linked to it.\<close>

lemma close_regex:
  assumes x: "m_code x = c @ a @ rcode n False 0 r" and a: "reach a 0 (length a)"
    and op: "op < 256" "op \<noteq> BACK" "op \<noteq> BRANCH" and m: "has_room x 3" and len: "length a + rlen r + 3 < 65000"
    and n: "n + rgroups r \<le> 200"
    and a1: "a = [] \<or> (\<exists>q. a = node q 3 \<and> q < 256 \<and> q \<noteq> BACK \<and> q \<noteq> BRANCH)"
  shows "bind_step (ParseNode op x) (\<lambda>ender x.
       bind_step (ParseTail (length c) ender x) (\<lambda>_ x.
       bind_step (hook_tails (length (m_code x)) (length c) ender x) g)) =
     g () (x\<lparr>m_code := c @ a @ rcode n True (rlen r - rlast r) r @ node op 0\<rparr>)"
proof -
  let ?e = "length c + length a + rlen r" and ?k = "rlen r - rlast r"
  let ?y = "x\<lparr>m_code := c @ a @ rcode n False ?k r @ node op 0\<rparr>"
  let ?z = "x\<lparr>m_code := c @ a @ rcode n True ?k r @ node op 0\<rparr>"
  have "rlen r < 65536" using len by simp
  then have "open_code (\<lambda>k. a @ rcode n False k r @ []) (length a + rlast r)"
    by (intro open_ext [OF open_regex a]) auto
  then have o: "open_code (\<lambda>k. a @ rcode n False k r) (length a + rlast r)" by simp
  have 1: "ParseTail (length c) ?e (x\<lparr>m_code := c @ a @ rcode n False 0 r @ node op 0\<rparr>) = Done () ?y"
    by (subst ParseTail_open [OF o, where b = c and d = "node op 0" and k = ?k]) (use rlen_ge [of r] in auto)
  have 2: "hook_tails N (length c + length a) ?e ?y = Done () ?z" if N: "rlen r \<le> N" for N
    using hook_tails_ok [of ?y "c @ a" n r op "length c + length a" ?e N] op len n N by simp
  have 3: "hook_tails (length (m_code ?y)) (length c) ?e ?y = Done () ?z"
    using a1
  proof
    assume "a = []"
    then show ?thesis using 2 [of "length (m_code ?y)"] by simp
  next
    assume "\<exists>q. a = node q 3 \<and> q < 256 \<and> q \<noteq> BACK \<and> q \<noteq> BRANCH"
    then obtain q where q: "a = node q 3" "q < 256" "q \<noteq> BACK" "q \<noteq> BRANCH" by blast
    have c: "m_code ?y = c @ node q 3 @ rcode n False ?k r @ node op 0" using q by simp
    have "node_ok (m_code ?y) (length c)" unfolding c using q by (intro node_ok_node) auto
    moreover have "OP (m_code ?y) (length c) \<noteq> BRANCH" unfolding c using q by simp
    moreover have "ParseNext (m_code ?y) (length c) = Some (length c + 3)"
      unfolding c using q by (intro ParseNext_node) auto
    ultimately have "hook_tails (Suc N) (length c) ?e ?y = hook_tails N (length c + 3) ?e ?y" for N
      by (simp add: ParseOpTail_def)
    moreover have "length (m_code ?y) = Suc (length c + rlen r + 5)" using q by simp
    moreover have "hook_tails (length c + rlen r + 5) (length c + 3) ?e ?y = Done () ?z"
      using 2 [of "length c + rlen r + 5"] q by simp
    ultimately show ?thesis by (simp only:)
  qed
  show ?thesis using m x 1 3 by (simp add: ParseNode_room add.assoc)
qed


declare alt_loop.simps [simp del]

lemma open_OPEN: "n < 200 \<Longrightarrow> open_code (\<lambda>k. node (OPEN + n) k) 0"
  using open_node [of "OPEN + n" BACK "[]"] by simp

lemma group_ok:
  assumes b: "branch_spec d (first_branch r)" and rest: "rest_ok d r"
  shows "group_spec (Suc d) r"
  unfolding group_spec_def
proof (intro allI impI)
  fix n x t
  assume rd: "ready x n (groups (Group r)) (plen (Group r))"
  let ?b = "first_branch r" and ?c = "m_code x" and ?P = "RxParse d True" and ?t = "CHR '')'' # t" and ?n = "Suc n"
  let ?O = "node (OPEN + n)" and ?r = "length (m_code x)"
  note R = readyD [OF rd]
  have pt: "peek ?t \<in> {NUL, CHR '')''}" by simp
  let ?x1 = "upd_rx x (?c @ ?O 0) ?n"
  have 1: "ParseNode (OPEN + n) (x\<lparr>m_subx_count := m_subx_count x + 1\<rparr>) = Done ?r ?x1"
    using R by (simp add: ParseNode_room upd_rx_def)
  have rd1: "ready ?x1 ?n (rgroups r) (rlen r)" using rd by (auto simp: ready_def)
  note 2 = ParseBranch_first [OF b rd1 pt]
  let ?B = "node BRANCH 0 @ bcode ?n 0 ?b"
  let ?x3 = "upd_rx x (?c @ ?O 3 @ ?B) (?n + bgroups ?b)"
  have n: "n < 200" using R by simp
  have 3: "ParseTail ?r (length (m_code ?x1)) (upd_rx ?x1 (m_code ?x1 @ ?B) (?n + bgroups ?b)) = Done () ?x3"
    by (subst ParseTail_open [OF open_OPEN [OF n], where b = ?c and d = ?B and k = 3]) auto
  have reach: "reach (?O 3) 0 (length (?O 3))" using reach_first [of "OPEN + n" BACK 3 3 "[]"] R by simp
  have 4: "alt_loop (Suc (length (rest_text r @ ?t))) ?P ?r
      \<lparr>HASWIDTH = bwidth ?b, SIMPLE = False, SPSTART = bspstart ?b\<rparr> (rest_text r @ ?t) ?x3 =
    Done (\<lparr>HASWIDTH = rwidth r, SIMPLE = False, SPSTART = rspstart r\<rparr>, ?t)
      (upd_rx x (?c @ ?O 3 @ rcode ?n False 0 r) (?n + rgroups r))"
    by (subst alts_after [OF rest pt reach, where n = ?n])
      (use R flags_first [of r] in \<open>cases r; auto simp: ready_def\<close>)+
  let ?x4 = "upd_rx x (?c @ ?O 3 @ rcode ?n False 0 r) (?n + rgroups r)"
  have 5: "bind_step (ParseNode (CLOSE + n) ?x4) (\<lambda>ender x.
       bind_step (ParseTail ?r ender x) (\<lambda>_ x.
       bind_step (hook_tails (length (m_code x)) ?r ender x) g)) =
     g () (?x4\<lparr>m_code := ?c @ ?O 3 @ rcode ?n True (rlen r - rlast r) r @ node (CLOSE + n) 0\<rparr>)"
    for g :: "unit \<Rightarrow> rx \<Rightarrow> (nat \<times> flags \<times> bytes) step"
    by (rule close_regex [where a = "?O 3"]) (use R reach in auto)
  have m: "\<not> m_subx_count x \<ge> int MAX_SUBX" "nat (m_subx_count x) = n" using R by (auto simp: MAX_SUBX_def)
  show "RxParse (Suc d) True (text_regex r @ ?t) x =
      Done (length ?c, \<lparr>HASWIDTH = rwidth r, SIMPLE = False, SPSTART = rspstart r\<rparr>, t)
        (upd_rx x (?c @ pcode n 0 (Group r)) (n + groups (Group r)))"
    using 1 2 3 4 5 m by (simp add: Let_def WORST_def del: hook_tails.simps)
qed


lemma specs:
  "wf_piece p \<Longrightarrow> depth p \<le> d \<Longrightarrow> piece_spec d p \<and> (optional p \<longrightarrow> atom_spec d p)"
  "wf_branch b \<Longrightarrow> bdepth b \<le> d \<Longrightarrow> loop_spec d b \<and> branch_spec d b"
  "wf_regex r \<Longrightarrow> rdepth r \<le> d \<Longrightarrow> branch_spec d (first_branch r) \<and> rest_ok d r"
proof (induction p and b and r arbitrary: d and d and d rule: piece.induct branch.induct regex.induct)
  case (Lit cs)
  then show ?case using lit_piece lit_atom by simp
next
  case (Assert a)
  show ?case using assert_atom atom_piece [of d "Assert a"] by simp
next
  case (One s)
  then show ?case using single_atom atom_piece [of d "One s"] by simp
next
  case (Rep pos lazy s)
  then show ?case using rep_piece by simp
next
  case (Group r)
  obtain e where e: "d = Suc e" using Group.prems(2) by (cases d) auto
  have "group_spec d r" unfolding e using Group e by (intro group_ok) auto
  then show ?case using group_atom atom_piece [of d "Group r"] by simp
next
  case (Many pos r)
  obtain e where e: "d = Suc e" using Many.prems(2) by (cases d) auto
  have "group_spec d r" unfolding e using Many e by (intro group_ok) auto
  then show ?case using many_piece Many by simp
next
  case (Opt q)
  then show ?case using opt_piece by simp
next
  case Empty
  show ?case using loop_nil branch_nil by simp
next
  case (Seq p b)
  then show ?case using loop_cons branch_cons by simp
next
  case (Last b)
  then show ?case by simp
next
  case (Alt nl b r)
  then show ?case using alt_intro [of d r] by simp
qed

lemma RxParse_ok:
  assumes wf: "wf_regex r" and dep: "rdepth r \<le> d" and rd: "ready x n (rgroups r) (rlen r + 3)"
  shows "RxParse (Suc d) False (text_regex r) x =
      Done (length (m_code x), \<lparr>HASWIDTH = rwidth r, SIMPLE = False, SPSTART = rspstart r\<rparr>, [])
        (upd_rx x (m_code x @ rcode n True (rlen r - rlast r) r @ node END 0) (n + rgroups r))"
proof -
  have b: "branch_spec d (first_branch r)" and rest: "rest_ok d r" using specs(3) [OF wf dep] by auto
  let ?b = "first_branch r" and ?c = "m_code x" and ?P = "RxParse d True" and ?r = "length (m_code x)"
  note R = readyD [OF rd]
  have pt: "peek [] \<in> {NUL, CHR '')''}" by simp
  have rd1: "ready x n (rgroups r) (rlen r)" using rd by (auto simp: ready_def)
  have 2: "ParseBranch ?P (text_regex r) x = Done (?r, \<lparr>HASWIDTH = bwidth ?b, SIMPLE = False, SPSTART = bspstart ?b\<rparr>,
      rest_text r) (upd_rx x (?c @ node BRANCH 0 @ bcode n 0 ?b) (n + bgroups ?b))"
    using ParseBranch_first [OF b rd1 pt] by simp
  let ?x3 = "upd_rx x (?c @ node BRANCH 0 @ bcode n 0 ?b) (n + bgroups ?b)"
  let ?x4 = "upd_rx x (?c @ rcode n False 0 r) (n + rgroups r)"
  have 4: "alt_loop (Suc (length (rest_text r))) ?P ?r
      \<lparr>HASWIDTH = bwidth ?b, SIMPLE = False, SPSTART = bspstart ?b\<rparr> (rest_text r) ?x3 =
    Done (\<lparr>HASWIDTH = rwidth r, SIMPLE = False, SPSTART = rspstart r\<rparr>, []) ?x4"
    using alts_after [OF rest pt, of "[]" ?x3 ?c n "Suc (length (rest_text r))" "\<lparr>HASWIDTH = bwidth ?b, SIMPLE = False, SPSTART = bspstart ?b\<rparr>"]
      R flags_first [of r] by (cases r) (auto simp: ready_def path.here)
  have 5: "bind_step (ParseNode END ?x4) (\<lambda>ender x.
       bind_step (ParseTail ?r ender x) (\<lambda>_ x.
       bind_step (hook_tails (length (m_code x)) ?r ender x) g)) =
     g () (?x4\<lparr>m_code := ?c @ [] @ rcode n True (rlen r - rlast r) r @ node END 0\<rparr>)"
    for g :: "unit \<Rightarrow> rx \<Rightarrow> (nat \<times> flags \<times> bytes) step"
    by (rule close_regex [where a = "[]"]) (use R in \<open>auto intro: path.here\<close>)
  show ?thesis using 2 4 5 by (simp add: Let_def WORST_def del: hook_tails.simps)
qed

section \<open>Compile\<close>

lemma text_no_NUL:
  "wf_piece p \<Longrightarrow> NUL \<notin> set (text_piece p)"
  "wf_branch b \<Longrightarrow> NUL \<notin> set (text_branch b)"
  "wf_regex r \<Longrightarrow> NUL \<notin> set (text_regex r)"
proof -
  have l: "wf_char l \<Longrightarrow> NUL \<notin> set (text_char l)" for l by (cases l) auto
  have it: "wf_item i \<or> wf_first_item i \<Longrightarrow> NUL \<notin> set (text_item i)" for i by (cases i) auto
  have s: "wf_single s \<Longrightarrow> NUL \<notin> set (text_single s)" for s
  proof (cases s)
    case (Class neg its)
    assume "wf_single s"
    then show ?thesis using Class it by (cases its) auto
  qed (use l in auto)
  show "wf_piece p \<Longrightarrow> NUL \<notin> set (text_piece p)" "wf_branch b \<Longrightarrow> NUL \<notin> set (text_branch b)"
    "wf_regex r \<Longrightarrow> NUL \<notin> set (text_regex r)"
  proof (induction p and b and r rule: piece.induct branch.induct regex.induct)
    case (Lit cs)
    then show ?case using l by auto
  next
    case (Assert a)
    show ?case by (cases a) auto
  qed (use s in auto)
qed

lemma depth_le_text:
  "depth p \<le> length (text_piece p)" "bdepth b \<le> length (text_branch b)" "rdepth r \<le> length (text_regex r)"
  by (induction p and b and r rule: piece.induct branch.induct regex.induct) auto


text \<open>What the optimiser of \<^verbatim>\<open>Compile\<close> finds: how a match must start, and literals it must contain.\<close>

fun start_char :: "regex \<Rightarrow> char" where
  "start_char (Last (Seq (Lit cs) b)) = snd (hd cs)"
| "start_char _ = NUL"

fun anchored :: "regex \<Rightarrow> bool" where
  "anchored (Last (Seq (Assert LineStart) b)) = True"
| "anchored _ = False"

fun blits :: "branch \<Rightarrow> lit list set" where
  "blits Empty = {}"
| "blits (Seq p b) = (case p of Lit cs \<Rightarrow> {cs} | _ \<Rightarrow> {}) \<union> blits b"

fun rlits :: "regex \<Rightarrow> lit list set" where
  "rlits (Last b) = blits b"
| "rlits (Alt nl b r) = {}"

definition must_ok :: "lit list set \<Rightarrow> bytes \<Rightarrow> nat option \<Rightarrow> nat \<Rightarrow> bool" where
  "must_ok L c must len \<longleftrightarrow>
    (\<forall>q. must = Some q \<longrightarrow> q < length c \<and> (\<exists>cs \<in> L. len = length cs \<and> take len (drop q c) = map snd cs))"

lemma longest_skip:
  "path EXACTLY c p q \<Longrightarrow> \<exists>k \<le> q - p. \<forall>N. longest_must (k + N) c p l len = longest_must N c q l len"
proof (induction rule: path.induct)
  case (here p)
  then show ?case by (intro exI [of _ 0]) auto
next
  case (link p q)
  then obtain k where k: "k \<le> q - (p + NEXT c p)" "\<forall>N. longest_must (k + N) c (p + NEXT c p) l len = longest_must N c q l len"
    by blast
  have "p + NEXT c p \<le> q" by (rule reach_le [OF link.hyps(5)])
  then have "Suc k \<le> q - p" using k link.hyps(4) by linarith
  moreover have "longest_must (Suc k + N) c p l len = longest_must N c q l len" for N
    using k link.hyps by (simp add: ParseNext_def Let_def)
  ultimately show ?case by blast
qed

lemma opnd_node:
  assumes "c = a @ node op k @ s @ NUL # d" "p = length a" "NUL \<notin> set s"
  shows "opnd c p = s" "opnd_ok c p"
proof -
  have "drop (p + 3) c = s @ NUL # d" using assms by simp
  then show "opnd c p = s" "opnd_ok c p"
    using assms(3) by (auto simp: opnd_def opnd_ok_def cstr_def takeWhile_append)
qed

lemma lit_no_NUL: "\<forall>l \<in> set cs. wf_char l \<Longrightarrow> NUL \<notin> set (map snd cs)"
  by auto

lemma longest_piece:
  assumes wf: "wf_piece p" and c: "c = a @ pcode n (plen p - plast p) p @ d" and len: "plen p < 65536" and n: "n + groups p \<le> 200"
    and L: "\<And>cs. p = Lit cs \<Longrightarrow> cs \<in> L" and ok: "must_ok L c l m"
  shows "\<exists>k l' m'. k \<le> plen p \<and> must_ok L c l' m' \<and>
    (\<forall>N. longest_must (k + N) c (length a) l m = longest_must N c (length a + plen p) l' m')"
proof (cases "literal p")
  case False
  have "path EXACTLY (pcode n (plen p - plast p) p) 0 (plen p)"
    by (rule closed_piece) (use assms False in auto)
  then have "path EXACTLY c (length a) (length a + plen p)" unfolding c by (intro reach_in) auto
  from longest_skip [OF this, of l m] ok show ?thesis by auto
next
  case True
  then obtain cs where p: "p = Lit cs" using wf by (cases p) (auto simp: literal_def)
  let ?k = "4 + length cs" and ?s = "map snd cs"
  have c': "c = a @ node EXACTLY ?k @ ?s @ NUL # d" using c p by simp
  have s: "NUL \<notin> set ?s" using wf p lit_no_NUL by simp
  note op = opnd_node [OF c' refl s]
  have "node_ok c (length a)" "OP c (length a) = EXACTLY" unfolding c' by (auto intro: node_ok_node)
  moreover have "ParseNext c (length a) = Some (length a + ?k)"
    unfolding c' using len p by (intro ParseNext_node) auto
  moreover define l' m' where "l' = (if m \<le> length cs then Some (length a + 3) else l)"
    and "m' = (if m \<le> length cs then length cs else m)"
  ultimately have "longest_must (Suc N) c (length a) l m = longest_must N c (length a + plen p) l' m'" for N
    using op p by (simp add: Let_def)
  moreover have "must_ok L c l' m'"
    unfolding must_ok_def
  proof (intro allI impI)
    fix q assume q: "l' = Some q"
    show "q < length c \<and> (\<exists>cs\<in>L. m' = length cs \<and> take m' (drop q c) = map snd cs)"
    proof (cases "m \<le> length cs")
      case True
      then have "q = length a + 3" "m' = length cs" using q by (auto simp: l'_def m'_def)
      then show ?thesis using L [OF p] c' by auto
    next
      case False
      then show ?thesis using ok q by (simp add: l'_def m'_def must_ok_def)
    qed
  qed
  ultimately show ?thesis by (intro exI [of _ 1] exI [of _ l'] exI [of _ m']) (use p in auto)
qed

lemma longest_end:
  assumes "c = a @ node END 0" "p = length a"
  shows "longest_must (Suc N) c p l m = Some (l, m)"
proof -
  have p: "length a = p" using assms(2) by simp
  show ?thesis
    using node_ok_node [OF p, of END 0 "[]"] OP_node [OF p, of END 0 "[]"] ParseNext_null [OF p, of END "[]"] assms(1)
    by (simp add: Let_def)
qed

declare longest_must.simps [simp del]

lemma longest_branch:
  assumes "wf_branch b" "c = a @ bcode n (blen b - blast b) b @ node END 0" "blen b < 65536" "n + bgroups b \<le> 200"
    "blits b \<subseteq> L" "must_ok L c l m" "blen b < N"
  shows "\<exists>l' m'. longest_must N c (length a) l m = Some (l', m') \<and> must_ok L c l' m'"
  using assms
proof (induction b arbitrary: a n l m N rule: blits.induct)
  case 1
  have "path EXACTLY (node NOTHING 3 @ []) 0 3" by (rule reach_first) auto
  then have "path EXACTLY (a @ (node NOTHING 3 @ []) @ node END 0) (length a) (length a + 3)"
    by (rule reach_in) auto
  then have "path EXACTLY c (length a) (length a + 3)" using 1 by (simp add: bcode_def blen_def)
  from longest_skip [OF this, of l m] obtain k where
    k: "k \<le> 3" "\<And>N. longest_must (k + N) c (length a) l m = longest_must N c (length a + 3) l m"
    by auto
  obtain j where j: "N = k + Suc j" using 1(7) k(1) by (metis add_Suc_right blen_def le_less_trans less_imp_Suc_add)
  have "longest_must (Suc j) c (length a + 3) l m = Some (l, m)"
    by (rule longest_end [where a = "a @ node NOTHING 3"]) (use 1 in \<open>auto simp: bcode_def blen_def\<close>)
  then show ?case using k(2) [of "Suc j"] j 1(6) by simp
next
  case (2 p b)
  let ?d = "(if b = Empty then [] else bcode (n + groups p) (blen b - blast b) b) @ node END 0"
  have c: "c = a @ pcode n (plen p - plast p) p @ ?d"
    using 2(3) by (auto simp: bcode_Seq blen_Seq)
  have "plen p < 65536" using 2(4) by (auto simp: blen_Seq split: if_splits)
  moreover have "wf_piece p" "n + groups p \<le> 200" "\<And>cs. p = Lit cs \<Longrightarrow> cs \<in> L"
    using 2 by (auto split: piece.splits)
  ultimately obtain k l' m' where k: "k \<le> plen p" "must_ok L c l' m'"
      "\<And>N. longest_must (k + N) c (length a) l m = longest_must N c (length a + plen p) l' m'"
    using longest_piece [OF _ c, of L l m] 2 by auto
  obtain j where j: "N = k + j" "N - plen p \<le> j" using 2(8) k(1) by (metis blen_Seq diff_le_mono2 le_add1 le_add_diff_inverse less_imp_le order_trans)
  show ?case
  proof (cases "b = Empty")
    case True
    obtain i where "j = Suc i" using j 2(8) True by (cases j) (auto simp: blen_Seq)
    moreover have "longest_must (Suc i) c (length a + plen p) l' m' = Some (l', m')"
      by (rule longest_end [where a = "a @ pcode n (plen p - plast p) p"]) (use c True in auto)
    ultimately show ?thesis using k(2) k(3) [of j] j(1) by auto
  next
    case False
    have "\<exists>l'' m''. longest_must j c (length (a @ pcode n (plen p - plast p) p)) l' m' = Some (l'', m'') \<and> must_ok L c l'' m''"
      by (rule "2.IH" [where n = "n + groups p"]) (use 2 c False j k in \<open>auto simp: blen_Seq\<close>)
    then show ?thesis using k(3) [of j] j(1) by simp
  qed
qed


lemma program_last:
  "program (Last b) = [char_of MAGIC] @ node BRANCH (3 + blen b) @ bcode 1 (blen b - blast b) b @ node END 0"
  by (simp add: program_def)

lemma length_program: "length (program r) = rlen r + 4"
  by (simp add: program_def)

text \<open>The first operation of a branch.\<close>

lemma OP_first:
  assumes "c = a @ bcode n k b @ d" "p = length a" "wf_branch b" "n + bgroups b \<le> 35"
  shows "OP c p = EXACTLY \<longleftrightarrow> (\<exists>cs b'. b = Seq (Lit cs) b')" "OP c p = BOL \<longleftrightarrow> (\<exists>b'. b = Seq (Assert LineStart) b')"
proof -
  have op: "OP c p = q" if "q < 256" "c = a @ node q j @ e" for q j e
    using that assms(2) by simp
  have pc: "\<exists>q j e. pcode n k' p = node q j @ e \<and> q < 256 \<and>
      (q = EXACTLY \<longleftrightarrow> (\<exists>cs. p = Lit cs)) \<and> (q = BOL \<longleftrightarrow> p = Assert LineStart)"
    if p: "wf_piece p" "n + groups p \<le> 35" for p k'
  proof (cases p)
    case (Assert s)
    then show ?thesis by (intro exI [of _ "assert_op s"] exI [of _ k'] exI [of _ "[]"]) (cases s; simp)
  next
    case (One s)
    then show ?thesis
    proof (cases s)
      case Dot
      then show ?thesis using One by (intro exI [of _ ANY] exI [of _ k'] exI [of _ "[]"]) auto
    next
      case (Class neg its)
      then show ?thesis using One by (intro exI [of _ "if neg then ANYBUT else ANYOF"] exI [of _ k']) auto
    qed (use p One in auto)
  next
    case (Rep pos lazy s)
    then show ?thesis by (intro exI [of _ "rep_op pos lazy"] exI [of _ k']) (auto simp: rep_op_def)
  next
    case (Group r)
    then show ?thesis using p by (intro exI [of _ "OPEN + n"] exI [of _ 3]) auto
  next
    case (Many pos r)
    then show ?thesis
    proof (cases pos)
      case True
      then show ?thesis using Many p by (intro exI [of _ "OPEN + n"] exI [of _ 3]) auto
    next
      case False
      then show ?thesis using Many p by (intro exI [of _ BRANCH] exI [of _ "12 + rlen r"]) auto
    qed
  next
    case (Opt q)
    then show ?thesis by (intro exI [of _ BRANCH] exI [of _ "3 + plen q"]) auto
  qed auto
  have "(OP c p = EXACTLY \<longleftrightarrow> (\<exists>cs b'. b = Seq (Lit cs) b')) \<and> (OP c p = BOL \<longleftrightarrow> (\<exists>b'. b = Seq (Assert LineStart) b'))"
  proof (cases b)
    case Empty
    have "OP c p = NOTHING" by (rule op) (use assms(1) Empty in \<open>auto simp: bcode_def\<close>)
    then show ?thesis using Empty by simp
  next
    case (Seq s b')
    obtain k' u where u: "bcode n k b = pcode n k' s @ u" unfolding Seq bcode_Seq by (metis append_Nil2)
    obtain q j e where q: "pcode n k' s = node q j @ e" "q < 256" "q = EXACTLY \<longleftrightarrow> (\<exists>cs. s = Lit cs)"
        "q = BOL \<longleftrightarrow> s = Assert LineStart"
      using pc [of s k'] assms(3,4) Seq by auto
    have "OP c p = q" by (rule op) (use q u assms(1) in auto)
    then show ?thesis using q Seq by auto
  qed
  then show "OP c p = EXACTLY \<longleftrightarrow> (\<exists>cs b'. b = Seq (Lit cs) b')" "OP c p = BOL \<longleftrightarrow> (\<exists>b'. b = Seq (Assert LineStart) b')"
    by auto
qed

lemma Optimise_ok:
  assumes wf: "wf_regex r" and g: "rgroups r \<le> 34" and len: "rlen r < 65000" and x: "m_code x = program r"
  shows "\<exists>must len. must_ok (rlits r) (program r) must len \<and> (\<not> SPSTART fl \<longrightarrow> must = None) \<and>
    Optimise fl x = Done True (x\<lparr>m_start := start_char r, m_anchor := anchored r, m_must := must, m_must_len := len\<rparr>)"
proof (cases r)
  case (Alt nl b r')
  let ?c = "program r"
  let ?e = "bcode 1 (blen b - blast b + rlen r') b @ rcode (1 + bgroups b) True (rlen r' - rlast r') r' @ node END 0"
  have c: "?c = [char_of MAGIC] @ node BRANCH (3 + blen b) @ ?e" using Alt by (simp add: program_def)
  have 1: "node_ok ?c 1" unfolding c by (intro node_ok_node) auto
  have 2: "ParseNext ?c 1 = Some (1 + (3 + blen b))" unfolding c using len Alt by (intro ParseNext_node) auto
  obtain j e where "rcode (1 + bgroups b) True (rlen r' - rlast r') r' = node BRANCH j @ e" by (cases r') auto
  then have "?c = ([char_of MAGIC] @ node BRANCH (3 + blen b) @ bcode 1 (blen b - blast b + rlen r') b) @ node BRANCH j @ (e @ node END 0)"
    unfolding c by simp
  moreover have "OP (([char_of MAGIC] @ node BRANCH (3 + blen b) @ bcode 1 (blen b - blast b + rlen r') b) @ node BRANCH j @ (e @ node END 0))
      (1 + (3 + blen b)) = BRANCH"
    by (rule OP_node) auto
  ultimately have "OP ?c (1 + (3 + blen b)) = BRANCH" by (simp only:)
  moreover have "1 + (3 + blen b) < length ?c" using Alt rlen_ge [of r'] by (simp add: length_program)
  ultimately show ?thesis using 1 2 x Alt
    by (intro exI [of _ None] exI [of _ 0]) (simp add: Optimise_def Let_def must_ok_def)
next
  case (Last b)
  let ?c = "program r"
  have c: "?c = [char_of MAGIC] @ node BRANCH (3 + blen b) @ bcode 1 (blen b - blast b) b @ node END 0"
    using Last program_last by simp
  have 1: "node_ok ?c 1" unfolding c by (intro node_ok_node) auto
  have 2: "ParseNext ?c 1 = Some (1 + (3 + blen b))" unfolding c using len Last by (intro ParseNext_node) auto
  have "OP (([char_of MAGIC] @ node BRANCH (3 + blen b) @ bcode 1 (blen b - blast b) b) @ node END 0 @ []) (1 + (3 + blen b)) = END"
    by (rule OP_node) auto
  then have 3: "OP ?c (1 + (3 + blen b)) = END" using c by simp
  have wfb: "wf_branch b" "1 + bgroups b \<le> 35" using wf g Last by auto
  let ?a = "[char_of MAGIC] @ node BRANCH (3 + blen b)"
  have c': "?c = ?a @ bcode 1 (blen b - blast b) b @ node END 0" using c by simp
  note op = OP_first [OF c' refl wfb]
  have 4: "(if OP ?c 4 = EXACTLY then ?c ! 7 else NUL) = start_char r"
  proof (cases "\<exists>cs b'. b = Seq (Lit cs) b'")
    case True
    then obtain cs b' where b: "b = Seq (Lit cs) b'" by blast
    then obtain l ls where cs: "cs = l # ls" using wfb by (cases cs) auto
    have "\<exists>k u. bcode 1 (blen b - blast b) b = node EXACTLY k @ snd l # u"
      by (cases "b' = Empty") (auto simp: b bcode_Seq cs)
    then obtain k u where "bcode 1 (blen b - blast b) b = node EXACTLY k @ snd l # u" by blast
    then have "?c = (?a @ node EXACTLY k) @ snd l # (u @ node END 0)" using c' by simp
    moreover have "length (?a @ node EXACTLY k) = 7" by simp
    ultimately have "?c ! 7 = snd l" by (metis nth_append_length)
    then show ?thesis using op True b cs Last by simp
  next
    case False
    then have "start_char r = NUL" using Last by (cases r rule: start_char.cases) auto
    then show ?thesis using op False by simp
  qed
  have 5: "(OP ?c 4 = BOL) = anchored r"
    using op(2) Last by (cases r rule: anchored.cases) auto
  obtain l' m' where lm: "longest_must (length ?c) ?c 4 None 0 = Some (l', m')" "must_ok (rlits r) ?c l' m'"
    using longest_branch [OF wfb(1) c', of "rlits r" None 0 "length ?c"] wfb len Last
    by (auto simp: must_ok_def length_program)
  have q: "1 + (3 + blen b) < length ?c" using Last by (simp add: length_program)
  have st: "\<not> (OP ?c 4 = EXACTLY \<and> OP ?c 4 = BOL)" by simp
  show ?thesis
  proof (cases "SPSTART fl")
    case True
    then show ?thesis using 1 2 3 4 5 lm q x
      by (intro exI [of _ l'] exI [of _ m']) (auto simp: Optimise_def Let_def split: if_splits)
  next
    case False
    then show ?thesis using 1 2 3 4 5 q x
      by (intro exI [of _ None] exI [of _ 0]) (auto simp: Optimise_def Let_def must_ok_def split: if_splits)
  qed
qed


text \<open>A compiled object: the program, and what the optimiser found.\<close>

definition compiled_for :: "regex \<Rightarrow> rx \<Rightarrow> bool" where
  "compiled_for r x \<longleftrightarrow> m_code x = program r \<and> m_code_size x \<noteq> 0 \<and> m_start x = start_char r \<and> m_anchor x = anchored r
    \<and> must_ok (rlits r) (program r) (m_must x) (m_must_len x) \<and> (\<not> rspstart r \<longrightarrow> m_must x = None)"

lemma Compile_ok:
  assumes wf: "wf_regex r" and g: "rgroups r \<le> 34" and len: "length (program r) + 255 \<le> 2048"
    and x: "m_sensitive x" "m_code_size x = 0 \<or> 2048 \<le> m_code_size x \<and> m_code_size x < 65000"
  shows "\<exists>y. Compile (Some (text_regex r)) x = Done True y \<and> compiled_for r y \<and> m_sensitive y
    \<and> m_startp y = m_startp x \<and> m_endp y = m_endp x \<and> m_errmsg y = m_errmsg x"
proof -
  let ?s = "text_regex r"
  have s: "cstr ?s = ?s" using text_no_NUL(3) [OF wf] by (rule cstr_id)
  let ?y = "if m_code_size x = 0 then ParseGrowBuf (length ?s * 3 + 8) x else x"
  have y: "m_sensitive ?y" "2048 \<le> m_code_size ?y" "m_code_size ?y < 65000"
    "m_startp ?y = m_startp x" "m_endp ?y = m_endp x" "m_errmsg ?y = m_errmsg x"
    using x by (auto simp: ParseGrowBuf_def s_code_grow_def)
  let ?z = "?y\<lparr>m_subx_count := 1, m_code := []\<rparr>" and ?M = "[char_of MAGIC] :: bytes"
  have z: "RxParseC (char_of MAGIC) ?z = Done () (?z\<lparr>m_code := ?M\<rparr>)"
    using y by (subst RxParseC_room) auto
  have "ready (?z\<lparr>m_code := ?M\<rparr>) 1 (rgroups r) (rlen r + 3)"
    using y g len by (simp add: ready_def length_program)
  from RxParse_ok [OF wf depth_le_text(3) this]
  have p: "RxParse (Suc (length ?s)) False ?s (?z\<lparr>m_code := ?M\<rparr>) =
      Done (1, \<lparr>HASWIDTH = rwidth r, SIMPLE = False, SPSTART = rspstart r\<rparr>, []) (upd_rx (?z\<lparr>m_code := ?M\<rparr>) (program r) (1 + rgroups r))"
    by (simp add: program_def)
  obtain must l where must: "must_ok (rlits r) (program r) must l" "\<not> rspstart r \<longrightarrow> must = None"
    and o: "Optimise \<lparr>HASWIDTH = rwidth r, SIMPLE = False, SPSTART = rspstart r\<rparr> (upd_rx (?z\<lparr>m_code := ?M\<rparr>) (program r) (1 + rgroups r)) =
      Done True ((upd_rx (?z\<lparr>m_code := ?M\<rparr>) (program r) (1 + rgroups r))
        \<lparr>m_start := start_char r, m_anchor := anchored r, m_must := must, m_must_len := l\<rparr>)"
    using Optimise_ok [OF wf g, where x = "upd_rx (?z\<lparr>m_code := ?M\<rparr>) (program r) (1 + rgroups r)"
      and fl = "\<lparr>HASWIDTH = rwidth r, SIMPLE = False, SPSTART = rspstart r\<rparr>"] len
    unfolding length_program by fastforce
  define w where "w = (upd_rx (?z\<lparr>m_code := ?M\<rparr>) (program r) (1 + rgroups r))
        \<lparr>m_start := start_char r, m_anchor := anchored r, m_must := must, m_must_len := l\<rparr>"
  have "Compile (Some ?s) x = Done True w"
    unfolding Compile_def using z p o w_def by (simp add: s Let_def del: RxParse.simps)
  moreover have "compiled_for r w \<and> m_sensitive w \<and> m_startp w = m_startp x \<and> m_endp w = m_endp x \<and> m_errmsg w = m_errmsg x"
    using y must by (auto simp: compiled_for_def w_def upd_rx_def)
  ultimately show ?thesis by blast
qed

end
