(* ===== verification/RegxEnds.thy ===== *)
theory RegxEnds
  imports RegxCompile
begin

text \<open>
  What a pattern means: for every position of a text the list of the positions where a match from there
  can end, in the order in which backtracking comes upon them.
\<close>

section \<open>Reference\<close>

fun item_set :: "item \<Rightarrow> char set" where
  "item_set (Item c) = {c}"
| "item_set (Range a b) = {c. uc a \<le> uc c \<and> uc c \<le> uc b}"

fun single_ok :: "bool \<Rightarrow> single \<Rightarrow> char \<Rightarrow> bool" where
  "single_ok sens Dot c = True"
| "single_ok sens (Class neg its) c = ((\<exists>i \<in> set its. c \<in> item_set i) \<noteq> neg)"
| "single_ok sens (Char l) c = same_char sens (snd l) c"

fun assert_holds :: "bytes \<Rightarrow> assertion \<Rightarrow> nat \<Rightarrow> bool" where
  "assert_holds s LineStart i = (i = 0)"
| "assert_holds s LineEnd i = (i = length s)"
| "assert_holds s WordStart i = (i < length s \<and> wordchar (s ! i) \<and> (i = 0 \<or> \<not> wordchar (s ! (i - 1))))"
| "assert_holds s WordEnd i = (i = length s \<or> \<not> wordchar (s ! i))"

text \<open>One more repetition before none; a repetition that does not move ends the loop.\<close>

function many :: "(nat \<Rightarrow> nat list) \<Rightarrow> nat \<Rightarrow> nat \<Rightarrow> nat list" where
  "many f n i = concat (map (\<lambda>j. if i < j \<and> j \<le> n then many f n j else []) (f i)) @ [i]"
  by pat_completeness auto
termination by (relation "measure (\<lambda>(f, n, i). n - i)") auto

declare many.simps [simp del]

primrec pends :: "bool \<Rightarrow> bytes \<Rightarrow> piece \<Rightarrow> nat \<Rightarrow> nat list"
  and bends :: "bool \<Rightarrow> bytes \<Rightarrow> branch \<Rightarrow> nat \<Rightarrow> nat list"
  and rends :: "bool \<Rightarrow> bytes \<Rightarrow> regex \<Rightarrow> nat \<Rightarrow> nat list" where
  "pends sens s (Lit cs) = (\<lambda>i. if lit_here sens (map snd cs) (drop i s) then [i + length cs] else [])"
| "pends sens s (Assert a) = (\<lambda>i. if assert_holds s a i then [i] else [])"
| "pends sens s (One d) = (\<lambda>i. if i < length s \<and> single_ok sens d (s ! i) then [i + 1] else [])"
| "pends sens s (Rep pos lazy d) = (\<lambda>i.
    let m = length (takeWhile (single_ok sens d) (drop i s)); ks = map ((+) i) [if pos then 1 else 0..<m + 1]
    in if lazy then ks else rev ks)"
| "pends sens s (Group r) = rends sens s r"
| "pends sens s (Many pos r) = (\<lambda>i.
    if pos then concat (map (many (rends sens s r) (length s)) (rends sens s r i))
    else many (rends sens s r) (length s) i)"
| "pends sens s (Opt p) = (\<lambda>i. pends sens s p i @ [i])"
| "bends sens s Empty = (\<lambda>i. [i])"
| "bends sens s (Seq p b) = (\<lambda>i. concat (map (bends sens s b) (pends sens s p i)))"
| "rends sens s (Last b) = bends sens s b"
| "rends sens s (Alt nl b r) = (\<lambda>i. bends sens s b i @ rends sens s r i)"

text \<open>The leftmost match with its first end.\<close>

definition leftmost :: "bool \<Rightarrow> bytes \<Rightarrow> regex \<Rightarrow> (nat \<times> nat) option" where
  "leftmost sens s r =
    (case dropWhile (\<lambda>i. rends sens s r i = []) [0..<length s + 1] of
       [] \<Rightarrow> None | i # _ \<Rightarrow> Some (i, hd (rends sens s r i)))"

subsection \<open>Where matches end\<close>

lemma many_ends:
  assumes "\<And>i j. i \<le> n \<Longrightarrow> j \<in> set (f i) \<Longrightarrow> i \<le> j \<and> j \<le> n" "i \<le> n" "j \<in> set (many f n i)"
  shows "i \<le> j \<and> j \<le> n"
  using assms(2,3)
proof (induction f n i rule: many.induct)
  case (1 f n i)
  from 1(3) consider "j = i" | k where "k \<in> set (f i)" "i < k" "k \<le> n" "j \<in> set (many f n k)"
    by (subst (asm) many.simps) (auto split: if_splits)
  then show ?case
  proof cases
    case 2
    then show ?thesis using "1.IH" [of k] by auto
  qed (use 1 in auto)
qed

lemma lit_here_bounds: "lit_here sens w (drop i s) \<Longrightarrow> w \<noteq> [] \<Longrightarrow> NUL \<notin> set w \<Longrightarrow> i + length w \<le> length s"
proof -
  assume l: "lit_here sens w (drop i s)" and w: "w \<noteq> []" "NUL \<notin> set w"
  show ?thesis
  proof (cases "length w > 1")
    case True
    then have "length (take (length w) (drop i s)) = length w"
      using l unfolding lit_here_def by (metis length_map)
    then have "length w \<le> length s - i" by (simp add: min_def split: if_splits)
    then show ?thesis using True by simp
  next
    case False
    then obtain c where "w = [c]" using w(1) by (cases w) auto
    have "drop i s \<noteq> []"
    proof
      assume "drop i s = []"
      then have "peek w = NUL" using l by (simp add: lit_here_def)
      then show False using \<open>w = [c]\<close> w(2) by simp
    qed
    then show ?thesis using \<open>w = [c]\<close> by simp
  qed
qed

definition within :: "bytes \<Rightarrow> bool \<Rightarrow> (nat \<Rightarrow> nat list) \<Rightarrow> bool" where
  "within s w f \<longleftrightarrow> (\<forall>i \<le> length s. \<forall>j \<in> set (f i). i \<le> j \<and> j \<le> length s \<and> (w \<longrightarrow> i < j))"

lemma withinI: "(\<And>i j. i \<le> length s \<Longrightarrow> j \<in> set (f i) \<Longrightarrow> i \<le> j \<and> j \<le> length s \<and> (w \<longrightarrow> i < j)) \<Longrightarrow> within s w f"
  unfolding within_def by blast

lemma withinD: "within s w f \<Longrightarrow> i \<le> length s \<Longrightarrow> j \<in> set (f i) \<Longrightarrow> i \<le> j \<and> j \<le> length s \<and> (w \<longrightarrow> i < j)"
  unfolding within_def by blast

lemma within_many:
  assumes f: "within s w f"
  shows "within s False (many f (length s))"
proof (rule withinI, goal_cases)
  case (1 i j)
  have "i \<le> j \<and> j \<le> length s" by (rule many_ends [OF _ 1]) (use withinD [OF f] in blast)
  then show ?case by simp
qed

lemma within_bind:
  assumes f: "within s v f" and g: "within s w g"
  shows "within s (v \<or> w) (\<lambda>i. concat (map g (f i)))"
proof (rule withinI, goal_cases)
  case (1 i j)
  then obtain k where "k \<in> set (f i)" "j \<in> set (g k)" by auto
  with withinD [OF f 1(1), of k] withinD [OF g, of k j] show ?case by (cases v; cases w) auto
qed

lemma within_here: "within s False (\<lambda>i. [i])"
  by (simp add: within_def)

lemma within_append: "within s v f \<Longrightarrow> within s w g \<Longrightarrow> within s (v \<and> w) (\<lambda>i. f i @ g i)"
  unfolding within_def set_append by blast

lemma ends_within:
  "wf_piece p \<longrightarrow> within s (width p) (pends sens s p)"
  "wf_branch b \<longrightarrow> within s (bwidth b) (bends sens s b)"
  "wf_regex r \<longrightarrow> within s (rwidth r) (rends sens s r)"
proof (induction p and b and r rule: piece.induct branch.induct regex.induct)
  case (Lit cs)
  show ?case
  proof (intro impI withinI, goal_cases)
    case (1 i j)
    then have "lit_here sens (map snd cs) (drop i s)" "j = i + length cs" by (auto split: if_splits)
    moreover have "NUL \<notin> set (map snd cs)" using 1(1) lit_no_NUL by simp
    ultimately show ?case using lit_here_bounds [of sens "map snd cs" i s] 1(1) by auto
  qed
next
  case (Rep pos lazy d)
  show ?case
  proof (intro impI withinI, goal_cases)
    case (1 i j)
    have "length (takeWhile (single_ok sens d) (drop i s)) \<le> length s - i"
      by (metis length_drop length_takeWhile_le)
    then show ?case using 1 by (auto simp: Let_def split: if_splits)
  qed
next
  case (Many pos r)
  show ?case
  proof (rule impI)
    assume "wf_piece (Many pos r)"
    then have f: "within s True (rends sens s r)" using Many by simp
    show "within s (width (Many pos r)) (pends sens s (Many pos r))"
      using within_bind [OF f within_many [OF f]] within_many [OF f] by (cases pos) simp_all
  qed
next
  case (Seq p b)
  then show ?case using within_bind by simp
next
  case (Alt nl b r)
  then show ?case using within_append by simp
next
  case (Opt p)
  then show ?case using within_append [OF _ within_here, of s "width p" "pends sens s p"] by simp
next
  case (Assert a)
  show ?case by (simp add: within_def)
next
  case (One d)
  show ?case by (simp add: within_def)
next
  case Empty
  show ?case by (simp add: within_here)
qed simp_all

lemmas ends_bounds = withinD [OF ends_within(1) [rule_format]] withinD [OF ends_within(2) [rule_format]]
  withinD [OF ends_within(3) [rule_format]]

end
