(* ===== verification/RegxRun.thy ===== *)
theory RegxRun
  imports RegxEnds
begin

text \<open>
  Runs of the matcher on the nodes of a program. \<^verbatim>\<open>yields\<close> says that the matcher returns from a node and a
  position of the text, and where the match ends; there is a rule for every kind of node.
\<close>

section \<open>Code at an address\<close>

definition segment :: "bytes \<Rightarrow> nat \<Rightarrow> bytes \<Rightarrow> bool" where
  "segment c p u \<longleftrightarrow> (\<exists>a d. c = a @ u @ d \<and> length a = p)"

lemma segment_append [simp]: "segment c p (u @ v) \<longleftrightarrow> segment c p u \<and> segment c (p + length u) v"
proof (intro iffI conjI)
  assume "segment c p (u @ v)"
  then obtain a d where c: "c = a @ (u @ v) @ d" "length a = p" unfolding segment_def by blast
  show "segment c p u" unfolding segment_def by (intro exI [of _ a] exI [of _ "v @ d"]) (simp add: c)
  show "segment c (p + length u) v" unfolding segment_def by (intro exI [of _ "a @ u"] exI [of _ d]) (simp add: c)
next
  assume "segment c p u \<and> segment c (p + length u) v"
  then obtain a d a' d' where c: "c = a @ u @ d" "length a = p" "c = a' @ v @ d'" "length a' = p + length u"
    unfolding segment_def by blast
  then have "(a @ u) @ d = a' @ (v @ d')" "length (a @ u) = length a'" by simp_all
  then have "d = v @ d'" by (metis append_eq_append_conv)
  then show "segment c p (u @ v)" unfolding segment_def using c by (intro exI [of _ a] exI [of _ d']) simp
qed

lemma segment_length: "segment c p u \<Longrightarrow> p + length u \<le> length c"
  by (auto simp: segment_def)

text \<open>A node, which the matcher can read.\<close>

definition has :: "bytes \<Rightarrow> nat \<Rightarrow> nat \<Rightarrow> nat \<Rightarrow> bool" where
  "has c p op k \<longleftrightarrow> node_ok c p \<and> OP c p = op \<and> 0 < k \<and> ParseNext c p = Some (if op = BACK then p - k else p + k)"

lemma hasI:
  assumes "segment c p (node op k)" "op < 256" "0 < k" "k < 65536" "op = BACK \<longrightarrow> k \<le> p"
  shows "has c p op k"
proof -
  obtain a d where c: "c = a @ node op k @ d" "length a = p" using assms(1) by (auto simp: segment_def)
  have "OP c p = op" "NEXT c p = k" "p + 2 < length c" using c assms NEXT_node by auto
  then show ?thesis using assms by (simp add: has_def node_ok_def ParseNext_def)
qed

text \<open>A node that may follow a repetition.\<close>

definition good :: "bytes \<Rightarrow> nat \<Rightarrow> bool" where
  "good c q \<longleftrightarrow> node_ok c q \<and> (OP c q = EXACTLY \<longrightarrow> opnd_ok c q)"

lemma good_node: "segment c p (node op k) \<Longrightarrow> op < 256 \<Longrightarrow> op \<noteq> EXACTLY \<Longrightarrow> op \<noteq> BACK \<Longrightarrow> good c p"
  by (auto simp: segment_def good_def node_ok_node)

lemma segment_opnd:
  assumes "segment c p (node op k @ s @ [NUL])" "NUL \<notin> set s"
  shows "opnd c p = s" "opnd_ok c p"
proof -
  obtain a d where c: "c = a @ (node op k @ s @ [NUL]) @ d" and p: "length a = p"
    using assms(1) unfolding segment_def by blast
  have "c = a @ node op k @ s @ NUL # d" unfolding c by simp
  from opnd_node [OF this p [symmetric] assms(2)] show "opnd c p = s" "opnd_ok c p" .
qed

section \<open>Runs\<close>

definition keeps_rx :: "rx \<Rightarrow> rx \<Rightarrow> bool" where
  "keeps_rx x y \<longleftrightarrow> m_code y = m_code x \<and> m_code_size y = m_code_size x \<and> m_sensitive y = m_sensitive x
    \<and> m_errmsg y = m_errmsg x \<and> m_start y = m_start x \<and> m_anchor y = m_anchor x \<and> m_must y = m_must x
    \<and> m_must_len y = m_must_len x \<and> m_input y = m_input x
    \<and> length (m_startp y) = length (m_startp x) \<and> length (m_endp y) = length (m_endp x)"

lemma keeps_rx_refl [simp]: "keeps_rx x x"
  by (simp add: keeps_rx_def)

lemma keeps_rx_trans: "keeps_rx x y \<Longrightarrow> keeps_rx y z \<Longrightarrow> keeps_rx x z"
  by (simp add: keeps_rx_def)

lemma keeps_rx_updates [simp]:
  "keeps_rx x (y\<lparr>m_input_ptr := i\<rparr>) = keeps_rx x y" "keeps_rx (x\<lparr>m_input_ptr := i\<rparr>) y = keeps_rx x y"
  "keeps_rx x (y\<lparr>m_subx_count := m\<rparr>) = keeps_rx x y" "keeps_rx (x\<lparr>m_subx_count := m\<rparr>) y = keeps_rx x y"
  "keeps_rx x (y\<lparr>m_startp := (m_startp y)[k := v]\<rparr>) = keeps_rx x y" "keeps_rx x (y\<lparr>m_endp := (m_endp y)[k := w]\<rparr>) = keeps_rx x y"
  by (auto simp: keeps_rx_def)

definition at_pos :: "bytes \<Rightarrow> bool \<Rightarrow> bytes \<Rightarrow> nat \<Rightarrow> rx \<Rightarrow> bool" where
  "at_pos c sens s i x \<longleftrightarrow> m_code x = c \<and> m_sensitive x = sens \<and> m_input x = s \<and> m_input_ptr x = i"

lemma at_posD:
  "at_pos c sens s i x \<Longrightarrow> m_code x = c" "at_pos c sens s i x \<Longrightarrow> m_sensitive x = sens"
  "at_pos c sens s i x \<Longrightarrow> m_input x = s" "at_pos c sens s i x \<Longrightarrow> m_input_ptr x = i"
  by (simp_all add: at_pos_def)

lemma at_move: "at_pos c sens s i x \<Longrightarrow> keeps_rx x y \<Longrightarrow> at_pos c sens s j (y\<lparr>m_input_ptr := j\<rparr>)"
  by (simp add: at_pos_def keeps_rx_def)

text \<open>The end of the match, if there is one: what a call with enough fuel returns.\<close>

definition outcome :: "rx \<Rightarrow> nat option \<Rightarrow> bool step \<Rightarrow> bool" where
  "outcome x e r \<longleftrightarrow> (\<exists>y. r = Done (e \<noteq> None) y \<and> keeps_rx x y \<and> (\<forall>j. e = Some j \<longrightarrow> m_input_ptr y = j))"

definition yields :: "bytes \<Rightarrow> bool \<Rightarrow> bytes \<Rightarrow> nat option \<Rightarrow> nat \<Rightarrow> nat option \<Rightarrow> bool" where
  "yields c sens s pc i e \<longleftrightarrow> (\<exists>N. \<forall>n \<ge> N. \<forall>x. at_pos c sens s i x \<longrightarrow> outcome x e (MatchX n pc x))"

lemma outcome_keeps: "keeps_rx x y \<Longrightarrow> outcome y e r \<Longrightarrow> outcome x e r"
  by (auto simp: outcome_def intro: keeps_rx_trans)

lemma runs_node:
  assumes "\<And>n x. n \<ge> N \<Longrightarrow> at_pos c sens s i x \<Longrightarrow> outcome x e (match_node (MatchX n) n p x)"
  shows "yields c sens s (Some p) i e"
  unfolding yields_def
proof (intro exI [of _ "Suc N"] allI impI)
  fix n x
  assume "Suc N \<le> n" and x: "at_pos c sens s i x"
  then obtain m where "n = Suc m" "N \<le> m" by (cases n) auto
  then show "outcome x e (MatchX n (Some p) x)" using assms [OF _ x, of m] by simp
qed

lemma runs_step:
  assumes m: "\<And>M n x. at_pos c sens s i x \<Longrightarrow> match_node M n p x = M q (x\<lparr>m_input_ptr := j\<rparr>)" and r: "yields c sens s q j e"
  shows "yields c sens s (Some p) i e"
proof -
  obtain N where N: "\<And>n x. n \<ge> N \<Longrightarrow> at_pos c sens s j x \<Longrightarrow> outcome x e (MatchX n q x)"
    using r unfolding yields_def by blast
  show ?thesis
  proof (rule runs_node [where N = N])
    fix n x
    assume "N \<le> n" and x: "at_pos c sens s i x"
    then have "outcome (x\<lparr>m_input_ptr := j\<rparr>) e (MatchX n q (x\<lparr>m_input_ptr := j\<rparr>))"
      using N at_move [OF x keeps_rx_refl] by blast
    then show "outcome x e (match_node (MatchX n) n p x)"
      unfolding m [OF x] by (rule outcome_keeps [rotated]) simp
  qed
qed

lemma runs_stay:
  assumes "\<And>M n x. at_pos c sens s i x \<Longrightarrow> match_node M n p x = M q x" "yields c sens s q i e"
  shows "yields c sens s (Some p) i e"
proof (rule runs_step [OF _ assms(2)])
  fix M :: "nat option \<Rightarrow> rx \<Rightarrow> bool step" and n x
  assume x: "at_pos c sens s i x"
  then have "x\<lparr>m_input_ptr := i\<rparr> = x" by (simp add: at_pos_def)
  then show "match_node M n p x = M q (x\<lparr>m_input_ptr := i\<rparr>)" using assms(1) [OF x] by simp
qed

lemma runs_stop:
  assumes "\<And>M n x. at_pos c sens s i x \<Longrightarrow> match_node M n p x = Done False x"
  shows "yields c sens s (Some p) i None"
  by (rule runs_node [where N = 0]) (simp add: assms outcome_def)

lemma runs_end: "node_ok c p \<Longrightarrow> OP c p = END \<Longrightarrow> yields c sens s (Some p) i (Some i)"
  by (rule runs_node [where N = 0]) (simp add: match_node_def outcome_def at_pos_def Let_def)

lemma runs_unique:
  assumes "yields c sens s q i e" "yields c sens s q i f"
  shows "e = f"
proof -
  obtain N M where N: "\<And>n x. n \<ge> N \<Longrightarrow> at_pos c sens s i x \<Longrightarrow> outcome x e (MatchX n q x)"
    and M: "\<And>n x. n \<ge> M \<Longrightarrow> at_pos c sens s i x \<Longrightarrow> outcome x f (MatchX n q x)"
    using assms unfolding yields_def by blast
  let ?x = "new_rx\<lparr>m_code := c, m_sensitive := sens, m_input := s, m_input_ptr := i\<rparr>"
  have x: "at_pos c sens s i ?x" by (simp add: at_pos_def)
  have "outcome ?x e (MatchX (max N M) q ?x)" "outcome ?x f (MatchX (max N M) q ?x)"
    using N [OF _ x] M [OF _ x] by simp_all
  then show ?thesis unfolding outcome_def by (cases e; cases f) auto
qed

subsection \<open>Simple nodes\<close>

lemma hasD: "has c p op k \<Longrightarrow> node_ok c p" "has c p op k \<Longrightarrow> OP c p = op"
  "has c p op k \<Longrightarrow> op \<noteq> BACK \<Longrightarrow> ParseNext c p = Some (p + k)" "has c p BACK k \<Longrightarrow> ParseNext c p = Some (p - k)"
  by (simp_all add: has_def)

lemma runs_nothing: "has c p NOTHING k \<Longrightarrow> yields c sens s (Some (p + k)) i e \<Longrightarrow> yields c sens s (Some p) i e"
  by (rule runs_stay) (simp_all add: match_node_def Let_def at_posD hasD)

lemma runs_back: "has c p BACK k \<Longrightarrow> yields c sens s (Some (p - k)) i e \<Longrightarrow> yields c sens s (Some p) i e"
  by (rule runs_stay) (simp_all add: match_node_def Let_def at_posD hasD)

lemma char_at_NUL: "NUL \<notin> set s \<Longrightarrow> i \<le> length s \<Longrightarrow> char_at s i = NUL \<longleftrightarrow> i = length s"
  by (auto simp: char_at_def) (metis nth_mem)

lemma wordchar_NUL [simp]: "\<not> wordchar NUL"
  by (simp add: wordchar_def c_char)

text \<open>A node that tests a condition and moves on.\<close>

lemma runs_test:
  assumes yes: "\<And>M n x. b \<Longrightarrow> at_pos c sens s i x \<Longrightarrow> match_node M n p x = M (Some q) (x\<lparr>m_input_ptr := j\<rparr>)"
    and no: "\<And>M n x. \<not> b \<Longrightarrow> at_pos c sens s i x \<Longrightarrow> match_node M n p x = Done False x"
    and r: "b \<Longrightarrow> yields c sens s (Some q) j e"
  shows "yields c sens s (Some p) i (if b then e else None)"
proof (cases b)
  case True
  have "yields c sens s (Some p) i e" using yes [OF True] r [OF True] by (rule runs_step)
  then show ?thesis using True by simp
next
  case False
  have "yields c sens s (Some p) i None" using no [OF False] by (rule runs_stop)
  then show ?thesis using False by simp
qed

lemma at_stay: "at_pos c sens s i x \<Longrightarrow> x\<lparr>m_input_ptr := i\<rparr> = x"
  by (simp add: at_pos_def)

lemma runs_assert:
  assumes p: "has c p (assert_op a) k" and s: "NUL \<notin> set s" "i \<le> length s"
    and r: "assert_holds s a i \<Longrightarrow> yields c sens s (Some (p + k)) i e"
  shows "yields c sens s (Some p) i (if assert_holds s a i then e else None)"
proof (rule runs_test [OF _ _ r])
  have "assert_op a \<noteq> BACK" by (cases a) auto
  note node = hasD(1,2) [OF p] hasD(3) [OF p this]
  fix M :: "nat option \<Rightarrow> rx \<Rightarrow> bool step" and n x
  assume x: "at_pos c sens s i x"
  have ne: "i < length s \<Longrightarrow> s ! i \<noteq> NUL" using s by (metis nth_mem)
  note eq = match_node_def Let_def at_posD [OF x] node char_at_def ne
  { assume "assert_holds s a i"
    then show "match_node M n p x = M (Some (p + k)) (x\<lparr>m_input_ptr := i\<rparr>)"
      unfolding at_stay [OF x] by (cases a) (auto simp: eq split: if_splits) }
  { assume "\<not> assert_holds s a i"
    then show "match_node M n p x = Done False x"
      using s by (cases a) (auto simp: eq split: if_splits) }
qed

lemma char_range: "c \<in> char_of ` {uc a + 1..<uc b + 1} \<longleftrightarrow> uc a < uc c \<and> uc c \<le> uc b"
proof
  assume "c \<in> char_of ` {uc a + 1..<uc b + 1}"
  then obtain n where n: "c = char_of n" "uc a + 1 \<le> n" "n < uc b + 1" by auto
  have "n < 256" using n(3) uc_less [of b] by linarith
  then have "uc c = n" using n(1) by simp
  then show "uc a < uc c \<and> uc c \<le> uc b" using n by simp
next
  assume "uc a < uc c \<and> uc c \<le> uc b"
  moreover have "c = char_of (uc c)" by (simp add: uc_def)
  ultimately show "c \<in> char_of ` {uc a + 1..<uc b + 1}" by (intro image_eqI [of _ _ "uc c"]) auto
qed

lemma item_chars_set:
  assumes "case it of Item c \<Rightarrow> True | Range a b \<Rightarrow> uc a \<le> uc b"
  shows "c \<in> set (item_chars it) \<longleftrightarrow> c \<in> item_set it"
proof (cases it)
  case (Range a b)
  have "c \<in> set (item_chars it) \<longleftrightarrow> c = a \<or> uc a < uc c \<and> uc c \<le> uc b"
    unfolding Range item_chars.simps list.set set_map set_upt insert_iff char_range ..
  also have "\<dots> \<longleftrightarrow> uc a \<le> uc c \<and> uc c \<le> uc b"
    using assms uc_inject [of a c] unfolding Range by auto
  finally show ?thesis unfolding Range by simp
qed simp

lemma wf_items:
  assumes "wf_single (Class neg its)"
  shows "\<forall>it \<in> set its. NUL \<notin> item_set it \<and> (case it of Item c \<Rightarrow> True | Range a b \<Rightarrow> uc a \<le> uc b)"
proof -
  have 1: "NUL \<notin> item_set it \<and> (case it of Item c \<Rightarrow> True | Range a b \<Rightarrow> uc a \<le> uc b)"
    if "wf_first_item it" for it
  proof (cases it)
    case (Range a b)
    then have "a \<noteq> NUL" using that by simp
    then have "uc a \<noteq> 0" using uc_inject [of a NUL] by (simp add: uc_def)
    then show ?thesis using that Range by (simp add: uc_def)
  qed (use that in simp)
  have 2: "wf_first_item it" if "wf_item it" for it using that by (cases it) auto
  show ?thesis using assms 1 2 by (cases its) auto
qed

text \<open>The node of a simple operand: its code, and the characters it accepts.\<close>

lemma class_operand:
  assumes "wf_single (Class neg its)" "segment c p (single_code k (Class neg its))"
  shows "opnd_ok c p" "ch \<in> set (opnd c p) \<longleftrightarrow> (\<exists>it \<in> set its. ch \<in> item_set it)"
proof -
  note it = wf_items [OF assms(1)]
  have "NUL \<notin> set (concat (map item_chars its))" using it item_chars_set by auto
  note * = segment_opnd [OF _ this, of c p "if neg then ANYBUT else ANYOF" k]
  show "opnd_ok c p" "ch \<in> set (opnd c p) \<longleftrightarrow> (\<exists>it \<in> set its. ch \<in> item_set it)"
    using * assms(2) it item_chars_set by auto
qed

definition single_op :: "single \<Rightarrow> nat" where
  "single_op d = (case d of Dot \<Rightarrow> ANY | Class neg its \<Rightarrow> if neg then ANYBUT else ANYOF | Char l \<Rightarrow> EXACTLY)"

lemma single_has: "segment c p (single_code k d) \<Longrightarrow> 0 < k \<Longrightarrow> k < 65536 \<Longrightarrow> has c p (single_op d) k"
  by (cases d) (auto simp: single_op_def intro!: hasI)

lemma runs_single:
  assumes c: "segment c p (single_code k d)" and k: "0 < k" "k < 65536" and d: "wf_single d" "\<forall>l. d \<noteq> Char l"
    and s: "NUL \<notin> set s" "i \<le> length s"
    and r: "i < length s \<and> single_ok sens d (s ! i) \<Longrightarrow> yields c sens s (Some (p + k)) (i + 1) e"
  shows "yields c sens s (Some p) i (if i < length s \<and> single_ok sens d (s ! i) then e else None)"
proof (rule runs_test [OF _ _ r])
  note p = single_has [OF c k]
  have "single_op d \<noteq> BACK" by (auto simp: single_op_def split: single.splits)
  note node = hasD(1,2) [OF p] hasD(3) [OF p this]
  fix M :: "nat option \<Rightarrow> rx \<Rightarrow> bool step" and n x
  assume x: "at_pos c sens s i x"
  have ne: "i < length s \<Longrightarrow> s ! i \<noteq> NUL" using s by (metis nth_mem)
  note eq = match_node_def Let_def at_posD [OF x] node single_op_def char_at_def ne
  show "match_node M n p x = M (Some (p + k)) (x\<lparr>m_input_ptr := i + 1\<rparr>)" if "i < length s \<and> single_ok sens d (s ! i)"
  proof (cases d)
    case (Class neg its)
    then show ?thesis using that d(1) c class_operand(1) [of neg its c p k] class_operand(2) [of neg its c p k "s ! i"] ne by (cases neg) (simp_all add: eq)
  qed (use that d ne in \<open>simp_all add: eq\<close>)
  show "match_node M n p x = Done False x" if "\<not> (i < length s \<and> single_ok sens d (s ! i))"
  proof (cases "i < length s")
    case True
    show ?thesis
    proof (cases d)
      case (Class neg its)
      then show ?thesis using that True d(1) c class_operand(1) [of neg its c p k] class_operand(2) [of neg its c p k "s ! i"] ne by (cases neg) (simp_all add: eq)
    qed (use that d ne True in \<open>simp_all add: eq\<close>)
  next
    case False
    then show ?thesis using d c class_operand(1) [of _ _ c p k] by (cases d) (auto simp: eq)
  qed
qed

lemma runs_lit:
  assumes c: "segment c p (node EXACTLY k @ map snd cs @ [NUL])" and k: "0 < k" "k < 65536" and cs: "NUL \<notin> set (map snd cs)"
    and r: "lit_here sens (map snd cs) (drop i s) \<Longrightarrow> yields c sens s (Some (p + k)) (i + length cs) e"
  shows "yields c sens s (Some p) i (if lit_here sens (map snd cs) (drop i s) then e else None)"
proof (rule runs_test [OF _ _ r])
  have p: "has c p EXACTLY k" using c k by (intro hasI) auto
  note node = hasD(1,2) [OF p] hasD(3) [OF p] segment_opnd [OF c cs]
  fix M :: "nat option \<Rightarrow> rx \<Rightarrow> bool step" and n x
  assume x: "at_pos c sens s i x"
  { assume "lit_here sens (map snd cs) (drop i s)"
    then show "match_node M n p x = M (Some (p + k)) (x\<lparr>m_input_ptr := i + length cs\<rparr>)"
      by (simp add: match_node_def Let_def at_posD [OF x] node) }
  { assume "\<not> lit_here sens (map snd cs) (drop i s)"
    then show "match_node M n p x = Done False x"
      by (simp add: match_node_def Let_def at_posD [OF x] node) }
qed

subsection \<open>Groups\<close>

lemma bool_bind_outcome:
  assumes "outcome y e r" "keeps_rx x y" "\<And>z. f True z = Done True (g z)" "\<And>z. f False z = Done False z"
    "\<And>z. keeps_rx x (g z) = keeps_rx x z" "\<And>z. m_input_ptr (g z) = m_input_ptr z"
  shows "outcome x e (bind_step r f)"
  using assms by (cases e) (auto simp: outcome_def intro: keeps_rx_trans)

lemma runs_open:
  assumes p: "has c p (OPEN + m) k" and m: "1 \<le> m" "m \<le> 9" and r: "yields c sens s (Some (p + k)) i e"
  shows "yields c sens s (Some p) i e"
proof -
  obtain N where N: "\<And>n x. n \<ge> N \<Longrightarrow> at_pos c sens s i x \<Longrightarrow> outcome x e (MatchX n (Some (p + k)) x)"
    using r unfolding yields_def by blast
  show ?thesis
  proof (rule runs_node [where N = N])
    fix n x
    assume n: "N \<le> n" and x: "at_pos c sens s i x"
    define y where "y = (if int m > m_subx_count x
      then x\<lparr>m_subx_count := int m, m_startp := (m_startp x)[m := None], m_endp := (m_endp x)[m := None]\<rparr> else x)"
    have y: "keeps_rx x y" "at_pos c sens s i y" using x by (auto simp: y_def keeps_rx_def at_pos_def)
    have "match_node (MatchX n) n p x = bind_step (MatchX n (Some (p + k)) y) (\<lambda>b x.
        if b then Done True (x\<lparr>m_startp := (m_startp x)[m := Some i]\<rparr>) else Done False x)"
      using m hasD(1,2) [OF p] hasD(3) [OF p]
      by (simp add: match_node_def Let_def at_posD [OF x] y_def del: MatchX.simps)
    then show "outcome x e (match_node (MatchX n) n p x)"
      using bool_bind_outcome [OF N [OF n y(2)] y(1)] by simp
  qed
qed

lemma runs_close:
  assumes p: "has c p (CLOSE + m) k" and m: "1 \<le> m" "m \<le> 9" and r: "yields c sens s (Some (p + k)) i e"
  shows "yields c sens s (Some p) i e"
proof -
  obtain N where N: "\<And>n x. n \<ge> N \<Longrightarrow> at_pos c sens s i x \<Longrightarrow> outcome x e (MatchX n (Some (p + k)) x)"
    using r unfolding yields_def by blast
  show ?thesis
  proof (rule runs_node [where N = N])
    fix n x
    assume n: "N \<le> n" and x: "at_pos c sens s i x"
    have "match_node (MatchX n) n p x = bind_step (MatchX n (Some (p + k)) x) (\<lambda>b x.
        if b then Done True (if m_endp x ! m = None then x\<lparr>m_endp := (m_endp x)[m := Some i]\<rparr> else x) else Done False x)"
      using m hasD(1,2) [OF p] hasD(3) [OF p]
      by (simp add: match_node_def Let_def at_posD [OF x] del: MatchX.simps)
    then show "outcome x e (match_node (MatchX n) n p x)"
      using bool_bind_outcome [OF N [OF n x] keeps_rx_refl,
        where g = "\<lambda>x. if m_endp x ! m = None then x\<lparr>m_endp := (m_endp x)[m := Some i]\<rparr> else x"] by simp
  qed
qed

subsection \<open>Alternatives\<close>

abbreviation orelse :: "'a option \<Rightarrow> 'a option \<Rightarrow> 'a option" where
  "orelse e f \<equiv> (case e of None \<Rightarrow> f | Some _ \<Rightarrow> e)"

primrec first_of :: "(nat \<Rightarrow> 'a option) \<Rightarrow> nat list \<Rightarrow> 'a option" where
  "first_of K [] = None"
| "first_of K (j # js) = orelse (K j) (first_of K js)"

lemma first_of_single: "first_of K [j] = K j"
  by (cases "K j") auto

lemma first_of_append: "first_of K (xs @ ys) = orelse (first_of K xs) (first_of K ys)"
  by (induction xs) (auto split: option.splits)

lemma first_of_concat: "first_of K (concat (map f xs)) = first_of (\<lambda>j. first_of K (f j)) xs"
  by (induction xs) (auto simp: first_of_append split: option.splits)

definition tries :: "bytes \<Rightarrow> bool \<Rightarrow> bytes \<Rightarrow> nat option \<Rightarrow> nat \<Rightarrow> nat option \<Rightarrow> bool" where
  "tries c sens s pc i e \<longleftrightarrow> (\<exists>N. \<forall>n \<ge> N. \<forall>m \<ge> N. \<forall>x. at_pos c sens s i x
     \<longrightarrow> outcome x e (try_branches m (\<lambda>p. MatchX n (Some p)) pc x))"

lemma tries_end:
  assumes "node_ok c q" "OP c q \<noteq> BRANCH"
  shows "tries c sens s (Some q) i None"
  unfolding tries_def
proof (intro exI [of _ 1] allI impI)
  fix n m :: nat and x
  assume "1 \<le> m" and x: "at_pos c sens s i x"
  then obtain m' where "m = Suc m'" by (cases m) auto
  then show "outcome x None (try_branches m (\<lambda>p. MatchX n (Some p)) (Some q) x)"
    using assms by (simp add: at_posD [OF x] outcome_def)
qed

lemma tries_step:
  assumes p: "has c p BRANCH k" and e: "yields c sens s (Some (p + 3)) i e" and f: "tries c sens s (Some (p + k)) i f"
  shows "tries c sens s (Some p) i (orelse e f)"
proof -
  obtain N where N: "\<And>n x. n \<ge> N \<Longrightarrow> at_pos c sens s i x \<Longrightarrow> outcome x e (MatchX n (Some (p + 3)) x)"
    using e unfolding yields_def by blast
  obtain M where M: "\<And>n m x. n \<ge> M \<Longrightarrow> m \<ge> M \<Longrightarrow> at_pos c sens s i x
      \<Longrightarrow> outcome x f (try_branches m (\<lambda>p. MatchX n (Some p)) (Some (p + k)) x)"
    using f unfolding tries_def by blast
  show ?thesis
    unfolding tries_def
  proof (intro exI [of _ "Suc (max N M)"] allI impI)
    fix n m :: nat and x
    assume n: "Suc (max N M) \<le> n" and m: "Suc (max N M) \<le> m" and x: "at_pos c sens s i x"
    have nN: "N \<le> n" "M \<le> n" using n by simp_all
    obtain m' where m': "m = Suc m'" "M \<le> m'" using m by (cases m) auto
    obtain y where y: "MatchX n (Some (p + 3)) x = Done (e \<noteq> None) y" "keeps_rx x y" "\<forall>j. e = Some j \<longrightarrow> m_input_ptr y = j"
      using N [OF nN(1) x] unfolding outcome_def by blast
    have t: "try_branches m (\<lambda>p. MatchX n (Some p)) (Some p) x =
       (if e \<noteq> None then Done True y else try_branches m' (\<lambda>p. MatchX n (Some p)) (Some (p + k)) (y\<lparr>m_input_ptr := i\<rparr>))"
      using y(1,2) hasD(1,2) [OF p] hasD(3) [OF p] by (simp add: m' Let_def at_posD [OF x] keeps_rx_def)
    have "outcome (y\<lparr>m_input_ptr := i\<rparr>) f (try_branches m' (\<lambda>p. MatchX n (Some p)) (Some (p + k)) (y\<lparr>m_input_ptr := i\<rparr>))"
      using M [OF nN(2) m'(2) at_move [OF x y(2)]] .
    then have 2: "outcome x f (try_branches m' (\<lambda>p. MatchX n (Some p)) (Some (p + k)) (y\<lparr>m_input_ptr := i\<rparr>))"
      by (rule outcome_keeps [rotated]) (simp add: y(2))
    have 1: "outcome x e (Done True y)" if "e \<noteq> None" using y that by (simp add: outcome_def)
    show "outcome x (orelse e f) (try_branches m (\<lambda>p. MatchX n (Some p)) (Some p) x)"
      unfolding t using 1 2 by (cases e) simp_all
  qed
qed

lemma good_next: "good c q \<Longrightarrow> next_ok c (Some q)"
  by (cases "OPERAND q < length c") (auto simp: good_def next_ok_def node_ok_def opnd_ok_def)

lemma runs_choice:
  assumes p: "has c p BRANCH k" and q: "good c (p + k)" "OP c (p + k) = BRANCH" and r: "tries c sens s (Some p) i e"
  shows "yields c sens s (Some p) i e"
proof -
  obtain N where N: "\<And>n m x. n \<ge> N \<Longrightarrow> m \<ge> N \<Longrightarrow> at_pos c sens s i x
      \<Longrightarrow> outcome x e (try_branches m (\<lambda>p. MatchX n (Some p)) (Some p) x)"
    using r unfolding tries_def by blast
  show ?thesis
  proof (rule runs_node [where N = N])
    fix n x
    assume n: "N \<le> n" and x: "at_pos c sens s i x"
    have "match_node (MatchX n) n p x = try_branches n (\<lambda>p. MatchX n (Some p)) (Some p) x"
      using hasD(1,2) [OF p] hasD(3) [OF p] q good_next [OF q(1)]
      by (simp add: match_node_def Let_def at_posD [OF x] del: MatchX.simps try_branches.simps)
    then show "outcome x e (match_node (MatchX n) n p x)" using N [OF n n x] by simp
  qed
qed

lemma runs_only:
  assumes p: "has c p BRANCH k" and q: "good c (p + k)" "OP c (p + k) \<noteq> BRANCH" and r: "yields c sens s (Some (p + 3)) i e"
  shows "yields c sens s (Some p) i e"
  by (rule runs_stay [OF _ r])
    (use hasD(1,2) [OF p] hasD(3) [OF p] q good_next [OF q(1)] in \<open>simp add: match_node_def Let_def at_posD\<close>)

subsection \<open>Repetitions of a simple operand\<close>

lemma MatchRepeat_single:
  assumes c: "segment c p (single_code k d)" and d: "wf_single d" and x: "at_pos c sens s i x"
  shows "MatchRepeat p x = (let m = length (takeWhile (single_ok sens d) (drop i s)) in Done m (x\<lparr>m_input_ptr := i + m\<rparr>))"
proof -
  have len: "p < length c" using segment_length [OF c] by (cases d) auto
  have op: "OP c p = single_op d"
    using c by (cases d) (auto simp: single_op_def segment_def)
  show ?thesis
  proof (cases d)
    case Dot
    have "takeWhile (single_ok sens Dot) (drop i s) = drop i s" by simp
    then have "length (takeWhile (single_ok sens Dot) (drop i s)) = length s - i" by (simp only: length_drop)
    then show ?thesis using Dot len op by (simp add: MatchRepeat_def at_posD [OF x] Let_def single_op_def)
  next
    case (Class neg its)
    note * = class_operand [OF d [unfolded Class] c [unfolded Class]]
    have "single_ok sens d = (if neg then (\<lambda>ch. ch \<notin> set (opnd c p)) else (\<lambda>ch. ch \<in> set (opnd c p)))"
      using *(2) by (intro ext) (simp add: Class)
    then show ?thesis using len op *(1)
      by (cases neg) (simp_all add: MatchRepeat_def at_posD [OF x] Let_def single_op_def Class)
  next
    case (Char l)
    have "NUL \<notin> set [snd l]" using d Char by (cases l) auto
    then have "opnd c p = [snd l]" "opnd_ok c p" using segment_opnd [of c p EXACTLY k "[snd l]"] c by (simp_all add: Char)
    moreover have "single_ok sens d = same_char sens (snd l)" by (intro ext) (simp add: Char)
    ultimately show ?thesis using len op by (simp add: MatchRepeat_def at_posD [OF x] Let_def single_op_def Char)
  qed
qed

lemma runs_uniform:
  assumes "finite J" "\<And>j. j \<in> J \<Longrightarrow> yields c sens s q j (K j)"
  shows "\<exists>N. \<forall>n \<ge> N. \<forall>j \<in> J. \<forall>x. at_pos c sens s j x \<longrightarrow> outcome x (K j) (MatchX n q x)"
  using assms
proof (induction J rule: finite_induct)
  case (insert j J)
  obtain N where N: "\<forall>n \<ge> N. \<forall>j \<in> J. \<forall>x. at_pos c sens s j x \<longrightarrow> outcome x (K j) (MatchX n q x)"
    using insert by auto
  obtain M where M: "\<forall>n \<ge> M. \<forall>x. at_pos c sens s j x \<longrightarrow> outcome x (K j) (MatchX n q x)"
    using insert.prems [of j] unfolding yields_def by auto
  show ?case
    by (rule exI [of _ "max N M"]) (use N M in auto)
qed simp

text \<open>The test of the next character never rejects a position where the rest would match.\<close>

lemma lookahead:
  assumes q: "good c q" and r: "yields c sens s (Some q) j e" and x: "at_pos c sens s j x"
    and no: "\<not> could_work (next_char c (Some q)) x"
  shows "e = None"
proof -
  let ?d = "c ! OPERAND q"
  have op: "OP c q = EXACTLY" and d: "?d \<noteq> NUL" "\<not> same_char sens (char_at s j) ?d"
    using no by (auto simp: could_work_def next_char_def at_posD [OF x] split: if_splits)
  have ok: "node_ok c q" "opnd_ok c q" using q op by (auto simp: good_def)
  then have "OPERAND q < length c" by (cases "OPERAND q < length c") (auto simp: opnd_ok_def)
  then have "drop (OPERAND q) c = ?d # drop (Suc (OPERAND q)) c" by (rule Cons_nth_drop_Suc [symmetric])
  then have "peek (opnd c q) = ?d" using d(1) by (simp add: opnd_def cstr_def)
  moreover have "peek (drop j s) = char_at s j"
    by (cases "j < length s") (simp_all add: char_at_def Cons_nth_drop_Suc [symmetric])
  ultimately have "\<not> lit_here sens (opnd c q) (drop j s)"
    using d(2) by (auto simp: lit_here_def same_char_def split: if_splits)
  then have "yields c sens s (Some q) j None"
    by (intro runs_stop) (use op ok in \<open>simp add: match_node_def Let_def at_posD\<close>)
  then show ?thesis using runs_unique r by blast
qed

text \<open>One attempt in a loop, with the test of the next character.\<close>

lemma attempt:
  assumes q: "good c q" and r: "yields c sens s (Some q) j e" and m: "\<And>x. at_pos c sens s j x \<Longrightarrow> outcome x e (m x)"
    and x: "at_pos c sens s j x"
  shows "outcome x e (if could_work (next_char c (Some q)) x then m x else Done False x)"
  using lookahead [OF q r x] m [OF x] by (auto simp: outcome_def)

lemma outcome_else:
  assumes "outcome x e r" and "\<And>y. keeps_rx x y \<Longrightarrow> e = None \<Longrightarrow> outcome x f (g y)"
  shows "outcome x (orelse e f) (bind_step r (\<lambda>b y. if b then Done True y else g y))"
  using assms by (cases e) (auto simp: outcome_def)

lemma greedy_ok:
  assumes q: "good c q" and r: "\<And>j. i + l \<le> j \<Longrightarrow> j \<le> i + no \<Longrightarrow> yields c sens s (Some q) j (K j)"
    and m: "\<And>j x. i + l \<le> j \<Longrightarrow> j \<le> i + no \<Longrightarrow> at_pos c sens s j x \<Longrightarrow> outcome x (K j) (m x)"
    and x: "at_pos c sens s (i + no) x"
  shows "outcome x (first_of K (rev (map ((+) i) [l..<no + 1]))) (greedy_loop m (next_char c (Some q)) i l no x)"
  using r m x
proof (induction no arbitrary: x)
  case 0
  show ?case
  proof (cases "l = 0")
    case True
    have "outcome x (orelse (K i) None) (bind_step (if could_work (next_char c (Some q)) x then m x else Done False x)
       (\<lambda>b x. if b then Done True x else Done False x))"
    proof (rule outcome_else)
      show "outcome x (K i) (if could_work (next_char c (Some q)) x then m x else Done False x)"
        using 0 True by (intro attempt [OF q, of sens s i]) auto
    qed (simp add: outcome_def)
    moreover have "orelse (K i) None = first_of K (rev (map ((+) i) [l..<0 + 1]))" using True by (cases "K i") simp_all
    ultimately show ?thesis using True
      by (subst greedy_loop.simps) (simp only: less_nat_zero_code if_False old.nat.case)
  qed (use 0 in \<open>simp add: outcome_def\<close>)
next
  case (Suc no)
  show ?case
  proof (cases "l \<le> Suc no")
    case True
    have "outcome x (orelse (K (i + Suc no)) (first_of K (rev (map ((+) i) [l..<no + 1]))))
       (bind_step (if could_work (next_char c (Some q)) x then m x else Done False x) (\<lambda>b x.
         if b then Done True x else greedy_loop m (next_char c (Some q)) i l no (x\<lparr>m_input_ptr := i + no\<rparr>)))"
    proof (rule outcome_else)
      show "outcome x (K (i + Suc no)) (if could_work (next_char c (Some q)) x then m x else Done False x)"
        using Suc.prems True by (intro attempt [OF q, of sens s "i + Suc no"]) auto
      fix y
      assume y: "keeps_rx x y"
      have "outcome (y\<lparr>m_input_ptr := i + no\<rparr>) (first_of K (rev (map ((+) i) [l..<no + 1])))
         (greedy_loop m (next_char c (Some q)) i l no (y\<lparr>m_input_ptr := i + no\<rparr>))"
        using Suc.prems y by (intro Suc.IH at_move [of c sens s "i + Suc no" x]) auto
      then show "outcome x (first_of K (rev (map ((+) i) [l..<no + 1])))
         (greedy_loop m (next_char c (Some q)) i l no (y\<lparr>m_input_ptr := i + no\<rparr>))"
        by (rule outcome_keeps [rotated]) (simp add: y)
    qed
    moreover have "rev (map ((+) i) [l..<Suc no + 1]) = (i + Suc no) # rev (map ((+) i) [l..<no + 1])"
      using True by simp
    ultimately show ?thesis using True
      by (subst greedy_loop.simps) (simp only: not_less [symmetric] if_False old.nat.case first_of.simps)
  next
    case False
    then show ?thesis by (subst greedy_loop.simps) (simp add: outcome_def)
  qed
qed

lemma lazy_ok:
  assumes q: "good c q" and r: "\<And>j. i + no \<le> j \<Longrightarrow> j \<le> i + l \<Longrightarrow> yields c sens s (Some q) j (K j)"
    and m: "\<And>j x. i + no \<le> j \<Longrightarrow> j \<le> i + l \<Longrightarrow> at_pos c sens s j x \<Longrightarrow> outcome x (K j) (m x)"
    and x: "at_pos c sens s i' x"
  shows "outcome x (first_of K (map ((+) i) [no..<l + 1])) (lazy_loop m (next_char c (Some q)) i l no x)"
  using r m x
proof (induction "l + 1 - no" arbitrary: no x i')
  case 0
  then show ?case by (subst lazy_loop.simps) (simp add: outcome_def)
next
  case (Suc d)
  let ?x = "x\<lparr>m_input_ptr := i + no\<rparr>"
  have no: "no \<le> l" using Suc.hyps(2) by simp
  have at_x: "at_pos c sens s (i + no) ?x" by (rule at_move [OF Suc.prems(3) keeps_rx_refl])
  have "outcome ?x (orelse (K (i + no)) (first_of K (map ((+) i) [no + 1..<l + 1])))
     (bind_step (if could_work (next_char c (Some q)) ?x then m ?x else Done False ?x) (\<lambda>b x.
         if b then Done True x else lazy_loop m (next_char c (Some q)) i l (no + 1) x))"
  proof (rule outcome_else)
    show "outcome ?x (K (i + no)) (if could_work (next_char c (Some q)) ?x then m ?x else Done False ?x)"
      using Suc.prems no at_x by (intro attempt [OF q, of sens s "i + no"]) auto
    fix y
    assume y: "keeps_rx ?x y"
    have "at_pos c sens s (m_input_ptr y) y" using at_move [OF at_x y, of "m_input_ptr y"] by simp
    then have "outcome y (first_of K (map ((+) i) [no + 1..<l + 1])) (lazy_loop m (next_char c (Some q)) i l (no + 1) y)"
      using Suc.prems Suc.hyps(2) by (intro Suc.hyps(1)) auto
    then show "outcome ?x (first_of K (map ((+) i) [no + 1..<l + 1])) (lazy_loop m (next_char c (Some q)) i l (no + 1) y)"
      by (rule outcome_keeps [OF y])
  qed
  then have "outcome x (orelse (K (i + no)) (first_of K (map ((+) i) [no + 1..<l + 1])))
     (lazy_loop m (next_char c (Some q)) i l no x)"
    using no outcome_keeps [of x ?x] by (subst lazy_loop.simps) (simp add: Let_def)
  moreover have "map ((+) i) [no..<l + 1] = (i + no) # map ((+) i) [no + 1..<l + 1]"
    using no by (subst upt_conv_Cons) auto
  ultimately show ?case by (simp only: first_of.simps)
qed

lemma runs_rep:
  assumes p: "has c p (rep_op pos lazy) k" and c: "segment c (p + 3) (single_code 0 d)" and d: "wf_single d"
    and q: "good c (p + k)"
    and r: "\<And>j. j \<in> set (pends sens s (Rep pos lazy d) i) \<Longrightarrow> yields c sens s (Some (p + k)) j (K j)"
  shows "yields c sens s (Some p) i (first_of K (pends sens s (Rep pos lazy d) i))"
proof -
  let ?ends = "pends sens s (Rep pos lazy d) i" and ?l = "if pos then 1 else 0 :: nat"
  let ?m = "length (takeWhile (single_ok sens d) (drop i s))"
  obtain N where N: "\<And>n j x. n \<ge> N \<Longrightarrow> j \<in> set ?ends \<Longrightarrow> at_pos c sens s j x \<Longrightarrow> outcome x (K j) (MatchX n (Some (p + k)) x)"
    using runs_uniform [OF finite_set r] by metis
  have ends: "j \<in> set ?ends" if "i + ?l \<le> j" "j \<le> i + ?m" for j
    using that by (auto simp: Let_def intro!: image_eqI [of _ _ "j - i"])
  note node = hasD(1,2) [OF p] hasD(3) [OF p rep_op(2)]
  show ?thesis
  proof (rule runs_node [where N = N])
    fix n x
    assume n: "N \<le> n" and x: "at_pos c sens s i x"
    let ?M = "MatchX n (Some (p + k))" and ?x = "x\<lparr>m_input_ptr := i + ?m\<rparr>"
    note rep = MatchRepeat_single [OF c d x]
    have x': "at_pos c sens s (i + ?m) ?x" by (rule at_move [OF x keeps_rx_refl])
    have mm: "match_node (MatchX n) n p x =
      (if lazy then lazy_loop ?M (next_char c (Some (p + k))) i ?m ?l ?x
       else greedy_loop ?M (next_char c (Some (p + k))) i ?l ?m ?x)"
      using good_next [OF q] rep node
      by (cases pos; cases lazy)
        (simp_all add: match_node_def Let_def at_posD [OF x] rep_op_def del: MatchX.simps greedy_loop.simps lazy_loop.simps)
    have "outcome ?x (first_of K ?ends) (match_node (MatchX n) n p x)"
    proof (cases lazy)
      case True
      have "outcome ?x (first_of K (map ((+) i) [?l..<?m + 1])) (lazy_loop ?M (next_char c (Some (p + k))) i ?m ?l ?x)"
        by (rule lazy_ok [OF q]) (use r N [OF n] ends x' in blast)+
      then show ?thesis unfolding mm using True by (simp add: Let_def del: upt_Suc)
    next
      case False
      have "outcome ?x (first_of K (rev (map ((+) i) [?l..<?m + 1]))) (greedy_loop ?M (next_char c (Some (p + k))) i ?l ?m ?x)"
        by (rule greedy_ok [OF q]) (use r N [OF n] ends x' in blast)+
      then show ?thesis unfolding mm using False by (simp add: Let_def del: upt_Suc)
    qed
    then show "outcome x (first_of K ?ends) (match_node (MatchX n) n p x)"
      by (rule outcome_keeps [rotated]) simp
  qed
qed

end
