(* ===== verification/RegxMatch.thy ===== *)
theory RegxMatch
  imports RegxRun
begin

text \<open>
  The matcher is correct on compiled patterns: run on the code of a pattern with enough fuel it returns,
  and the end of the match is that of the first way to match the pattern after which the rest matches.
  Hence a search finds the leftmost match, and of those that begin there the first of the reference.
\<close>

section \<open>The code of a pattern\<close>

lemma good_piece:
  assumes "wf_piece p" "segment c a (pcode n k p)" "n \<le> 10"
  shows "good c a"
proof (cases p)
  case (Lit cs)
  have "NUL \<notin> set (map snd cs)" using assms Lit lit_no_NUL by simp
  then have "opnd_ok c a" using segment_opnd [of c a EXACTLY k "map snd cs"] assms Lit by simp
  moreover have "node_ok c a" using assms Lit by (auto simp: segment_def node_ok_node)
  ultimately show ?thesis by (simp add: good_def)
next
  case (Assert x)
  then show ?thesis using assms by (cases x) (auto intro: good_node)
next
  case (One d)
  then show ?thesis using One assms good_node [of c a ANY] good_node [of c a ANYOF] good_node [of c a ANYBUT]
    by (cases d) (auto split: if_splits)
next
  case (Rep pos lazy d)
  then show ?thesis using assms rep_op by (auto intro: good_node)
next
  case (Many pos r)
  then show ?thesis using assms by (cases pos) (auto simp: Let_def intro: good_node)
qed (use assms in \<open>auto intro: good_node\<close>)

lemma good_branch:
  assumes "wf_branch b" "segment c a (bcode n k b)" "n \<le> 10"
  shows "good c a"
proof (cases b)
  case (Seq p b')
  then show ?thesis using assms good_piece by (auto simp: bcode_Seq split: if_splits)
qed (use assms in \<open>auto simp: bcode_def intro: good_node\<close>)

lemma rcode_first:
  assumes "segment c a (rcode n h k r)"
  shows "good c a" "OP c a = BRANCH"
proof -
  obtain j where "segment c a (node BRANCH j)" using assms by (cases r) auto
  then show "good c a" "OP c a = BRANCH" by (auto simp: segment_def good_def node_ok_node)
qed

section \<open>Runs on the code of a pattern\<close>

definition piece_runs :: "bytes \<Rightarrow> bool \<Rightarrow> bytes \<Rightarrow> piece \<Rightarrow> bool" where
  "piece_runs c sens s p \<longleftrightarrow> (\<forall>n k a i K. segment c a (pcode n k p) \<longrightarrow> 0 < k \<longrightarrow> k < 65536 \<longrightarrow> 1 \<le> n \<longrightarrow> n + groups p \<le> 10
    \<longrightarrow> i \<le> length s \<longrightarrow> good c (a + plast p + k)
    \<longrightarrow> (\<forall>j \<in> set (pends sens s p i). yields c sens s (Some (a + plast p + k)) j (K j))
    \<longrightarrow> yields c sens s (Some a) i (first_of K (pends sens s p i)))"

definition branch_runs :: "bytes \<Rightarrow> bool \<Rightarrow> bytes \<Rightarrow> branch \<Rightarrow> bool" where
  "branch_runs c sens s b \<longleftrightarrow> (\<forall>n k a i K. segment c a (bcode n k b) \<longrightarrow> 0 < k \<longrightarrow> k < 65536 \<longrightarrow> 1 \<le> n \<longrightarrow> n + bgroups b \<le> 10
    \<longrightarrow> i \<le> length s \<longrightarrow> good c (a + blast b + k)
    \<longrightarrow> (\<forall>j \<in> set (bends sens s b i). yields c sens s (Some (a + blast b + k)) j (K j))
    \<longrightarrow> yields c sens s (Some a) i (first_of K (bends sens s b i)))"

definition regex_runs :: "bytes \<Rightarrow> bool \<Rightarrow> bytes \<Rightarrow> regex \<Rightarrow> bool" where
  "regex_runs c sens s r \<longleftrightarrow> (\<forall>n a i K. segment c a (rcode n True (rlen r - rlast r) r) \<longrightarrow> 1 \<le> n \<longrightarrow> n + rgroups r \<le> 10
    \<longrightarrow> i \<le> length s \<longrightarrow> good c (a + rlen r) \<longrightarrow> OP c (a + rlen r) \<noteq> BRANCH
    \<longrightarrow> (\<forall>j \<in> set (rends sens s r i). yields c sens s (Some (a + rlen r)) j (K j))
    \<longrightarrow> yields c sens s (Some a) i (first_of K (rends sens s r i)) \<and> tries c sens s (Some a) i (first_of K (rends sens s r i)))"

lemmas piece_runsD = piece_runs_def [THEN iffD1, rule_format]
lemmas branch_runsD = branch_runs_def [THEN iffD1, rule_format]
lemmas regex_runsD = regex_runs_def [THEN iffD1, rule_format]

lemma runs_two:
  assumes p: "has c p BRANCH j" "has c (p + j) BRANCH 3" and q: "good c (p + j + 3)" "OP c (p + j + 3) \<noteq> BRANCH"
    and e: "yields c sens s (Some (p + 3)) i e" and f: "yields c sens s (Some (p + j + 3)) i f"
  shows "yields c sens s (Some p) i (orelse e f)"
proof -
  have "tries c sens s (Some (p + j + 3)) i None" using q by (intro tries_end) (auto simp: good_def)
  then have "tries c sens s (Some (p + j)) i (orelse f None)" using tries_step [OF p(2)] f by simp
  moreover have "orelse f None = f" by (cases f) auto
  ultimately have "tries c sens s (Some p) i (orelse e f)" using tries_step [OF p(1) e] by simp
  then show ?thesis
    by (rule runs_choice [OF p(1), rotated 2]) (use hasD(1,2) [OF p(2)] in \<open>auto simp: good_def\<close>)
qed

lemma runs_many:
  assumes f: "within s True f"
    and step: "\<And>i K. i \<le> length s \<Longrightarrow> (\<And>j. j \<in> set (f i) \<Longrightarrow> yields c sens s (Some l) j (K j))
      \<Longrightarrow> yields c sens s (Some b) i (first_of K (f i))"
    and alt: "\<And>i e g. yields c sens s (Some b) i e \<Longrightarrow> yields c sens s q i g \<Longrightarrow> yields c sens s (Some l) i (orelse e g)"
    and i: "i \<le> length s" and ex: "\<And>j. j \<in> set (many f (length s) i) \<Longrightarrow> yields c sens s q j (K j)"
  shows "yields c sens s (Some l) i (first_of K (many f (length s) i))"
  using i ex
proof (induction "length s - i" arbitrary: i rule: less_induct)
  case less
  let ?g = "\<lambda>j. if i < j \<and> j \<le> length s then many f (length s) j else []"
  have many: "many f (length s) i = concat (map ?g (f i)) @ [i]" by (subst many.simps) rule
  have "yields c sens s (Some b) i (first_of (\<lambda>j. first_of K (?g j)) (f i))"
  proof (rule step [OF less.prems(1)])
    fix j
    assume j: "j \<in> set (f i)"
    then have b: "i < j" "j \<le> length s" using withinD [OF f less.prems(1) j] by auto
    have "yields c sens s (Some l) j (first_of K (many f (length s) j))"
    proof (rule less.hyps)
      fix j'
      assume "j' \<in> set (many f (length s) j)"
      then have "j' \<in> set (many f (length s) i)" unfolding many using j b by auto
      then show "yields c sens s q j' (K j')" by (rule less.prems(2))
    qed (use b in auto)
    then show "yields c sens s (Some l) j (first_of K (?g j))" using b by simp
  qed
  moreover have "yields c sens s q i (K i)" by (rule less.prems(2)) (simp add: many)
  ultimately have "yields c sens s (Some l) i (orelse (first_of (\<lambda>j. first_of K (?g j)) (f i)) (K i))" by (rule alt)
  then show ?case unfolding many first_of_append first_of_concat first_of_single .
qed

text \<open>A group: the code of its regular expression between its two nodes.\<close>

lemma group_runs:
  assumes r: "regex_runs c sens s r"
    and c: "segment c a (node (OPEN + n) 3 @ rcode (Suc n) True (rlen r - rlast r) r @ node (CLOSE + n) k)"
    and k: "0 < k" "k < 65536" and n: "1 \<le> n" "n + Suc (rgroups r) \<le> 10" and i: "i \<le> length s"
    and K: "\<And>j. j \<in> set (rends sens s r i) \<Longrightarrow> yields c sens s (Some (a + (6 + rlen r) - 3 + k)) j (K j)"
  shows "yields c sens s (Some a) i (first_of K (rends sens s r i))"
proof -
  have o: "has c a (OPEN + n) 3" using c n by (intro hasI) auto
  have cl: "segment c (a + 3 + rlen r) (node (CLOSE + n) k)" using c by (simp add: add.assoc)
  have h: "has c (a + 3 + rlen r) (CLOSE + n) k" using cl k n by (intro hasI) auto
  have "yields c sens s (Some (a + 3 + rlen r)) j (K j)" if "j \<in> set (rends sens s r i)" for j
    by (rule runs_close [OF h]) (use n K [OF that] in \<open>auto simp: algebra_simps\<close>)
  then have "yields c sens s (Some (a + 3)) i (first_of K (rends sens s r i))"
    using regex_runsD [OF r, of "a + 3" "Suc n" i K] c i n good_node [OF cl] hasD(2) [OF h] by simp
  then show ?thesis by (intro runs_open [OF o]) (use n in auto)
qed

lemma lit_runs: "wf_piece (Lit cs) \<Longrightarrow> piece_runs c sens s (Lit cs)"
  unfolding piece_runs_def
proof (intro allI impI)
  fix n k a i and K :: "nat \<Rightarrow> nat option"
  assume wf: "wf_piece (Lit cs)" and c: "segment c a (pcode n k (Lit cs))" and k: "0 < k" "k < 65536"
    and K: "\<forall>j \<in> set (pends sens s (Lit cs) i). yields c sens s (Some (a + plast (Lit cs) + k)) j (K j)"
  let ?l = "lit_here sens (map snd cs) (drop i s)"
  have "yields c sens s (Some a) i (if ?l then K (i + length cs) else None)"
    by (rule runs_lit [where k = k]) (use c k K wf lit_no_NUL [of cs] in auto)
  moreover have "first_of K (pends sens s (Lit cs) i) = (if ?l then K (i + length cs) else None)"
    by (cases "K (i + length cs)") auto
  ultimately show "yields c sens s (Some a) i (first_of K (pends sens s (Lit cs) i))" by simp
qed

lemma assert_runs:
  assumes s: "NUL \<notin> set s"
  shows "piece_runs c sens s (Assert x)"
  unfolding piece_runs_def
proof (intro allI impI)
  fix n k a i and K :: "nat \<Rightarrow> nat option"
  assume c: "segment c a (pcode n k (Assert x))" and k: "0 < k" "k < 65536" and i: "i \<le> length s"
    and K: "\<forall>j \<in> set (pends sens s (Assert x) i). yields c sens s (Some (a + plast (Assert x) + k)) j (K j)"
  have "assert_op x < 256" "assert_op x \<noteq> BACK" by (cases x; simp)+
  then have "has c a (assert_op x) k" using c k by (intro hasI) auto
  then have "yields c sens s (Some a) i (if assert_holds s x i then K i else None)"
    by (rule runs_assert) (use s i K in auto)
  moreover have "first_of K (pends sens s (Assert x) i) = (if assert_holds s x i then K i else None)"
    by (cases "K i") auto
  ultimately show "yields c sens s (Some a) i (first_of K (pends sens s (Assert x) i))" by simp
qed

lemma one_runs:
  assumes s: "NUL \<notin> set s" and wf: "wf_piece (One d)"
  shows "piece_runs c sens s (One d)"
  unfolding piece_runs_def
proof (intro allI impI)
  fix n k a i and K :: "nat \<Rightarrow> nat option"
  assume c: "segment c a (pcode n k (One d))" and k: "0 < k" "k < 65536" and i: "i \<le> length s"
    and K: "\<forall>j \<in> set (pends sens s (One d) i). yields c sens s (Some (a + plast (One d) + k)) j (K j)"
  let ?l = "i < length s \<and> single_ok sens d (s ! i)"
  have "yields c sens s (Some a) i (if ?l then K (i + 1) else None)"
    by (rule runs_single [where k = k]) (use c k K wf s i in auto)
  moreover have "first_of K (pends sens s (One d) i) = (if ?l then K (i + 1) else None)"
    by (cases "K (i + 1)") auto
  ultimately show "yields c sens s (Some a) i (first_of K (pends sens s (One d) i))" by simp
qed

lemma rep_runs: "wf_piece (Rep pos lazy d) \<Longrightarrow> piece_runs c sens s (Rep pos lazy d)"
  unfolding piece_runs_def
proof (intro allI impI)
  fix n k a i and K :: "nat \<Rightarrow> nat option"
  assume wf: "wf_piece (Rep pos lazy d)" and c: "segment c a (pcode n k (Rep pos lazy d))" and k: "0 < k" "k < 65536"
    and q: "good c (a + plast (Rep pos lazy d) + k)"
    and K: "\<forall>j \<in> set (pends sens s (Rep pos lazy d) i). yields c sens s (Some (a + plast (Rep pos lazy d) + k)) j (K j)"
  have "has c a (rep_op pos lazy) k" using c k rep_op by (intro hasI) auto
  then show "yields c sens s (Some a) i (first_of K (pends sens s (Rep pos lazy d) i))"
    by (rule runs_rep) (use c wf q K in \<open>simp_all del: pends.simps\<close>)
qed

lemma group_piece_runs: "regex_runs c sens s r \<Longrightarrow> piece_runs c sens s (Group r)"
  unfolding piece_runs_def
proof (intro allI impI)
  fix n k a i and K :: "nat \<Rightarrow> nat option"
  assume r: "regex_runs c sens s r" and c: "segment c a (pcode n k (Group r))" and k: "0 < k" "k < 65536"
    and n: "1 \<le> n" "n + groups (Group r) \<le> 10" "i \<le> length s"
    and K: "\<forall>j \<in> set (pends sens s (Group r) i). yields c sens s (Some (a + plast (Group r) + k)) j (K j)"
  have "yields c sens s (Some a) i (first_of K (rends sens s r i))"
  proof (rule group_runs [OF r _ k n(1) _ n(3)])
    show "segment c a (node (OPEN + n) 3 @ rcode (Suc n) True (rlen r - rlast r) r @ node (CLOSE + n) k)"
      using c by (simp add: add.assoc)
    fix j
    assume "j \<in> set (rends sens s r i)"
    then show "yields c sens s (Some (a + (6 + rlen r) - 3 + k)) j (K j)" using K by (simp add: algebra_simps)
  qed (use n in simp)
  then show "yields c sens s (Some a) i (first_of K (pends sens s (Group r) i))" by simp
qed

lemma opt_runs:
  assumes p: "piece_runs c sens s p" and len: "length c < 65000"
  shows "piece_runs c sens s (Opt p)"
  unfolding piece_runs_def
proof (intro allI impI)
  fix n k a i and K :: "nat \<Rightarrow> nat option"
  assume c: "segment c a (pcode n k (Opt p))" and k: "0 < k" "k < 65536"
    and n: "1 \<le> n" "n + groups (Opt p) \<le> 10" and i: "i \<le> length s"
    and K: "\<forall>j \<in> set (pends sens s (Opt p) i). yields c sens s (Some (a + plast (Opt p) + k)) j (K j)"
  have c': "segment c a (node BRANCH (3 + plen p))" "segment c (a + 3) (pcode n (plen p - plast p + 3) p)"
    "segment c (a + (3 + plen p)) (node BRANCH 3)" "segment c (a + (3 + plen p) + 3) (node NOTHING k)"
    using c by (simp_all add: add.assoc)
  have pl: "a + (3 + plen p) \<le> length c" using segment_length [OF c'(3)] by simp
  have nx: "a + 3 + plast p + (plen p - plast p + 3) = a + (3 + plen p) + 3" using plen_ge [of p] by simp
  have b1: "has c a BRANCH (3 + plen p)" using c'(1) pl len by (intro hasI) auto
  have b2: "has c (a + (3 + plen p)) BRANCH 3" using c'(3) by (intro hasI) auto
  have no: "has c (a + (3 + plen p) + 3) NOTHING k" using c'(4) k by (intro hasI) auto
  have out: "yields c sens s (Some (a + (3 + plen p) + 3)) j (K j)" if "j \<in> set (pends sens s p i) \<or> j = i" for j
    by (rule runs_nothing [OF no]) (use K that in \<open>auto simp: algebra_simps\<close>)
  have "yields c sens s (Some (a + 3)) i (first_of K (pends sens s p i))"
    by (rule piece_runsD [OF p c'(2)]; (unfold nx)?) (use n i out len pl good_node [OF c'(4)] plen_ge [of p] in auto)
  then have "yields c sens s (Some a) i (orelse (first_of K (pends sens s p i)) (K i))"
    using good_node [OF c'(4)] hasD(2) [OF no] out [of i] by (intro runs_two [OF b1 b2]) auto
  moreover have "first_of K (pends sens s (Opt p) i) = orelse (first_of K (pends sens s p i)) (K i)"
    by (simp only: pends.simps first_of_append first_of_single)
  ultimately show "yields c sens s (Some a) i (first_of K (pends sens s (Opt p) i))" by simp
qed

text \<open>Repeated groups.\<close>

lemma star_runs:
  assumes r: "regex_runs c sens s r" and w: "within s True (rends sens s r)" and len: "length c < 65000"
  shows "piece_runs c sens s (Many False r)"
  unfolding piece_runs_def
proof (intro allI impI)
  fix n k a i and K :: "nat \<Rightarrow> nat option"
  let ?p = "Many False r"
  assume c: "segment c a (pcode n k ?p)" and k: "0 < k" "k < 65536"
    and n: "1 \<le> n" "n + groups ?p \<le> 10" and i: "i \<le> length s"
    and K: "\<forall>j \<in> set (pends sens s ?p i). yields c sens s (Some (a + plast ?p + k)) j (K j)"
  have c': "segment c a (node BRANCH (12 + rlen r))"
    "segment c (a + 3) (node (OPEN + n) 3 @ rcode (Suc n) True (rlen r - rlast r) r @ node (CLOSE + n) 3)"
    "segment c (a + 9 + rlen r) (node BACK (9 + rlen r))"
    "segment c (a + (12 + rlen r)) (node BRANCH 3)" "segment c (a + (12 + rlen r) + 3) (node NOTHING k)"
    using c by (simp_all add: Let_def algebra_simps)
  have pl: "a + 15 + rlen r \<le> length c" using segment_length [OF c'(4)] by simp
  have b1: "has c a BRANCH (12 + rlen r)" using c'(1) pl len by (intro hasI) auto
  have b2: "has c (a + (12 + rlen r)) BRANCH 3" using c'(4) by (intro hasI) auto
  have bk: "has c (a + 9 + rlen r) BACK (9 + rlen r)" using c'(3) pl len by (intro hasI) auto
  have no: "has c (a + (12 + rlen r) + 3) NOTHING k" using c'(5) k by (intro hasI) auto
  have "yields c sens s (Some a) i (first_of K (many (rends sens s r) (length s) i))"
  proof (rule runs_many [OF w, where b = "a + 3" and q = "Some (a + (12 + rlen r) + 3)"])
    fix i K'
    assume i: "i \<le> length s" and K': "\<And>j. j \<in> set (rends sens s r i) \<Longrightarrow> yields c sens s (Some a) j (K' j)"
    show "yields c sens s (Some (a + 3)) i (first_of K' (rends sens s r i))"
    proof (rule group_runs [OF r c'(2) _ _ n(1) _ i])
      fix j
      assume "j \<in> set (rends sens s r i)"
      then have "yields c sens s (Some (a + 9 + rlen r)) j (K' j)" by (intro runs_back [OF bk]) (simp add: K')
      then show "yields c sens s (Some (a + 3 + (6 + rlen r) - 3 + 3)) j (K' j)" by (simp add: algebra_simps)
    qed (use n in auto)
  next
    fix i e g
    assume "yields c sens s (Some (a + 3)) i e" "yields c sens s (Some (a + (12 + rlen r) + 3)) i g"
    then show "yields c sens s (Some a) i (orelse e g)"
      using good_node [OF c'(5)] hasD(2) [OF no] by (intro runs_two [OF b1 b2]) auto
  next
    fix j
    assume "j \<in> set (many (rends sens s r) (length s) i)"
    then show "yields c sens s (Some (a + (12 + rlen r) + 3)) j (K j)"
      by (intro runs_nothing [OF no]) (use K in \<open>simp add: algebra_simps\<close>)
  qed (rule i)
  then show "yields c sens s (Some a) i (first_of K (pends sens s ?p i))" by simp
qed

lemma plus_runs:
  assumes r: "regex_runs c sens s r" and w: "within s True (rends sens s r)" and len: "length c < 65000"
  shows "piece_runs c sens s (Many True r)"
  unfolding piece_runs_def
proof (intro allI impI)
  fix n k a i and K :: "nat \<Rightarrow> nat option"
  let ?p = "Many True r" and ?f = "rends sens s r"
  assume c: "segment c a (pcode n k ?p)" and k: "0 < k" "k < 65536"
    and n: "1 \<le> n" "n + groups ?p \<le> 10" and i: "i \<le> length s"
    and K: "\<forall>j \<in> set (pends sens s ?p i). yields c sens s (Some (a + plast ?p + k)) j (K j)"
  let ?l = "a + 6 + rlen r"
  have c': "segment c a (node (OPEN + n) 3 @ rcode (Suc n) True (rlen r - rlast r) r @ node (CLOSE + n) 3)"
    "segment c ?l (node BRANCH 6)" "segment c (?l + 3) (node BACK (9 + rlen r))"
    "segment c (?l + 6) (node BRANCH 3)" "segment c (?l + 6 + 3) (node NOTHING k)"
    using c by (simp_all add: Let_def algebra_simps)
  have pl: "a + 15 + rlen r \<le> length c" using segment_length [OF c'(4)] by simp
  have b1: "has c ?l BRANCH 6" using c'(2) by (intro hasI) auto
  have b2: "has c (?l + 6) BRANCH 3" using c'(4) by (intro hasI) auto
  have bk: "has c (?l + 3) BACK (9 + rlen r)" using c'(3) pl len by (intro hasI) auto
  have no: "has c (?l + 6 + 3) NOTHING k" using c'(5) k by (intro hasI) auto
  have group: "yields c sens s (Some a) i (first_of K' (?f i))"
    if "i \<le> length s" "\<And>j. j \<in> set (?f i) \<Longrightarrow> yields c sens s (Some ?l) j (K' j)" for i K'
    by (rule group_runs [OF r c'(1) _ _ n(1) _ that(1)]) (use n that(2) in \<open>auto simp: algebra_simps\<close>)
  have loop: "yields c sens s (Some ?l) i (first_of K (many ?f (length s) i))"
    if i: "i \<le> length s" and K: "\<And>j. j \<in> set (many ?f (length s) i) \<Longrightarrow> yields c sens s (Some (a + plast ?p + k)) j (K j)" for i
  proof (rule runs_many [OF w, where b = "?l + 3" and q = "Some (?l + 6 + 3)"])
    fix i K'
    assume "i \<le> length s" "\<And>j. j \<in> set (?f i) \<Longrightarrow> yields c sens s (Some ?l) j (K' j)"
    then have "yields c sens s (Some a) i (first_of K' (?f i))" by (rule group)
    then show "yields c sens s (Some (?l + 3)) i (first_of K' (?f i))" by (intro runs_back [OF bk]) simp
  next
    fix i e g
    assume "yields c sens s (Some (?l + 3)) i e" "yields c sens s (Some (?l + 6 + 3)) i g"
    then show "yields c sens s (Some ?l) i (orelse e g)"
      using good_node [OF c'(5)] hasD(2) [OF no] by (intro runs_two [OF b1 b2]) auto
  next
    fix j
    assume "j \<in> set (many ?f (length s) i)"
    then show "yields c sens s (Some (?l + 6 + 3)) j (K j)"
      by (intro runs_nothing [OF no]) (use K in \<open>simp add: algebra_simps\<close>)
  qed (rule i)
  have "yields c sens s (Some a) i (first_of (\<lambda>j. first_of K (many ?f (length s) j)) (?f i))"
  proof (rule group [OF i])
    fix j
    assume j: "j \<in> set (?f i)"
    then show "yields c sens s (Some ?l) j (first_of K (many ?f (length s) j))"
      using withinD [OF w i j] K by (intro loop) auto
  qed
  then show "yields c sens s (Some a) i (first_of K (pends sens s ?p i))" by (simp add: first_of_concat)
qed

text \<open>Branches and alternatives.\<close>

lemma empty_runs: "branch_runs c sens s Empty"
  unfolding branch_runs_def
proof (intro allI impI)
  fix n k a i and K :: "nat \<Rightarrow> nat option"
  assume c: "segment c a (bcode n k Empty)" and k: "0 < k" "k < 65536"
    and K: "\<forall>j \<in> set (bends sens s Empty i). yields c sens s (Some (a + blast Empty + k)) j (K j)"
  have "has c a NOTHING k" using c k by (intro hasI) (auto simp: bcode_def)
  then have "yields c sens s (Some a) i (K i)" by (rule runs_nothing) (use K in simp)
  then show "yields c sens s (Some a) i (first_of K (bends sens s Empty i))" by (simp only: bends.simps first_of_single)
qed

lemma seq_runs:
  assumes p: "piece_runs c sens s p" and b: "branch_runs c sens s b" and wf: "wf_piece p" "wf_branch b" and len: "length c < 65000"
  shows "branch_runs c sens s (Seq p b)"
  unfolding branch_runs_def
proof (intro allI impI)
  fix n k a i and K :: "nat \<Rightarrow> nat option"
  assume c: "segment c a (bcode n k (Seq p b))" and k: "0 < k" "k < 65536"
    and n: "1 \<le> n" "n + bgroups (Seq p b) \<le> 10" and i: "i \<le> length s" and q: "good c (a + blast (Seq p b) + k)"
    and K: "\<forall>j \<in> set (bends sens s (Seq p b) i). yields c sens s (Some (a + blast (Seq p b) + k)) j (K j)"
  show "yields c sens s (Some a) i (first_of K (bends sens s (Seq p b) i))"
  proof (cases "b = Empty")
    case True
    have "yields c sens s (Some a) i (first_of K (pends sens s p i))"
      by (rule piece_runsD [OF p]) (use True c k n i q K in \<open>auto simp: bcode_Seq\<close>)
    then show ?thesis using True by (simp add: concat_map_singleton)
  next
    case False
    have c': "segment c a (pcode n (plen p - plast p) p)" "segment c (a + plen p) (bcode (n + groups p) k b)"
      using c False by (simp_all add: bcode_Seq)
    have pl: "a + plen p \<le> length c" using segment_length [OF c'(1)] by simp
    have nx: "a + plast p + (plen p - plast p) = a + plen p" using plen_ge [of p] by simp
    have "yields c sens s (Some a) i (first_of (\<lambda>j. first_of K (bends sens s b j)) (pends sens s p i))"
    proof (rule piece_runsD [OF p c'(1)]; (unfold nx)?)
      show "good c (a + plen p)" using good_branch [OF wf(2) c'(2)] n by simp
      fix j
      assume j: "j \<in> set (pends sens s p i)"
      then show "yields c sens s (Some (a + plen p)) j (first_of K (bends sens s b j))"
        using ends_bounds(1) [OF wf(1) i j] q K False n k
        by (intro branch_runsD [OF b c'(2)]) (auto simp: algebra_simps)
    qed (use n i pl len plen_ge [of p] in auto)
    then show ?thesis by (simp add: first_of_concat)
  qed
qed

lemma last_runs:
  assumes b: "branch_runs c sens s b" and len: "length c < 65000"
  shows "regex_runs c sens s (Last b)"
  unfolding regex_runs_def
proof (intro allI impI)
  fix n a i and K :: "nat \<Rightarrow> nat option"
  assume c: "segment c a (rcode n True (rlen (Last b) - rlast (Last b)) (Last b))"
    and n: "1 \<le> n" "n + rgroups (Last b) \<le> 10" and i: "i \<le> length s"
    and q: "good c (a + rlen (Last b))" "OP c (a + rlen (Last b)) \<noteq> BRANCH"
    and K: "\<forall>j \<in> set (rends sens s (Last b) i). yields c sens s (Some (a + rlen (Last b))) j (K j)"
  have c': "segment c a (node BRANCH (3 + blen b))" "segment c (a + 3) (bcode n (blen b - blast b) b)" using c by simp_all
  have pl: "a + 3 + blen b \<le> length c" using segment_length [OF c'(2)] by simp
  have br: "has c a BRANCH (3 + blen b)" using c'(1) pl len by (intro hasI) auto
  have nx: "a + 3 + blast b + (blen b - blast b) = a + (3 + blen b)" using blen_ge [of b] by simp
  have r: "yields c sens s (Some (a + 3)) i (first_of K (bends sens s b i))"
    by (rule branch_runsD [OF b c'(2)]; (unfold nx)?) (use n i q K pl len blen_ge [of b] in auto)
  have "tries c sens s (Some (a + (3 + blen b))) i None" using q by (intro tries_end) (auto simp: good_def)
  then have "tries c sens s (Some a) i (orelse (first_of K (bends sens s b i)) None)" by (rule tries_step [OF br r])
  moreover have "orelse (first_of K (bends sens s b i)) None = first_of K (bends sens s b i)"
    by (cases "first_of K (bends sens s b i)") auto
  ultimately show "yields c sens s (Some a) i (first_of K (rends sens s (Last b) i))
      \<and> tries c sens s (Some a) i (first_of K (rends sens s (Last b) i))"
    using runs_only [OF br _ _ r] q by simp
qed

lemma alt_runs:
  assumes b: "branch_runs c sens s b" and r: "regex_runs c sens s r" and len: "length c < 65000"
  shows "regex_runs c sens s (Alt nl b r)"
  unfolding regex_runs_def
proof (intro allI impI)
  fix n a i and K :: "nat \<Rightarrow> nat option"
  let ?r = "Alt nl b r"
  assume c: "segment c a (rcode n True (rlen ?r - rlast ?r) ?r)"
    and n: "1 \<le> n" "n + rgroups ?r \<le> 10" and i: "i \<le> length s"
    and q: "good c (a + rlen ?r)" "OP c (a + rlen ?r) \<noteq> BRANCH"
    and K: "\<forall>j \<in> set (rends sens s ?r i). yields c sens s (Some (a + rlen ?r)) j (K j)"
  have c': "segment c a (node BRANCH (3 + blen b))" "segment c (a + 3) (bcode n (blen b - blast b + rlen r) b)"
    "segment c (a + (3 + blen b)) (rcode (n + bgroups b) True (rlen r - rlast r) r)"
    using c by (simp_all add: algebra_simps)
  have pl: "a + 3 + blen b + rlen r \<le> length c" using segment_length [OF c'(3)] by simp
  have br: "has c a BRANCH (3 + blen b)" using c'(1) pl len by (intro hasI) auto
  have nx: "a + 3 + blast b + (blen b - blast b + rlen r) = a + (3 + blen b) + rlen r" using blen_ge [of b] by simp
  have e: "yields c sens s (Some (a + 3)) i (first_of K (bends sens s b i))"
    by (rule branch_runsD [OF b c'(2)]; (unfold nx)?)
      (use n i q K pl len blen_ge [of b] in \<open>auto simp: algebra_simps\<close>)
  have "tries c sens s (Some (a + (3 + blen b))) i (first_of K (rends sens s r i))"
    using regex_runsD [OF r c'(3), of i K] n i q K by (simp add: algebra_simps)
  then have t: "tries c sens s (Some a) i (first_of K (rends sens s ?r i))"
    using tries_step [OF br e] by (simp add: first_of_append)
  moreover have "yields c sens s (Some a) i (first_of K (rends sens s ?r i))"
    by (rule runs_choice [OF br _ _ t]) (use rcode_first [OF c'(3)] in simp_all)
  ultimately show "yields c sens s (Some a) i (first_of K (rends sens s ?r i))
      \<and> tries c sens s (Some a) i (first_of K (rends sens s ?r i))" by simp
qed

lemma code_runs:
  assumes s: "NUL \<notin> set s" and len: "length c < 65000"
  shows "wf_piece p \<longrightarrow> piece_runs c sens s p" "wf_branch b \<longrightarrow> branch_runs c sens s b"
    "wf_regex r \<longrightarrow> regex_runs c sens s r"
proof (induction p and b and r rule: piece.induct branch.induct regex.induct)
  case (Many pos r)
  show ?case
  proof (rule impI)
    assume wf: "wf_piece (Many pos r)"
    then have "within s True (rends sens s r)" using ends_within(3) [of r s sens] by simp
    then show "piece_runs c sens s (Many pos r)"
      using wf Many star_runs [OF _ _ len] plus_runs [OF _ _ len] by (cases pos) simp_all
  qed
next
  case (Opt p)
  then show ?case using opt_runs [OF _ len] by simp
next
  case (Seq p b)
  then show ?case using seq_runs [OF _ _ _ _ len] by simp
next
  case (Last b)
  then show ?case using last_runs [OF _ len] by simp
next
  case (Alt nl b r)
  then show ?case using alt_runs [OF _ _ len] by simp
qed (use s lit_runs assert_runs one_runs rep_runs group_piece_runs empty_runs in \<open>auto simp del: wf_piece.simps(1,3,4)\<close>)

end
