(* ===== verification/RegxSearch.thy ===== *)
theory RegxSearch
  imports RegxMatch
begin

text \<open>
  Searching with a compiled pattern: what the optimiser notes of a pattern never rules out a match, and
  the search returns the leftmost match. A declarative meaning of patterns shows that the reference lists
  just the matches.
\<close>

section \<open>The notes of the optimiser\<close>

lemma start_char_sound:
  assumes "wf_regex r" "rends sens s r i \<noteq> []"
  shows "start_char r = NUL \<or> char_at s i = start_char r"
proof (cases "\<exists>cs b. r = Last (Seq (Lit cs) b)")
  case True
  then obtain cs b where r: "r = Last (Seq (Lit cs) b)" by blast
  then have "lit_here sens (map snd cs) (drop i s)" using assms by (cases "lit_here sens (map snd cs) (drop i s)") auto
  then have "peek (map snd cs) = peek (drop i s)" by (simp add: lit_here_def)
  moreover have "peek (drop i s) = char_at s i"
    by (cases "i < length s") (simp_all add: char_at_def Cons_nth_drop_Suc [symmetric])
  moreover have "cs \<noteq> []" using assms(1) r by simp
  ultimately show ?thesis using r by (cases cs) auto
next
  case False
  then show ?thesis by (cases r rule: start_char.cases) auto
qed

lemma anchored_sound: "anchored r \<Longrightarrow> rends sens s r i \<noteq> [] \<Longrightarrow> i = 0"
  by (cases r rule: anchored.cases) (auto split: if_splits)

lemma blits_sound: "cs \<in> blits b \<Longrightarrow> bends sens s b i \<noteq> [] \<Longrightarrow> \<exists>k. lit_here sens (map snd cs) (drop k s)"
proof (induction b arbitrary: i rule: blits.induct)
  case (2 p b)
  obtain k where k: "k \<in> set (pends sens s p i)" "bends sens s b k \<noteq> []"
    using "2.prems"(2) by auto
  show ?case
  proof (cases "cs \<in> blits b")
    case False
    then have "p = Lit cs" using "2.prems"(1) by (auto split: piece.splits)
    then show ?thesis using k by (auto split: if_splits)
  qed (use "2.IH" k in blast)
qed simp

lemma has_must_here: "take (length m) (drop k s) = m \<Longrightarrow> m \<noteq> [] \<Longrightarrow> has_must m s"
proof (induction s arbitrary: k)
  case (Cons c s)
  then show ?case by (cases k) auto
qed simp

lemma lits_wf: "wf_regex r \<Longrightarrow> cs \<in> rlits r \<Longrightarrow> wf_piece (Lit cs)"
proof (cases r)
  case (Last b)
  have "wf_branch b \<Longrightarrow> cs \<in> blits b \<Longrightarrow> wf_piece (Lit cs)"
    by (induction b rule: blits.induct) (auto split: piece.splits)
  then show "wf_regex r \<Longrightarrow> cs \<in> rlits r \<Longrightarrow> wf_piece (Lit cs)" using Last by simp
qed simp

lemma must_sound:
  assumes wf: "wf_regex r" and must: "must_ok (rlits r) (program r) (Some q) len" and ends: "rends True s r i \<noteq> []"
  shows "has_must (take len (drop q (program r))) s"
proof -
  obtain cs where cs: "cs \<in> rlits r" "take len (drop q (program r)) = map snd cs"
    using must by (auto simp: must_ok_def)
  have w: "wf_piece (Lit cs)" by (rule lits_wf [OF wf cs(1)])
  obtain b where "r = Last b" using cs(1) by (cases r) auto
  then obtain k where k: "lit_here True (map snd cs) (drop k s)" using cs(1) ends blits_sound [of cs b True s i] by auto
  have "take (length (map snd cs)) (drop k s) = map snd cs"
  proof (cases "length (map snd cs) > 1")
    case True
    then show ?thesis using k by (simp add: lit_here_def)
  next
    case False
    then obtain c where c: "map snd cs = [c]" using w by (cases cs) auto
    then have "c \<noteq> NUL" using w lit_no_NUL [of cs] by auto
    then show ?thesis using k unfolding c by (cases "drop k s") (auto simp: lit_here_def)
  qed
  then show ?thesis unfolding cs(2) by (rule has_must_here) (use w in simp)
qed

section \<open>The search\<close>

abbreviation first_end :: "bool \<Rightarrow> bytes \<Rightarrow> regex \<Rightarrow> nat \<Rightarrow> nat option" where
  "first_end sens s r i \<equiv> first_of Some (rends sens s r i)"

lemma first_end_None: "first_end sens s r i = None \<longleftrightarrow> rends sens s r i = []"
  by (cases "rends sens s r i") auto

lemma program_runs:
  assumes wf: "wf_regex r" "rgroups r \<le> 9" and len: "length (program r) < 65000" and s: "NUL \<notin> set s" "i \<le> length s"
  shows "yields (program r) sens s (Some 1) i (first_end sens s r i)"
proof -
  let ?c = "program r"
  have c: "segment ?c 1 (rcode 1 True (rlen r - rlast r) r @ node END 0)"
    unfolding segment_def program_def by (intro exI [of _ "[char_of MAGIC]"] exI [of _ "[]"]) simp
  then have e: "segment ?c (1 + rlen r) (node END 0)" by simp
  have op: "OP ?c (1 + rlen r) = END" "node_ok ?c (1 + rlen r)" using e by (auto simp: segment_def node_ok_node)
  have "regex_runs ?c sens s r" using code_runs(3) [OF s(1) len] wf by blast
  then have "yields ?c sens s (Some 1) i (first_of Some (rends sens s r i))
      \<and> tries ?c sens s (Some 1) i (first_of Some (rends sens s r i))"
    using c wf s(2) good_node [OF e] op by (intro regex_runsD) (auto intro: runs_end)
  then show ?thesis by simp
qed

text \<open>A call of the matcher at a position, for all fuel from \<^verbatim>\<open>N\<close> on.\<close>

definition found :: "rx \<Rightarrow> nat \<Rightarrow> nat option \<Rightarrow> bool step \<Rightarrow> bool" where
  "found x i e r \<longleftrightarrow> (\<exists>y. r = Done (e \<noteq> None) y \<and> keeps_rx x y
     \<and> (\<forall>j. e = Some j \<longrightarrow> m_startp y ! 0 = Some i \<and> m_endp y ! 0 = Some j))"

definition slots :: "rx \<Rightarrow> bool" where
  "slots x \<longleftrightarrow> m_startp x \<noteq> [] \<and> m_endp x \<noteq> []"

lemma MatchTry_found:
  assumes "outcome (x\<lparr>m_input_ptr := i, m_subx_count := 0\<rparr>) e (MatchX n (Some 1) (x\<lparr>m_input_ptr := i, m_subx_count := 0\<rparr>))"
    and x: "slots x"
  shows "found x i e (MatchTry n i x)"
proof -
  let ?x = "x\<lparr>m_input_ptr := i, m_subx_count := 0\<rparr>"
  obtain y where y: "MatchX n (Some 1) ?x = Done (e \<noteq> None) y" "keeps_rx ?x y" "\<forall>j. e = Some j \<longrightarrow> m_input_ptr y = j"
    using assms(1) unfolding outcome_def by blast
  have k: "keeps_rx x y" using y(2) by (simp add: keeps_rx_def)
  then have "m_startp y \<noteq> []" "m_endp y \<noteq> []" using x by (auto simp: keeps_rx_def slots_def)
  then have "(m_startp y)[0 := v] ! 0 = v" "(m_endp y)[0 := v] ! 0 = v" for v
    by (cases "m_startp y"; cases "m_endp y"; simp)+
  then show ?thesis using y k unfolding MatchTry_def found_def
    by (cases e) (auto simp: keeps_rx_def)
qed

definition searched :: "rx \<Rightarrow> (nat \<times> nat) option \<Rightarrow> nat step \<Rightarrow> bool" where
  "searched x m r \<longleftrightarrow> (\<exists>y. r = Done (case m of None \<Rightarrow> 0 | Some (i, j) \<Rightarrow> i + 1) y \<and> keeps_rx x y
     \<and> (\<forall>i j. m = Some (i, j) \<longrightarrow> m_startp y ! 0 = Some i \<and> m_endp y ! 0 = Some j))"

text \<open>The first position from \<^verbatim>\<open>i\<close> on where there is a match.\<close>

fun first_at :: "(nat \<Rightarrow> nat option) \<Rightarrow> nat list \<Rightarrow> (nat \<times> nat) option" where
  "first_at f [] = None"
| "first_at f (i # is) = (case f i of Some j \<Rightarrow> Some (i, j) | None \<Rightarrow> first_at f is)"

lemma leftmost_first_at: "leftmost sens s r = first_at (first_end sens s r) [0..<length s + 1]"
proof -
  have "(case dropWhile (\<lambda>i. rends sens s r i = []) is of [] \<Rightarrow> None | i # _ \<Rightarrow> Some (i, hd (rends sens s r i)))
    = first_at (first_end sens s r) is" for "is"
  proof (induction "is")
    case (Cons i "is")
    then show ?case by (cases "rends sens s r i") auto
  qed simp
  then show ?thesis by (simp add: leftmost_def del: upt_Suc)
qed

lemma searched_keeps: "keeps_rx x y \<Longrightarrow> searched y m r \<Longrightarrow> searched x m r"
  by (auto simp: searched_def intro: keeps_rx_trans)

lemma slots_keeps: "keeps_rx x y \<Longrightarrow> slots x \<Longrightarrow> slots y"
  by (auto simp: keeps_rx_def slots_def)

lemma match_from_searched:
  assumes "\<And>i x. i \<le> length s \<Longrightarrow> keeps_rx x0 x \<Longrightarrow> found x i (f i) (MatchTry n i x)"
    and st: "\<And>i. f i \<noteq> None \<Longrightarrow> m_start x0 = NUL \<or> char_at s i = m_start x0"
  shows "keeps_rx x0 x \<Longrightarrow> searched x (first_at f [i..<length s + 1]) (match_from n s i x)"
proof (induction "length s + 1 - i" arbitrary: i x)
  case 0
  then show ?case by (subst match_from.simps) (simp add: searched_def)
next
  case (Suc d)
  then have i: "i \<le> length s" by simp
  have s: "first_at f [i..<length s + 1] = (case f i of Some j \<Rightarrow> Some (i, j) | None \<Rightarrow> first_at f [i + 1..<length s + 1])"
    using i by (subst upt_conv_Cons) (simp_all del: upt_Suc cong del: option.case_cong_weak)
  have d: "d = length s + 1 - (i + 1)" using Suc.hyps(2) by simp
  have start: "m_start x = m_start x0" using Suc.prems by (simp add: keeps_rx_def)
  show ?case
  proof (cases "m_start x \<noteq> NUL \<and> char_at s i \<noteq> m_start x")
    case True
    then have "f i = None" using st start by (cases "f i") auto
    then have "searched x (first_at f [i..<length s + 1]) (match_from n s (i + 1) x)"
      unfolding s using Suc.hyps(1) [OF d Suc.prems] by simp
    then show ?thesis using True i by (subst match_from.simps) simp
  next
    case False
    obtain y where y: "MatchTry n i x = Done (f i \<noteq> None) y" "keeps_rx x y"
        "\<forall>j. f i = Some j \<longrightarrow> m_startp y ! 0 = Some i \<and> m_endp y ! 0 = Some j"
      using assms(1) [OF i Suc.prems] unfolding found_def by blast
    have m: "match_from n s i x = (if f i \<noteq> None then Done (i + 1) y else match_from n s (i + 1) y)"
      using False i y(1) by (subst match_from.simps) (auto simp del: match_from.simps)
    show ?thesis
    proof (cases "f i")
      case None
      have "searched y (first_at f [i + 1..<length s + 1]) (match_from n s (i + 1) y)"
        by (rule Suc.hyps(1) [OF d]) (rule keeps_rx_trans [OF Suc.prems y(2)])
      then show ?thesis unfolding m s using None searched_keeps [OF y(2)] by simp
    next
      case (Some j)
      then show ?thesis unfolding m s using y by (simp add: searched_def)
    qed
  qed
qed

lemma first_at_none: "first_at f is = None \<longleftrightarrow> (\<forall>i \<in> set is. f i = None)"
  by (induction "is") (auto split: option.splits)

lemma match_anchored_searched:
  assumes mt: "\<And>i x. i \<le> length s \<Longrightarrow> keeps_rx x0 x \<Longrightarrow> found x i (first_end sens s r i) (MatchTry n i x)"
    and wf: "wf_regex r" and start: "m_start x0 = start_char r" "m_anchor x0 = anchored r"
    and x0: "x0 = x\<lparr>m_input := s, m_subx_count := -1\<rparr>"
  shows "searched x0 (leftmost sens s r) (match_anchored n s x)"
proof (cases "anchored r")
  case True
  have "first_end sens s r i = None" if "0 < i" for i
    using that anchored_sound [OF True, of sens s i] by (cases "rends sens s r i") auto
  then have "first_at (first_end sens s r) [1..<length s + 1] = None"
    unfolding first_at_none set_upt by (intro ballI) simp
  moreover have "[0..<length s + 1] = 0 # [1..<length s + 1]" by (subst upt_conv_Cons) auto
  ultimately have l: "leftmost sens s r = (case first_end sens s r 0 of Some j \<Rightarrow> Some (0, j) | None \<Rightarrow> None)"
    unfolding leftmost_first_at by (simp only: first_at.simps)
  obtain y where "MatchTry n 0 x0 = Done (first_end sens s r 0 \<noteq> None) y" "keeps_rx x0 y"
      "\<forall>j. first_end sens s r 0 = Some j \<longrightarrow> m_startp y ! 0 = Some 0 \<and> m_endp y ! 0 = Some j"
    using mt [of 0 x0] unfolding found_def by auto
  then show ?thesis unfolding l
    using True start by (cases "first_end sens s r 0") (auto simp: match_anchored_def x0 searched_def)
next
  case False
  have "searched x0 (first_at (first_end sens s r) [0..<length s + 1]) (match_from n s 0 x0)"
  proof (rule match_from_searched [OF mt])
    fix i
    assume "first_end sens s r i \<noteq> None"
    then show "m_start x0 = NUL \<or> char_at s i = m_start x0"
      unfolding start by (intro start_char_sound [OF wf]) (auto simp: first_end_None)
  qed auto
  then show ?thesis unfolding leftmost_first_at using False start
    by (simp add: match_anchored_def x0 Let_def del: upt_Suc match_from.simps)
qed

lemma leftmost_None: "leftmost sens s r = None \<longleftrightarrow> (\<forall>i \<le> length s. rends sens s r i = [])"
  by (auto simp: leftmost_first_at first_at_none first_end_None less_Suc_eq_le simp del: upt_Suc)

lemma Match_searched:
  assumes x: "compiled_for r x" "slots x" and wf: "wf_regex r" "rgroups r \<le> 9" and len: "length (program r) < 65000"
    and sens: "m_sensitive x \<or> \<not> rspstart r"
  shows "\<exists>N. \<forall>n \<ge> N. \<exists>y. Match n (Some t) x = Done (case leftmost (m_sensitive x) (cstr t) r of None \<Rightarrow> 0 | Some (i, j) \<Rightarrow> i + 1) y
    \<and> compiled_for r y \<and> slots y \<and> m_sensitive y = m_sensitive x \<and> m_errmsg y = m_errmsg x
    \<and> (\<forall>i j. leftmost (m_sensitive x) (cstr t) r = Some (i, j) \<longrightarrow> m_startp y ! 0 = Some i \<and> m_endp y ! 0 = Some j)"
proof -
  let ?s = "cstr t" and ?c = "program r" and ?m = "m_sensitive x"
  let ?x0 = "x\<lparr>m_input := ?s, m_subx_count := -1\<rparr>" and ?l = "leftmost ?m ?s r"
  have s: "NUL \<notin> set ?s" by (rule cstr_no_NUL)
  have x': "m_code x = ?c" "m_code_size x \<noteq> 0" "m_start x = start_char r" "m_anchor x = anchored r"
    "must_ok (rlits r) ?c (m_must x) (m_must_len x)" "\<not> rspstart r \<longrightarrow> m_must x = None"
    using x(1) by (auto simp: compiled_for_def)
  have "\<exists>N. \<forall>n \<ge> N. \<forall>i \<in> {..length ?s}. \<forall>x. at_pos ?c ?m ?s i x \<longrightarrow> outcome x (first_end ?m ?s r i) (MatchX n (Some 1) x)"
    by (rule runs_uniform) (use program_runs [OF wf len s] in auto)
  then obtain N where N: "\<And>n i x. n \<ge> N \<Longrightarrow> i \<le> length ?s \<Longrightarrow> at_pos ?c ?m ?s i x \<Longrightarrow> outcome x (first_end ?m ?s r i) (MatchX n (Some 1) x)"
    by (metis atMost_iff)
  have "searched ?x0 ?l (Match n (Some t) x) \<or> (?l = None \<and> Match n (Some t) x = Done 0 x)" if n: "n \<ge> N" for n
  proof -
    have mt: "found z i (first_end ?m ?s r i) (MatchTry n i z)" if "i \<le> length ?s" "keeps_rx ?x0 z" for i z
      by (intro MatchTry_found N [OF n that(1)] slots_keeps [OF that(2)])
        (use x(2) x' that(2) in \<open>auto simp: slots_def at_pos_def keeps_rx_def\<close>)
    have a: "searched ?x0 ?l (match_anchored n ?s x)"
      by (rule match_anchored_searched [OF mt wf(1) _ _ refl]) (use x' in simp_all)
    have magic: "OP ?c 0 = MAGIC" "?c \<noteq> []" by (simp_all add: program_def OP_def)
    show ?thesis
    proof (cases "m_must x")
      case None
      then show ?thesis using a x' magic by (simp add: Match_def)
    next
      case (Some q)
      then have ss: "?m" using sens x'(6) by auto
      have q: "q < length ?c" using x'(5) Some by (auto simp: must_ok_def)
      show ?thesis
      proof (cases "has_must (take (m_must_len x) (drop q ?c)) ?s")
        case True
        then show ?thesis using a x' magic q Some by (simp add: Match_def)
      next
        case False
        then have "rends True ?s r i = []" for i using must_sound [OF wf(1), of q "m_must_len x" ?s i] x'(5) Some by auto
        then have "?l = None" using ss by (simp add: leftmost_None)
        then show ?thesis using False x' magic q Some by (simp add: Match_def)
      qed
    qed
  qed
  then show ?thesis
    using x unfolding searched_def
    by (intro exI [of _ N] allI impI) (fastforce simp: keeps_rx_def compiled_for_def slots_def)
qed

end
