(* ===== verification/RegxFacts.thy ===== *)
theory RegxFacts
  imports RegxSearch "HOL-Library.Code_Target_Nat"
begin

text \<open>
  What the regular expressions guarantee, and where they do not: a declarative meaning of patterns, the
  theorems on compiling and searching, and the patterns for which the code goes wrong.
\<close>

section \<open>The meaning of patterns\<close>

definition closure :: "bool \<Rightarrow> (nat \<times> nat) set \<Rightarrow> (nat \<times> nat) set" where
  "closure pos R = (if pos then R\<^sup>+ else R\<^sup>*)"

definition one :: "bool \<Rightarrow> bytes \<Rightarrow> single \<Rightarrow> (nat \<times> nat) set" where
  "one sens s d = {(i, j). j = i + 1 \<and> i < length s \<and> single_ok sens d (s ! i)}"

text \<open>Between which positions of a text a pattern matches.\<close>

primrec pmeans :: "bool \<Rightarrow> bytes \<Rightarrow> piece \<Rightarrow> (nat \<times> nat) set"
  and bmeans :: "bool \<Rightarrow> bytes \<Rightarrow> branch \<Rightarrow> (nat \<times> nat) set"
  and means :: "bool \<Rightarrow> bytes \<Rightarrow> regex \<Rightarrow> (nat \<times> nat) set" where
  "pmeans sens s (Lit cs) = {(i, j). j = i + length cs \<and> lit_here sens (map snd cs) (drop i s)}"
| "pmeans sens s (Assert a) = {(i, j). j = i \<and> assert_holds s a i}"
| "pmeans sens s (One d) = one sens s d"
| "pmeans sens s (Rep pos lazy d) = closure pos (one sens s d)"
| "pmeans sens s (Group r) = means sens s r"
| "pmeans sens s (Many pos r) = closure pos (means sens s r)"
| "pmeans sens s (Opt p) = pmeans sens s p \<union> Id"
| "bmeans sens s Empty = Id"
| "bmeans sens s (Seq p b) = pmeans sens s p O bmeans sens s b"
| "means sens s (Last b) = bmeans sens s b"
| "means sens s (Alt nl b r) = bmeans sens s b \<union> means sens s r"

definition lists :: "bytes \<Rightarrow> (nat \<Rightarrow> nat list) \<Rightarrow> (nat \<times> nat) set \<Rightarrow> bool" where
  "lists s f R \<longleftrightarrow> (\<forall>i \<le> length s. \<forall>j. j \<in> set (f i) \<longleftrightarrow> (i, j) \<in> R)"

lemma listsI: "(\<And>i j. i \<le> length s \<Longrightarrow> j \<in> set (f i) \<longleftrightarrow> (i, j) \<in> R) \<Longrightarrow> lists s f R"
  unfolding lists_def by blast

lemma listsD: "lists s f R \<Longrightarrow> i \<le> length s \<Longrightarrow> j \<in> set (f i) \<longleftrightarrow> (i, j) \<in> R"
  unfolding lists_def by blast

lemma many_closure:
  assumes w: "within s True f" and l: "lists s f R"
  shows "lists s (many f (length s)) (R\<^sup>*)"
proof (rule listsI)
  fix i j
  assume "i \<le> length s"
  then show "j \<in> set (many f (length s) i) \<longleftrightarrow> (i, j) \<in> R\<^sup>*"
  proof (induction "length s - i" arbitrary: i rule: less_induct)
    case less
    have "j \<in> set (many f (length s) i) \<longleftrightarrow> j = i \<or> (\<exists>k \<in> set (f i). j \<in> set (many f (length s) k))"
      using withinD [OF w less.prems] by (subst many.simps) auto
    also have "\<dots> \<longleftrightarrow> j = i \<or> (\<exists>k \<in> set (f i). (k, j) \<in> R\<^sup>*)"
    proof -
      have "j \<in> set (many f (length s) k) \<longleftrightarrow> (k, j) \<in> R\<^sup>*" if "k \<in> set (f i)" for k
        using withinD [OF w less.prems that] by (intro less.hyps) auto
      then show ?thesis by blast
    qed
    also have "\<dots> \<longleftrightarrow> j = i \<or> (\<exists>k. (i, k) \<in> R \<and> (k, j) \<in> R\<^sup>*)"
      using listsD [OF l less.prems] by blast
    also have "\<dots> \<longleftrightarrow> (i, j) \<in> R\<^sup>*" by (metis converse_rtranclE converse_rtrancl_into_rtrancl rtrancl.rtrancl_refl)
    finally show ?case .
  qed
qed

lemma bind_comp:
  assumes w: "within s v f" and f: "lists s f R" and g: "lists s g S"
  shows "lists s (\<lambda>i. concat (map g (f i))) (R O S)"
proof (rule listsI)
  fix i j
  assume i: "i \<le> length s"
  have "j \<in> set (concat (map g (f i))) \<longleftrightarrow> (\<exists>k \<in> set (f i). j \<in> set (g k))" by auto
  also have "\<dots> \<longleftrightarrow> (i, j) \<in> R O S"
    using listsD [OF f i] withinD [OF w i] listsD [OF g] by blast
  finally show "j \<in> set (concat (map g (f i))) \<longleftrightarrow> (i, j) \<in> R O S" .
qed

lemma one_steps: "(i, j) \<in> (one sens s d)\<^sup>* \<longleftrightarrow> i \<le> j \<and> (i < j \<longrightarrow> j \<le> length s) \<and> (\<forall>k. i \<le> k \<and> k < j \<longrightarrow> single_ok sens d (s ! k))"
proof
  assume "(i, j) \<in> (one sens s d)\<^sup>*"
  then show "i \<le> j \<and> (i < j \<longrightarrow> j \<le> length s) \<and> (\<forall>k. i \<le> k \<and> k < j \<longrightarrow> single_ok sens d (s ! k))"
    by (induction rule: rtrancl_induct) (auto simp: one_def less_Suc_eq)
next
  assume "i \<le> j \<and> (i < j \<longrightarrow> j \<le> length s) \<and> (\<forall>k. i \<le> k \<and> k < j \<longrightarrow> single_ok sens d (s ! k))"
  then show "(i, j) \<in> (one sens s d)\<^sup>*"
  proof (induction "j - i" arbitrary: i)
    case (Suc n)
    then have "(i, Suc i) \<in> one sens s d" by (auto simp: one_def)
    moreover have "(Suc i, j) \<in> (one sens s d)\<^sup>*" using Suc by (intro Suc.hyps(1)) auto
    ultimately show ?case by (rule converse_rtrancl_into_rtrancl)
  qed simp
qed

lemma take_steps: "i \<le> length s \<Longrightarrow> (i, j) \<in> (one sens s d)\<^sup>*
    \<longleftrightarrow> i \<le> j \<and> j \<le> i + length (takeWhile (single_ok sens d) (drop i s))"
proof -
  assume i: "i \<le> length s"
  let ?m = "length (takeWhile (single_ok sens d) (drop i s))"
  have m: "i + ?m \<le> length s" using length_takeWhile_le [of "single_ok sens d" "drop i s"] i by simp
  have in_: "single_ok sens d (s ! (i + k))" if "k < ?m" for k
    using takeWhile_nth [OF that] set_takeWhileD [of "takeWhile (single_ok sens d) (drop i s) ! k"] that m
    by (metis add.commute i nth_drop nth_mem)
  have out: "\<not> single_ok sens d (s ! (i + ?m))" if "i + ?m < length s"
    using nth_length_takeWhile [of "single_ok sens d" "drop i s"] that i by simp
  have "j \<le> i + ?m" if "i \<le> j" "i < j \<longrightarrow> j \<le> length s" "\<forall>k. i \<le> k \<and> k < j \<longrightarrow> single_ok sens d (s ! k)"
  proof (rule ccontr)
    assume j: "\<not> j \<le> i + ?m"
    then have "i + ?m < length s" "i \<le> i + ?m \<and> i + ?m < j" using that(2) by auto
    then show False using out that(3) by blast
  qed
  moreover have "single_ok sens d (s ! k)" if "j \<le> i + ?m" "i \<le> k \<and> k < j" for k
    using in_ [of "k - i"] that by (simp add: less_diff_conv2)
  ultimately show ?thesis unfolding one_steps using m by (meson le_trans)
qed

lemma rep_closure: "lists s (pends sens s (Rep pos lazy d)) (closure pos (one sens s d))"
proof (rule listsI)
  fix i j
  assume i: "i \<le> length s"
  have tr: "(i, j) \<in> (one sens s d)\<^sup>+ \<longleftrightarrow> i < j \<and> (i, j) \<in> (one sens s d)\<^sup>*"
  proof
    assume "(i, j) \<in> (one sens s d)\<^sup>+"
    then show "i < j \<and> (i, j) \<in> (one sens s d)\<^sup>*"
      by (induction rule: trancl_induct) (auto simp: one_def intro: rtrancl_into_rtrancl)
  qed (auto simp: rtrancl_eq_or_trancl)
  let ?m = "length (takeWhile (single_ok sens d) (drop i s))"
  have "j \<in> set (pends sens s (Rep pos lazy d) i) \<longleftrightarrow> j \<in> (+) i ` {if pos then 1 else 0..<?m + 1}"
    by (simp add: Let_def del: upt_Suc)
  also have "\<dots> \<longleftrightarrow> i + (if pos then 1 else 0) \<le> j \<and> j \<le> i + ?m"
    unfolding image_add_atLeastLessThan by auto
  finally show "j \<in> set (pends sens s (Rep pos lazy d) i) \<longleftrightarrow> (i, j) \<in> closure pos (one sens s d)"
    unfolding closure_def using take_steps [OF i] tr by (cases pos) auto
qed

lemma ends_means:
  "wf_piece p \<longrightarrow> lists s (pends sens s p) (pmeans sens s p)"
  "wf_branch b \<longrightarrow> lists s (bends sens s b) (bmeans sens s b)"
  "wf_regex r \<longrightarrow> lists s (rends sens s r) (means sens s r)"
proof (induction p and b and r rule: piece.induct branch.induct regex.induct)
  case (Rep pos lazy d)
  show ?case using rep_closure by simp
next
  case (Many pos r)
  show ?case
  proof (rule impI)
    assume "wf_piece (Many pos r)"
    then have w: "within s True (rends sens s r)" and l: "lists s (rends sens s r) (means sens s r)"
      using ends_within(3) [of r s sens] Many by simp_all
    note m = many_closure [OF w l]
    have "lists s (\<lambda>i. concat (map (many (rends sens s r) (length s)) (rends sens s r i))) ((means sens s r)\<^sup>+)"
      using bind_comp [OF w l m] trancl_unfold_left [of "means sens s r"] by simp
    then show "lists s (pends sens s (Many pos r)) (pmeans sens s (Many pos r))"
      using m by (cases pos) (simp_all add: closure_def)
  qed
next
  case (Seq p b)
  show ?case
  proof (rule impI)
    assume wf: "wf_branch (Seq p b)"
    then have w: "within s (width p) (pends sens s p)" using ends_within(1) [of p s sens] by simp
    show "lists s (bends sens s (Seq p b)) (bmeans sens s (Seq p b))"
      using bind_comp [OF w, of "pmeans sens s p" "bends sens s b" "bmeans sens s b"] Seq wf by simp
  qed
qed (auto simp: lists_def one_def)

section \<open>Compiling\<close>

text \<open>C8: Compiling the text of a well-formed pattern in a new object succeeds and leaves the program of the
pattern, with the notes of the optimiser and no message.\<close>

theorem Compile_program:
  assumes "wf_regex r" "rgroups r \<le> 34" "length (program r) \<le> 1793"
  shows "\<exists>y. Compile (Some (text_regex r)) new_rx = Done True y \<and> compiled_for r y \<and> m_errmsg y = None"
proof -
  have "length (program r) + 255 \<le> 2048" using assms(3) by simp
  from Compile_ok [OF assms(1,2) this, of new_rx] show ?thesis by (auto simp: new_rx_def)
qed

text \<open>The pattern \<^verbatim>\<open>(a|b)*c+?\<close>.\<close>

definition sample :: regex where
  "sample = Last (Seq (Many False (Alt False (Seq (Lit [(False, CHR ''a'')]) Empty) (Last (Seq (Lit [(False, CHR ''b'')]) Empty))))
     (Seq (Rep True True (Char (False, CHR ''c''))) Empty))"

lemma sample_facts: "wf_regex sample" "rgroups sample = 1" "length (program sample) = 49" "text_regex sample = ''(a|b)*c+?''"
  by (code_simp, code_simp, code_simp, simp add: sample_def)

lemma sample_small: "wf_regex sample" "rgroups sample \<le> 9" "length (program sample) < 65000"
  by (simp_all add: sample_facts)

theorem Compile_program_witness:
  "\<exists>y. Compile (Some ''(a|b)*c+?'') new_rx = Done True y \<and> compiled_for sample y \<and> m_errmsg y = None"
  using Compile_program [of sample] sample_facts by simp

section \<open>Searching\<close>

lemma slots_new: "m_startp y = m_startp new_rx \<Longrightarrow> m_endp y = m_endp new_rx \<Longrightarrow> slots y"
  by (simp add: slots_def new_rx_def MAX_SUBX_def)

text \<open>C4: On a compiled object, and with enough fuel, a search returns one more than the position of the
leftmost match, or 0 if there is none; the match that is reported is the first that backtracking
finds there. The object stays compiled, for further searches.\<close>

theorem Match_leftmost:
  assumes "compiled_for r x" "slots x" "wf_regex r" "rgroups r \<le> 9" "length (program r) < 65000"
    "m_sensitive x \<or> \<not> rspstart r"
  shows "\<exists>N. \<forall>n \<ge> N. \<exists>y. Match n (Some t) x = Done (case leftmost (m_sensitive x) (cstr t) r of None \<Rightarrow> 0 | Some (i, j) \<Rightarrow> i + 1) y
    \<and> compiled_for r y \<and> m_errmsg y = m_errmsg x
    \<and> (\<forall>i j. leftmost (m_sensitive x) (cstr t) r = Some (i, j) \<longrightarrow> m_startp y ! 0 = Some i \<and> m_endp y ! 0 = Some j)"
  using Match_searched [OF assms, of t] by blast

lemma sample_compiled: "\<exists>x. compiled_for sample x \<and> slots x \<and> m_sensitive x"
  using Compile_ok [of sample new_rx] sample_facts slots_new by (auto simp: new_rx_def)

theorem Match_leftmost_witness:
  "\<exists>x. compiled_for sample x \<and> (\<exists>N. \<forall>n \<ge> N. \<exists>y. Match n (Some ''xabcc'') x = Done 2 y \<and> m_startp y ! 0 = Some 1 \<and> m_endp y ! 0 = Some 4)"
proof -
  obtain x where x: "compiled_for sample x" "slots x" "m_sensitive x" using sample_compiled by blast
  have l: "leftmost True (cstr ''xabcc'') sample = Some (1, 4)" by code_simp
  obtain N where N: "\<And>n. n \<ge> N \<Longrightarrow> \<exists>y. Match n (Some ''xabcc'') x =
      Done (case leftmost (m_sensitive x) (cstr ''xabcc'') sample of None \<Rightarrow> 0 | Some (i, j) \<Rightarrow> i + 1) y
    \<and> compiled_for sample y \<and> m_errmsg y = m_errmsg x
    \<and> (\<forall>i j. leftmost (m_sensitive x) (cstr ''xabcc'') sample = Some (i, j) \<longrightarrow> m_startp y ! 0 = Some i \<and> m_endp y ! 0 = Some j)"
    using Match_leftmost [OF x(1,2), of "''xabcc''"] sample_small x(3) by blast
  have l: "leftmost (m_sensitive x) (cstr ''xabcc'') sample = Some (1, 4)" unfolding x(3) [THEN eqTrueI] by (rule l)
  have "\<exists>y. Match n (Some ''xabcc'') x = Done 2 y \<and> m_startp y ! 0 = Some 1 \<and> m_endp y ! 0 = Some 4" if "n \<ge> N" for n
    using N [OF that] unfolding l by auto
  then show ?thesis using x(1) by blast
qed

lemma first_at_first: "first_at f is = Some (i, j) \<Longrightarrow> f i = Some j \<and> i \<in> set is \<and> (sorted_wrt (<) is \<longrightarrow> (\<forall>k \<in> set is. k < i \<longrightarrow> f k = None))"
  by (induction "is") (auto split: option.splits)

text \<open>
  The result of a search against the meaning: it is positive just if the pattern matches somewhere; then
  a match is reported, and nothing matches from a position before it.
\<close>

definition reports :: "bool \<Rightarrow> bytes \<Rightarrow> regex \<Rightarrow> nat step \<Rightarrow> bool" where
  "reports sens s r res \<longleftrightarrow> (\<exists>k y. res = Done k y
    \<and> (k = 0 \<longleftrightarrow> (\<forall>i \<le> length s. \<forall>j. (i, j) \<notin> means sens s r))
    \<and> (k \<noteq> 0 \<longrightarrow> (\<exists>j. m_startp y ! 0 = Some (k - 1) \<and> m_endp y ! 0 = Some j \<and> (k - 1, j) \<in> means sens s r
        \<and> (\<forall>i < k - 1. \<forall>j. (i, j) \<notin> means sens s r))))"

text \<open>C2: From compiling to the result of a search: in a new object a pattern compiles, and with enough
fuel every search with it, whether or not case matters, returns a result that agrees with the meaning of
the pattern.\<close>

theorem Match_means:
  assumes "wf_regex r" "rgroups r \<le> 9" "length (program r) \<le> 1793" "sens \<or> \<not> rspstart r"
  shows "\<exists>x. Compile (Some (text_regex r)) new_rx = Done True x
    \<and> (\<exists>N. \<forall>n \<ge> N. reports sens (cstr t) r (Match n (Some t) (SetCase sens x)))"
proof -
  let ?s = "cstr t" and ?l = "leftmost sens (cstr t) r"
  have m: "j \<in> set (rends sens ?s r i) \<longleftrightarrow> (i, j) \<in> means sens ?s r" if "i \<le> length ?s" for i j
    using ends_means(3) assms(1) listsD that by blast
  obtain x where x: "Compile (Some (text_regex r)) new_rx = Done True x" "compiled_for r x" "slots x"
    using Compile_ok [OF assms(1), of new_rx] assms(2,3) slots_new by (auto simp: new_rx_def)
  have num_less: "(1793 :: nat) < 65000" by simp
  have y: "compiled_for r (SetCase sens x)" "slots (SetCase sens x)" "m_sensitive (SetCase sens x) = sens"
    using x by (simp_all add: SetCase_def compiled_for_def slots_def)
  obtain N where N: "\<forall>n \<ge> N. \<exists>y. Match n (Some t) (SetCase sens x) = Done (case ?l of None \<Rightarrow> 0 | Some (i, j) \<Rightarrow> i + 1) y
    \<and> (\<forall>i j. ?l = Some (i, j) \<longrightarrow> m_startp y ! 0 = Some i \<and> m_endp y ! 0 = Some j)"
    using Match_searched [OF y(1,2) assms(1,2), of t, unfolded y(3)] assms(3,4) by (meson le_less_trans num_less)
  have none: "?l = None \<longleftrightarrow> (\<forall>i \<le> length ?s. \<forall>j. (i, j) \<notin> means sens ?s r)"
    unfolding leftmost_None using m by (metis list.set_intros(1) neq_Nil_conv empty_iff list.set(1))
  have some: "(i, j) \<in> means sens ?s r \<and> i \<le> length ?s \<and> (\<forall>k < i. \<forall>j. (k, j) \<notin> means sens ?s r)" if l: "?l = Some (i, j)" for i j
  proof -
    have f: "first_end sens ?s r i = Some j" "i \<le> length ?s" "\<forall>k < i. first_end sens ?s r k = None"
      using first_at_first [OF l [unfolded leftmost_first_at]] by (auto simp: strict_sorted_iff simp del: upt_Suc)
    then have "j \<in> set (rends sens ?s r i)" by (cases "rends sens ?s r i") auto
    moreover have "(k, j') \<notin> means sens ?s r" if "k < i" for k j'
      using m [of k j'] f that by (simp add: first_end_None)
    ultimately show ?thesis using f(2) m by blast
  qed
  have "reports sens ?s r (Match n (Some t) (SetCase sens x))" if n: "n \<ge> N" for n
  proof (cases ?l)
    case None
    then have "\<exists>y. Match n (Some t) (SetCase sens x) = Done 0 y" using N n by auto
    then show ?thesis using None none unfolding reports_def by auto
  next
    case (Some ij)
    then obtain i j where l: "?l = Some (i, j)" by (cases ij) auto
    then have ex: "\<not> (\<forall>i \<le> length ?s. \<forall>j. (i, j) \<notin> means sens ?s r)" using none by simp
    obtain y where y: "Match n (Some t) (SetCase sens x) = Done (i + 1) y" "m_startp y ! 0 = Some i" "m_endp y ! 0 = Some j"
      using N n l by auto
    show ?thesis
      using y ex some [OF l] unfolding reports_def by (intro exI [of _ "i + 1"] exI [of _ y]) auto
  qed
  then show ?thesis using x(1) by blast
qed

theorem Match_means_witness:
  "\<exists>x N. Compile (Some ''(a|b)*c+?'') new_rx = Done True x \<and> (\<forall>n \<ge> N. \<exists>y. Match n (Some ''xab'') (SetCase True x) = Done 0 y)"
proof -
  have "leftmost True ''xab'' sample = None" by code_simp
  then have e: "rends True ''xab'' sample i = []" if "i \<le> length ''xab''" for i using that leftmost_None by blast
  have s: "cstr ''xab'' = ''xab''" by code_simp
  have n: "\<forall>i \<le> length (cstr ''xab''). \<forall>j. (i, j) \<notin> means True (cstr ''xab'') sample"
    unfolding s
  proof (intro allI impI)
    fix i j
    assume i: "i \<le> length ''xab''"
    show "(i, j) \<notin> means True ''xab'' sample"
      using listsD [OF ends_means(3) [rule_format, OF sample_small(1)] i, of j True] e [OF i] by simp
  qed
  have len: "length (program sample) \<le> 1793" by (simp add: sample_facts)
  obtain x N where x: "Compile (Some (text_regex sample)) new_rx = Done True x"
    and N: "\<And>n. n \<ge> N \<Longrightarrow> reports True (cstr ''xab'') sample (Match n (Some ''xab'') (SetCase True x))"
    using Match_means [OF sample_small(1,2) len, of True "''xab''"] by blast
  have "\<exists>y. Match n (Some ''xab'') (SetCase True x) = Done 0 y" if "n \<ge> N" for n
    using N [OF that] n unfolding reports_def by blast
  then show ?thesis using x sample_facts(4) by auto
qed

section \<open>Where it goes wrong\<close>

definition result_of :: "('a \<Rightarrow> rx \<Rightarrow> 'b) \<Rightarrow> 'a step \<Rightarrow> 'b option" where
  "result_of f r = (case r of Done a x \<Rightarrow> Some (f a x) | _ \<Rightarrow> None)"

definition object_of :: "'a step \<Rightarrow> rx" where
  "object_of r = (case r of Done a x \<Rightarrow> x | Refused x \<Rightarrow> x | _ \<Rightarrow> new_rx)"

definition compiled :: "bytes \<Rightarrow> bool \<Rightarrow> rx" where
  "compiled e sens = SetCase sens (object_of (Compile (Some e) new_rx))"

subsection \<open>The tenth group\<close>

text \<open>The part of the object that stays when a message may be set.\<close>

definition stays :: "rx \<Rightarrow> rx \<Rightarrow> bool" where
  "stays x y \<longleftrightarrow> m_code y = m_code x \<and> m_sensitive y = m_sensitive x \<and> m_start y = m_start x \<and> m_input y = m_input x"

definition never :: "bytes \<Rightarrow> bool \<Rightarrow> bytes \<Rightarrow> nat \<Rightarrow> nat \<Rightarrow> bool" where
  "never c sens s p i \<longleftrightarrow> (\<exists>N. \<forall>n \<ge> N. \<forall>x. at_pos c sens s i x \<longrightarrow> (\<exists>y. MatchX n (Some p) x = Done False y \<and> stays x y))"

lemma never_stop:
  assumes "\<And>n x. at_pos c sens s i x \<Longrightarrow> \<exists>y. match_node (MatchX n) n p x = Done False y \<and> stays x y"
  shows "never c sens s p i"
  unfolding never_def
proof (intro exI [of _ 1] allI impI)
  fix n :: nat and x
  assume "1 \<le> n" and x: "at_pos c sens s i x"
  then obtain m where "n = Suc m" by (cases n) auto
  then show "\<exists>y. MatchX n (Some p) x = Done False y \<and> stays x y" using assms [OF x] by simp
qed

lemma never_pass:
  assumes m: "\<And>n x. at_pos c sens s i x \<Longrightarrow> \<exists>y f. at_pos c sens s j y \<and> stays x y
      \<and> match_node (MatchX n) n p x = bind_step (MatchX n (Some q) y) f \<and> (\<forall>z. f False z = Done False z)"
    and q: "never c sens s q j"
  shows "never c sens s p i"
proof -
  obtain N where N: "\<And>n x. n \<ge> N \<Longrightarrow> at_pos c sens s j x \<Longrightarrow> \<exists>y. MatchX n (Some q) x = Done False y \<and> stays x y"
    using q unfolding never_def by blast
  show ?thesis
    unfolding never_def
  proof (intro exI [of _ "Suc N"] allI impI)
    fix n x
    assume "Suc N \<le> n" and x: "at_pos c sens s i x"
    then obtain k where k: "n = Suc k" "N \<le> k" by (cases n) auto
    obtain y f where y: "at_pos c sens s j y" "stays x y"
      "match_node (MatchX k) k p x = bind_step (MatchX k (Some q) y) f" "\<forall>z. f False z = Done False z"
      using m [OF x] by blast
    obtain z where "MatchX k (Some q) y = Done False z" "stays y z" using N [OF k(2) y(1)] by blast
    then show "\<exists>y. MatchX n (Some p) x = Done False y \<and> stays x y"
      using y k(1) by (auto simp: stays_def)
  qed
qed

lemma bind_Done: "bind_step r Done = r"
  by (cases r) auto

lemma never_group:
  assumes n: "1 \<le> n" "n \<le> 9"
    and c: "segment c a (node (OPEN + n) 3 @ node BRANCH 8 @ node EXACTLY 5 @ ([ch] @ [NUL]) @ node (CLOSE + n) 3)"
    and ch: "ch \<noteq> NUL" and q: "\<And>j. never c sens s (a + 14) j"
  shows "never c sens s a i"
proof -
  have c': "segment c (a + 3) (node BRANCH 8)" "segment c (a + 6) (node EXACTLY 5 @ [ch] @ [NUL])" "segment c (a + 11) (node (CLOSE + n) 3)"
    using c by (simp_all add: algebra_simps del: append.simps)
  have o: "has c a (OPEN + n) 3" and b: "has c (a + 3) BRANCH 8" and e: "has c (a + 6) EXACTLY 5" and l: "has c (a + 11) (CLOSE + n) 3"
    using c c' n by (auto intro!: hasI)
  have nx: "ParseNext c a = Some (a + 3)" "ParseNext c (a + 3) = Some (a + 11)" "ParseNext c (a + 6) = Some (a + 11)"
    "ParseNext c (a + 11) = Some (a + 14)"
    using hasD(3) [OF o] hasD(3) [OF b] hasD(3) [OF e] hasD(3) [OF l] n by (simp_all add: add.commute)
  note node = hasD(1,2) [OF o] hasD(1,2) [OF b] hasD(1,2) [OF e] hasD(1,2) [OF l] nx
  have opnd: "opnd c (a + 6) = [ch]" "opnd_ok c (a + 6)" using segment_opnd [of c "a + 6" EXACTLY 5 "[ch]"] c'(2) ch by auto
  have 4: "never c sens s (a + 11) j" for j
  proof (rule never_pass [OF _ q])
    fix m x
    assume x: "at_pos c sens s j x"
    let ?f = "\<lambda>b x. if b then Done True (if m_endp x ! n = None then x\<lparr>m_endp := (m_endp x)[n := Some j]\<rparr> else x)
      else Done False x"
    have "match_node (MatchX m) m (a + 11) x = bind_step (MatchX m (Some (a + 14)) x) ?f"
      using n node by (simp add: match_node_def Let_def at_posD [OF x] del: MatchX.simps)
    then show "\<exists>y f. at_pos c sens s j y \<and> stays x y
      \<and> match_node (MatchX m) m (a + 11) x = bind_step (MatchX m (Some (a + 14)) y) f \<and> (\<forall>z. f False z = Done False z)"
      using x by (intro exI [of _ x] exI [of _ ?f]) (simp add: stays_def)
  qed
  have 3: "never c sens s (a + 6) i" for i
  proof (cases "lit_here sens [ch] (drop i s)")
    case True
    show ?thesis
    proof (rule never_pass [OF _ 4 [of "i + 1"]])
      fix m x
      assume x: "at_pos c sens s i x"
      have "match_node (MatchX m) m (a + 6) x = bind_step (MatchX m (Some (a + 11)) (x\<lparr>m_input_ptr := i + 1\<rparr>)) Done"
        using True node opnd unfolding bind_Done by (simp add: match_node_def Let_def at_posD [OF x] del: MatchX.simps)
      then show "\<exists>y f. at_pos c sens s (i + 1) y \<and> stays x y
        \<and> match_node (MatchX m) m (a + 6) x = bind_step (MatchX m (Some (a + 11)) y) f \<and> (\<forall>z. f False z = Done False z)"
        using x by (intro exI [of _ "x\<lparr>m_input_ptr := i + 1\<rparr>"] exI [of _ Done]) (auto simp: stays_def at_pos_def)
    qed
  next
    case False
    show ?thesis
      by (rule never_stop) (use False node opnd in \<open>simp add: match_node_def Let_def at_posD stays_def\<close>)
  qed
  have 2: "never c sens s (a + 3) i"
  proof (rule never_pass [OF _ 3 [of i]])
    fix m x
    assume x: "at_pos c sens s i x"
    have "match_node (MatchX m) m (a + 3) x = bind_step (MatchX m (Some (a + 6)) x) Done"
      using node l n unfolding bind_Done
      by (simp add: match_node_def Let_def at_posD [OF x] next_ok_def has_def node_ok_def add.commute del: MatchX.simps)
    then show "\<exists>y f. at_pos c sens s i y \<and> stays x y
      \<and> match_node (MatchX m) m (a + 3) x = bind_step (MatchX m (Some (a + 6)) y) f \<and> (\<forall>z. f False z = Done False z)"
      using x by (intro exI [of _ x] exI [of _ Done]) (auto simp: stays_def)
  qed
  show ?thesis
  proof (rule never_pass [OF _ 2])
    fix m x
    assume x: "at_pos c sens s i x"
    let ?y = "if int n > m_subx_count x
      then x\<lparr>m_subx_count := int n, m_startp := (m_startp x)[n := None], m_endp := (m_endp x)[n := None]\<rparr> else x"
    let ?f = "\<lambda>b x. if b then Done True (x\<lparr>m_startp := (m_startp x)[n := Some i]\<rparr>) else Done False x"
    have "match_node (MatchX m) m a x = bind_step (MatchX m (Some (a + 3)) ?y) ?f"
      using n node by (simp add: match_node_def Let_def at_posD [OF x] del: MatchX.simps)
    then show "\<exists>y f. at_pos c sens s i y \<and> stays x y
      \<and> match_node (MatchX m) m a x = bind_step (MatchX m (Some (a + 3)) y) f \<and> (\<forall>z. f False z = Done False z)"
      using x by (intro exI [of _ ?y] exI [of _ ?f]) (simp add: at_pos_def stays_def)
  qed
qed

primrec as_groups :: "nat \<Rightarrow> branch" where
  "as_groups 0 = Empty"
| "as_groups (Suc m) = Seq (Group (Last (Seq (Lit [(False, CHR ''a'')]) Empty))) (as_groups m)"

lemma never_tenth:
  assumes "segment c a (bcode n k (as_groups m))" "1 \<le> n" "n \<le> 10" "10 < n + m" "0 < k" "k < 65536"
  shows "never c sens s a i"
  using assms
proof (induction m arbitrary: n a i)
  case (Suc m)
  let ?g = "Group (Last (Seq (Lit [(False, CHR ''a'')]) Empty))"
  have g: "pcode n j ?g = node (OPEN + n) 3 @ node BRANCH 8 @ node EXACTLY 5 @ ([CHR ''a''] @ [NUL]) @ node (CLOSE + n) j" for j
    by (simp add: bcode_Seq blen_Seq)
  show ?case
  proof (cases "n = 10")
    case True
    have "segment c a (node 30 3)" using Suc.prems(1) by (auto simp: bcode_Seq True g [unfolded True] simp del: pcode.simps split: if_splits)
    then have h: "has c a 30 3" by (intro hasI) auto
    show ?thesis
      by (rule never_stop) (simp add: match_node_def Let_def at_posD hasD(1,2) [OF h] SetError_def stays_def)
  next
    case False
    then have m: "as_groups m \<noteq> Empty" using Suc.prems by (cases m) auto
    have c: "segment c a (pcode n 3 ?g)" "segment c (a + 14) (bcode (n + 1) k (as_groups m))"
      using Suc.prems(1) m by (simp_all add: bcode_Seq blen_Seq del: pcode.simps)
    show ?thesis
      by (rule never_group) (use Suc False c g in \<open>auto simp del: pcode.simps\<close>)
  qed
qed simp

lemma never_branch:
  assumes b: "has c p BRANCH k" and q: "good c (p + k)" "OP c (p + k) \<noteq> BRANCH" and r: "never c sens s (p + 3) i"
  shows "never c sens s p i"
proof (rule never_pass [OF _ r])
  fix m x
  assume x: "at_pos c sens s i x"
  have "match_node (MatchX m) m p x = bind_step (MatchX m (Some (p + 3)) x) Done"
    using hasD(1,2) [OF b] hasD(3) [OF b] q(2) good_next [OF q(1)] unfolding bind_Done
    by (simp add: match_node_def Let_def at_posD [OF x] del: MatchX.simps)
  then show "\<exists>y f. at_pos c sens s i y \<and> stays x y
    \<and> match_node (MatchX m) m p x = bind_step (MatchX m (Some (p + 3)) y) f \<and> (\<forall>z. f False z = Done False z)"
    using x by (intro exI [of _ x] exI [of _ Done]) (simp add: stays_def)
qed

lemma match_from_never:
  assumes "\<And>i x. i \<le> length s \<Longrightarrow> stays x0 x \<Longrightarrow> \<exists>y. MatchTry n i x = Done False y \<and> stays x0 y"
  shows "stays x0 x \<Longrightarrow> \<exists>y. match_from n s i x = Done 0 y"
proof (induction "length s + 1 - i" arbitrary: i x)
  case 0
  then show ?case by (subst match_from.simps) simp
next
  case (Suc d)
  have d: "d = length s + 1 - (i + 1)" using Suc.hyps(2) by simp
  have i: "i \<le> length s" using Suc.hyps(2) by simp
  obtain y where y: "MatchTry n i x = Done False y" "stays x0 y" using assms [OF i Suc.prems] by blast
  have "\<exists>z. match_from n s (i + 1) x = Done 0 z" "\<exists>z. match_from n s (i + 1) y = Done 0 z"
    using Suc.hyps(1) [OF d] Suc.prems y(2) by blast+
  then show ?case using i y(1) by (subst match_from.simps) (simp del: match_from.simps)
qed

definition ten_groups :: regex where
  "ten_groups = Last (as_groups 10)"

lemma ten_facts:
  "wf_regex ten_groups" "rgroups ten_groups \<le> 34" "length (program ten_groups) = 147"
  "text_regex ten_groups = concat (replicate 10 ''(a)'')" "\<not> rspstart ten_groups" "\<not> anchored ten_groups" "start_char ten_groups = NUL"
  by (simp_all add: ten_groups_def numeral_eq_Suc length_program bcode_Seq blen_Seq ordinary_def magic_char_def ISMULT_def)

lemma ten_never:
  assumes s: "i \<le> length s"
  shows "never (program ten_groups) sens s 1 i"
proof -
  let ?c = "program ten_groups" and ?b = "as_groups 10"
  have c: "segment ?c 1 (rcode 1 True (rlen ten_groups - rlast ten_groups) ten_groups @ node END 0)"
    unfolding segment_def program_def by (intro exI [of _ "[char_of MAGIC]"] exI [of _ "[]"]) simp
  have bl: "blen ?b = 140" "blast ?b = 137" by (simp_all add: numeral_eq_Suc bcode_Seq blen_Seq)
  have c': "segment ?c 1 (node BRANCH 143)" "segment ?c 4 (bcode 1 3 ?b)" "segment ?c 144 (node END 0)"
    using c bl by (simp_all add: ten_groups_def del: as_groups.simps)
  have h: "has ?c 1 BRANCH 143" using c'(1) by (intro hasI) auto
  have "never ?c sens s 4 i" by (rule never_tenth [OF c'(2)]) auto
  then show ?thesis
    by (intro never_branch [OF h]) (use c'(3) in \<open>auto simp: segment_def good_def node_ok_node\<close>)
qed

text \<open>C36: Ten groups compile, as up to 34 do, but the matcher knows only nine: a search for \<^verbatim>\<open>(a)\<close> ten times
finds nothing in any text, even where the pattern matches.\<close>

theorem tenth_group:
  "\<exists>x. Compile (Some (concat (replicate 10 ''(a)''))) new_rx = Done True x
   \<and> (\<forall>t. \<exists>N. \<forall>n \<ge> N. \<exists>y. Match n (Some t) x = Done 0 y)
   \<and> leftmost True (replicate 10 (CHR ''a'')) ten_groups = Some (0, 10)"
proof -
  obtain x where x: "Compile (Some (text_regex ten_groups)) new_rx = Done True x" "compiled_for ten_groups x"
    using Compile_program [OF ten_facts(1,2)] ten_facts(3) by auto
  have "\<exists>N. \<forall>n \<ge> N. \<exists>y. Match n (Some t) x = Done 0 y" for t
  proof -
    let ?s = "cstr t" and ?c = "program ten_groups"
    let ?x0 = "x\<lparr>m_input := ?s, m_subx_count := -1\<rparr>"
    have "\<forall>i \<in> {..length ?s}. \<exists>N. \<forall>n \<ge> N. \<forall>x. at_pos ?c (m_sensitive ?x0) ?s i x
        \<longrightarrow> (\<exists>y. MatchX n (Some 1) x = Done False y \<and> stays x y)"
      using ten_never unfolding never_def by blast
    then obtain M where M: "\<And>i n x. i \<le> length ?s \<Longrightarrow> n \<ge> M i \<Longrightarrow> at_pos ?c (m_sensitive ?x0) ?s i x
        \<Longrightarrow> \<exists>y. MatchX n (Some 1) x = Done False y \<and> stays x y"
      by (metis atMost_iff)
    define N where "N = Max (M ` {..length ?s})"
    have N: "M i \<le> N" if "i \<le> length ?s" for i unfolding N_def using that by (intro Max_ge) auto
    have "\<exists>y. Match n (Some t) x = Done 0 y" if n: "n \<ge> N" for n
    proof -
      have "\<exists>y. match_from n ?s 0 ?x0 = Done 0 y"
      proof (rule match_from_never [where x0 = ?x0])
        fix i z
        assume i: "i \<le> length ?s" and z: "stays ?x0 z"
        have "at_pos ?c (m_sensitive ?x0) ?s i (z\<lparr>m_input_ptr := i, m_subx_count := 0\<rparr>)"
          using z x(2) by (simp add: at_pos_def stays_def compiled_for_def)
        then obtain y where "MatchX n (Some 1) (z\<lparr>m_input_ptr := i, m_subx_count := 0\<rparr>) = Done False y"
          "stays (z\<lparr>m_input_ptr := i, m_subx_count := 0\<rparr>) y"
          using M [OF i] N [OF i] n by (meson le_trans)
        then show "\<exists>y. MatchTry n i z = Done False y \<and> stays ?x0 y"
          using z by (simp add: MatchTry_def stays_def)
      qed (simp add: stays_def)
      moreover have "OP (m_code x) 0 = MAGIC" "m_code x \<noteq> []" "m_code_size x \<noteq> 0" "m_must x = None" "\<not> m_anchor x"
        using x(2) ten_facts by (auto simp: compiled_for_def program_def OP_def)
      ultimately show ?thesis by (simp add: Match_def match_anchored_def Let_def del: match_from.simps)
    qed
    then show ?thesis by blast
  qed
  moreover have "leftmost True (replicate 10 (CHR ''a'')) ten_groups = Some (0, 10)" by code_simp
  ultimately show ?thesis using x(1) unfolding ten_facts(4) by blast
qed

theorem tenth_group_witness:
  "\<exists>x N. Compile (Some (concat (replicate 10 ''(a)''))) new_rx = Done True x
   \<and> (\<exists>y. Match N (Some (replicate 10 (CHR ''a''))) x = Done 0 y)"
  using tenth_group by blast

text \<open>Without case the first character of a literal, and a literal that must occur, still have to be found
exactly: \<^verbatim>\<open>abc\<close> finds \<^verbatim>\<open>aBC\<close> but not \<^verbatim>\<open>ABC\<close>, and \<^verbatim>\<open>z*bcd\<close> does not find \<^verbatim>\<open>bCD\<close>, which \<^verbatim>\<open>bcd\<close> finds.\<close>

theorem case_matters:
  "result_of (\<lambda>k x. k) (Match 40 (Some ''aBC'') (compiled ''abc'' False)) = Some 1
   \<and> result_of (\<lambda>k x. k) (Match 40 (Some ''ABC'') (compiled ''abc'' False)) = Some 0
   \<and> result_of (\<lambda>k x. k) (Match 40 (Some ''bCD'') (compiled ''z*bcd'' False)) = Some 0
   \<and> result_of (\<lambda>k x. k) (Match 40 (Some ''bCD'') (compiled ''bcd'' False)) = Some 1"
  by (intro conjI) code_simp+

text \<open>The group of an alternative that is not tried keeps what an earlier search found in another text:
after \<^verbatim>\<open>xxxxa\<close>, a search for \<^verbatim>\<open>x(a)|y(b)\<close> in \<^verbatim>\<open>yb\<close> reports positions 4 to 5 for the first group.\<close>

theorem stale_group:
  "result_of (\<lambda>k x. (k, GetMatchInfo 1 x, GetMatchInfo 2 x))
     (Match 40 (Some ''yb'') (object_of (Match 40 (Some ''xxxxa'') (compiled ''x(a)|y(b)'' True))))
    = Some (1, Some (4, Some 5), Some (1, Some 2))"
  by code_simp

end
