(* ===== verification/PriQueue.thy ===== *)
theory PriQueue
  imports Prelude
begin

text \<open>
  The priority queue of \<^verbatim>\<open>qpriq.h\<close> (template \<^verbatim>\<open>qPriQ\<close>): a binary heap in an array, the greatest key at
  index 1. \<^verbatim>\<open>pq_p\<close> are the elements \<^verbatim>\<open>p[1]\<close> to \<^verbatim>\<open>p[N]\<close>; \<^verbatim>\<open>p[0]\<close> holds the sentinel \<^verbatim>\<open>compMAX\<close> while an element
  moves up. An operation is \<^const>\<open>None\<close> where an assertion fails, a loop does not end or a cell is read
  that was never written.
\<close>

section \<open>The queue\<close>

record ('c, 's) posType =
  pc :: 'c
  ps :: 's

record ('c, 's) qPriQ =
  pq_p :: "('c, 's) posType list"
  pq_Max :: nat
  compMAX :: 'c

abbreviation pq_N :: "('c, 's) qPriQ \<Rightarrow> nat" where
  "pq_N q \<equiv> length (pq_p q)"

definition cell :: "'a list \<Rightarrow> nat \<Rightarrow> 'a" where
  "cell p k = p ! (k - 1)"

definition set_cell :: "'a list \<Rightarrow> nat \<Rightarrow> 'a \<Rightarrow> 'a list" where
  "set_cell p k v = p[k - 1 := v]"

definition minGrow :: nat where "minGrow = 4"

definition new_qPriQ :: "'c \<Rightarrow> nat \<Rightarrow> ('c, 's) qPriQ" where
  "new_qPriQ mComp mElem = \<lparr>pq_p = [], pq_Max = mElem, compMAX = mComp\<rparr>"

definition pq_empty :: "('c, 's) qPriQ \<Rightarrow> bool" where
  "pq_empty q \<longleftrightarrow> pq_N q \<le> 0"

definition pq_clear :: "('c, 's) qPriQ \<Rightarrow> ('c, 's) qPriQ" where
  "pq_clear q = q\<lparr>pq_p := [], pq_Max := 0\<rparr>"

definition pq_grow :: "nat \<Rightarrow> ('c, 's) qPriQ \<Rightarrow> ('c, 's) qPriQ" where
  "pq_grow newMax q = q\<lparr>pq_Max := newMax\<rparr>"

definition pq_assign :: "('c, 's) qPriQ \<Rightarrow> ('c, 's) qPriQ \<Rightarrow> ('c, 's) qPriQ" where
  "pq_assign from_q q =
    (let q = pq_grow (pq_N from_q + 1) (pq_clear q)
     in q\<lparr>pq_p := pq_p from_q, pq_Max := pq_N from_q, compMAX := compMAX from_q\<rparr>)"

text \<open>The loop of \<^verbatim>\<open>upheap\<close>: \<^verbatim>\<open>v\<close> is to go to \<^verbatim>\<open>k\<close> or further up. It would not end at index 0.\<close>

fun upheap_loop :: "'c::linorder \<Rightarrow> ('c, 's) posType \<Rightarrow> ('c, 's) posType list \<Rightarrow> nat \<Rightarrow> ('c, 's) posType list option" where
  "upheap_loop mx v p k =
    (if k \<le> 1 then if mx \<le> pc v then None else Some (set_cell p k v)
     else if pc (cell p (k div 2)) \<le> pc v then upheap_loop mx v (set_cell p k (cell p (k div 2))) (k div 2)
     else Some (set_cell p k v))"

definition upheap :: "nat \<Rightarrow> ('c::linorder, 's) qPriQ \<Rightarrow> ('c, 's) qPriQ option" where
  "upheap k q = map_option (\<lambda>p. q\<lparr>pq_p := p\<rparr>) (upheap_loop (compMAX q) (cell (pq_p q) k) (pq_p q) k)"

definition pq_insert :: "'c::linorder \<Rightarrow> 's \<Rightarrow> ('c, 's) qPriQ \<Rightarrow> ('c, 's) qPriQ option" where
  "pq_insert c x q =
    (if \<not> c < compMAX q then None
     else
       let q = (if pq_N q \<ge> pq_Max q then pq_grow (if pq_Max q < minGrow then minGrow else pq_Max q * 2) q else q)
       in upheap (pq_N q + 1) (q\<lparr>pq_p := pq_p q @ [\<lparr>pc = c, ps = x\<rparr>]\<rparr>))"

function downheap_loop :: "('c::linorder, 's) posType \<Rightarrow> ('c, 's) posType list \<Rightarrow> nat \<Rightarrow> ('c, 's) posType list" where
  "downheap_loop v p k =
    (if 0 < k \<and> k \<le> length p div 2 then
       let j = k + k; j = (if j < length p \<and> pc (cell p j) < pc (cell p (j + 1)) then j + 1 else j) in
       if pc v \<ge> pc (cell p j) then set_cell p k v
       else downheap_loop v (set_cell p k (cell p j)) j
     else set_cell p k v)"
  by pat_completeness auto
termination by (relation "measure (\<lambda>(v, p, k). length p - k)") (auto simp: set_cell_def split: if_splits)

definition downheap :: "nat \<Rightarrow> ('c::linorder, 's) qPriQ \<Rightarrow> ('c, 's) qPriQ" where
  "downheap k q = q\<lparr>pq_p := downheap_loop (cell (pq_p q) k) (pq_p q) k\<rparr>"

text \<open>The last element takes the place of the removed one and moves down from there.\<close>

definition pq_remove :: "nat \<Rightarrow> ('c::linorder, 's) qPriQ \<Rightarrow> ('s \<times> ('c, 's) qPriQ) option" where
  "pq_remove i q =
    (if 1 \<le> i \<and> i \<le> pq_N q then
       let v = cell (pq_p q) i;
           q = q\<lparr>pq_p := butlast (set_cell (pq_p q) i (last (pq_p q)))\<rparr>
       in Some (ps v, if i \<le> pq_N q then downheap i q else q)
     else None)"

definition pq_peek :: "('c, 's) qPriQ \<Rightarrow> 's option" where
  "pq_peek q = (if 1 \<le> pq_N q then Some (ps (cell (pq_p q) 1)) else None)"

definition getnext :: "nat \<Rightarrow> ('c, 's) qPriQ \<Rightarrow> ('c \<times> 's) option" where
  "getnext i q = (if i \<le> pq_N q then Some (pc (cell (pq_p q) i), ps (cell (pq_p q) i)) else None)"

declare upheap_loop.simps [simp del] downheap_loop.simps [simp del]

section \<open>The heap property\<close>

text \<open>\<^verbatim>\<open>heap_but p j\<close>: no key is greater than that of its parent, but for the element at \<^verbatim>\<open>j\<close>.\<close>

definition heap_but :: "nat \<Rightarrow> ('c::linorder, 's) posType list \<Rightarrow> bool" where
  "heap_but j p \<longleftrightarrow> (\<forall>k. 2 \<le> k \<and> k \<le> length p \<and> k \<noteq> j \<longrightarrow> pc (cell p k) \<le> pc (cell p (k div 2)))"

abbreviation heap :: "('c::linorder, 's) posType list \<Rightarrow> bool" where
  "heap \<equiv> heap_but 0"

definition pq_ok :: "('c::linorder, 's) qPriQ \<Rightarrow> bool" where
  "pq_ok q \<longleftrightarrow> heap (pq_p q) \<and> pq_N q \<le> pq_Max q \<and> (\<forall>e \<in> set (pq_p q). pc e < compMAX q)"

lemma cell_set [simp]:
  "1 \<le> k \<Longrightarrow> k \<le> length p \<Longrightarrow> cell (set_cell p k v) k = v"
  "1 \<le> k \<Longrightarrow> 1 \<le> j \<Longrightarrow> j \<noteq> k \<Longrightarrow> cell (set_cell p k v) j = cell p j"
  by (auto simp: cell_def set_cell_def nth_list_update)

lemma length_set_cell [simp]: "length (set_cell p k v) = length p"
  by (simp add: set_cell_def)

lemma mset_set_cell: "1 \<le> k \<Longrightarrow> k \<le> length p \<Longrightarrow> mset (set_cell p k v) + {#cell p k#} = mset p + {#v#}"
  by (simp add: set_cell_def cell_def mset_update)

section \<open>Moving up\<close>

text \<open>
  The heap with a hole at \<^verbatim>\<open>k\<close>: all links that do not touch the hole are in order, and the children of
  the hole are no greater than its parent.
\<close>

definition hole :: "('c::linorder, 's) posType list \<Rightarrow> nat \<Rightarrow> bool" where
  "hole p k \<longleftrightarrow> 1 \<le> k \<and> k \<le> length p
    \<and> (\<forall>j. 2 \<le> j \<longrightarrow> j \<le> length p \<longrightarrow> j \<noteq> k \<longrightarrow> j div 2 \<noteq> k \<longrightarrow> pc (cell p j) \<le> pc (cell p (j div 2)))
    \<and> (\<forall>j. 2 \<le> k \<longrightarrow> j \<le> length p \<longrightarrow> j div 2 = k \<longrightarrow> pc (cell p j) \<le> pc (cell p (k div 2)))"

lemma holeD:
  assumes "hole p k"
  shows "1 \<le> k" "k \<le> length p"
    "2 \<le> j \<Longrightarrow> j \<le> length p \<Longrightarrow> j \<noteq> k \<Longrightarrow> j div 2 \<noteq> k \<Longrightarrow> pc (cell p j) \<le> pc (cell p (j div 2))"
    "2 \<le> k \<Longrightarrow> j \<le> length p \<Longrightarrow> j div 2 = k \<Longrightarrow> pc (cell p j) \<le> pc (cell p (k div 2))"
  using assms unfolding hole_def by auto

text \<open>Filling the hole.\<close>

lemma heap_fill:
  assumes h: "hole p k" and up: "2 \<le> k \<Longrightarrow> pc v \<le> pc (cell p (k div 2))"
    and down: "\<And>j. j \<le> length p \<Longrightarrow> j div 2 = k \<Longrightarrow> pc (cell p j) \<le> pc v"
  shows "heap (set_cell p k v)"
  unfolding heap_but_def
proof (intro allI impI)
  fix j
  assume j: "2 \<le> j \<and> j \<le> length (set_cell p k v) \<and> j \<noteq> 0"
  note k = holeD(1,2) [OF h]
  have j': "j div 2 \<noteq> j" "1 \<le> j div 2" "1 \<le> j" using j by auto
  show "pc (cell (set_cell p k v) j) \<le> pc (cell (set_cell p k v) (j div 2))"
  proof (cases "j = k")
    case True
    then show ?thesis using up j j' k by simp
  next
    case False
    then show ?thesis using down [of j] holeD(3) [OF h, of j] j j' k by (cases "j div 2 = k") auto
  qed
qed

text \<open>Moving the hole to the parent or to the greater child.\<close>

lemma hole_up:
  assumes h: "hole p k" and k: "2 \<le> k"
  shows "hole (set_cell p k (cell p (k div 2))) (k div 2)"
proof -
  let ?h = "k div 2" and ?p = "set_cell p k (cell p (k div 2))"
  note kl = holeD(1,2) [OF h]
  have hk: "?h \<noteq> k" "1 \<le> ?h" "?h \<le> length p" "?h div 2 \<noteq> k" using k kl(2) by auto
  have links: "pc (cell ?p j) \<le> pc (cell ?p (j div 2))" if "2 \<le> j" "j \<le> length p" "j \<noteq> ?h" "j div 2 \<noteq> ?h" for j
  proof -
    have j: "j \<noteq> k" "1 \<le> j div 2" "1 \<le> j" using that by auto
    then show ?thesis using holeD(3) [OF h that(1,2)] holeD(4) [OF h k that(2)] kl by (cases "j div 2 = k") auto
  qed
  have parent: "pc (cell p ?h) \<le> pc (cell p (?h div 2))" if "2 \<le> ?h"
    using holeD(3) [OF h that hk(3)] hk by auto
  have kids: "pc (cell ?p j) \<le> pc (cell ?p (?h div 2))" if "2 \<le> ?h" "j \<le> length p" "j div 2 = ?h" for j
  proof -
    have j: "2 \<le> j" "1 \<le> ?h div 2" using that by auto
    show ?thesis
    proof (cases "j = k")
      case True
      then show ?thesis using parent [OF that(1)] kl hk j by simp
    next
      case False
      then have "pc (cell p j) \<le> pc (cell p ?h)" using holeD(3) [OF h j(1) that(2)] that(3) hk by auto
      then show ?thesis using parent [OF that(1)] False kl hk j by (auto intro: order_trans)
    qed
  qed
  show ?thesis unfolding hole_def using hk(2,3) links kids by simp
qed

lemma hole_down:
  assumes h: "hole p k" and j: "j div 2 = k" "j \<le> length p"
    and other: "\<And>i. i \<le> length p \<Longrightarrow> i div 2 = k \<Longrightarrow> pc (cell p i) \<le> pc (cell p j)"
  shows "hole (set_cell p k (cell p j)) j"
proof -
  let ?p = "set_cell p k (cell p j)"
  note kl = holeD(1,2) [OF h]
  have jk: "j \<noteq> k" "2 \<le> j" "1 \<le> j" using j kl by auto
  have links: "pc (cell ?p i) \<le> pc (cell ?p (i div 2))" if "2 \<le> i" "i \<le> length p" "i \<noteq> j" "i div 2 \<noteq> j" for i
  proof -
    have i: "1 \<le> i div 2" "1 \<le> i" using that by auto
    consider "i = k" | "i \<noteq> k" "i div 2 = k" | "i \<noteq> k" "i div 2 \<noteq> k" by blast
    then show ?thesis
    proof cases
      case 1
      then have "k div 2 \<noteq> k" using that(1) by auto
      then show ?thesis using 1 holeD(4) [OF h _ j(2,1)] that(1) kl i by simp
    next
      case 2
      then show ?thesis using other [OF that(2)] kl i by simp
    next
      case 3
      then show ?thesis using holeD(3) [OF h that(1,2)] kl i by simp
    qed
  qed
  have kids: "pc (cell ?p i) \<le> pc (cell ?p (j div 2))" if "i \<le> length p" "i div 2 = j" for i
  proof -
    have i: "2 \<le> i" "i \<noteq> k" "i div 2 \<noteq> k" using that jk j by auto
    then show ?thesis using holeD(3) [OF h i(1) that(1)] kl j that(2) by simp
  qed
  show ?thesis unfolding hole_def using jk j links kids by simp
qed

lemma mset_move:
  assumes "1 \<le> k" "k \<le> length p" "1 \<le> j" "j \<noteq> k"
    and "mset p' + {#cell (set_cell p k (cell p j)) j#} = mset (set_cell p k (cell p j)) + {#v#}"
  shows "mset p' + {#cell p k#} = mset p + {#v#}"
proof -
  have "mset p' + {#cell p j#} + {#cell p k#} = mset (set_cell p k (cell p j)) + {#cell p k#} + {#v#}"
    using assms by (simp add: ac_simps)
  also have "\<dots> = mset p + {#v#} + {#cell p j#}" by (simp only: mset_set_cell [OF assms(1,2)]) (simp add: ac_simps)
  finally have "(mset p' + {#cell p k#}) + {#cell p j#} = (mset p + {#v#}) + {#cell p j#}" by (simp add: ac_simps)
  then show ?thesis by (simp only: add_right_cancel)
qed

lemma upheap_loop_ok:
  assumes "hole p k" "\<And>j. j \<le> length p \<Longrightarrow> j div 2 = k \<Longrightarrow> pc (cell p j) \<le> pc v" "pc v < mx"
  shows "\<exists>p'. upheap_loop mx v p k = Some p' \<and> heap p' \<and> length p' = length p \<and> mset p' + {#cell p k#} = mset p + {#v#}"
  using assms
proof (induction mx v p k rule: upheap_loop.induct)
  case (1 mx v p k)
  note kl = holeD(1,2) [OF "1.prems"(1)]
  show ?case
  proof (cases "2 \<le> k \<and> pc (cell p (k div 2)) \<le> pc v")
    case True
    let ?p = "set_cell p k (cell p (k div 2))"
    have hk: "1 \<le> k div 2" "k div 2 \<noteq> k" using True by auto
    have "pc (cell ?p j) \<le> pc v" if "j \<le> length ?p" "j div 2 = k div 2" for j
    proof (cases "j = k")
      case False
      have "1 \<le> j div 2" "j div 2 \<noteq> k" using that hk by auto
      then have j: "2 \<le> j" "j \<noteq> k" "j div 2 \<noteq> k" using False by auto
      then have "pc (cell p j) \<le> pc (cell p (k div 2))"
        using holeD(3) [OF "1.prems"(1) j(1)] that by simp
      then show ?thesis using True False kl j by auto
    qed (use True kl in simp)
    then obtain p' where p': "upheap_loop mx v ?p (k div 2) = Some p'" "heap p'" "length p' = length ?p"
        "mset p' + {#cell ?p (k div 2)#} = mset ?p + {#v#}"
      using "1.IH" hole_up [OF "1.prems"(1)] True "1.prems"(3) by auto
    have "upheap_loop mx v p k = Some p'"
      by (subst upheap_loop.simps) (use True p'(1) in auto)
    moreover have "mset p' + {#cell p k#} = mset p + {#v#}" by (rule mset_move [OF kl hk p'(4)])
    ultimately show ?thesis using p' by simp
  next
    case False
    have u: "upheap_loop mx v p k = Some (set_cell p k v)"
      by (subst upheap_loop.simps) (use False "1.prems"(3) in auto)
    have "heap (set_cell p k v)"
      by (rule heap_fill [OF "1.prems"(1) _ "1.prems"(2)]) (use False in auto)
    then show ?thesis using u mset_set_cell [OF kl] by auto
  qed
qed

lemma downheap_loop_ok:
  assumes "hole p k" "2 \<le> k \<Longrightarrow> pc v \<le> pc (cell p (k div 2))"
  shows "heap (downheap_loop v p k) \<and> length (downheap_loop v p k) = length p
    \<and> mset (downheap_loop v p k) + {#cell p k#} = mset p + {#v#}"
  using assms
proof (induction v p k rule: downheap_loop.induct)
  case (1 v p k)
  note kl = holeD(1,2) [OF "1.prems"(1)]
  define j where "j = (if k + k < length p \<and> pc (cell p (k + k)) < pc (cell p (k + k + 1)) then k + k + 1 else k + k)"
  show ?case
  proof (cases "k \<le> length p div 2")
    case True
    have j: "j div 2 = k" "j \<le> length p" "j \<noteq> k" "1 \<le> j" using True kl by (auto simp: j_def)
    have max: "pc (cell p i) \<le> pc (cell p j)" if "i \<le> length p" "i div 2 = k" for i
    proof -
      have "i = k + k \<or> i = k + k + 1" using that(2) by presburger
      then show ?thesis using that(1) by (auto simp: j_def)
    qed
    show ?thesis
    proof (cases "pc (cell p j) \<le> pc v")
      case True
      then have d: "downheap_loop v p k = set_cell p k v"
        using \<open>k \<le> length p div 2\<close> kl by (subst downheap_loop.simps) (simp add: j_def Let_def)
      have "heap (set_cell p k v)"
        by (rule heap_fill [OF "1.prems"]) (use max True in \<open>auto intro: order_trans\<close>)
      then show ?thesis unfolding d using mset_set_cell [OF kl] by simp
    next
      case False
      let ?p = "set_cell p k (cell p j)"
      have d: "downheap_loop v p k = downheap_loop v ?p j"
        using \<open>k \<le> length p div 2\<close> kl False by (subst downheap_loop.simps) (simp add: j_def Let_def)
      have "heap (downheap_loop v ?p j) \<and> length (downheap_loop v ?p j) = length ?p
        \<and> mset (downheap_loop v ?p j) + {#cell ?p j#} = mset ?p + {#v#}"
      proof (rule "1.IH" [OF _ refl])
        show "0 < k \<and> k \<le> length p div 2" using True kl by simp
        show "j = (if k + k < length p \<and> pc (cell p (k + k)) < pc (cell p (k + k + 1)) then k + k + 1 else k + k)" by (rule j_def)
        show "\<not> pc v \<ge> pc (cell p j)" using False by simp
        show "hole ?p j" by (rule hole_down [OF "1.prems"(1) j(1,2) max])
        show "pc v \<le> pc (cell ?p (j div 2))" using False kl j(1) by simp
      qed
      then show ?thesis unfolding d using mset_move [OF kl j(4,3)] by simp
    qed
  next
    case False
    have d: "downheap_loop v p k = set_cell p k v" using False by (subst downheap_loop.simps) simp
    have "heap (set_cell p k v)"
    proof (rule heap_fill [OF "1.prems"])
      fix j
      assume "j \<le> length p" "j div 2 = k"
      then show "pc (cell p j) \<le> pc v" using False by (auto simp: not_le div_le_mono)
    qed
    then show ?thesis unfolding d using mset_set_cell [OF kl] by simp
  qed
qed

section \<open>The operations\<close>

lemma heap_top: "heap p \<Longrightarrow> 1 \<le> k \<Longrightarrow> k \<le> length p \<Longrightarrow> pc (cell p k) \<le> pc (cell p 1)"
proof (induction k rule: less_induct)
  case (less k)
  show ?case
  proof (cases "k = 1")
    case False
    then have "pc (cell p k) \<le> pc (cell p (k div 2))" using less.prems unfolding heap_but_def by auto
    also have "\<dots> \<le> pc (cell p 1)" using less False by (intro less.IH) auto
    finally show ?thesis .
  qed simp
qed

lemma cell_in: "1 \<le> k \<Longrightarrow> k \<le> length p \<Longrightarrow> cell p k \<in> set p"
  by (simp add: cell_def)

lemma in_cell: "e \<in> set p \<Longrightarrow> \<exists>k. 1 \<le> k \<and> k \<le> length p \<and> e = cell p k"
  by (force simp: cell_def in_set_conv_nth intro: exI [of _ "Suc _"])

lemma top_max:
  assumes "heap p" "e \<in> set p"
  shows "pc e \<le> pc (cell p 1)"
proof -
  obtain k where "1 \<le> k" "k \<le> length p" "e = cell p k" using in_cell [OF assms(2)] by blast
  then show ?thesis using heap_top [OF assms(1)] by simp
qed

lemma heap_code [code]:
  "heap_but j p \<longleftrightarrow> list_all (\<lambda>k. k = j \<or> pc (cell p k) \<le> pc (cell p (k div 2))) [2..<length p + 1]"
  by (auto simp: heap_but_def list_all_iff less_Suc_eq_le simp del: upt_Suc)

lemma pq_insert_ok:
  assumes q: "pq_ok q" and c: "c < compMAX q"
  shows "\<exists>q'. pq_insert c x q = Some q' \<and> pq_ok q' \<and> compMAX q' = compMAX q
    \<and> mset (pq_p q') = add_mset \<lparr>pc = c, ps = x\<rparr> (mset (pq_p q))"
proof -
  let ?e = "\<lparr>pc = c, ps = x\<rparr>"
  let ?p = "pq_p q @ [?e]" and ?k = "pq_N q + 1"
  define r where "r = (if pq_N q \<ge> pq_Max q then pq_grow (if pq_Max q < minGrow then minGrow else pq_Max q * 2) q else q)"
  have r: "pq_p r = pq_p q" "compMAX r = compMAX q" "?k \<le> pq_Max r"
    using q by (auto simp: r_def pq_grow_def pq_ok_def minGrow_def)
  have old: "cell ?p j = cell (pq_p q) j" if "1 \<le> j" "j \<le> pq_N q" for j
    using that by (simp add: cell_def nth_append)
  have new: "cell ?p ?k = ?e" by (simp add: cell_def)
  have h: "hole ?p ?k"
    unfolding hole_def
  proof (intro conjI allI impI)
    fix j
    assume "2 \<le> j" "j \<le> length ?p" "j \<noteq> ?k" "j div 2 \<noteq> ?k"
    then show "pc (cell ?p j) \<le> pc (cell ?p (j div 2))"
      using old [of j] old [of "j div 2"] q by (auto simp: pq_ok_def heap_but_def)
  next
    fix j
    assume "j \<le> length ?p" "j div 2 = ?k"
    then show "pc (cell ?p j) \<le> pc (cell ?p (?k div 2))" by simp
  qed auto
  have kids: "pc (cell ?p j) \<le> pc ?e" if "j \<le> length ?p" "j div 2 = ?k" for j
    using that by simp
  have "pc ?e < compMAX q" using c by simp
  from upheap_loop_ok [OF h kids this] obtain p' where
      p': "upheap_loop (compMAX q) ?e ?p ?k = Some p'" "heap p'" "length p' = length ?p"
      "mset p' + {#cell ?p ?k#} = mset ?p + {#?e#}" by blast
  have m: "mset p' = add_mset ?e (mset (pq_p q))" using p'(4) unfolding new by simp
  have "pq_insert c x q = Some (r\<lparr>pq_p := p'\<rparr>)"
    using c p'(1) r(1,2) new by (simp add: pq_insert_def r_def [symmetric] Let_def upheap_def)
  moreover have "set p' = insert ?e (set (pq_p q))"
    using arg_cong [OF m, of set_mset] by simp
  then have "pq_ok (r\<lparr>pq_p := p'\<rparr>)" using q c p'(2,3) r by (auto simp: pq_ok_def)
  ultimately show ?thesis using m r by auto
qed

text \<open>Removing an element keeps the heap if the last element is no greater than the parent of the gap.\<close>

lemma pq_remove_ok:
  assumes q: "pq_ok q" and i: "1 \<le> i" "i \<le> pq_N q"
    and up: "2 \<le> i \<Longrightarrow> pc (last (pq_p q)) \<le> pc (cell (pq_p q) (i div 2))"
  shows "\<exists>q'. pq_remove i q = Some (ps (cell (pq_p q) i), q') \<and> pq_ok q' \<and> compMAX q' = compMAX q
    \<and> mset (pq_p q) = add_mset (cell (pq_p q) i) (mset (pq_p q'))"
proof -
  let ?p = "pq_p q" and ?n = "pq_N q" and ?v = "last (pq_p q)"
  let ?r = "butlast (set_cell ?p i ?v)"
  have ne: "?p \<noteq> []" using i by auto
  have lst: "?v = cell ?p ?n" using ne by (simp add: cell_def last_conv_nth)
  have old: "cell ?r j = (if j = i then ?v else cell ?p j)" if "1 \<le> j" "j < ?n" for j
    using that i by (auto simp: cell_def set_cell_def nth_butlast)
  have len: "length ?r = ?n - 1" by simp
  have "set_cell ?p i ?v \<noteq> []" using i by (auto simp: set_cell_def)
  then have app: "?r @ [last (set_cell ?p i ?v)] = set_cell ?p i ?v" by simp
  have ls: "last (set_cell ?p i ?v) = ?v"
    using ne i by (auto simp: last_conv_nth set_cell_def nth_list_update)
  have ms: "mset ?r + {#?v#} + {#cell ?p i#} = mset ?p + {#?v#}"
  proof -
    have "mset (?r @ [?v]) = mset (set_cell ?p i ?v)" using app unfolding ls by (rule arg_cong)
    then show ?thesis using mset_set_cell [OF i, of ?v] by simp
  qed
  have ms': "mset ?p = add_mset (cell ?p i) (mset ?r)"
    using ms by (simp add: ac_simps)
  have "set ?p = insert (cell ?p i) (set ?r)"
    using arg_cong [OF ms', of set_mset] by simp
  then have sub: "set ?r \<subseteq> set ?p" by blast
  have heap: "pc (cell ?p j) \<le> pc (cell ?p (j div 2))" if "2 \<le> j" "j \<le> ?n" for j
    using q that by (auto simp: pq_ok_def heap_but_def)
  have keys: "\<forall>e \<in> set ?p. pc e < compMAX q" and max: "?n \<le> pq_Max q" using q by (auto simp: pq_ok_def)
  show ?thesis
  proof (cases "i \<le> ?n - 1")
    case True
    let ?d = "downheap_loop (cell ?r i) ?r i"
    have ci: "cell ?r i = ?v" using old [of i] True i by simp
    have h: "hole ?r i"
      unfolding hole_def
    proof (intro conjI allI impI)
      fix j
      assume j: "2 \<le> j" "j \<le> length ?r" "j \<noteq> i" "j div 2 \<noteq> i"
      then show "pc (cell ?r j) \<le> pc (cell ?r (j div 2))"
        using old [of j] old [of "j div 2"] heap [of j] len by auto
    next
      fix j
      assume j: "2 \<le> i" "j \<le> length ?r" "j div 2 = i"
      then have "pc (cell ?p j) \<le> pc (cell ?p i)" "pc (cell ?p i) \<le> pc (cell ?p (i div 2))"
        using heap [of j] heap [of i] len i by auto
      then show "pc (cell ?r j) \<le> pc (cell ?r (i div 2))"
        using old [of j] old [of "i div 2"] j len True by (auto intro: order_trans)
    qed (use True i len in auto)
    have "pc (cell ?r i) \<le> pc (cell ?r (i div 2))" if "2 \<le> i"
      using up [OF that] old [of "i div 2"] ci that True by auto
    note d = downheap_loop_ok [OF h this]
    have md: "mset ?d = mset ?r" using d by (simp add: add_right_cancel)
    have "set ?d = set ?r" using md by (rule mset_eq_setD)
    then have "set ?d \<subseteq> set ?p" using sub by simp
    then have "pq_ok (q\<lparr>pq_p := ?d\<rparr>)" using d keys max len by (auto simp: pq_ok_def)
    moreover have "pq_remove i q = Some (ps (cell ?p i), q\<lparr>pq_p := ?d\<rparr>)"
      using i True by (simp add: pq_remove_def Let_def downheap_def)
    ultimately show ?thesis using ms' md by auto
  next
    case False
    have hp: "heap ?r"
      unfolding heap_but_def
    proof (intro allI impI)
      fix j
      assume "2 \<le> j \<and> j \<le> length ?r \<and> j \<noteq> 0"
      then show "pc (cell ?r j) \<le> pc (cell ?r (j div 2))"
        using old [of j] old [of "j div 2"] heap [of j] len False by auto
    qed
    have "pq_ok (q\<lparr>pq_p := ?r\<rparr>)" using hp keys max len sub by (auto simp: pq_ok_def)
    moreover have "pq_remove i q = Some (ps (cell ?p i), q\<lparr>pq_p := ?r\<rparr>)"
      using i False by (simp add: pq_remove_def Let_def)
    ultimately show ?thesis using ms' by auto
  qed
qed

section \<open>The interface of a priority queue\<close>

text \<open>Emptying a queue, as \<^verbatim>\<open>heapsort\<close> and the display of a schedule do.\<close>

primrec drain :: "('q \<Rightarrow> ('s \<times> 'q) option) \<Rightarrow> nat \<Rightarrow> 'q \<Rightarrow> 's list" where
  "drain d 0 q = []"
| "drain d (Suc n) q = (case d q of None \<Rightarrow> [] | Some (s, q') \<Rightarrow> s # drain d n q')"

locale max_queue =
  fixes ins :: "'c::linorder \<Rightarrow> 's \<Rightarrow> 'q \<Rightarrow> 'q option"
    and del_max :: "'q \<Rightarrow> ('s \<times> 'q) option"
    and pq_content :: "'q \<Rightarrow> ('c \<times> 's) multiset"
    and ok :: "'q \<Rightarrow> bool"
    and bound :: 'c
  assumes ins_ok: "ok q \<Longrightarrow> c < bound \<Longrightarrow> \<exists>q'. ins c s q = Some q' \<and> ok q' \<and> pq_content q' = add_mset (c, s) (pq_content q)"
    and del_ok: "ok q \<Longrightarrow> pq_content q \<noteq> {#} \<Longrightarrow>
      \<exists>c s q'. del_max q = Some (s, q') \<and> ok q' \<and> pq_content q = add_mset (c, s) (pq_content q') \<and> (\<forall>e \<in># pq_content q. fst e \<le> c)"
    and del_empty: "ok q \<Longrightarrow> pq_content q = {#} \<Longrightarrow> del_max q = None"
begin

lemma drain_sorted:
  "ok q \<Longrightarrow> size (pq_content q) = n \<Longrightarrow>
    \<exists>cs. length cs = n \<and> length (drain del_max n q) = n \<and> mset (zip cs (drain del_max n q)) = pq_content q \<and> sorted_wrt (\<ge>) cs"
proof (induction n arbitrary: q)
  case (Suc n)
  then have "pq_content q \<noteq> {#}" by auto
  then obtain c s q' where d: "del_max q = Some (s, q')" "ok q'" "pq_content q = add_mset (c, s) (pq_content q')"
      "\<forall>e \<in># pq_content q. fst e \<le> c"
    using del_ok [OF Suc.prems(1)] by blast
  have "size (pq_content q') = n" using Suc.prems(2) d(3) by simp
  then obtain cs where cs: "length cs = n" "length (drain del_max n q') = n"
      "mset (zip cs (drain del_max n q')) = pq_content q'" "sorted_wrt (\<ge>) cs"
    using Suc.IH [OF d(2)] by blast
  have "c' \<le> c" if "c' \<in> set cs" for c'
  proof -
    have "set cs = fst ` set (zip cs (drain del_max n q'))"
      using cs(1,2) by (metis list.set_map map_fst_zip)
    then have "c' \<in> fst ` set_mset (pq_content q')" using that unfolding cs(3) [symmetric] by simp
    then show ?thesis using d(3,4) by auto
  qed
  then show ?case using cs d by (intro exI [of _ "c # cs"]) auto
qed simp

lemma fold_ins:
  "ok q \<Longrightarrow> \<forall>e \<in> set es. fst e < bound \<Longrightarrow>
    \<exists>q'. fold (\<lambda>(c, s) r. Option.bind r (ins c s)) es (Some q) = Some q' \<and> ok q' \<and> pq_content q' = pq_content q + mset es"
proof (induction es arbitrary: q)
  case (Cons e es)
  obtain c s where e: "e = (c, s)" by (cases e)
  then obtain q1 where q1: "ins c s q = Some q1" "ok q1" "pq_content q1 = add_mset (c, s) (pq_content q)"
    using ins_ok [OF Cons.prems(1), of c s] Cons.prems(2) by auto
  then show ?case using Cons.IH [OF q1(2)] Cons.prems(2) e by auto
qed simp

end

definition pq_content :: "('c, 's) qPriQ \<Rightarrow> ('c \<times> 's) multiset" where
  "pq_content q = mset (map (\<lambda>e. (pc e, ps e)) (pq_p q))"

lemma content_mset: "pq_content q = image_mset (\<lambda>e. (pc e, ps e)) (mset (pq_p q))"
  by (simp add: pq_content_def)

interpretation heapq: max_queue pq_insert "pq_remove 1" pq_content "\<lambda>q. pq_ok q \<and> compMAX q = M" M for M
proof (unfold_locales, goal_cases)
  case (1 q c s)
  then show ?case using pq_insert_ok [of q c s] by (auto simp: content_mset)
next
  case (2 q)
  then have n: "1 \<le> pq_N q" by (cases "pq_p q") (auto simp: pq_content_def)
  obtain q' where q': "pq_remove 1 q = Some (ps (cell (pq_p q) 1), q')" "pq_ok q'" "compMAX q' = compMAX q"
      "mset (pq_p q) = add_mset (cell (pq_p q) 1) (mset (pq_p q'))"
    using pq_remove_ok [of q 1] 2 n by auto
  have "heap (pq_p q)" using 2 by (simp add: pq_ok_def)
  then have "\<forall>e \<in># pq_content q. fst e \<le> pc (cell (pq_p q) 1)" using top_max by (auto simp: content_mset)
  moreover have "pq_content q = add_mset (pc (cell (pq_p q) 1), ps (cell (pq_p q) 1)) (pq_content q')"
    by (simp add: content_mset q'(4))
  ultimately show ?case using q'(1,2,3) 2(1) by auto
next
  case (3 q)
  then show ?case by (auto simp: pq_content_def pq_remove_def)
qed

text \<open>C17: Elements put into a new queue, in any order, come out in the order of their keys, the greatest first,
each once.\<close>

theorem queue_sorts:
  assumes "\<forall>e \<in> set es. fst e < M"
  shows "\<exists>q cs. fold (\<lambda>(c, s) r. Option.bind r (pq_insert c s)) es (Some (new_qPriQ M m)) = Some q
    \<and> mset (zip cs (drain (pq_remove 1) (length es) q)) = mset es \<and> length cs = length es \<and> sorted_wrt (\<ge>) cs
    \<and> length (drain (pq_remove 1) (length es) q) = length es"
proof -
  have new: "pq_ok (new_qPriQ M m) \<and> compMAX (new_qPriQ M m) = M" "pq_content (new_qPriQ M m) = {#}"
    by (simp_all add: pq_ok_def new_qPriQ_def heap_but_def pq_content_def)
  obtain q where q: "fold (\<lambda>(c, s) r. Option.bind r (pq_insert c s)) es (Some (new_qPriQ M m)) = Some q"
      "pq_ok q \<and> compMAX q = M" "pq_content q = mset es"
    using heapq.fold_ins [OF new(1) assms] new(2) by auto
  show ?thesis using heapq.drain_sorted [OF q(2), of "length es"] q by auto
qed

definition three :: "(nat \<times> nat) list" where
  "three = [(3, 0), (9, 1), (4, 2)]"

theorem queue_sorts_witness:
  "\<exists>q cs. fold (\<lambda>(c, s) r. Option.bind r (pq_insert c s)) three (Some (new_qPriQ 10 0)) = Some q
    \<and> mset (zip cs (drain (pq_remove 1) 3 q)) = mset three \<and> sorted_wrt (\<ge>) cs"
proof -
  have "\<forall>e \<in> set three. fst e < 10" "length three = 3" by (simp_all add: three_def)
  with queue_sorts [OF this(1), of 0] show ?thesis by auto
qed

definition keys_queue :: "nat list \<Rightarrow> (nat, nat) qPriQ" where
  "keys_queue ks = \<lparr>pq_p = map (\<lambda>c. \<lparr>pc = c, ps = c\<rparr>) ks, pq_Max = 20, compMAX = 100\<rparr>"

text \<open>Removing an element from the middle may break the heap, since only the way down is repaired: after
the removal of the element at index 4 the key 6 comes out before the key 8.\<close>

theorem remove_breaks_heap:
  "pq_ok (keys_queue [10, 6, 9, 2, 4, 3, 8])
   \<and> map_option (\<lambda>(s, q'). (s, drain (pq_remove 1) 6 q')) (pq_remove 4 (keys_queue [10, 6, 9, 2, 4, 3, 8]))
     = Some (2, [10, 9, 6, 8, 4, 3])"
proof -
  have "heap (pq_p (keys_queue [10, 6, 9, 2, 4, 3, 8]))" by code_simp
  then have "pq_ok (keys_queue [10, 6, 9, 2, 4, 3, 8])" by (simp add: pq_ok_def keys_queue_def)
  moreover have "map_option (\<lambda>(s, q'). (s, drain (pq_remove 1) 6 q')) (pq_remove 4 (keys_queue [10, 6, 9, 2, 4, 3, 8]))
     = Some (2, [10, 9, 6, 8, 4, 3])" by code_simp
  ultimately show ?thesis by blast
qed



end
