(* ===== verification/Web.thy ===== *)
theory Web
  imports Scope
begin

text \<open>
  Forms, URLs and HTML (\<^verbatim>\<open>libsmx/cgi.cpp\<close>): the coding of URLs, the parsing of form strings and of
  multi-part request bodies into a \<^verbatim>\<open>CMapStrLst\<close>, the macros that read and set form values, and those that
  quote, clean and measure HTML. A form is a name map over the hash table whose data are lists of values.
  The code parses in place: it writes terminators and decoded characters before the position it reads
  from, so the text from that position on is unchanged and the model reads it as a list; where a
  terminator is written at or after the position the model puts it into the list. \<^const>\<open>None\<close> (and \<^const>\<open>Crash\<close>) is
  a null or uninitialised pointer that is read, or a read past the end of a text.
\<close>

section \<open>Forms\<close>

type_synonym form = "bytes list cmap"

text \<open>\<^verbatim>\<open>CMapStrLst::Set\<close>: a value is appended to those of its name.\<close>

definition lst_Set :: "form \<Rightarrow> bytes \<Rightarrow> bytes \<Rightarrow> form option" where
  "lst_Set m key val =
    (case CMap_Find m key of
       Some vals \<Rightarrow> map_option snd (CMap_Set True m key (vals @ [val]))
     | None \<Rightarrow> map_option snd (CMap_Set True m key [val]))"

record qObjCGI =
  myFormMap :: form
  myFileMap :: form
  myClientBody :: bytes
  myClientBodyCopy :: bytes

section \<open>URL coding\<close>

definition c_isxdigit :: "char \<Rightarrow> bool" where
  "c_isxdigit c = (c_isdigit c \<or> 65 \<le> uc c \<and> uc c \<le> 70 \<or> 97 \<le> uc c \<and> uc c \<le> 102)"

lemmas [c_char] = c_isxdigit_def

definition hex2int :: "char \<Rightarrow> int" where
  "hex2int c = (if sc c \<le> 57 then sc c - 48 else if sc c < 90 then sc c - 65 + 10 else sc c - 97 + 10)"

fun hex_pair :: "bytes \<Rightarrow> bool" where
  "hex_pair (a # b # s) = (c_isxdigit a \<and> c_isxdigit b)"
| "hex_pair _ = False"

definition hex_byte :: "bytes \<Rightarrow> char" where
  "hex_byte s = char_of (nat (push_bit 4 (hex2int (s ! 0)) OR hex2int (s ! 1)))"

function url_loop :: "bytes \<Rightarrow> bytes" where
  "url_loop [] = []"
| "url_loop (c # p) =
    (if c = CHR ''%'' \<and> hex_pair p then hex_byte p # url_loop (drop 2 p)
     else if c = CHR ''+'' then CHR '' '' # url_loop p
     else c # url_loop p)"
  by pat_completeness auto
termination by (relation "measure length") auto

definition UrlDecode :: "bytes \<Rightarrow> bytes" where
  "UrlDecode str = (if length str > 0 then url_loop (cstr str) else str)"

text \<open>The assertion of \<^verbatim>\<open>u2hex\<close> holds, since its argument is half a byte.\<close>

definition u2hex :: "nat \<Rightarrow> char" where
  "u2hex n = (if n < 10 then char_of (48 + n) else char_of (n - 10 + 65))"

definition url_char :: "char \<Rightarrow> bytes" where
  "url_char c =
    (if c = CHR '' '' then ''+''
     else if c \<in> {CHR ''/'', BSL, CHR ''+'', CHR '','', CHR 0x60} \<or> uc c \<le> 41 \<or> uc c \<ge> 123 \<or> 58 \<le> uc c \<and> uc c \<le> 64
     then [CHR ''%'', u2hex (drop_bit 4 (uc c)), u2hex (uc c AND 15)]
     else [c])"

definition UrlEncode :: "bytes \<Rightarrow> bytes" where
  "UrlEncode url = (if url \<noteq> [] then concat (map url_char (cstr url)) else [])"

definition EvalUrlEncode :: "ostream \<Rightarrow> qargs \<Rightarrow> unit run" where
  "EvalUrlEncode out args = PutS out (UrlEncode (GetAt args 0))"

definition EvalUrlDecode :: "ostream \<Rightarrow> qargs \<Rightarrow> unit run" where
  "EvalUrlDecode out args = (if Count args > 0 then PutS out (UrlDecode (GetAt args 0)) else ret ())"

section \<open>Form strings\<close>

text \<open>A value up to a separator, decoded; with the text after the separator, if there is one.\<close>

function value_loop :: "bytes \<Rightarrow> bytes \<Rightarrow> bytes \<times> bytes option" where
  "value_loop [] v = (v, None)"
| "value_loop (c # p) v =
    (if c = CHR ''='' \<or> c = CHR ''&'' then (v, Some p)
     else if c = CHR ''%'' \<and> hex_pair p then value_loop (drop 2 p) (v @ [hex_byte p])
     else if c = CHR ''+'' then value_loop p (v @ '' '')
     else value_loop p (v @ [c]))"
  by pat_completeness auto
termination by (relation "measure (length \<circ> fst)") auto

lemma value_loop_shorter: "value_loop p v = (w, Some q) \<Longrightarrow> length q < length p"
  by (induction p v rule: value_loop.induct) (auto split: if_splits)

text \<open>The text \<^verbatim>\<open>p\<close> to read, the text \<^verbatim>\<open>n\<close> of the name so far, and the last value \<^verbatim>\<open>v1\<close> to \<^verbatim>\<open>v2\<close>, which stays when
  the next name begins.\<close>

function form_loop :: "bytes \<Rightarrow> bytes \<Rightarrow> bytes option \<Rightarrow> form \<Rightarrow> form option" where
  "form_loop [] n v m =
    (case v of Some w \<Rightarrow> if n \<noteq> [] \<and> w \<noteq> [] then lst_Set m (UrlDecode n) w else Some m | None \<Rightarrow> Some m)"
| "form_loop (c # p) n v m =
    (if c = CHR ''='' then
       (case value_loop p [] of
          (w, Some q) \<Rightarrow> (case lst_Set m (UrlDecode n) w of Some m \<Rightarrow> form_loop q [] (Some w) m | None \<Rightarrow> None)
        | (w, None) \<Rightarrow> form_loop [] n (Some w) m)
     else if c = CHR ''&'' \<or> c = CHR ''?'' then form_loop p [] v m
     else form_loop p (n @ [c]) v m)"
  by pat_completeness auto
termination
  by (relation "measure (\<lambda>(p, n, v, m). length p)") (auto dest: value_loop_shorter [OF sym])

definition ParseFormString :: "bytes \<Rightarrow> form \<Rightarrow> form option" where
  "ParseFormString str m = form_loop (cstr str) [] None m"

section \<open>Multi-part bodies\<close>

abbreviation CR :: char where "CR \<equiv> CHR 0x0D"

definition at_bound :: "bytes \<Rightarrow> bytes \<Rightarrow> bool" where
  "at_bound bound p \<longleftrightarrow> take 2 p = ''--'' \<and> take (length bound) (drop 2 p) = bound"

text \<open>The length of the body that starts \<^verbatim>\<open>k\<close> characters before \<^verbatim>\<open>p\<close>, and the text after the boundary;
  \<^verbatim>\<open>prev\<close> is the character before \<^verbatim>\<open>p\<close>.\<close>

fun body_loop :: "bytes \<Rightarrow> char \<Rightarrow> nat \<Rightarrow> bytes \<Rightarrow> nat \<times> bytes" where
  "body_loop bound prev k [] = (0, [])"
| "body_loop bound prev k (c # p) =
    (if c = NL \<and> at_bound bound p then ((if prev = CR then k - 1 else k), drop (length bound + 2) p)
     else body_loop bound c (k + 1) p)"

definition ParseMultiBody :: "bytes \<Rightarrow> bytes \<Rightarrow> nat \<times> bytes" where
  "ParseMultiBody bound p = body_loop bound NL 0 p"

text \<open>The parameters of a content disposition. \<^verbatim>\<open>n\<close> is the name so far; \<^verbatim>\<open>v2\<close> tells if the pointer to the end
  of a value is set: it is not when the value is not terminated, and it is dereferenced all the same. After a value
  without quotes the terminator stands where the loop goes on.\<close>

function cdisp_loop :: "bytes \<Rightarrow> bytes \<Rightarrow> bool \<Rightarrow> bytes option \<Rightarrow> bytes option \<Rightarrow> (bytes option \<times> bytes option) option" where
  "cdisp_loop [] n v2 vname fname = Some (vname, fname)"
| "cdisp_loop (c # p) n v2 vname fname =
    (if c = CHR ''='' then
       (let p = dropWhile c_isspace p;
            quoted = take 1 p = [DQ];
            stop = (if quoted then DQ else CHR '';'');
            p = (if quoted then tl p else p);
            v = takeWhile (\<lambda>x. x \<noteq> stop) p;
            q = drop (length v) p;
            v1 = (if q = [] then v else RTrim v);
            p = (if quoted then dropWhile c_isspace (drop 2 q) else [])
        in if q = [] \<and> \<not> v2 then None
           else if stricmp n ''name'' = 0 then cdisp_loop p [] True (Some v1) fname
           else if stricmp n ''filename'' = 0 then cdisp_loop p [] True vname (Some v1)
           else cdisp_loop p [] True vname fname)
     else if c = CHR '';'' then cdisp_loop (dropWhile c_isspace p) [] v2 vname fname
     else cdisp_loop p (n @ [c]) v2 vname fname)"
  by pat_completeness auto
termination
proof (relation "measure (\<lambda>(p, n, v2, vname, fname). length p)", goal_cases)
  have *: "length (dropWhile c_isspace (drop k q)) < Suc (length p)" if "length q \<le> length p" for k and p q :: bytes
    using length_dropWhile_le [of c_isspace "drop k q"] that by simp
  have **: "length (drop k (tl (dropWhile c_isspace p))) \<le> length p" for k and p :: bytes
    using length_dropWhile_le [of c_isspace p] by simp
  {
    case 2 then show ?case using * ** by simp
  next
    case 3 then show ?case using * ** by simp
  next
    case 4 then show ?case using * ** by simp
  }
qed (simp_all add: less_Suc_eq_le length_dropWhile_le)

definition ParseCDisp :: "bytes \<Rightarrow> (bytes option \<times> bytes option) option" where
  "ParseCDisp str = cdisp_loop (dropWhile c_isspace str) [] False None None"

text \<open>What is left of the text after \<^verbatim>\<open>ParseCDisp\<close>, as far as a pointer to its start reads it.\<close>

definition cdisp_left :: "bytes \<Rightarrow> bytes" where
  "cdisp_left str = takeWhile (\<lambda>c. c \<noteq> CHR ''='') str"

text \<open>A part with its name and body; a null name is looked up as the empty one.\<close>

definition add_part :: "form \<times> form \<Rightarrow> bytes option \<times> bytes option \<Rightarrow> bytes \<Rightarrow> (form \<times> form) option" where
  "add_part fs names body =
    (let key = (case fst names of Some k \<Rightarrow> k | None \<Rightarrow> []) in
     case snd names of
       Some fname \<Rightarrow> (case lst_Set (fst fs) key fname of
           Some m \<Rightarrow> map_option (Pair m) (lst_Set (snd fs) key body)
         | None \<Rightarrow> None)
     | None \<Rightarrow> map_option (\<lambda>m. (m, snd fs)) (lst_Set (fst fs) key body))"

lemma body_loop_shorter: "body_loop bound prev k p = (lof, r) \<Longrightarrow> length r \<le> length p"
  by (induction bound prev k p rule: body_loop.induct) (auto split: if_splits)

text \<open>\<^verbatim>\<open>n\<close> is the text since the start of a line, \<^verbatim>\<open>c_disp\<close> the content disposition of the last header, if there
  was one.\<close>

function multi_loop :: "bytes \<Rightarrow> bytes \<Rightarrow> bytes \<Rightarrow> bytes option \<Rightarrow> form \<times> form \<Rightarrow> (form \<times> form) option" where
  "multi_loop bound [] n c_disp fs = Some fs"
| "multi_loop bound (c # p) n c_disp fs =
    (if c = NL then
       (if take 1 p = [NL] \<or> take 2 p = [CR, NL] then
          (let b = drop (if take 1 p = [CR] then 2 else 1) p;
               lof = fst (ParseMultiBody bound b); r = snd (ParseMultiBody bound b);
               n = n @ take (Suc (length p) - length r) (c # p)
           in if lof > 0 then
                (case c_disp of
                   None \<Rightarrow> None
                 | Some d \<Rightarrow>
                     (case ParseCDisp d of
                        None \<Rightarrow> None
                      | Some names \<Rightarrow>
                          (case add_part fs names (take lof b) of
                             None \<Rightarrow> None
                           | Some fs \<Rightarrow> multi_loop bound r n (Some (cdisp_left d)) fs)))
              else multi_loop bound r n c_disp fs)
        else multi_loop bound (dropWhile c_isspace p) [] c_disp fs)
     else if c = CHR '':'' then
       (let sp = takeWhile c_isspace p;
            t = takeWhile (\<lambda>x. x \<noteq> NL \<and> x \<noteq> NUL) (drop (length sp) p);
            k = length (RTrim (sp @ t));
            v1 = take (k - length sp) t
        in multi_loop bound (if k < length p then NUL # drop (k + 1) p else []) []
             (if stricmp n ''content-disposition'' = 0 then Some v1 else c_disp) fs)
     else multi_loop bound p (n @ [c]) c_disp fs)"
  by pat_completeness auto
termination
proof (relation "measure (\<lambda>(bound, p, n, c_disp, fs). length p)", goal_cases)
  have *: "length (snd (ParseMultiBody bound (drop k p))) < Suc (length p)" for bound k and p :: bytes
    using body_loop_shorter [of bound NL 0 "drop k p"] by (cases "body_loop bound NL 0 (drop k p)") (auto simp: ParseMultiBody_def)
  {
    case 2 then show ?case using * by simp
  next
    case 3 then show ?case using * by simp
  }
qed (auto simp: less_Suc_eq_le length_dropWhile_le)

definition ParseMulti :: "bytes \<Rightarrow> bytes \<Rightarrow> form \<times> form \<Rightarrow> (form \<times> form) option" where
  "ParseMulti str bound fs =
    (if str = [] then Some fs
     else multi_loop bound (dropWhile c_isspace (if at_bound bound str then drop (length bound + 2) str else str)) [] None fs)"

section \<open>Requests\<close>

text \<open>What the server's \<^verbatim>\<open>qEnvHttp\<close> returns; the body comes in chunks, up to the first that is empty.\<close>

record qEnvHttp =
  RequestMethod :: "bytes option"
  ContentType :: bytes
  BodyChunks :: "bytes list"
  QueryString :: "bytes option"

text \<open>\<^verbatim>\<open>myClientBodyRead\<close> is never set, so every call appends to the body.\<close>

definition ReadClientBody :: "qEnvHttp \<Rightarrow> qObjCGI \<Rightarrow> qObjCGI" where
  "ReadClientBody env cgi =
    (let b = myClientBody cgi @ concat (takeWhile (\<lambda>t. t \<noteq> []) (BodyChunks env))
     in cgi\<lparr>myClientBody := b, myClientBodyCopy := b\<rparr>)"

definition set_forms :: "qObjCGI \<Rightarrow> form \<times> form \<Rightarrow> qObjCGI" where
  "set_forms cgi fs = cgi\<lparr>myFormMap := fst fs, myFileMap := snd fs\<rparr>"

text \<open>An empty content type has a null buffer, which is compared; so is a missing boundary.\<close>

definition ParsePost :: "qEnvHttp \<Rightarrow> qObjCGI \<Rightarrow> qObjCGI option" where
  "ParsePost env cgi =
    (let ctype = cstr (LTrim (ContentType env)) in
     if ContentType env = [] then None
     else if strnicmp_eq ctype ''multipart/form-data'' 19 then
       (let p = dropWhile (\<lambda>c. c \<noteq> CHR '';'') (drop 19 ctype) in
        if p \<noteq> [] then
          (if strnicmp_eq (dropWhile c_isspace (tl p)) ''boundary'' 8 then
             (let q = dropWhile (\<lambda>c. c \<noteq> CHR ''='') (drop 8 ctype); cgi = ReadClientBody env cgi in
              if q = [] then None
              else map_option (set_forms cgi) (ParseMulti (myClientBody cgi) (tl q) (myFormMap cgi, myFileMap cgi)))
           else Some cgi)
        else Some cgi)
     else
       (let cgi = ReadClientBody env cgi
        in map_option (\<lambda>m. cgi\<lparr>myFormMap := m\<rparr>) (ParseFormString (myClientBody cgi) (myFormMap cgi))))"

definition ParseRequest :: "qEnvHttp \<Rightarrow> qObjCGI \<Rightarrow> qObjCGI option" where
  "ParseRequest env cgi =
    Option.bind
      (case RequestMethod env of
         Some method \<Rightarrow> if stricmp method ''post'' = 0 then ParsePost env cgi else Some cgi
       | None \<Rightarrow> Some cgi)
      (\<lambda>cgi. map_option (\<lambda>m. cgi\<lparr>myFormMap := m\<rparr>)
         (ParseFormString (case QueryString env of Some q \<Rightarrow> q | None \<Rightarrow> []) (myFormMap cgi)))"

section \<open>The macros of forms\<close>

fun vals_loop :: "ostream \<Rightarrow> bytes list \<Rightarrow> unit run" where
  "vals_loop out [] = ret ()"
| "vals_loop out (v # vals) =
    sq (PutS out v) (sq (if vals \<noteq> [] \<and> hd vals \<noteq> [] then PutC out CHR '','' else ret ()) (vals_loop out vals))"

text \<open>Counting down from a negative number ends at the end of the list.\<close>

definition EvalFormP :: "qObjCGI \<Rightarrow> ostream \<Rightarrow> qargs \<Rightarrow> unit run" where
  "EvalFormP cgi out args =
    (case CMap_Find (myFormMap cgi) (GetAt args 0) of
       None \<Rightarrow> ret ()
     | Some vals \<Rightarrow>
         if Count args > 1 then
           (let inst = ParseInt (GetAt args 1);
                vals = (if inst < 0 then [] else drop (nat inst) vals)
            in if vals \<noteq> [] \<and> hd vals \<noteq> [] then PutS out (hd vals) else ret ())
         else vals_loop out vals)"

definition EvalFormParseP :: "qObjCGI \<Rightarrow> qargs \<Rightarrow> qObjCGI option" where
  "EvalFormParseP cgi args = map_option (\<lambda>m. cgi\<lparr>myFormMap := m\<rparr>) (ParseFormString (GetAt args 0) (myFormMap cgi))"

fun set_loop :: "bytes \<Rightarrow> bytes list \<Rightarrow> form \<Rightarrow> form option" where
  "set_loop name [] m = Some m"
| "set_loop name (v # vals) m = (case lst_Set m name v of Some m \<Rightarrow> set_loop name vals m | None \<Rightarrow> None)"

definition EvalFormSetP :: "qObjCGI \<Rightarrow> qargs \<Rightarrow> qObjCGI option" where
  "EvalFormSetP cgi args =
    (let name = GetAt args 0; vals = filter (\<lambda>v. v \<noteq> []) (drop 1 (qa_vals args)); m = myFormMap cgi in
     map_option (\<lambda>m. cgi\<lparr>myFormMap := m\<rparr>)
       (Option.bind
          (if name \<noteq> [] then (case CMap_Find m name of Some _ \<Rightarrow> map_option snd (CMap_Del m name) | None \<Rightarrow> Some m) else Some m)
          (set_loop name vals)))"

fun state_vals :: "ostream \<Rightarrow> bytes \<Rightarrow> bytes list \<Rightarrow> unit run" where
  "state_vals out name [] = ret ()"
| "state_vals out name (v # vals) =
    sq (PutZ out name) (sq (PutC out CHR ''='') (sq (PutS out (UrlEncode v)) (sq (PutC out CHR ''&'') (state_vals out name vals))))"

definition EvalClientStateP :: "qEnvHttp option \<Rightarrow> qObjCGI \<Rightarrow> ostream \<Rightarrow> unit run" where
  "EvalClientStateP env cgi out =
    (if env = None then ret ()
     else (case CMap_enum (myFormMap cgi) of
       Some es \<Rightarrow> each (\<lambda>(name, vals). state_vals out name vals) es
     | None \<Rightarrow> fail Crash))"

definition EvalClientBodyP :: "qObjCGI \<Rightarrow> ostream \<Rightarrow> unit run" where
  "EvalClientBodyP cgi out = (if myClientBodyCopy cgi \<noteq> [] then PutS out (myClientBodyCopy cgi) else ret ())"

section \<open>HTML\<close>

text \<open>The list of tags is split at separators. After a separator the inner loop of the code does not end if the
  first separator follows, the next character is not examined, and at the end of the text the scan goes on
  behind it.\<close>

fun ary_loop :: "bytes \<Rightarrow> bytes \<Rightarrow> bytes \<Rightarrow> bytes list \<Rightarrow> bytes list res" where
  "ary_loop toks [] item ary = Ok (if item \<noteq> [] then ary @ [item] else ary)"
| "ary_loop toks [c] item ary =
    (if c \<in> set toks then Crash else ary_loop toks [] (item @ [c]) ary)"
| "ary_loop toks (c # d # p) item ary =
    (if c \<in> set toks then (if d = hd toks then NoFuel else ary_loop toks p [d] (ary @ [item]))
     else ary_loop toks (d # p) (item @ [c]) ary)"

definition ParseAry :: "bytes \<Rightarrow> bytes \<Rightarrow> bytes list res" where
  "ParseAry p toks = ary_loop toks (cstr p) [] []"

type_synonym tags = "(bytes \<times> int) list"

definition tag_Set :: "int \<Rightarrow> bytes \<Rightarrow> tags \<Rightarrow> tags" where
  "tag_Set v tag m = AList.update (fold_case tag) v m"

definition myTags :: tags where
  "myTags =
    fold (tag_Set 1) [''a'', ''address'', ''b'', ''blink'', ''center'', ''code'', ''dl'', ''em'', ''font'', ''form'', ''h1'',
        ''h2'', ''h3'', ''h4'', ''h5'', ''h6'', ''i'', ''ol'', ''pre'', ''select'', ''strong'', ''textarea'', ''tt'', ''u'', ''ul'']
      (fold (tag_Set 0) [''br'', ''dd'', ''dt'', ''hr'', ''img'', ''li'', ''p'', ''input''] [])"

text \<open>The kind of a tag: none or -1 is removed, 1 is to be closed.\<close>

definition tag_kind :: "tags \<Rightarrow> bytes \<Rightarrow> int option" where
  "tag_kind tags tag = (case al_find tags tag of Some st \<Rightarrow> Some st | None \<Rightarrow> al_find myTags tag)"

definition count_tag :: "bool \<Rightarrow> bytes \<Rightarrow> int cmap \<Rightarrow> int cmap option" where
  "count_tag cl tag state =
    (let d = (if cl then - 1 else 1) in
     map_option snd (CMap_Set True state tag (case CMap_Find state tag of Some i \<Rightarrow> i + d | None \<Rightarrow> d)))"

text \<open>The name of a tag, after \<^verbatim>\<open><\<close>: is it closing, the name, and the text after it. The scan for the end of
  the name does not stop at the end of the text.\<close>

definition tag_name :: "bytes \<Rightarrow> bool \<times> bytes \<times> bytes" where
  "tag_name p =
    (let cl = take 1 p = ''/''; p = (if cl then dropWhile c_isspace (tl p) else p);
         name = takeWhile (\<lambda>c. \<not> c_isspace c \<and> c \<noteq> CHR ''>'') p
     in (cl, name, drop (length name) p))"

lemma tag_name_shorter: "tag_name p = (cl, name, q) \<Longrightarrow> length q \<le> length p"
  using length_dropWhile_le [of c_isspace "tl p"] by (auto simp: tag_name_def Let_def split: if_splits)

function clean_loop :: "tags \<Rightarrow> bytes \<Rightarrow> bytes \<Rightarrow> int cmap \<Rightarrow> (bytes \<times> int cmap) option" where
  "clean_loop tags out [] state = Some (out, state)"
| "clean_loop tags out (c # p) state =
    (if c = CHR ''<'' then
       (case tag_name p of (cl, name, q) \<Rightarrow>
          let r = dropWhile (\<lambda>x. x \<noteq> CHR ''>'') q; st = tag_kind tags name in
          if q = [] then None
          else if st = None \<or> st = Some (- 1) then clean_loop tags out (drop 1 r) state
          else
            (case (if st = Some 1 then count_tag cl name state else Some state) of
               None \<Rightarrow> None
             | Some state \<Rightarrow>
                 clean_loop tags (out @ take (Suc (length p) - length (drop 1 r)) (c # p)) (drop 1 r) state))
     else clean_loop tags (out @ [c]) p state)"
  by pat_completeness auto
termination
proof (relation "measure (\<lambda>(tags, out, p, state). length p)", goal_cases)
  have *: "length (drop 1 (dropWhile P q)) < Suc (length p)" if "(cl, y) = tag_name p" "(name, q) = y" for P p cl y name and q :: bytes
    using length_dropWhile_le [of P q] tag_name_shorter [of p cl name q] that by simp
  {
    case 2 then show ?case by (simp only: in_measure split_conv list.size add_0_right add_Suc_right) (rule *)
  next
    case 3 then show ?case by (simp only: in_measure split_conv list.size add_0_right add_Suc_right) (rule *)
  }
qed simp_all

definition closers :: "(bytes \<times> int) list \<Rightarrow> bytes" where
  "closers es = concat (map (\<lambda>(tc, left). concat (replicate (nat left) (''</'' @ cstr tc @ ''>''))) es)"

definition add_tags :: "int \<Rightarrow> bytes \<Rightarrow> tags \<Rightarrow> tags res" where
  "add_tags v list tags =
    (if list = [] then Ok tags
     else (case ParseAry list '',;'' of Ok ary \<Rightarrow> Ok (fold (tag_Set v) ary tags) | r \<Rightarrow> failed r))"

definition res_bind :: "'a res \<Rightarrow> ('a \<Rightarrow> 'b res) \<Rightarrow> 'b res" where
  "res_bind r f = (case r of Ok x \<Rightarrow> f x | _ \<Rightarrow> failed r)"

definition HtmlClean :: "tags \<Rightarrow> bytes \<Rightarrow> bytes option" where
  "HtmlClean tags html =
    Option.bind CMapStr (\<lambda>state.
      Option.bind (clean_loop tags [] (cstr html) state) (\<lambda>(out, state).
        map_option (\<lambda>es. out @ closers es) (CMap_enum state)))"

text \<open>The text is written to \<^verbatim>\<open>out\<close> as it is cleaned; a run past its end is \<^const>\<open>Crash\<close>.\<close>

definition EvalHtmlClean :: "ostream \<Rightarrow> qargs \<Rightarrow> unit run" where
  "EvalHtmlClean out args =
    (if Count args > 0 then
       (case res_bind (add_tags 0 (GetAt args 2) []) (\<lambda>tags. res_bind (add_tags 1 (GetAt args 3) tags) (add_tags (- 1) (GetAt args 1))) of
          Ok tags \<Rightarrow> (case HtmlClean tags (GetAt args 0) of Some s \<Rightarrow> PutS out s | None \<Rightarrow> fail Crash)
        | r \<Rightarrow> fail (failed r))
     else ret ())"

definition c_isprint :: "char \<Rightarrow> bool" where
  "c_isprint c = (32 \<le> uc c \<and> uc c \<le> 126)"

lemmas [c_char] = c_isprint_def

definition html_char :: "char \<Rightarrow> bytes" where
  "html_char c =
    (if c = CHR ''>'' then ''&gt;'' else if c = CHR ''<'' then ''&lt;'' else if c = CHR ''&'' then ''&amp;''
     else if c = DQ then ''&quot;''
     else if c_isprint c \<or> c_isspace c then [c]
     else ''&#'' @ itoa (int (uc c)) @ '';'')"

definition EvalHtmlQuote :: "ostream \<Rightarrow> qargs \<Rightarrow> unit run" where
  "EvalHtmlQuote out args =
    (if Count args > 0 then each (\<lambda>c. PutS out (html_char c)) (cstr (GetAt args 0)) else ret ())"

text \<open>A tag and an entity are skipped up to their last character, which counts.\<close>

function len_loop :: "bytes \<Rightarrow> int \<Rightarrow> int option" where
  "len_loop [] l = Some l"
| "len_loop (c # p) l =
    (if c = CHR ''<'' then
       (let q = dropWhile (\<lambda>x. x \<noteq> CHR ''>'') p in if q = [] then None else len_loop q l)
     else if c = CHR ''&'' then
       (let q = dropWhile (\<lambda>x. x \<noteq> CHR '';'') p in if q = [] then None else len_loop q l)
     else len_loop p (l + 1))"
  by pat_completeness auto
termination
  by (relation "measure (\<lambda>(p, l). length p)") (auto simp: less_Suc_eq_le length_dropWhile_le)

definition EvalHtmlLen :: "ostream \<Rightarrow> qargs \<Rightarrow> unit run" where
  "EvalHtmlLen out args =
    (if Count args > 0 then
       (if GetAt args 0 = [] then fail Crash
        else (case len_loop (cstr (GetAt args 0)) 0 of Some l \<Rightarrow> PutN out l | None \<Rightarrow> fail Crash))
     else ret ())"

end
