(* ===== verification/WebFacts.thy ===== *)
theory WebFacts
  imports Web "HOL-Library.Code_Target_Nat"
begin

text \<open>What the coding of URLs, form strings and multi-part bodies does, and where it fails.\<close>

section \<open>URL coding\<close>

definition hex_text :: "char \<Rightarrow> bytes" where
  "hex_text c = [u2hex (drop_bit 4 (uc c)), u2hex (uc c AND 15)]"

lemma less_16: "n < 16 \<Longrightarrow> n \<in> {0, 1, 2, 3, 4, 5, 6, 7, 8, 9, 10, 11, 12, 13, 14, 15 :: nat}"
  by (simp, arith)

lemma u2hex_digit: "n < 16 \<Longrightarrow> c_isxdigit (u2hex n) \<and> hex2int (u2hex n) = int n"
  by (drule less_16) (auto simp: u2hex_def hex2int_def c_char simp del: One_nat_def)

lemma nibbles: "drop_bit 4 (uc c) < 16" "uc c AND 15 < 16"
proof -
  have "uc c AND 15 = take_bit 4 (uc c)" by (simp add: take_bit_eq_mask mask_eq_exp_minus_1)
  then show "uc c AND 15 < 16" by (simp add: take_bit_eq_mod)
  show "drop_bit 4 (uc c) < 16" using uc_less [of c] by (simp add: drop_bit_eq_div less_mult_imp_div_less)
qed

lemma hex_text_byte: "hex_pair (hex_text c @ s) \<and> hex_byte (hex_text c @ s) = c"
proof -
  have "push_bit 4 (drop_bit 4 (uc c)) OR (uc c AND mask 4) = uc c"
    by (rule bit_eqI) (auto simp: bit_simps)
  then have "push_bit 4 (drop_bit 4 (uc c)) OR (uc c AND 15) = uc c" by (simp add: mask_eq_exp_minus_1)
  then have "nat (push_bit 4 (int (drop_bit 4 (uc c))) OR int (uc c AND 15)) = uc c"
    unfolding push_bit_of_nat of_nat_or_eq [symmetric] nat_int .
  then show ?thesis using u2hex_digit [OF nibbles(1) [of c]] u2hex_digit [OF nibbles(2) [of c]] by (simp add: hex_text_def hex_byte_def)
qed

lemma url_char_cases:
  obtains "c = CHR '' ''" "url_char c = ''+''"
  | "url_char c = CHR ''%'' # hex_text c"
  | "url_char c = [c]" "c \<notin> {CHR '' '', CHR ''+'', CHR ''%'', CHR ''&'', CHR ''='', CHR ''?'', NUL}"
proof -
  have plain: "c \<notin> {CHR '' '', CHR ''+'', CHR ''%'', CHR ''&'', CHR ''='', CHR ''?'', NUL}"
    if "\<not> uc c \<le> 41" "\<not> (58 \<le> uc c \<and> uc c \<le> 64)" "c \<noteq> CHR ''+''"
    using that by (auto simp: uc_def)
  show thesis
  proof (cases "c = CHR '' ''")
    case True
    then show thesis by (intro that(1)) (simp_all add: url_char_def)
  next
    case blank: False
    show thesis
    proof (cases "c \<in> {CHR ''/'', BSL, CHR ''+'', CHR '','', CHR 0x60} \<or> uc c \<le> 41 \<or> uc c \<ge> 123 \<or> 58 \<le> uc c \<and> uc c \<le> 64")
      case True
      with blank have "url_char c = CHR ''%'' # hex_text c" unfolding url_char_def hex_text_def by (simp only: if_True if_False)
      then show thesis by (rule that(2))
    next
      case False
      with blank have "url_char c = [c]" unfolding url_char_def by (simp only: if_False)
      then show thesis using False plain by (intro that(3)) simp_all
    qed
  qed
qed

lemma url_loop_char [simp]: "url_loop (url_char c @ s) = c # url_loop s"
  by (rule url_char_cases [of c]) (use hex_text_byte [of c s] in \<open>auto simp: hex_text_def\<close>)

lemma url_loop_encode: "url_loop (concat (map url_char s)) = s"
  by (induction s) auto

definition url_safe :: "char set" where
  "url_safe = {c. c_isalnum c \<or> c \<in> set ''%+*-._[]^''}"

lemma url_char_safe: "set (url_char c) \<subseteq> url_safe"
proof (rule url_char_cases [of c])
  assume c: "url_char c = CHR ''%'' # hex_text c"
  have "n < 16 \<Longrightarrow> u2hex n \<in> url_safe" for n
    using u2hex_digit [of n] unfolding c_isxdigit_def url_safe_def c_isalnum_def c_isalpha_def c_isupper_def c_islower_def by auto
  moreover note nibbles [of c]
  ultimately show ?thesis using c by (simp add: hex_text_def) (simp add: url_safe_def)
next
  assume c: "url_char c = [c]" "c \<notin> {CHR '' '', CHR ''+'', CHR ''%'', CHR ''&'', CHR ''='', CHR ''?'', NUL}"
  then have n: "uc c \<notin> {47, 92, 43, 44, 96}" "\<not> uc c \<le> 41" "uc c < 123" "\<not> (58 \<le> uc c \<and> uc c \<le> 64)"
  proof -
    have "\<not> (c \<in> {CHR ''/'', BSL, CHR ''+'', CHR '','', CHR 0x60} \<or> uc c \<le> 41 \<or> uc c \<ge> 123 \<or> 58 \<le> uc c \<and> uc c \<le> 64)"
      using c unfolding url_char_def by (metis insert_iff list.inject not_Cons_self2)
    then show "uc c \<notin> {47, 92, 43, 44, 96}" "\<not> uc c \<le> 41" "uc c < 123" "\<not> (58 \<le> uc c \<and> uc c \<le> 64)"
      unfolding uc_inject [symmetric] insert_iff by (simp_all add: uc_def)
  qed
  have "(65 \<le> k \<and> k \<le> 90 \<or> 97 \<le> k \<and> k \<le> 122) \<or> 48 \<le> k \<and> k \<le> 57 \<or> k \<in> {42, 45, 46, 91, 93, 94, 95}"
    if "k \<notin> {47, 92, 43, 44, 96}" "\<not> k \<le> 41" "k < 123" "\<not> (58 \<le> k \<and> k \<le> 64)" for k :: nat
    using that by (simp, presburger)
  from this [OF n] have "c_isalnum c \<or> uc c \<in> {42, 45, 46, 91, 93, 94, 95}"
    unfolding c_isalnum_def c_isalpha_def c_isdigit_def c_isupper_def c_islower_def by (simp only: disj_assoc)
  then have "c \<in> url_safe" by (auto simp: url_safe_def uc_inject [symmetric]) (simp_all add: uc_def)
  then show ?thesis using c(1) by simp
qed (simp add: url_safe_def)

lemma url_text_safe: "set (concat (map url_char s)) \<subseteq> url_safe"
  using url_char_safe by (simp add: UN_least)

lemma url_safe_no_NUL: "NUL \<notin> url_safe"
  by (simp add: url_safe_def c_char)

lemma UrlEncode_cstr: "UrlEncode s = concat (map url_char (cstr s))"
  by (simp add: UrlEncode_def)

lemma cstr_safe: "set s \<subseteq> url_safe \<Longrightarrow> cstr s = s"
  using url_safe_no_NUL by (intro cstr_id) auto

lemma UrlEncode_safe: "set (UrlEncode s) \<subseteq> url_safe"
  unfolding UrlEncode_cstr by (rule url_text_safe)

lemma UrlEncode_no_NUL [simp]: "NUL \<notin> set (UrlEncode s)"
  using UrlEncode_safe url_safe_no_NUL by blast

lemma UrlEncode_Nil: "UrlEncode s = [] \<longleftrightarrow> cstr s = []"
  using url_loop_encode [of "cstr s"] unfolding UrlEncode_cstr by (metis concat.simps(1) list.simps(8) url_loop.simps(1))

lemma UrlDecode_encode: "UrlDecode (UrlEncode s) = cstr s"
proof -
  have "cstr (UrlEncode s) = UrlEncode s" using url_text_safe by (simp add: UrlEncode_cstr cstr_safe)
  then show ?thesis using url_loop_encode [of "cstr s"] UrlEncode_Nil [of s] by (simp add: UrlDecode_def UrlEncode_cstr)
qed

text \<open>C20: Decoding an encoded text gives the text back, up to its terminator, and an encoded text has only
characters that stand for themselves in a form string: no separator, no blank and no mark-up.\<close>

theorem url_round_trip: "UrlDecode (UrlEncode s) = cstr s \<and> set (UrlEncode s) \<subseteq> url_safe"
  by (intro conjI UrlDecode_encode UrlEncode_safe)

section \<open>What a form holds\<close>

definition vals_of :: "(bytes \<times> bytes) list \<Rightarrow> bytes \<Rightarrow> bytes list" where
  "vals_of ps k = map snd (filter (\<lambda>p. fold_case (fst p) = fold_case k) ps)"

primrec set_all :: "(bytes \<times> bytes) list \<Rightarrow> form \<Rightarrow> form option" where
  "set_all [] m = Some m"
| "set_all (p # ps) m = Option.bind (lst_Set m (fst p) (snd p)) (set_all ps)"

definition held :: "form \<Rightarrow> bytes \<Rightarrow> bytes list" where
  "held m k = (case CMap_Find m k of Some vs \<Rightarrow> vs | None \<Rightarrow> [])"

lemma lst_Set_ok:
  assumes "map_ok m" "CMap_Count m < map_cap"
  shows "\<exists>m'. lst_Set m k v = Some m' \<and> map_ok m' \<and> CMap_Count m' \<le> Suc (CMap_Count m)
    \<and> (\<forall>k'. CMap_Find m' k' = (if fold_case k' = fold_case k then Some (held m k @ [v]) else CMap_Find m k'))"
  using cmap.set_ok [OF assms, of True k "held m k @ [v]"]
  by (auto simp: lst_Set_def held_def split: option.splits)

lemma find_fold_case: "map_ok m \<Longrightarrow> fold_case k = fold_case k' \<Longrightarrow> CMap_Find m k = CMap_Find m k'"
  using cmap.del_ok [of m k] cmap.del_ok [of m k'] names.lookup_iff [of "m_H m" k] names.lookup_iff [of "m_H m" k']
  by (cases "hash_lookup (m_H m) k"; cases "hash_lookup (m_H m) k'") (auto simp: CMap_Find_def map_ok_def)

lemma set_all_ok:
  "map_ok m \<Longrightarrow> CMap_Count m + length ps \<le> map_cap \<Longrightarrow>
    \<exists>m'. set_all ps m = Some m' \<and> map_ok m' \<and> CMap_Count m' \<le> CMap_Count m + length ps
      \<and> (\<forall>k. CMap_Find m' k = (if vals_of ps k = [] then CMap_Find m k else Some (held m k @ vals_of ps k)))"
proof (induction ps arbitrary: m)
  case (Cons p ps)
  have "CMap_Count m < map_cap" using Cons.prems(2) by simp
  then obtain m1 where m1: "lst_Set m (fst p) (snd p) = Some m1" "map_ok m1" "CMap_Count m1 \<le> Suc (CMap_Count m)"
      "\<And>k'. CMap_Find m1 k' = (if fold_case k' = fold_case (fst p) then Some (held m (fst p) @ [snd p]) else CMap_Find m k')"
    using lst_Set_ok [OF Cons.prems(1), of "fst p" "snd p"] by blast
  obtain m' where m': "set_all ps m1 = Some m'" "map_ok m'" "CMap_Count m' \<le> CMap_Count m1 + length ps"
      "\<And>k. CMap_Find m' k = (if vals_of ps k = [] then CMap_Find m1 k else Some (held m1 k @ vals_of ps k))"
    using Cons.IH [OF m1(2)] m1(3) Cons.prems(2) by auto
  have "CMap_Find m' k = (if vals_of (p # ps) k = [] then CMap_Find m k else Some (held m k @ vals_of (p # ps) k))" for k
    using m'(4) [of k] m1(4) [of k] find_fold_case [OF Cons.prems(1), of k "fst p"]
    by (auto simp: vals_of_def held_def)
  then show ?case using m1(1,3) m'(1-3) by auto
qed (simp add: vals_of_def)

section \<open>Form strings\<close>

lemma value_loop_char: "value_loop (url_char c @ s) v = value_loop s (v @ [c])"
  by (rule url_char_cases [of c]) (use hex_text_byte [of c s] in \<open>auto simp: hex_text_def\<close>)

lemma value_loop_encode: "value_loop (concat (map url_char t) @ s) v = value_loop s (v @ t)"
  by (induction t arbitrary: v) (simp_all add: value_loop_char)

abbreviation seps :: "char set" where
  "seps \<equiv> {CHR ''='', CHR ''&'', CHR ''?''}"

lemma form_loop_name: "set x \<inter> seps = {} \<Longrightarrow> form_loop (x @ s) n v m = form_loop s (n @ x) v m"
  by (induction x arbitrary: n) auto

lemma form_loop_pair:
  assumes "set e \<inter> seps = {}"
  shows "form_loop (e @ ''='' @ concat (map url_char t) @ ''&'' @ s) [] v m
      = Option.bind (lst_Set m (UrlDecode e) t) (form_loop s [] (Some t))"
    and "form_loop (e @ ''='' @ concat (map url_char t)) [] v m = form_loop [] e (Some t) m"
  using value_loop_encode [of t "''&'' @ s" "[]"] value_loop_encode [of t "[]" "[]"]
  by (simp_all add: form_loop_name [OF assms] split: option.splits bind_splits)

text \<open>The text of a form, every field with a separator after it. A name is given as it is written.\<close>

definition field_text :: "bytes \<times> bytes \<Rightarrow> bytes" where
  "field_text f = fst f @ ''='' @ UrlEncode (snd f) @ ''&''"

lemma form_loop_fields:
  assumes "\<forall>f \<in> set fs. set (fst f) \<inter> seps = {}"
  shows "form_loop (concat (map field_text fs) @ s) [] v m
    = Option.bind (set_all (map (map_prod UrlDecode cstr) fs) m)
        (form_loop s [] (if fs = [] then v else Some (cstr (snd (last fs)))))"
  using assms
proof (induction fs arbitrary: v m)
  case (Cons f fs)
  have "form_loop (concat (map field_text (f # fs)) @ s) [] v m =
      Option.bind (lst_Set m (UrlDecode (fst f)) (cstr (snd f))) (form_loop (concat (map field_text fs) @ s) [] (Some (cstr (snd f))))"
    using form_loop_pair(1) [of "fst f" "cstr (snd f)" "concat (map field_text fs) @ s" v m] Cons.prems
    by (simp add: field_text_def UrlEncode_cstr)
  also have "\<dots> = Option.bind (lst_Set m (UrlDecode (fst f)) (cstr (snd f)))
      (\<lambda>m. Option.bind (set_all (map (map_prod UrlDecode cstr) fs) m)
        (form_loop s [] (Some (cstr (snd (last (f # fs)))))))"
    using Cons by (cases "lst_Set m (UrlDecode (fst f)) (cstr (snd f))") auto
  finally show ?case by (simp add: Option.bind_assoc)
qed simp

lemma url_safe_seps: "set s \<subseteq> url_safe \<Longrightarrow> set s \<inter> seps = {}"
  unfolding url_safe_def by (auto simp: c_char)

definition form_text :: "(bytes \<times> bytes) list \<Rightarrow> bytes" where
  "form_text ps = concat (map (\<lambda>p. field_text (UrlEncode (fst p), snd p)) ps)"

abbreviation terminated :: "(bytes \<times> bytes) list \<Rightarrow> (bytes \<times> bytes) list" where
  "terminated \<equiv> map (map_prod cstr cstr)"

lemma ParseFormString_text:
  assumes "NUL \<notin> set s"
  shows "ParseFormString (form_text ps @ s) m
    = Option.bind (set_all (terminated ps) m)
        (form_loop s [] (if ps = [] then None else Some (cstr (snd (last ps)))))"
proof -
  let ?fs = "map (apfst UrlEncode) ps"
  have "NUL \<notin> set (form_text ps @ s)"
    using assms by (auto simp: form_text_def field_text_def)
  then have "ParseFormString (form_text ps @ s) m = form_loop (concat (map field_text ?fs) @ s) [] None m"
    by (simp add: ParseFormString_def cstr_id form_text_def comp_def apfst_def map_prod_def case_prod_beta)
  also have "\<dots> = Option.bind (set_all (map (map_prod UrlDecode cstr) ?fs) m)
        (form_loop s [] (if ?fs = [] then None else Some (cstr (snd (last ?fs)))))"
    using url_safe_seps [OF UrlEncode_safe] by (intro form_loop_fields) auto
  also have "map (map_prod UrlDecode cstr) ?fs = terminated ps"
    by (auto simp: UrlDecode_encode)
  finally show ?thesis by (simp add: last_map)
qed

text \<open>C0: A form string with every field ended by a separator, names and values encoded, fills a new form with
exactly these fields: a lookup under a name in any case finds its values in their order, empty ones included.\<close>

theorem form_string_values:
  assumes "length ps \<le> map_cap"
  shows "\<exists>m0 m. CMapStr = Some m0 \<and> ParseFormString (form_text ps) m0 = Some m
    \<and> (\<forall>k. CMap_Find m k = (if vals_of (terminated ps) k = [] then None else Some (vals_of (terminated ps) k)))"
proof -
  obtain m0 :: form where m0: "CMapStr = Some m0" "map_ok m0" "CMap_Count m0 = 0" "\<And>k. CMap_Find m0 k = None"
    using cmap.empty_ok by blast
  obtain m where m: "set_all (terminated ps) m0 = Some m"
      "\<And>k. CMap_Find m k = (if vals_of (terminated ps) k = [] then CMap_Find m0 k else Some (held m0 k @ vals_of (terminated ps) k))"
    using set_all_ok [OF m0(2), of "terminated ps"] m0(3) assms by auto
  have "ParseFormString (form_text ps) m0 = Some m"
    using ParseFormString_text [of "[]" ps m0] m(1) by (simp split: option.splits)
  moreover have "held m0 k = []" for k using m0(4) by (simp add: held_def)
  ultimately show ?thesis using m0(1,4) m(2) by auto
qed

theorem form_string_values_witness:
  "\<exists>m0 m. CMapStr = Some m0 \<and> ParseFormString (form_text [(''a'', ''x y''), (''b'', []), (''A'', ''2'')]) m0 = Some m
    \<and> CMap_Find m ''A'' = Some [''x y'', ''2''] \<and> CMap_Find m ''b'' = Some [[]] \<and> CMap_Find m ''c'' = None"
proof -
  let ?ps = "[(''a'', ''x y''), (''b'', []), (''A'', ''2'')] :: (bytes \<times> bytes) list"
  have "length ?ps \<le> map_cap" by (simp add: map_cap_def)
  moreover have "vals_of (terminated ?ps) ''A'' = [''x y'', ''2'']" "vals_of (terminated ?ps) ''b'' = [[]]"
      "vals_of (terminated ?ps) ''c'' = []" by code_simp+
  ultimately show ?thesis using form_string_values [of ?ps] by (metis list.distinct(1))
qed

text \<open>C24: A last field without a separator after it is dropped when its value is empty; a last name without
a value gets the value of the field before it.\<close>

theorem form_last_field:
  "ParseFormString (form_text ps @ UrlEncode k @ ''='' @ UrlEncode v) m
     = Option.bind (set_all (terminated ps) m)
         (\<lambda>m. if cstr k \<noteq> [] \<and> cstr v \<noteq> [] then lst_Set m (cstr k) (cstr v) else Some m)
   \<and> ParseFormString (form_text ps @ UrlEncode k) m
     = Option.bind (set_all (terminated ps) m)
         (\<lambda>m. if cstr k \<noteq> [] \<and> ps \<noteq> [] \<and> cstr (snd (last ps)) \<noteq> [] then lst_Set m (cstr k) (cstr (snd (last ps))) else Some m)"
proof -
  have k: "set (UrlEncode k) \<inter> seps = {}" "NUL \<notin> set (UrlEncode k @ ''='' @ UrlEncode v)"
    using url_safe_seps [OF UrlEncode_safe] by auto
  have a: "form_loop (UrlEncode k @ ''='' @ UrlEncode v) [] u m =
        (if cstr k \<noteq> [] \<and> cstr v \<noteq> [] then lst_Set m (cstr k) (cstr v) else Some m)"
      "form_loop (UrlEncode k) [] u m = (case u of Some w \<Rightarrow> if cstr k \<noteq> [] \<and> w \<noteq> [] then lst_Set m (cstr k) w else Some m | None \<Rightarrow> Some m)" for u m
    using form_loop_pair(2) [OF k(1), of "cstr v"] form_loop_name [OF k(1), of "[]"] UrlEncode_Nil [of k]
    by (simp_all add: UrlEncode_cstr [of v] UrlDecode_encode split: option.splits)
  show ?thesis
    using ParseFormString_text [of "UrlEncode k @ ''='' @ UrlEncode v" ps m] ParseFormString_text [of "UrlEncode k" ps m] k by (simp add: a [simplified append.simps, abs_def])
qed

section \<open>Form macros\<close>

lemma PutS_append [simp]: "sq (PutS out a) (PutS out b) = PutS out (a @ b)"
proof
  fix w
  show "sq (PutS out a) (PutS out b) w = PutS out (a @ b) w"
    by (cases "out < length (w_outs w)"; cases "w_outs w ! out") (simp_all add: sq_def bnd_def PutS_def list_update_beyond)
qed

lemma PutS_Nil [simp]: "PutS out [] = ret ()"
proof -
  have "put [] b = b" for b by (cases b) auto
  then show ?thesis by (simp add: fun_eq_iff PutS_def ret_def)
qed

lemma sq_ret [simp]: "sq (ret ()) f = f" "sq (PutS out a) (ret ()) = PutS out a"
  using PutS_append [of out a "[]"] by (simp_all add: sq_def)

lemma each_PutS: "(\<And>x. x \<in> set xs \<Longrightarrow> f x = PutS out (g x)) \<Longrightarrow> each f xs = PutS out (concat (map g xs))"
  by (induction xs) simp_all

text \<open>What \<^verbatim>\<open>client-state\<close> writes: the fields as stored, the values encoded.\<close>

definition fields_of :: "(bytes \<times> bytes list) list \<Rightarrow> (bytes \<times> bytes) list" where
  "fields_of es = concat (map (\<lambda>(name, vals). map (Pair name) vals) es)"

lemma state_vals_text:
  "state_vals out name vals = PutS out (concat (map field_text (map (Pair (cstr name)) vals)))"
  by (induction vals) (simp_all add: PutZ_def PutC_def field_text_def)

lemma EvalClientStateP_text:
  assumes "CMap_enum (myFormMap cgi) = Some es"
  shows "EvalClientStateP (Some env) cgi out = PutS out (concat (map field_text (fields_of (map (apfst cstr) es))))"
proof -
  have "each (\<lambda>(name, vals). state_vals out name vals) es
      = PutS out (concat (map (\<lambda>e. concat (map field_text (map (Pair (cstr (fst e))) (snd e)))) es))"
    by (rule each_PutS) (auto simp: state_vals_text)
  moreover have "concat (map field_text (fields_of (map (apfst cstr) es)))
      = concat (map (\<lambda>e. concat (map field_text (map (Pair (cstr (fst e))) (snd e)))) es)"
    by (induction es) (auto simp: fields_of_def)
  ultimately show ?thesis using assms by (simp add: EvalClientStateP_def)
qed

text \<open>A form whose names stand for themselves in a form string, with a value for every name.\<close>

definition plain_form :: "form \<Rightarrow> bool" where
  "plain_form m \<longleftrightarrow> map_ok m \<and>
    (case CMap_enum m of None \<Rightarrow> False | Some es \<Rightarrow> length (fields_of es) \<le> map_cap \<and>
      (\<forall>e \<in> set es. set (cstr (fst e)) \<inter> (seps \<union> {CHR ''%'', CHR ''+''}) = {} \<and> snd e \<noteq> [] \<and> (\<forall>v \<in> set (snd e). NUL \<notin> set v)))"

lemma url_loop_plain: "CHR ''%'' \<notin> set s \<Longrightarrow> CHR ''+'' \<notin> set s \<Longrightarrow> url_loop s = s"
  by (induction s) auto

lemma fold_case_cstr [simp]: "fold_case (cstr k) = fold_case k"
  by (simp add: fold_case_def cstr_idem)

lemma vals_of_append [simp]: "vals_of (ps @ qs) k = vals_of ps k @ vals_of qs k"
  by (simp add: vals_of_def)

lemma vals_of_fields:
  assumes "distinct (map (fold_case \<circ> fst) es)"
  shows "vals_of (fields_of es) k = (case map_of (map (apfst fold_case) es) (fold_case k) of Some vs \<Rightarrow> vs | None \<Rightarrow> [])"
  using assms
proof (induction es)
  case (Cons e es)
  have "vals_of (map (Pair (fst e)) (snd e)) k = (if fold_case (fst e) = fold_case k then snd e else [])"
    by (simp add: vals_of_def comp_def filter_map)
  then have e: "vals_of (fields_of (e # es)) k = (if fold_case (fst e) = fold_case k then snd e else []) @ vals_of (fields_of es) k"
    by (simp add: fields_of_def case_prod_beta)
  have "map_of (map (apfst fold_case) es) (fold_case (fst e)) = None"
    using Cons.prems by (auto simp: map_of_eq_None_iff image_iff)
  then show ?case using Cons e by (cases e) (auto split: option.splits)
qed (simp add: fields_of_def vals_of_def)

text \<open>C12: What \<^verbatim>\<open>client-state\<close> writes of a form, parsed as a form string, gives the form back, provided that no name
has a character that means something in a form string: names are written as they are.\<close>

theorem client_state_round_trip:
  assumes "plain_form (myFormMap cgi)"
  shows "\<exists>text m0 m. EvalClientStateP (Some env) cgi out = PutS out text \<and> CMapStr = Some m0 \<and> ParseFormString text m0 = Some m
    \<and> (\<forall>k. CMap_Find m k = CMap_Find (myFormMap cgi) k)"
proof -
  let ?m = "myFormMap cgi"
  have ok: "map_ok ?m" using assms by (simp add: plain_form_def)
  obtain es where es: "CMap_enum ?m = Some es" "distinct (map (fold_case \<circ> fst) es)"
      "\<And>k d. CMap_Find ?m k = Some d \<longleftrightarrow> (fold_case k, d) \<in> set (map (apfst fold_case) es)"
    using CMap_enum_complete [OF ok] by blast
  have plain: "set (cstr (fst e)) \<inter> seps = {}" "UrlDecode (cstr (fst e)) = cstr (fst e)"
      "snd e \<noteq> []" "v \<in> set (snd e) \<Longrightarrow> cstr v = v" if "e \<in> set es" for e v
    using assms that es(1) by (auto simp: plain_form_def UrlDecode_def url_loop_plain cstr_idem intro: cstr_id)
  let ?fs = "fields_of (map (apfst cstr) es)" and ?text = "concat (map field_text (fields_of (map (apfst cstr) es)))"
  have names: "\<forall>f \<in> set ?fs. set (fst f) \<inter> seps = {} \<and> UrlDecode (fst f) = fst f \<and> cstr (snd f) = snd f \<and> NUL \<notin> set (fst f)"
    using plain by (fastforce simp: fields_of_def)
  obtain m0 :: form where m0: "CMapStr = Some m0" "map_ok m0" "CMap_Count m0 = 0" "\<And>k. CMap_Find m0 k = None"
    using cmap.empty_ok by blast
  have "length ?fs = length (fields_of es)" by (simp add: fields_of_def length_concat comp_def case_prod_beta)
  then have "CMap_Count m0 + length ?fs \<le> map_cap" using assms es(1) m0(3) by (simp add: plain_form_def)
  then obtain m where m: "set_all ?fs m0 = Some m"
      "\<And>k. CMap_Find m k = (if vals_of ?fs k = [] then None else Some (vals_of ?fs k))"
    using set_all_ok [OF m0(2), of ?fs] m0(4) by (auto simp: held_def)
  have "map (map_prod UrlDecode cstr) ?fs = ?fs" using names by (intro map_idI) auto
  moreover have "cstr ?text = ?text" using names by (intro cstr_id) (auto simp: field_text_def)
  ultimately have parsed: "ParseFormString ?text m0 = Some m"
    using form_loop_fields [of ?fs "[]" None m0] names m(1) by (simp add: ParseFormString_def split: option.splits)
  have "map (fold_case \<circ> fst) (map (apfst cstr) es) = map (fold_case \<circ> fst) es" by simp
  then have d: "distinct (map (fold_case \<circ> fst) (map (apfst cstr) es))" by (simp only: es(2))
  have same: "map (apfst fold_case) (map (apfst cstr) es) = map (apfst fold_case) es" by auto
  have "CMap_Find m k = CMap_Find ?m k" for k
  proof (cases "CMap_Find ?m k")
    case None
    then have "map_of (map (apfst fold_case) es) (fold_case k) = None" 
      using es(3) [of k] map_of_SomeD [of "map (apfst fold_case) es" "fold_case k"]
      by (cases "map_of (map (apfst fold_case) es) (fold_case k)") simp_all
    then show ?thesis using None m(2) [of k] vals_of_fields [OF d, of k] unfolding same by simp
  next
    case (Some d')
    then have "(fold_case k, d') \<in> set (map (apfst fold_case) es)" using es(3) by blast
    moreover have "distinct (map fst (map (apfst fold_case) es))" using es(2) by (simp add: comp_def)
    ultimately have *: "map_of (map (apfst fold_case) es) (fold_case k) = Some d'" by (simp add: map_of_eq_Some_iff)
    obtain e where "e \<in> set es" "snd e = d'" using \<open>(fold_case k, d') \<in> _\<close> by auto
    then have "d' \<noteq> []" using plain(3) by blast
    then show ?thesis using Some * m(2) [of k] vals_of_fields [OF d, of k] unfolding same by simp
  qed
  then show ?thesis using EvalClientStateP_text [OF es(1), of env out] m0(1) parsed by blast
qed

lemma one_field:
  assumes "fold_case name = ''k''"
  shows "\<exists>m. map_ok m \<and> CMap_Find m name = Some [v] \<and> (NUL \<notin> set v \<longrightarrow> plain_form m)"
proof -
  obtain m0 :: form where m0: "map_ok m0" "CMap_Count m0 = 0" "\<And>k. CMap_Find m0 k = None"
    using cmap.empty_ok by blast
  have "CMap_Count m0 < map_cap" using m0(2) by (simp add: map_cap_def)
  from cmap.set_ok [OF m0(1) this, of True name "[v]"] m0 obtain m where
    m: "map_ok m" "CMap_Count m = 1" "\<And>k. CMap_Find m k = (if fold_case k = ''k'' then Some [v] else None)"
    using assms by auto
  obtain n vs where es: "CMap_enum m = Some [(n, vs)]" "\<And>k d. CMap_Find m k = Some d \<longleftrightarrow> fold_case k = fold_case n \<and> d = vs"
    using CMap_enum_complete [OF m(1)] m(2) by (auto simp: length_Suc_conv)
  have n: "fold_case n = ''k''" "vs = [v]" using es(2) [of n vs] m(3) [of n] by (simp_all split: if_splits)
  then obtain c where c: "cstr n = [c]" "c_tolower c = CHR ''k''" by (auto simp: fold_case_def)
  have "c \<notin> seps \<union> {CHR ''%'', CHR ''+''}" using c(2) by (auto simp: c_char)
  then have "plain_form m" if "NUL \<notin> set v" using that es(1) n c(1) m(1) by (simp add: plain_form_def fields_of_def map_cap_def)
  then show ?thesis using m(1,3) assms by auto
qed

theorem client_state_round_trip_witness:
  "\<exists>env cgi text m0 m. EvalClientStateP (Some env) cgi 0 = PutS 0 text \<and> CMapStr = Some m0 \<and> ParseFormString text m0 = Some m
    \<and> CMap_Find m ''K'' = Some [''a&b'']"
proof -
  have "fold_case ''K'' = ''k''" by (simp add: fold_case_def cstr_def c_char char_of_def bit_0)
  then obtain f where f: "plain_form f" "CMap_Find f ''K'' = Some [''a&b'']"
    using one_field [of "''K''" "''a&b''"] by auto
  define cgi where "cgi = \<lparr>myFormMap = f, myFileMap = f, myClientBody = [], myClientBodyCopy = []\<rparr>"
  have "plain_form (myFormMap cgi)" using f(1) by (simp add: cgi_def)
  from client_state_round_trip [OF this, where env = env and out = 0] obtain s m0 m where
    "EvalClientStateP (Some env) cgi 0 = PutS 0 s" "CMapStr = Some m0" "ParseFormString s m0 = Some m"
    "CMap_Find m ''K'' = CMap_Find (myFormMap cgi) ''K''" by blast
  moreover have "CMap_Find (myFormMap cgi) ''K'' = Some [''a&b'']" using f(2) by (simp add: cgi_def)
  ultimately show ?thesis by metis
qed

fun commas :: "bytes list \<Rightarrow> bytes" where
  "commas [] = []"
| "commas [v] = v"
| "commas (v # w # vals) = v @ '','' @ commas (w # vals)"

lemma vals_loop_text: "[] \<notin> set vals \<Longrightarrow> vals_loop out vals = PutS out (commas vals)"
  by (induction vals rule: commas.induct) (auto simp: PutC_def)

lemma set_loop_all: "set_loop name vals m = set_all (map (Pair name) vals) m"
  by (induction vals arbitrary: m) (auto split: option.splits bind_splits)

text \<open>\<^verbatim>\<open>fset\<close> with a name and values replaces the values of that name by those given that are not empty and leaves
the other names alone; \<^verbatim>\<open>form\<close> then writes them, with commas between them.\<close>

theorem fset_then_form:
  assumes "map_ok (myFormMap cgi)" "GetAt args 0 \<noteq> []" "CMap_Count (myFormMap cgi) + Count args \<le> map_cap"
  shows "\<exists>cgi'. EvalFormSetP cgi args = Some cgi' \<and>
    (let vals = filter (\<lambda>v. v \<noteq> []) (drop 1 (qa_vals args)) in
     (\<forall>k. CMap_Find (myFormMap cgi') k =
        (if fold_case k = fold_case (GetAt args 0) then if vals = [] then None else Some vals else CMap_Find (myFormMap cgi) k)) \<and>
     (\<forall>out. EvalFormP cgi' out (Add no_args (GetAt args 0)) = PutS out (commas vals)))"
proof -
  let ?m = "myFormMap cgi" and ?name = "GetAt args 0" and ?vals = "filter (\<lambda>v. v \<noteq> []) (drop 1 (qa_vals args))"
  obtain m1 where m1: "CMap_Del ?m ?name = Some (CMap_Find ?m ?name, m1)" "map_ok m1" "CMap_Count m1 \<le> CMap_Count ?m"
      "\<And>k. CMap_Find m1 k = (if fold_case k = fold_case ?name then None else CMap_Find ?m k)"
  proof -
    obtain m1 where "CMap_Del ?m ?name = Some (CMap_Find ?m ?name, m1)" "map_ok m1"
        "CMap_Count m1 = (if CMap_Find ?m ?name = None then CMap_Count ?m else CMap_Count ?m - 1)"
        "\<And>k. CMap_Find m1 k = (if fold_case k = fold_case ?name then None else CMap_Find ?m k)"
      using cmap.del_ok [OF assms(1), of ?name] by blast
    then show thesis by (intro that [of m1]) simp_all
  qed
  define d where "d = (case CMap_Find ?m ?name of Some _ \<Rightarrow> map_option snd (CMap_Del ?m ?name) | None \<Rightarrow> Some ?m)"
  obtain m2 where m2: "d = Some m2" "map_ok m2" "CMap_Count m2 \<le> CMap_Count ?m"
      "\<And>k. CMap_Find m2 k = (if fold_case k = fold_case ?name then None else CMap_Find ?m k)"
  proof (cases "CMap_Find ?m ?name")
    case None
    then have "CMap_Find ?m k = None" if "fold_case k = fold_case ?name" for k
      using that find_fold_case [OF assms(1), of k ?name] by simp
    then show thesis using None assms(1) by (intro that [of ?m]) (auto simp: d_def)
  next
    case (Some vs)
    then show thesis using m1 by (intro that [of m1]) (auto simp: d_def)
  qed
  have "length ?vals \<le> Count args" unfolding Count_def by (rule order_trans [OF length_filter_le]) simp
  then have "CMap_Count m2 + length (map (Pair ?name) ?vals) \<le> map_cap" using m2(3) assms(3) by simp
  then obtain m' where m': "set_loop ?name ?vals m2 = Some m'"
      "\<And>k. CMap_Find m' k = (if vals_of (map (Pair ?name) ?vals) k = [] then CMap_Find m2 k else Some (held m2 k @ vals_of (map (Pair ?name) ?vals) k))"
    using set_all_ok [OF m2(2)] unfolding set_loop_all by metis
  have v: "vals_of (map (Pair ?name) ?vals) k = (if fold_case k = fold_case ?name then ?vals else [])" for k
    by (auto simp: vals_of_def comp_def filter_map)
  have find: "CMap_Find m' k = (if fold_case k = fold_case ?name then if ?vals = [] then None else Some ?vals else CMap_Find ?m k)" for k
    using m'(2) [of k] m2(4) [of k] unfolding v by (auto simp: held_def)
  have "EvalFormSetP cgi args = Some (cgi\<lparr>myFormMap := m'\<rparr>)"
    using m2(1) m'(1) assms(2) by (simp add: EvalFormSetP_def Let_def d_def)
  moreover have "EvalFormP (cgi\<lparr>myFormMap := m'\<rparr>) out (Add no_args ?name) = PutS out (commas ?vals)" for out
    using find [of ?name] by (auto simp: EvalFormP_def Add_def no_args_def GetAt_def [of "\<lparr>qa_vals = _, qa_opts = _, qa_n = _\<rparr>"] Count_def [of "\<lparr>qa_vals = _, qa_opts = _, qa_n = _\<rparr>"] vals_loop_text)
  ultimately show ?thesis using find by (auto simp: Let_def)
qed

definition fset_args :: qargs where
  "fset_args = \<lparr>qa_vals = [''q'', ''1'', [], ''2''], qa_opts = [], qa_n = 0\<rparr>"

theorem fset_then_form_witness:
  "\<exists>cgi cgi'. EvalFormSetP cgi fset_args = Some cgi' \<and> CMap_Find (myFormMap cgi') ''q'' = Some [''1'', ''2'']
    \<and> EvalFormP cgi' 0 (Add no_args ''q'') = PutS 0 ''1,2''"
proof -
  obtain f :: form where f: "map_ok f" "CMap_Count f = 0" using cmap.empty_ok by blast
  define cgi where "cgi = \<lparr>myFormMap = f, myFileMap = f, myClientBody = [], myClientBodyCopy = []\<rparr>"
  have "map_ok (myFormMap cgi)" "GetAt fset_args 0 \<noteq> []" "CMap_Count (myFormMap cgi) + Count fset_args \<le> map_cap"
    using f by (simp_all add: cgi_def fset_args_def GetAt_def Count_def map_cap_def)
  from fset_then_form [OF this] obtain cgi' where
    "EvalFormSetP cgi fset_args = Some cgi'"
    "let vals = filter (\<lambda>v. v \<noteq> []) (drop 1 (qa_vals fset_args)) in
     (\<forall>k. CMap_Find (myFormMap cgi') k =
        (if fold_case k = fold_case (GetAt fset_args 0) then if vals = [] then None else Some vals else CMap_Find (myFormMap cgi) k)) \<and>
     (\<forall>out. EvalFormP cgi' out (Add no_args (GetAt fset_args 0)) = PutS out (commas vals))" by blast
  moreover from this have "CMap_Find (myFormMap cgi') ''q'' = Some [''1'', ''2'']" "EvalFormP cgi' 0 (Add no_args ''q'') = PutS 0 ''1,2''"
    by (simp_all add: fset_args_def GetAt_def Count_def Let_def)
  ultimately show ?thesis by blast
qed

end
