(* ===== verification/WebParts.thy ===== *)
theory WebParts
  imports WebFacts "HOL-Library.Sublist"
begin

text \<open>Multi-part request bodies: those that browsers send are parsed into their parts; others make the parser read
through a null pointer or lose a field.\<close>

section \<open>Bodies\<close>

text \<open>The text of a boundary in a body.\<close>

abbreviation bound_text :: "bytes \<Rightarrow> bytes" where
  "bound_text bound \<equiv> NL # ''--'' @ bound"

lemma at_bound_prefix: "at_bound bound p \<longleftrightarrow> prefix (''--'' @ bound) p"
proof
  assume "at_bound bound p"
  then have "p = ''--'' @ bound @ drop (length bound) (drop 2 p)"
    by (metis append_take_drop_id at_bound_def append.assoc)
  then show "prefix (''--'' @ bound) p" by (metis append.assoc prefixI)
qed (auto simp: at_bound_def prefix_def)

lemma bound_start: "c = NL \<and> at_bound bound p \<longleftrightarrow> prefix (bound_text bound) (c # p)"
  by (auto simp: at_bound_prefix)

lemma ends_in_pattern:
  assumes "prefix pat (b @ CR # s)" "CR \<notin> set pat"
  shows "prefix pat b"
proof -
  have "\<not> length b < length pat"
  proof
    assume l: "length b < length pat"
    then have "pat ! length b = (b @ CR # s) ! length b" using assms(1) by (metis nth_append prefix_def)
    then show False using l assms(2) by (metis nth_append_length nth_mem)
  qed
  then show ?thesis using assms(1) by (auto simp: prefix_def append_eq_append_conv2)
qed

text \<open>A body ends before the first boundary, with or without a carriage return in front of it.\<close>

lemma body_loop_ends:
  assumes "CR \<notin> set bound" "\<not> sublist (bound_text bound) b"
  shows "body_loop bound prev k (b @ CR # bound_text bound @ s) = (k + length b, s)"
  using assms(2)
proof (induction b arbitrary: prev k)
  case Nil
  then show ?case using bound_start [of NL bound "''--'' @ bound @ s"] by (simp add: at_bound_prefix)
next
  case (Cons c b)
  have "\<not> prefix (bound_text bound) (c # b)" using Cons.prems by blast
  then have "\<not> prefix (bound_text bound) ((c # b) @ CR # bound_text bound @ s)"
    using ends_in_pattern [of "bound_text bound" "c # b"] assms(1) by auto
  then have "\<not> (c = NL \<and> at_bound bound (b @ CR # bound_text bound @ s))" by (simp only: bound_start) simp
  moreover have "\<not> sublist (bound_text bound) b" using Cons.prems by (metis sublist_Cons_right)
  ultimately show ?case using Cons.IH [of c "Suc k"] by auto
qed

section \<open>Headers\<close>

lemma spaces [simp]: "c_isspace CR" "c_isspace NL" "c_isspace (CHR '' '')" "\<not> c_isspace NUL" "\<not> c_isspace DQ" "\<not> c_isspace (CHR ''C'')"
  by (simp_all add: c_char)

lemma same_name [simp]: "stricmp s s = 0"
  by (simp add: stricmp_eq_0)

lemma other_names [simp]: "stricmp ''filename'' ''name'' \<noteq> 0" "stricmp ''Content-Type'' ''content-disposition'' \<noteq> 0"
  "stricmp ''Content-Disposition'' ''content-disposition'' = 0"
  unfolding stricmp_eq_0 by (simp_all add: fold_case_def cstr_def c_char char_of_def bit_0)

text \<open>A text that neither starts nor ends with a space and has no character of a set.\<close>

definition plain :: "char set \<Rightarrow> bytes \<Rightarrow> bool" where
  "plain X s \<longleftrightarrow> set s \<inter> X = {} \<and> LTrim s = s \<and> RTrim s = s"

lemma RTrim_snoc [simp]: "RTrim (s @ [c]) = (if c_isspace c then RTrim s else s @ [c])"
  by (simp add: RTrim_def)

lemma RTrim_last: "RTrim s = s \<Longrightarrow> s \<noteq> [] \<Longrightarrow> \<not> c_isspace (last s)"
proof (induction s rule: rev_induct)
  case (snoc y ys)
  have "length (RTrim ys) < length (ys @ [y])"
    using length_dropWhile_le [of c_isspace "rev ys"] by (simp add: RTrim_def)
  then show ?case using snoc.prems(1) by (metis RTrim_snoc last_snoc less_irrefl)
qed simp

lemma RTrim_Cons: "RTrim s = s \<Longrightarrow> s \<noteq> [] \<Longrightarrow> RTrim (c # s) = c # s"
  using RTrim_last [of s] by (cases s rule: rev_cases) (simp_all flip: append_Cons)

lemma LTrim_append: "LTrim s = s \<Longrightarrow> s \<noteq> [] \<Longrightarrow> takeWhile c_isspace (s @ r) = [] \<and> dropWhile c_isspace (s @ r) = s @ r"
  by (cases s) (auto simp: LTrim_def split: if_splits dest: arg_cong [of _ _ length] simp: dropWhile_eq_Cons_conv)

lemma takeWhile_stop: "(\<And>x. x \<in> set s \<Longrightarrow> P x) \<Longrightarrow> \<not> P c \<Longrightarrow> takeWhile P (s @ c # r) = s"
  by (simp add: takeWhile_append2)

lemma multi_loop_name:
  "set h \<inter> {NL, CHR '':''} = {} \<Longrightarrow> multi_loop bound (h @ s) n cd fs = multi_loop bound s (n @ h) cd fs"
  by (induction h arbitrary: n) auto

lemma multi_loop_header:
  assumes h: "set h \<inter> {NL, CHR '':''} = {}" and v: "plain {NL, NUL} v" "v \<noteq> []"
  shows "multi_loop bound (h @ CHR '':'' # CHR '' '' # v @ CR # NL # s) [] cd fs
    = multi_loop bound (NL # s) [NUL] (if stricmp h ''content-disposition'' = 0 then Some v else cd) fs"
proof -
  have "LTrim v = v" "RTrim v = v" "set v \<inter> {NL, NUL} = {}" using v(1) by (simp_all add: plain_def)
  then have "takeWhile c_isspace (CHR '' '' # v @ CR # NL # s) = '' ''" "RTrim (CHR '' '' # v @ [CR]) = CHR '' '' # v"
    using LTrim_append [of v "CR # NL # s"] v(2) RTrim_Cons [of v "CHR '' ''"] RTrim_snoc [of "CHR '' '' # v" CR] by auto
  moreover have "takeWhile (\<lambda>x. x \<noteq> NL \<and> x \<noteq> NUL) ((v @ [CR]) @ NL # s) = v @ [CR]"
    using v(1) by (intro takeWhile_stop) (auto simp: plain_def)
  ultimately show ?thesis by (simp add: multi_loop_name [OF h] multi_loop.simps(2) Let_def)
qed

declare multi_loop.simps(2) [simp del]

lemma multi_loop_next:
  assumes "\<not> c_isspace c"
  shows "multi_loop bound (NL # c # s) n cd fs = multi_loop bound (c # s) [] cd fs"
    and "multi_loop bound (CR # NL # c # s) n cd fs = multi_loop bound (c # s) [] cd fs"
proof -
  have "c \<noteq> NL" "c \<noteq> CR" using assms by auto
  then show *: "multi_loop bound (NL # c # s) n cd fs = multi_loop bound (c # s) [] cd fs" for n
    using assms by (simp add: multi_loop.simps(2) [of bound NL])
  show "multi_loop bound (CR # NL # c # s) n cd fs = multi_loop bound (c # s) [] cd fs"
    by (simp add: multi_loop.simps(2) [of bound CR] *)
qed

lemma multi_loop_body:
  assumes "CR \<notin> set bound" "\<not> sublist (bound_text bound) b" "ParseCDisp d = Some names"
  shows "\<exists>m cd. multi_loop bound (NL # CR # NL # b @ CR # bound_text bound @ s) n (Some d) fs
    = (if b = [] then multi_loop bound s m cd fs else Option.bind (add_part fs names b) (multi_loop bound s m cd))"
proof -
  have "ParseMultiBody bound (b @ CR # bound_text bound @ s) = (length b, s)"
    using body_loop_ends [OF assms(1,2), of NL 0 s] unfolding ParseMultiBody_def by simp
  then show ?thesis
    using assms(3) by (auto simp: multi_loop.simps(2) [of bound NL] Let_def split: option.splits bind_splits simp del: append_Cons) blast+
qed

section \<open>Dispositions\<close>

lemma cdisp_loop_name:
  "set x \<inter> {CHR ''='', CHR '';''} = {} \<Longrightarrow> cdisp_loop (x @ s) n v2 a b = cdisp_loop s (n @ x) v2 a b"
  by (induction x arbitrary: n) auto

lemma cdisp_loop_quoted:
  assumes "set x \<inter> {CHR ''='', CHR '';''} = {}" "DQ \<notin> set v" "RTrim v = v"
  shows "cdisp_loop (x @ CHR ''='' # DQ # v @ DQ # s) [] v2 a b = cdisp_loop (dropWhile c_isspace (drop 1 s)) [] True
    (if stricmp x ''name'' = 0 then Some v else a)
    (if stricmp x ''name'' \<noteq> 0 \<and> stricmp x ''filename'' = 0 then Some v else b)"
proof -
  have "takeWhile (\<lambda>x. x \<noteq> DQ) (v @ DQ # s) = v" using assms(2) by (intro takeWhile_stop) auto
  then show ?thesis using assms(3) by (simp add: cdisp_loop_name [OF assms(1)] Let_def)
qed

text \<open>A part as browsers send it: a field, or a file with its name and type.\<close>

record part =
  p_name :: bytes
  p_file :: "(bytes \<times> bytes) option"
  p_body :: bytes

definition disp_text :: "part \<Rightarrow> bytes" where
  "disp_text p = ''form-data; name='' @ DQ # p_name p @ DQ #
    (case p_file p of Some (f, t) \<Rightarrow> ''; filename='' @ DQ # f @ [DQ] | None \<Rightarrow> [])"

definition part_text :: "bytes \<Rightarrow> part \<Rightarrow> bytes" where
  "part_text bound p = ''Content-Disposition: '' @ disp_text p @ CR # NL #
    (case p_file p of Some (f, t) \<Rightarrow> ''Content-Type: '' @ t @ [CR, NL] | None \<Rightarrow> []) @
    CR # NL # p_body p @ CR # bound_text bound"

definition multi_text :: "bytes \<Rightarrow> part list \<Rightarrow> bytes" where
  "multi_text bound ps = ''--'' @ bound @ concat (map (\<lambda>p. CR # NL # part_text bound p) ps) @ ''--'' @ [CR, NL]"

definition quotable :: "bytes \<Rightarrow> bool" where
  "quotable s \<longleftrightarrow> set s \<inter> {DQ, NL, NUL} = {} \<and> RTrim s = s"

definition part_ok :: "bytes \<Rightarrow> part \<Rightarrow> bool" where
  "part_ok bound p \<longleftrightarrow> quotable (p_name p) \<and> \<not> sublist (bound_text bound) (p_body p) \<and>
    (case p_file p of Some (f, t) \<Rightarrow> quotable f \<and> t \<noteq> [] \<and> plain {NL, NUL} t | None \<Rightarrow> True)"

lemma ParseCDisp_text:
  assumes "part_ok bound p"
  shows "ParseCDisp (disp_text p) = Some (Some (p_name p), map_option fst (p_file p))"
proof -
  have n: "DQ \<notin> set (p_name p)" "RTrim (p_name p) = p_name p"
    using assms by (auto simp: part_ok_def quotable_def)
  have "ParseCDisp (disp_text p) = cdisp_loop (''form-data'' @ '';'' @ '' '' @ ''name'' @ CHR ''='' # DQ # p_name p @ DQ #
      (case p_file p of Some (f, t) \<Rightarrow> ''; filename='' @ DQ # f @ [DQ] | None \<Rightarrow> [])) [] False None None"
    by (simp add: ParseCDisp_def disp_text_def c_char)
  also have "\<dots> = cdisp_loop (''name'' @ CHR ''='' # DQ # p_name p @ DQ #
      (case p_file p of Some (f, t) \<Rightarrow> ''; filename='' @ DQ # f @ [DQ] | None \<Rightarrow> [])) [] False None None"
    by (subst cdisp_loop_name) (simp_all add: c_char)
  also have "\<dots> = cdisp_loop (dropWhile c_isspace (drop 1
      (case p_file p of Some (f, t) \<Rightarrow> ''; filename='' @ DQ # f @ [DQ] | None \<Rightarrow> []))) [] True (Some (p_name p)) None"
    by (subst cdisp_loop_quoted) (use n in simp_all)
  also have "\<dots> = Some (Some (p_name p), map_option fst (p_file p))"
  proof (cases "p_file p")
    case (Some ft)
    obtain f t where ft: "ft = (f, t)" by (cases ft)
    then have f: "DQ \<notin> set f" "RTrim f = f" using assms Some by (auto simp: part_ok_def quotable_def)
    have "cdisp_loop (''filename'' @ CHR ''='' # DQ # f @ DQ # []) [] True (Some (p_name p)) None = Some (Some (p_name p), Some f)"
      by (subst cdisp_loop_quoted) (use f in simp_all)
    moreover have "dropWhile c_isspace ('' filename='' @ DQ # f @ [DQ]) = ''filename'' @ CHR ''='' # DQ # f @ DQ # []"
      by (simp add: c_char)
    ultimately show ?thesis by (simp add: Some ft)
  qed simp
  finally show ?thesis .
qed

lemma disp_text_plain: "part_ok bound p \<Longrightarrow> plain {NL, NUL} (disp_text p) \<and> disp_text p \<noteq> []"
proof -
  assume ok: "part_ok bound p"
  have "\<exists>s. disp_text p = CHR ''f'' # s @ [DQ]"
    by (cases "p_file p") (auto simp: disp_text_def)
  then have "LTrim (disp_text p) = disp_text p" "RTrim (disp_text p) = disp_text p"
    using RTrim_snoc [of "CHR ''f'' # s" DQ for s] by (auto simp: LTrim_def c_char)
  then show ?thesis using ok by (auto simp: plain_def disp_text_def part_ok_def quotable_def split: option.splits)
qed

section \<open>Whole bodies\<close>

primrec add_parts :: "part list \<Rightarrow> form \<times> form \<Rightarrow> (form \<times> form) option" where
  "add_parts [] fs = Some fs"
| "add_parts (p # ps) fs = Option.bind (add_part fs (Some (p_name p), map_option fst (p_file p)) (p_body p)) (add_parts ps)"

lemma multi_loop_part:
  assumes "CR \<notin> set bound" "part_ok bound p"
  shows "\<exists>m cd'. multi_loop bound (part_text bound p @ s) [] cd fs
    = (if p_body p = [] then multi_loop bound s m cd' fs
       else Option.bind (add_part fs (Some (p_name p), map_option fst (p_file p)) (p_body p)) (multi_loop bound s m cd'))"
proof -
  let ?b = "CR # NL # p_body p @ CR # bound_text bound @ s"
  let ?h = "case p_file p of Some (f, t) \<Rightarrow> ''Content-Type: '' @ t @ [CR, NL] | None \<Rightarrow> []"
  have d: "plain {NL, NUL} (disp_text p)" "disp_text p \<noteq> []" using disp_text_plain assms(2) by blast+
  have body: "\<not> sublist (bound_text bound) (p_body p)" using assms(2) by (simp add: part_ok_def)
  have "multi_loop bound (part_text bound p @ s) [] cd fs
      = multi_loop bound (''Content-Disposition'' @ CHR '':'' # CHR '' '' # disp_text p @ CR # NL # (?h @ ?b)) [] cd fs"
    by (simp add: part_text_def)
  also have "\<dots> = multi_loop bound (NL # (?h @ ?b)) [NUL] (Some (disp_text p)) fs"
    by (subst multi_loop_header [OF _ d]) simp_all
  also have "\<dots> = multi_loop bound (NL # ?b) [NUL] (Some (disp_text p)) fs"
  proof (cases "p_file p")
    case (Some ft)
    obtain f t where ft: "ft = (f, t)" by (cases ft)
    then have t: "plain {NL, NUL} t" "t \<noteq> []" using assms(2) Some by (auto simp: part_ok_def)
    have "multi_loop bound (NL # (?h @ ?b)) [NUL] (Some (disp_text p)) fs
        = multi_loop bound (''Content-Type'' @ CHR '':'' # CHR '' '' # t @ CR # NL # ?b) [] (Some (disp_text p)) fs"
      using multi_loop_next(1) [of "CHR ''C''" bound "''ontent-Type: '' @ t @ [CR, NL] @ ?b" "[NUL]" "Some (disp_text p)" fs]
      by (simp add: Some ft)
    also have "\<dots> = multi_loop bound (NL # ?b) [NUL] (Some (disp_text p)) fs"
      by (subst multi_loop_header [OF _ t]) simp_all
    finally show ?thesis .
  qed simp
  finally show ?thesis
    using multi_loop_body [OF assms(1) body ParseCDisp_text [OF assms(2)], of s "[NUL]" fs] by simp
qed

lemma multi_loop_parts:
  assumes "CR \<notin> set bound" "\<forall>p \<in> set ps. part_ok bound p"
  shows "multi_loop bound (concat (map (\<lambda>p. CR # NL # part_text bound p) ps) @ ''--'' @ [CR, NL]) n cd fs
    = add_parts (filter (\<lambda>p. p_body p \<noteq> []) ps) fs"
  using assms(2)
proof (induction ps arbitrary: n cd fs)
  case Nil
  then show ?case by (simp add: multi_loop.simps(2))
next
  case (Cons p ps)
  let ?s = "concat (map (\<lambda>p. CR # NL # part_text bound p) ps) @ ''--'' @ [CR, NL]"
  obtain q where q: "part_text bound p = CHR ''C'' # q" by (simp add: part_text_def)
  have "multi_loop bound (concat (map (\<lambda>p. CR # NL # part_text bound p) (p # ps)) @ ''--'' @ [CR, NL]) n cd fs
      = multi_loop bound (part_text bound p @ ?s) [] cd fs"
    using multi_loop_next(2) [of "CHR ''C''" bound "q @ ?s" n cd fs] by (simp add: q)
  moreover have "multi_loop bound ?s n cd = add_parts (filter (\<lambda>p. p_body p \<noteq> []) ps)" for n cd
    using Cons by (intro ext) simp
  ultimately show ?case
    using multi_loop_part [OF assms(1), of p ?s cd fs] Cons.prems by auto
qed

lemma ParseMulti_text:
  assumes "CR \<notin> set bound" "\<forall>p \<in> set ps. part_ok bound p"
  shows "ParseMulti (multi_text bound ps) bound fs = add_parts (filter (\<lambda>p. p_body p \<noteq> []) ps) fs"
proof -
  let ?r = "concat (map (\<lambda>p. CR # NL # part_text bound p) ps) @ ''--'' @ [CR, NL]"
  have "ParseMulti (multi_text bound ps) bound fs = multi_loop bound (dropWhile c_isspace ?r) [] None fs"
    by (simp add: ParseMulti_def multi_text_def at_bound_def)
  also have "\<dots> = multi_loop bound ?r [] None fs"
  proof (cases ps)
    case (Cons p qs)
    obtain q where "part_text bound p = CHR ''C'' # q" by (simp add: part_text_def)
    then show ?thesis
      using multi_loop_next(2) [of "CHR ''C''" bound] by (simp add: Cons)
  qed (simp add: c_char)
  also have "\<dots> = add_parts (filter (\<lambda>p. p_body p \<noteq> []) ps) fs" using multi_loop_parts [OF assms] .
  finally show ?thesis .
qed

text \<open>What the two maps get.\<close>

definition form_field :: "part \<Rightarrow> bytes \<times> bytes" where
  "form_field p = (p_name p, case p_file p of Some (f, t) \<Rightarrow> f | None \<Rightarrow> p_body p)"

definition file_field :: "part \<Rightarrow> bytes \<times> bytes" where
  "file_field p = (p_name p, p_body p)"

definition is_file :: "part \<Rightarrow> bool" where
  "is_file p \<longleftrightarrow> p_file p \<noteq> None"

lemma add_parts_set_all:
  "set_all (map form_field ps) m = Some m' \<Longrightarrow> set_all (map file_field (filter is_file ps)) f = Some f' \<Longrightarrow>
    add_parts ps (m, f) = Some (m', f')"
  by (induction ps arbitrary: m f)
     (auto simp: form_field_def file_field_def is_file_def add_part_def split: option.splits bind_splits)

definition found :: "bytes list \<Rightarrow> bytes list option" where
  "found vs = (if vs = [] then None else Some vs)"

lemma set_all_new:
  assumes "map_ok m" "CMap_Count m = 0" "\<And>k. CMap_Find m k = None" "length ps \<le> map_cap"
  shows "\<exists>m'. set_all ps m = Some m' \<and> (\<forall>k. CMap_Find m' k = found (vals_of ps k))"
  using set_all_ok [OF assms(1), of ps] assms(2-4) by (auto simp: found_def held_def)

text \<open>C6: A multi-part body as browsers send it, with any boundary that does not occur in a part, fills new forms
with its parts: under the name of a part, in any case, the form has the text of a field and the name of a file, and
the map of files its content. A part without content is lost.\<close>

theorem ParseMulti_parts:
  assumes "CR \<notin> set bound" "\<forall>p \<in> set ps. part_ok bound p" "length ps \<le> map_cap"
  shows "\<exists>m0 m files. CMapStr = Some m0 \<and> ParseMulti (multi_text bound ps) bound (m0, m0) = Some (m, files) \<and>
    (let qs = filter (\<lambda>p. p_body p \<noteq> []) ps in
     (\<forall>k. CMap_Find m k = found (vals_of (map form_field qs) k)) \<and>
     (\<forall>k. CMap_Find files k = found (vals_of (map file_field (filter is_file qs)) k)))"
proof -
  let ?qs = "filter (\<lambda>p. p_body p \<noteq> []) ps"
  obtain m0 :: form where m0: "CMapStr = Some m0" "map_ok m0" "CMap_Count m0 = 0" "\<And>k. CMap_Find m0 k = None"
    using cmap.empty_ok by blast
  have len: "length ?qs \<le> map_cap" using assms(3) order_trans [OF length_filter_le] by blast
  then have "length (filter is_file ?qs) \<le> map_cap" by (rule order_trans [OF length_filter_le])
  then obtain m files where
    "set_all (map form_field ?qs) m0 = Some m" "\<forall>k. CMap_Find m k = found (vals_of (map form_field ?qs) k)"
    "set_all (map file_field (filter is_file ?qs)) m0 = Some files"
    "\<forall>k. CMap_Find files k = found (vals_of (map file_field (filter is_file ?qs)) k)"
    using set_all_new [OF m0(2-4), of "map form_field ?qs"] set_all_new [OF m0(2-4), of "map file_field (filter is_file ?qs)"] len
    by auto
  then show ?thesis
    using m0(1) ParseMulti_text [OF assms(1,2)] add_parts_set_all by (auto simp: Let_def)
qed

definition sent :: "part list" where
  "sent = [\<lparr>p_name = ''a'', p_file = None, p_body = ''1''\<rparr>, \<lparr>p_name = ''up'', p_file = Some (''x.txt'', ''text/plain''), p_body = ''data''\<rparr>]"

theorem ParseMulti_parts_witness:
  "\<exists>m0 m files. CMapStr = Some m0 \<and> ParseMulti (multi_text ''XyZ'' sent) ''XyZ'' (m0, m0) = Some (m, files)
    \<and> CMap_Find m ''a'' = Some [''1''] \<and> CMap_Find m ''up'' = Some [''x.txt''] \<and> CMap_Find files ''up'' = Some [''data'']"
proof -
  have "CR \<notin> set ''XyZ''" "\<forall>p \<in> set sent. part_ok ''XyZ'' p" "length sent \<le> map_cap"
    by (simp_all add: sent_def part_ok_def quotable_def plain_def LTrim_def RTrim_def c_char map_cap_def sublist_code)
  note parsed = ParseMulti_parts [OF this]
  have "filter (\<lambda>p. p_body p \<noteq> []) sent = sent" by (simp add: sent_def)
  moreover have "vals_of (map form_field sent) ''a'' = [''1'']" "vals_of (map form_field sent) ''up'' = [''x.txt'']"
      "vals_of (map file_field (filter is_file sent)) ''up'' = [''data'']" by code_simp+
  ultimately show ?thesis using parsed unfolding Let_def by (metis found_def list.distinct(1))
qed

section \<open>Bodies that are not read\<close>

lemma unquoted_None:
  assumes "set v \<inter> {CHR '';'', CHR ''='', DQ} = {}" "LTrim v = v" "v \<noteq> []"
  shows "ParseCDisp (''form-data; name='' @ v) = None"
proof -
  have v: "dropWhile c_isspace v = v" "take (Suc 0) v \<noteq> [DQ]" using assms by (cases v; auto simp: LTrim_def)+
  have tw: "takeWhile (\<lambda>x. x \<noteq> CHR '';'') v = v" using assms(1) by auto
  have "cdisp_loop (''name'' @ CHR ''='' # v) [] False None None = None"
    by (subst cdisp_loop_name) (simp_all add: Let_def v tw)
  moreover have "ParseCDisp (''form-data; name='' @ v) = cdisp_loop (''form-data'' @ '';'' @ '' '' @ ''name'' @ CHR ''='' # v) [] False None None"
    by (simp add: ParseCDisp_def c_char)
  moreover have "\<dots> = cdisp_loop (''name'' @ CHR ''='' # v) [] False None None"
    by (subst cdisp_loop_name) (simp_all add: c_char)
  ultimately show ?thesis by simp
qed

definition lf_body :: bytes where
  "lf_body = ''--X'' @ [NL] @ ''Content-Disposition: form-data; name='' @ [DQ] @ ''a'' @ [DQ, NL, NL] @ ''1'' @ [NL] @ ''--X--'' @ [NL]"



section \<open>Requests\<close>

text \<open>C9: The form of a posted request has the fields of the body, however it was cut into chunks, and after them
those of the query string.\<close>

theorem ParseRequest_fields:
  assumes "RequestMethod env = Some ''POST''" "ContentType env = ''application/x-www-form-urlencoded''"
    and "[] \<notin> set (BodyChunks env)" "concat (BodyChunks env) = form_text ps" "QueryString env = Some (form_text qs)"
    and "map_ok (myFormMap cgi)" "CMap_Count (myFormMap cgi) = 0" "\<forall>k. CMap_Find (myFormMap cgi) k = None"
    and "myClientBody cgi = []" "length ps + length qs \<le> map_cap"
  shows "\<exists>cgi'. ParseRequest env cgi = Some cgi' \<and> myClientBodyCopy cgi' = form_text ps
    \<and> (\<forall>k. CMap_Find (myFormMap cgi') k = found (vals_of (terminated (ps @ qs)) k))"
proof -
  have set_all_append: "set_all (a @ b) m = Option.bind (set_all a m) (set_all b)" for a b m
    by (induction a arbitrary: m) (simp_all split: bind_splits)
  have parse: "ParseFormString (form_text fs) m = set_all (terminated fs) m" for fs m
    using ParseFormString_text [of "[]" fs m] by (cases "set_all (terminated fs) m") simp_all
  obtain m where m: "set_all (terminated (ps @ qs)) (myFormMap cgi) = Some m"
      "\<forall>k. CMap_Find m k = found (vals_of (terminated (ps @ qs)) k)"
    using set_all_new [OF assms(6,7), of "terminated (ps @ qs)"] assms(8,10) by auto
  then obtain m1 where m1: "set_all (terminated ps) (myFormMap cgi) = Some m1" "set_all (terminated qs) m1 = Some m"
    by (auto simp: set_all_append bind_eq_Some_conv)
  have "takeWhile (\<lambda>t. t \<noteq> []) (BodyChunks env) = BodyChunks env" using assms(3) by auto
  then have body: "ReadClientBody env cgi = cgi\<lparr>myClientBody := form_text ps, myClientBodyCopy := form_text ps\<rparr>"
    using assms(4,9) by (simp add: ReadClientBody_def Let_def del: takeWhile_eq_all_conv)
  have "\<not> strnicmp_eq (cstr (LTrim ''application/x-www-form-urlencoded'')) ''multipart/form-data'' 19"
    by (simp add: numeral_eq_Suc LTrim_def cstr_Cons c_char)
  then have "ParsePost env cgi = Some (cgi\<lparr>myClientBody := form_text ps, myClientBodyCopy := form_text ps, myFormMap := m1\<rparr>)"
    using assms(2) m1(1) by (simp add: ParsePost_def body parse)
  moreover have "stricmp ''POST'' ''post'' = 0"
    unfolding stricmp_eq_0 by (simp add: fold_case_def cstr_def c_char char_of_def bit_0)
  ultimately have "ParseRequest env cgi = Some (cgi\<lparr>myClientBody := form_text ps, myClientBodyCopy := form_text ps, myFormMap := m\<rparr>)"
    using assms(1,5) m1(2) by (simp add: ParseRequest_def parse)
  then show ?thesis using m(2) by simp
qed

definition posted :: qEnvHttp where
  "posted = \<lparr>RequestMethod = Some ''POST'', ContentType = ''application/x-www-form-urlencoded'',
     BodyChunks = [''a=1'', ''&''], QueryString = Some ''a=2&''\<rparr>"

theorem ParseRequest_fields_witness:
  "\<exists>cgi cgi'. ParseRequest posted cgi = Some cgi' \<and> CMap_Find (myFormMap cgi') ''a'' = Some [''1'', ''2'']"
proof -
  obtain f :: form where f: "map_ok f" "CMap_Count f = 0" "\<forall>k. CMap_Find f k = None" using cmap.empty_ok by blast
  define cgi where "cgi = \<lparr>myFormMap = f, myFileMap = f, myClientBody = [], myClientBodyCopy = []\<rparr>"
  have "RequestMethod posted = Some ''POST''" "ContentType posted = ''application/x-www-form-urlencoded''"
    "[] \<notin> set (BodyChunks posted)" "concat (BodyChunks posted) = form_text [(''a'', ''1'')]" "QueryString posted = Some (form_text [(''a'', ''2'')])"
    by (simp add: posted_def, simp add: posted_def, simp add: posted_def, code_simp, code_simp)
  from ParseRequest_fields [OF this, of cgi] f obtain cgi' where
    "ParseRequest posted cgi = Some cgi'" "CMap_Find (myFormMap cgi') ''a'' = found (vals_of (terminated [(''a'', ''1''), (''a'', ''2'')]) ''a'')"
    by (auto simp: cgi_def map_cap_def)
  moreover have "found (vals_of (terminated [(''a'', ''1''), (''a'', ''2'')]) ''a'') = Some [''1'', ''2'']" by code_simp
  ultimately show ?thesis by auto
qed

end
