(* ===== verification/WebHtml.thy ===== *)
theory WebHtml
  imports WebFacts
begin

text \<open>Quoting and cleaning of HTML: quoted text is plain and can be read back, cleaned text has the permitted tags
only, closed at the end; and the lists and texts on which the cleaner runs away.\<close>

section \<open>Quoting\<close>

text \<open>What a reader of HTML makes of a quoted text.\<close>

definition entity :: "bytes \<Rightarrow> char" where
  "entity e =
    (if e = ''gt'' then CHR ''>'' else if e = ''lt'' then CHR ''<'' else if e = ''amp'' then CHR ''&'' else if e = ''quot'' then DQ
     else char_of (nat (ParseInt (drop 1 e))))"

function html_unquote :: "bytes \<Rightarrow> bytes" where
  "html_unquote [] = []"
| "html_unquote (c # s) =
    (if c = CHR ''&'' then
       (let e = takeWhile (\<lambda>x. x \<noteq> CHR '';'') s in entity e # html_unquote (drop (length e + 1) s))
     else c # html_unquote s)"
  by pat_completeness auto
termination by (relation "measure length") auto

lemma itoa_digits:
  assumes "0 \<le> n" "n < 2 ^ 31"
  shows "list_all c_isdigit (itoa n)"
  using assms itoa_loop_digits [of n]
  by (auto simp: itoa_def Let_def int32_id list_all_iff) (simp_all add: c_char)

lemma uc_int: "0 \<le> int (uc c)" "int (uc c) < 2 ^ 31"
proof -
  have "int (uc c) < 256" using uc_less [of c] by linarith
  then show "int (uc c) < 2 ^ 31" by (rule less_le_trans) simp
qed simp

lemma html_unquote_number:
  "html_unquote (''&#'' @ itoa (int (uc c)) @ '';'' @ s) = c # html_unquote s"
proof -
  note n = uc_int [of c]
  have "CHR '';'' \<notin> set (itoa (int (uc c)))" using itoa_digits [OF n] by (auto simp: list_all_iff c_char)
  then have "takeWhile (\<lambda>x. x \<noteq> CHR '';'') (itoa (int (uc c)) @ CHR '';'' # s) = itoa (int (uc c))"
    by (subst takeWhile_append2) auto
  moreover have "ParseInt (itoa (int (uc c))) = int (uc c)" using n by (intro ParseInt_itoa) simp_all
  ultimately show ?thesis by (simp add: entity_def)
qed

lemma html_unquote_char: "html_unquote (html_char c @ s) = c # html_unquote s"
  using html_unquote_number [of c s] by (auto simp: html_char_def entity_def)

definition plain_char :: "char \<Rightarrow> bool" where
  "plain_char x \<longleftrightarrow> x \<notin> {CHR ''<'', CHR ''>'', DQ} \<and> (c_isprint x \<or> c_isspace x)"

lemma plain_digit: "c_isdigit x \<Longrightarrow> plain_char x"
  by (auto simp: plain_char_def c_char)

lemma html_char_safe: "list_all plain_char (html_char c)"
proof -
  have "list_all plain_char (itoa (int (uc c)))"
    using itoa_digits [OF uc_int [of c]] plain_digit by (auto simp: list_all_iff)
  moreover have "list_all plain_char ''gltampquot&#;''" by (simp add: plain_char_def c_char)
  moreover have "plain_char c" if "c \<noteq> CHR ''<''" "c \<noteq> CHR ''>''" "c \<noteq> DQ" "c_isprint c \<or> c_isspace c"
    using that by (simp add: plain_char_def)
  ultimately show ?thesis by (simp add: html_char_def)
qed

text \<open>C28: \<^verbatim>\<open>html-quote\<close> writes a text that has no angle brackets and no double quotes, only printable characters and
white space, and that reads back as the argument, up to its terminator.\<close>

theorem html_quote_round_trip:
  "\<exists>q. EvalHtmlQuote out args = PutS out q \<and> html_unquote q = cstr (GetAt args 0)
    \<and> list_all plain_char q"
proof (intro exI conjI)
  let ?q = "concat (map html_char (cstr (GetAt args 0)))"
  have "each (\<lambda>c. PutS out (html_char c)) (cstr (GetAt args 0)) = PutS out ?q" by (rule each_PutS) simp
  moreover have "Count args = 0 \<Longrightarrow> GetAt args 0 = []" by (simp add: GetAt_def)
  ultimately show "EvalHtmlQuote out args = PutS out ?q" by (auto simp: EvalHtmlQuote_def)
  have "html_unquote (concat (map html_char s)) = s" for s
    by (induction s) (simp_all add: html_unquote_char del: html_unquote.simps(2))
  then show "html_unquote ?q = cstr (GetAt args 0)" .
  show "list_all plain_char ?q"
    using html_char_safe by (fastforce simp: list_all_iff)
qed

section \<open>Lists of tags\<close>

definition item_ok :: "bytes \<Rightarrow> bool" where
  "item_ok s \<longleftrightarrow> s \<noteq> [] \<and> set s \<inter> {CHR '','', CHR '';'', NUL} = {}"

lemma ary_loop_item:
  "set s \<inter> {CHR '','', CHR '';''} = {} \<Longrightarrow> ary_loop '',;'' (s @ p) item ary = ary_loop '',;'' p (item @ s) ary"
proof (induction s arbitrary: item)
  case (Cons c s)
  then show ?case by (cases "s @ p") auto
qed simp

lemma ary_loop_sep:
  assumes "item_ok s"
  shows "ary_loop '',;'' (CHR '','' # s @ p) item ary = ary_loop '',;'' p s (ary @ [item])"
proof -
  obtain c t where s: "s = c # t" using assms by (cases s) (auto simp: item_ok_def)
  have "set t \<inter> {CHR '','', CHR '';''} = {}" "c \<noteq> CHR '',''" using assms by (auto simp: s item_ok_def)
  then show ?thesis using ary_loop_item [of t p "[c]" "ary @ [item]"] by (simp add: s)
qed

definition tag_list :: "bytes \<Rightarrow> bytes list \<Rightarrow> bytes" where
  "tag_list s ss = s @ concat (map (\<lambda>t. CHR '','' # t) ss)"

lemma ary_loop_list:
  assumes "list_all item_ok ss"
  shows "ary_loop '',;'' (concat (map (\<lambda>t. CHR '','' # t) ss) @ p) s ary
    = ary_loop '',;'' p (last (s # ss)) (ary @ butlast (s # ss))"
  using assms by (induction ss arbitrary: s ary) (simp_all add: ary_loop_sep)

lemma cstr_items: "list_all item_ok (s # ss) \<Longrightarrow> NUL \<notin> set p \<Longrightarrow> cstr (tag_list s ss @ p) = tag_list s ss @ p"
  by (intro cstr_id) (auto simp: tag_list_def item_ok_def list_all_iff)

text \<open>A list of tags with commas between them is read as its items; one with a comma at its end makes the
scan leave the text, and one with two commas in a row never returns.\<close>

theorem ParseAry_lists:
  assumes "list_all item_ok (s # ss)" "NUL \<notin> set p"
  shows "ParseAry (tag_list s ss) '',;'' = Ok (s # ss)
    \<and> ParseAry (tag_list s ss @ '','') '',;'' = Crash
    \<and> ParseAry (tag_list s ss @ '',,'' @ p) '',;'' = NoFuel"
proof -
  have "set s \<inter> {CHR '','', CHR '';''} = {}" "list_all item_ok ss" using assms(1) by (auto simp: item_ok_def)
  then have *: "ary_loop '',;'' (tag_list s ss @ q) [] [] = ary_loop '',;'' q (last (s # ss)) (butlast (s # ss))" for q
    using ary_loop_item [of s _ "[]" "[]"] ary_loop_list [of ss q s "[]"] by (simp add: tag_list_def)
  have "last (s # ss) \<noteq> []" using assms(1) last_in_set [of "s # ss"] by (auto simp: list_all_iff item_ok_def)
  then show ?thesis
    using * [of "[]"] * [of "'',''"] * [of "'',,'' @ p"] cstr_items [OF assms(1), of "[]"] cstr_items [OF assms(1), of "'',''"]
      cstr_items [OF assms(1), of "'',,'' @ p"] assms(2)
    by (simp add: ParseAry_def)
qed

theorem ParseAry_lists_witness:
  "ParseAry ''b,i'' '',;'' = Ok [''b'', ''i''] \<and> ParseAry ''b,i,'' '',;'' = Crash \<and> ParseAry ''b,i,,u'' '',;'' = NoFuel"
proof -
  have "list_all item_ok (''b'' # [''i''])" "NUL \<notin> set ''u''" by (simp_all add: item_ok_def)
  from ParseAry_lists [OF this] show ?thesis by (simp add: tag_list_def)
qed

section \<open>Cleaning\<close>

text \<open>A document as characters and tags; a tag has its name and what follows up to its end.\<close>

datatype piece = Txt char | Tag bool bytes bytes

fun piece_text :: "piece \<Rightarrow> bytes" where
  "piece_text (Txt c) = [c]"
| "piece_text (Tag cl name attrs) = ''<'' @ (if cl then ''/'' else []) @ name @ attrs @ ''>''"

definition doc_text :: "piece list \<Rightarrow> bytes" where
  "doc_text ps = concat (map piece_text ps)"

fun piece_ok :: "piece \<Rightarrow> bool" where
  "piece_ok (Txt c) = (c \<noteq> CHR ''<'' \<and> c \<noteq> NUL)"
| "piece_ok (Tag cl name attrs) =
    (name \<noteq> [] \<and> list_all (\<lambda>c. \<not> c_isspace c \<and> c \<noteq> CHR ''>'' \<and> c \<noteq> NUL) name \<and> (cl \<or> hd name \<noteq> CHR ''/'')
      \<and> CHR ''>'' \<notin> set attrs \<and> NUL \<notin> set attrs \<and> (attrs = [] \<or> c_isspace (hd attrs)))"

fun allowed :: "tags \<Rightarrow> piece \<Rightarrow> bool" where
  "allowed tags (Txt c) = True"
| "allowed tags (Tag cl name attrs) = (tag_kind tags name \<noteq> None \<and> tag_kind tags name \<noteq> Some (- 1))"

text \<open>The tags to be closed, as +1 and -1 under their names.\<close>

fun counted :: "tags \<Rightarrow> piece \<Rightarrow> (bytes \<times> int) list" where
  "counted tags (Txt c) = []"
| "counted tags (Tag cl name attrs) = (if tag_kind tags name = Some 1 then [(name, if cl then - 1 else 1)] else [])"

definition counts :: "tags \<Rightarrow> piece list \<Rightarrow> (bytes \<times> int) list" where
  "counts tags ps = concat (map (counted tags) ps)"

primrec count_all :: "(bytes \<times> int) list \<Rightarrow> int cmap \<Rightarrow> int cmap option" where
  "count_all [] m = Some m"
| "count_all (x # xs) m = Option.bind (count_tag (snd x = - 1) (fst x) m) (count_all xs)"

lemma tag_name_text:
  assumes "piece_ok (Tag cl name attrs)"
  shows "tag_name ((if cl then ''/'' else []) @ name @ attrs @ ''>'' @ s) = (cl, name, attrs @ ''>'' @ s)"
proof -
  obtain a n where name: "name = a # n" using assms by (cases name) auto
  have "takeWhile (\<lambda>c. \<not> c_isspace c \<and> c \<noteq> CHR ''>'') (name @ attrs @ ''>'' @ s) = name"
    using assms by (subst takeWhile_append2) (auto simp: list_all_iff takeWhile_eq_Nil_iff hd_append)
  moreover have "dropWhile c_isspace (name @ attrs @ ''>'' @ s) = name @ attrs @ ''>'' @ s" using assms name by simp
  moreover have "cl \<or> take 1 (name @ attrs @ ''>'' @ s) \<noteq> ''/''" using assms name by auto
  ultimately show ?thesis by (auto simp: tag_name_def Let_def)
qed

lemma clean_loop_tag:
  assumes ok: "piece_ok (Tag cl name attrs)"
  shows "clean_loop tags out (piece_text (Tag cl name attrs) @ s) state =
    (if allowed tags (Tag cl name attrs) then
       Option.bind (count_all (counted tags (Tag cl name attrs)) state)
         (clean_loop tags (out @ piece_text (Tag cl name attrs)) s)
     else clean_loop tags out s state)"
proof -
  let ?p = "(if cl then ''/'' else []) @ name @ attrs @ ''>'' @ s"
  have t: "piece_text (Tag cl name attrs) @ s = CHR ''<'' # ?p" by simp
  have r: "dropWhile (\<lambda>x. x \<noteq> CHR ''>'') (attrs @ ''>'' @ s) = ''>'' @ s"
    using ok by (subst dropWhile_append2) auto
  have k: "take (Suc (length ?p) - length (drop 1 (''>'' @ s))) (CHR ''<'' # ?p) = piece_text (Tag cl name attrs)" by simp
  show ?thesis
    unfolding t clean_loop.simps tag_name_text [OF ok] prod.case Let_def r k
    by (auto split: option.splits bind_splits)
qed

lemma clean_loop_doc:
  assumes "list_all piece_ok ps"
  shows "clean_loop tags out (doc_text ps @ s) state =
    Option.bind (count_all (counts tags ps) state) (clean_loop tags (out @ doc_text (filter (allowed tags) ps)) s)"
  using assms
proof (induction ps arbitrary: out state)
  case (Cons p ps)
  have append: "count_all (a @ b) m = Option.bind (count_all a m) (count_all b)" for a b m
    by (induction a arbitrary: m) (simp_all split: bind_splits)
  show ?case
  proof (cases p)
    case (Txt c)
    then show ?thesis using Cons by (simp add: doc_text_def counts_def)
  next
    case (Tag cl name attrs)
    then have ok: "piece_ok (Tag cl name attrs)" using Cons.prems by simp
    have t: "doc_text (p # ps) @ s = piece_text (Tag cl name attrs) @ (doc_text ps @ s)" by (simp add: doc_text_def Tag)
    have IH: "clean_loop tags out (doc_text ps @ s) =
        (\<lambda>state. Option.bind (count_all (counts tags ps) state) (clean_loop tags (out @ doc_text (filter (allowed tags) ps)) s))" for out
      using Cons by (intro ext) simp
    show ?thesis
    proof (cases "allowed tags (Tag cl name attrs)")
      case True
      then show ?thesis unfolding t clean_loop_tag [OF ok] IH
        by (simp add: Tag counts_def append doc_text_def del: counted.simps allowed.simps piece_text.simps)
    next
      case False
      then have "counted tags (Tag cl name attrs) = []" by auto
      with False show ?thesis unfolding t clean_loop_tag [OF ok] IH
        by (simp add: Tag counts_def doc_text_def del: counted.simps allowed.simps piece_text.simps)
    qed
  qed
qed (simp add: doc_text_def counts_def)

section \<open>Counting\<close>

definition named :: "bytes \<Rightarrow> (bytes \<times> int) list \<Rightarrow> int list" where
  "named k xs = map snd (filter (\<lambda>x. fold_case (fst x) = fold_case k) xs)"

lemma named_Cons: "named k (x # xs) = (if fold_case (fst x) = fold_case k then [snd x] else []) @ named k xs"
  by (simp add: named_def)

lemma count_tag_ok:
  assumes "map_ok m" "CMap_Count m < map_cap"
  shows "\<exists>m'. count_tag cl k m = Some m' \<and> map_ok m' \<and> CMap_Count m' \<le> Suc (CMap_Count m)
    \<and> (\<forall>k'. CMap_Find m' k' = (if fold_case k' = fold_case k
         then Some ((case CMap_Find m k of Some i \<Rightarrow> i | None \<Rightarrow> 0) + (if cl then - 1 else 1)) else CMap_Find m k'))"
  using cmap.set_ok [OF assms, of True k "(case CMap_Find m k of Some i \<Rightarrow> i | None \<Rightarrow> 0) + (if cl then - 1 else 1)"]
  by (auto simp: count_tag_def Let_def split: option.splits)

lemma count_all_ok:
  assumes "map_ok m" "CMap_Count m + length xs \<le> map_cap" "\<forall>x \<in> set xs. snd x = 1 \<or> snd x = - 1"
  shows "\<exists>m'. count_all xs m = Some m' \<and> map_ok m'
    \<and> (\<forall>k. CMap_Find m' k = (if named k xs = [] then CMap_Find m k
         else Some ((case CMap_Find m k of Some i \<Rightarrow> i | None \<Rightarrow> 0) + sum_list (named k xs))))"
  using assms
proof (induction xs arbitrary: m)
  case (Cons x xs)
  have "CMap_Count m < map_cap" using Cons.prems(2) by simp
  then obtain m1 where m1: "count_tag (snd x = - 1) (fst x) m = Some m1" "map_ok m1" "CMap_Count m1 \<le> Suc (CMap_Count m)"
      "\<And>k'. CMap_Find m1 k' = (if fold_case k' = fold_case (fst x)
         then Some ((case CMap_Find m (fst x) of Some i \<Rightarrow> i | None \<Rightarrow> 0) + snd x) else CMap_Find m k')"
    using count_tag_ok [OF Cons.prems(1), of "snd x = - 1" "fst x"] Cons.prems(3) by auto
  obtain m' where m': "count_all xs m1 = Some m'" "map_ok m'"
      "\<And>k. CMap_Find m' k = (if named k xs = [] then CMap_Find m1 k
         else Some ((case CMap_Find m1 k of Some i \<Rightarrow> i | None \<Rightarrow> 0) + sum_list (named k xs)))"
    using Cons.IH [OF m1(2)] m1(3) Cons.prems(2,3) by auto
  have "CMap_Find m' k = (if named k (x # xs) = [] then CMap_Find m k
         else Some ((case CMap_Find m k of Some i \<Rightarrow> i | None \<Rightarrow> 0) + sum_list (named k (x # xs))))" for k
    using m'(3) [of k] m1(4) [of k] find_fold_case [OF Cons.prems(1), of k "fst x"]
    by (auto simp: named_Cons)
  then show ?case using m1(1) m'(1,2) by auto
qed (simp add: named_def)

lemma counts_signs: "\<forall>x \<in> set (counts tags ps). snd x = 1 \<or> snd x = - 1"
proof -
  have "snd x = 1 \<or> snd x = - 1" if "x \<in> set (counted tags p)" for x p
    using that by (cases p) (auto split: if_splits)
  then show ?thesis by (auto simp: counts_def)
qed

lemma length_counts: "length (counts tags ps) \<le> length ps"
proof (induction ps)
  case (Cons p ps)
  have "length (counted tags p) \<le> 1" by (cases p) auto
  then show ?case using Cons by (simp add: counts_def)
qed (simp add: counts_def)

lemma doc_text_no_NUL: "list_all piece_ok ps \<Longrightarrow> NUL \<notin> set (doc_text ps)"
proof -
  have "piece_ok p \<Longrightarrow> NUL \<notin> set (piece_text p)" for p by (cases p) (auto simp: list_all_iff)
  then show "list_all piece_ok ps \<Longrightarrow> NUL \<notin> set (doc_text ps)" by (auto simp: doc_text_def list_all_iff)
qed


definition mixed :: "piece list" where
  "mixed = [Tag False ''B'' [], Txt CHR ''x'', Tag False ''script'' '' src=y'']"


text \<open>A document that ends within the name of a tag makes the cleaner read past its end, and one that ends
within a tag the measuring; so does the measuring of an empty argument, which has no buffer.\<close>

theorem html_runs_off:
  assumes "list_all piece_ok ps" "list_all (\<lambda>c. \<not> c_isspace c \<and> c \<noteq> CHR ''>'' \<and> c \<noteq> NUL) n"
    and "set t \<inter> {CHR ''<'', CHR ''&''} = {}"
  shows "HtmlClean tags (doc_text ps @ ''<'' @ n) = None \<and> len_loop (t @ ''<'' @ n) l = None
    \<and> EvalHtmlLen out (Add no_args []) w = (Crash, w)"
proof (intro conjI)
  have n: "list_all (\<lambda>c. \<not> c_isspace c \<and> c \<noteq> CHR ''>'') (tl n)" using assms(2) by (cases n) (auto simp: list_all_iff)
  have "dropWhile c_isspace (tl n) = tl n" using n by (cases "tl n") auto
  moreover have "takeWhile (\<lambda>c. \<not> c_isspace c \<and> c \<noteq> CHR ''>'') (tl n) = tl n"
      "takeWhile (\<lambda>c. \<not> c_isspace c \<and> c \<noteq> CHR ''>'') n = n" using n assms(2) by (auto simp: list_all_iff)
  ultimately have "\<exists>cl name. tag_name n = (cl, name, [])" by (auto simp: tag_name_def Let_def simp del: takeWhile_eq_all_conv)
  then have "clean_loop tags out (''<'' @ n) m = None" for out m by auto
  moreover have "cstr (doc_text ps @ ''<'' @ n) = doc_text ps @ ''<'' @ n"
    using doc_text_no_NUL [OF assms(1)] assms(2) by (intro cstr_id) (auto simp: list_all_iff)
  ultimately show "HtmlClean tags (doc_text ps @ ''<'' @ n) = None"
    by (simp add: HtmlClean_def clean_loop_doc [OF assms(1), of _ _ "''<'' @ n", simplified] split: bind_splits)
  have "dropWhile (\<lambda>x. x \<noteq> CHR ''>'') n = []" using assms(2) by (auto simp: list_all_iff)
  then show "len_loop (t @ ''<'' @ n) l = None" using assms(3) by (induction t arbitrary: l) auto
  show "EvalHtmlLen out (Add no_args []) w = (Crash, w)"
    by (simp add: EvalHtmlLen_def Add_def no_args_def Count_def GetAt_def fail_def)
qed

theorem html_runs_off_witness:
  "HtmlClean [] (doc_text mixed @ ''<'' @ ''b'') = None \<and> len_loop (''x'' @ ''<'' @ ''b'') 0 = None"
proof -
  have "list_all piece_ok mixed" "list_all (\<lambda>c. \<not> c_isspace c \<and> c \<noteq> CHR ''>'' \<and> c \<noteq> NUL) ''b''" "set ''x'' \<inter> {CHR ''<'', CHR ''&''} = {}"
    by (simp_all add: mixed_def c_char)
  from html_runs_off [OF this] show ?thesis by blast
qed

end
