(* ===== verification/Dates.thy ===== *)
theory Dates
  imports World
begin

text \<open>
  Dates: the parser \<^verbatim>\<open>date_parse\<close> of \<^verbatim>\<open>dparse.cpp\<close>, which tries some thirty formats with \<^verbatim>\<open>sscanf\<close>, and the formatting of
  \<^verbatim>\<open>time.cpp\<close>. The locals of the parser are kept from one try to the next, as in the code: a format that fails leaves
  the values it has read, and a later one may use them. \<^const>\<open>None\<close> is a read of a local that has no value, a text longer
  than its buffer, or a month or day outside the tables of names. The clock, the time zone and \<^verbatim>\<open>mktime\<close> are parameters.
\<close>

record tm =
  tm_sec :: int
  tm_min :: int
  tm_hour :: int
  tm_mday :: int
  tm_mon :: int
  tm_year :: int
  tm_wday :: int
  tm_isdst :: int

section \<open>Tables of names\<close>

type_synonym strint = "bytes \<times> int"

text \<open>\<^verbatim>\<open>qsort\<close> by \<^verbatim>\<open>stricmp\<close>. (Of the two entries for \<^verbatim>\<open>edt\<close> it may put either first.)\<close>

fun strint_insert :: "strint \<Rightarrow> strint list \<Rightarrow> strint list" where
  "strint_insert x [] = [x]"
| "strint_insert x (y # ys) = (if stricmp (fst x) (fst y) \<le> 0 then x # y # ys else y # strint_insert x ys)"

definition strint_sort :: "strint list \<Rightarrow> strint list" where
  "strint_sort tab = foldr strint_insert tab []"

function search_loop :: "bytes \<Rightarrow> strint list \<Rightarrow> int \<Rightarrow> int \<Rightarrow> int option" where
  "search_loop str tab l h =
    (let i = (h + l) div 2; r = stricmp str (fst (tab ! nat i)); h' = (if r < 0 then i - 1 else h); l' = (if r > 0 then i + 1 else l) in
     if r = 0 then Some (snd (tab ! nat i))
     else if h' < l' then None
     else search_loop str tab l' h')"
  by pat_completeness auto
termination by (relation "measure (\<lambda>(str, tab, l, h). nat (h - l + 1))") (auto simp: Let_def split: if_splits)

definition strint_search :: "bytes \<Rightarrow> strint list \<Rightarrow> int option" where
  "strint_search str tab = search_loop str tab 0 (int (length tab) - 1)"

definition ampm_tab :: "strint list" where
  "ampm_tab = strint_sort [(''am'', 1), (''pm'', 2), (''a'', 1), (''p'', 2)]"

definition wday_tab :: "strint list" where
  "wday_tab = strint_sort [(''sun'', 0), (''sunday'', 0), (''mon'', 1), (''monday'', 1), (''tue'', 2), (''tuesday'', 2),
     (''wed'', 3), (''wednesday'', 3), (''thu'', 4), (''thursday'', 4), (''fri'', 5), (''friday'', 5), (''sat'', 6), (''saturday'', 6)]"

definition mon_tab :: "strint list" where
  "mon_tab = strint_sort [(''jan'', 0), (''january'', 0), (''feb'', 1), (''february'', 1), (''mar'', 2), (''march'', 2),
     (''apr'', 3), (''april'', 3), (''may'', 4), (''jun'', 5), (''june'', 5), (''jul'', 6), (''july'', 6), (''aug'', 7), (''august'', 7),
     (''sep'', 8), (''september'', 8), (''oct'', 9), (''october'', 9), (''nov'', 10), (''november'', 10), (''dec'', 11), (''december'', 11)]"

definition gmtoff_tab :: "strint list" where
  "gmtoff_tab = strint_sort [(''gmt'', 0), (''utc'', 0), (''ut'', 0), (''0000'', 0), (''+0000'', 0), (''-0000'', 0),
     (''0100'', 3600), (''+0100'', 3600), (''-0100'', -3600), (''0200'', 7200), (''+0200'', 7200), (''-0200'', -7200),
     (''0300'', 10800), (''+0300'', 10800), (''-0300'', -10800), (''0400'', 14400), (''+0400'', 14400), (''-0400'', -14400),
     (''0500'', 18000), (''+0500'', 18000), (''-0500'', -18000), (''0600'', 21600), (''+0600'', 21600), (''-0600'', -21600),
     (''0700'', 25200), (''+0700'', 25200), (''-0700'', -25200), (''0800'', 28800), (''+0800'', 28800), (''-0800'', -28800),
     (''0900'', 32400), (''+0900'', 32400), (''-0900'', -32400), (''1000'', 36000), (''+1000'', 36000), (''-1000'', -36000),
     (''1100'', 39600), (''+1100'', 39600), (''-1100'', -39600), (''1200'', 43200), (''+1200'', 43200), (''-1200'', -43200),
     (''jst'', 7200), (''jdt'', 10800), (''bst'', -3600), (''nst'', -12600), (''ast'', -14400), (''edt'', -10800),
     (''est'', -18000), (''edt'', -14400), (''cst'', -21600), (''cdt'', -18000), (''mst'', -25200), (''mdt'', -21600),
     (''pst'', -28800), (''pdt'', -25200), (''yst'', -32400), (''ydt'', -28800), (''hst'', -36000), (''hdt'', -32400),
     (''a'', -3600), (''b'', -7200), (''c'', -10800), (''d'', -14400), (''e'', -18000), (''f'', -21600), (''g'', -25200), (''h'', -28800),
     (''i'', -32400), (''k'', -36000), (''l'', -39600), (''m'', -43200), (''n'', -3600), (''o'', -7200), (''p'', -10800), (''q'', -14400),
     (''r'', -18000), (''s'', -21600), (''t'', -25200), (''u'', -28800), (''v'', -32400), (''w'', -36000), (''x'', -39600), (''y'', -43200)]"

section \<open>Scanning\<close>

text \<open>The locals that \<^verbatim>\<open>sscanf\<close> writes.\<close>

datatype ivar = Sec | Mins | Hour | Mday | Mon | Year | Wday

datatype svar = StrMon | StrWday | StrGmtoff | StrAmpm

datatype target = IntP ivar | CharP svar

record locals =
  l_int :: "ivar \<Rightarrow> int option"
  l_str :: "svar \<Rightarrow> bytes option"
  l_ampm :: int
  l_gmtoff :: int
  l_zone :: bool

text \<open>The conversion \<^verbatim>\<open>%d\<close>: spaces, a sign, digits.\<close>

definition scan_d :: "bytes \<Rightarrow> (int \<times> bytes) option" where
  "scan_d s =
    (let p = dropWhile c_isspace s; neg = take 1 p = ''-'';
         p = (if neg \<or> take 1 p = ''+'' then tl p else p); ds = takeWhile c_isdigit p; v = digits_value 0 ds
     in if ds = [] then None else Some (int32 (clamp64 (if neg then - v else v)), drop (length ds) p))"

text \<open>The characters of a set between brackets.\<close>

fun in_set :: "bytes \<Rightarrow> char \<Rightarrow> bool" where
  "in_set [] c = False"
| "in_set [a] c = (c = a)"
| "in_set [a, b] c = (c = a \<or> c = b)"
| "in_set (a # m # b # s) c =
    (if m = CHR ''-'' then uc a \<le> uc c \<and> uc c \<le> uc b \<or> in_set s c else c = a \<or> in_set (m # b # s) c)"

definition set_matches :: "bytes \<Rightarrow> char \<Rightarrow> bool" where
  "set_matches body c = (if take 1 body = ''^'' then \<not> in_set (tl body) c else in_set body c)"

text \<open>\<^verbatim>\<open>sscanf\<close> with the conversions \<^verbatim>\<open>%d\<close> and \<^verbatim>\<open>%[...]\<close>: the number of conversions made.\<close>

function sscanf_loop :: "bytes \<Rightarrow> target list \<Rightarrow> bytes \<Rightarrow> nat \<Rightarrow> locals \<Rightarrow> (nat \<times> locals) option" where
  "sscanf_loop [] ts s k l = Some (k, l)"
| "sscanf_loop (f # fs) ts s k l =
    (if c_isspace f then sscanf_loop fs ts (dropWhile c_isspace s) k l
     else if f = CHR ''%'' \<and> take 1 fs = ''d'' then
       (case scan_d s of
          None \<Rightarrow> Some (k, l)
        | Some (i, r) \<Rightarrow>
            (case ts of
               IntP v # ts' \<Rightarrow> sscanf_loop (tl fs) ts' r (k + 1) (l\<lparr>l_int := (l_int l)(v \<mapsto> i)\<rparr>)
             | _ \<Rightarrow> None))
     else if f = CHR ''%'' \<and> take 1 fs = ''['' then
       (let body = takeWhile (\<lambda>c. c \<noteq> CHR '']'') (tl fs); cs = takeWhile (set_matches body) s in
        if cs = [] then Some (k, l)
        else if length cs \<ge> 500 then None
        else
          (case ts of
             CharP v # ts' \<Rightarrow> sscanf_loop (drop (length body + 2) fs) ts' (drop (length cs) s) (k + 1) (l\<lparr>l_str := (l_str l)(v \<mapsto> cs)\<rparr>)
           | _ \<Rightarrow> None))
     else if take 1 s = [f] then sscanf_loop fs ts (tl s) k l
     else Some (k, l))"
  by pat_completeness auto
termination by (relation "measure (\<lambda>(f, ts, s, k, l). length f)") auto

declare sscanf_loop.simps [simp del]

section \<open>Conditions\<close>

text \<open>A condition may change the locals, whatever its value.\<close>

type_synonym cond = "locals \<Rightarrow> (bool \<times> locals) option"

definition scans :: "bytes \<Rightarrow> bytes \<Rightarrow> target list \<Rightarrow> cond" where
  "scans cp fmt ts l = (case sscanf_loop fmt ts cp 0 l of Some (k, l) \<Rightarrow> Some (k = length ts, l) | None \<Rightarrow> None)"

definition both :: "cond \<Rightarrow> cond \<Rightarrow> cond" where
  "both a b l = (case a l of Some (r, l) \<Rightarrow> if r then b l else Some (False, l) | None \<Rightarrow> None)"

definition either :: "cond \<Rightarrow> cond \<Rightarrow> cond" where
  "either a b l = (case a l of Some (r, l) \<Rightarrow> if r then Some (True, l) else b l | None \<Rightarrow> None)"

definition scan_name :: "svar \<Rightarrow> strint list \<Rightarrow> (int \<Rightarrow> locals \<Rightarrow> locals) \<Rightarrow> cond" where
  "scan_name v tab store l =
    (case l_str l v of
       None \<Rightarrow> None
     | Some s \<Rightarrow> Some (case strint_search s tab of Some i \<Rightarrow> (True, store i l) | None \<Rightarrow> (False, l)))"

definition scan_ampm :: cond where
  "scan_ampm = scan_name StrAmpm ampm_tab (\<lambda>i l. l\<lparr>l_ampm := i\<rparr>)"

definition scan_wday :: cond where
  "scan_wday = scan_name StrWday wday_tab (\<lambda>i l. l\<lparr>l_int := (l_int l)(Wday \<mapsto> i)\<rparr>)"

definition scan_mon :: cond where
  "scan_mon = scan_name StrMon mon_tab (\<lambda>i l. l\<lparr>l_int := (l_int l)(Mon \<mapsto> i)\<rparr>)"

definition scan_gmtoff :: cond where
  "scan_gmtoff = scan_name StrGmtoff gmtoff_tab (\<lambda>i l. l\<lparr>l_gmtoff := i\<rparr>)"

definition got_zone :: cond where
  "got_zone l = Some (True, l\<lparr>l_zone := True\<rparr>)"

text \<open>A scan with and, failing that, one without a half of the day.\<close>

definition with_ampm :: "bytes \<Rightarrow> bytes \<Rightarrow> target list \<Rightarrow> bytes \<Rightarrow> target list \<Rightarrow> cond" where
  "with_ampm cp f1 t1 f2 t2 = either (both (scans cp f1 t1) scan_ampm) (scans cp f2 t2)"

section \<open>Results\<close>

definition ampm_fix :: "int \<Rightarrow> int \<Rightarrow> int" where
  "ampm_fix hour ampm =
    (if ampm = 1 then if hour = 12 then 0 else hour
     else if ampm = 2 then if hour \<noteq> 12 then int32 (hour + 12) else hour
     else hour)"

definition mm_fix :: "int \<Rightarrow> int" where
  "mm_fix mm = int32 (mm - 1)"

type_synonym field = "tm \<Rightarrow> locals \<Rightarrow> int option"

definition val :: "ivar \<Rightarrow> field" where
  "val v t l = l_int l v"

definition const :: "int \<Rightarrow> field" where
  "const i t l = Some i"

definition hour_of_day :: field where
  "hour_of_day t l = map_option (\<lambda>h. ampm_fix h (l_ampm l)) (l_int l Hour)"

definition fixed_mon :: field where
  "fixed_mon t l = map_option mm_fix (l_int l Mon)"

definition this_mday :: field where
  "this_mday t l = Some (tm_mday t)"

definition this_mon :: field where
  "this_mon t l = Some (tm_mon t)"

definition this_year :: field where
  "this_year t l = Some (tm_year t)"

text \<open>The assignments of a branch: day, month, year, hour, minute, second.\<close>

definition assign :: "field \<Rightarrow> field \<Rightarrow> field \<Rightarrow> field \<Rightarrow> field \<Rightarrow> field \<Rightarrow> tm \<Rightarrow> locals \<Rightarrow> tm option" where
  "assign d mo y h mi s t l =
    (case (d t l, mo t l, y t l, h t l, mi t l, s t l) of
       (Some d, Some mo, Some y, Some h, Some mi, Some s) \<Rightarrow>
         Some (t\<lparr>tm_mday := d, tm_mon := mo, tm_year := y, tm_hour := h, tm_min := mi, tm_sec := s\<rparr>)
     | _ \<Rightarrow> None)"

text \<open>The branches of the formats that start with a day of the week keep it too.\<close>

definition wdy_assign :: "(tm \<Rightarrow> locals \<Rightarrow> tm option) \<Rightarrow> tm \<Rightarrow> locals \<Rightarrow> tm option" where
  "wdy_assign f t l = (case (f t l, l_int l Wday) of (Some t, Some d) \<Rightarrow> Some (t\<lparr>tm_wday := d\<rparr>) | _ \<Rightarrow> None)"

section \<open>Formats\<close>

text \<open>A format is the condition of its branch and what the branch does. (The assignment \<^verbatim>\<open>got_zone = 1\<close> of some branches
  stands last in the condition; nothing reads the variable.)\<close>

type_synonym alt = "bytes \<Rightarrow> cond \<times> (tm \<Rightarrow> locals \<Rightarrow> tm option)"

definition N_mth_YYYY_HMS_ampm_zone :: alt where
  "N_mth_YYYY_HMS_ampm_zone cp =
    (both (with_ampm cp ''%d %[a-zA-Z] %d %d:%d:%d %[apmAPM] %[^: ]'' [IntP Mday, CharP StrMon, IntP Year, IntP Hour, IntP Mins, IntP Sec, CharP StrAmpm, CharP StrGmtoff]
        ''%d %[a-zA-Z] %d %d:%d:%d %[^: ]'' [IntP Mday, CharP StrMon, IntP Year, IntP Hour, IntP Mins, IntP Sec, CharP StrGmtoff])
       (both (scan_mon)
       (both scan_gmtoff got_zone)),
     assign (val Mday) (val Mon) (val Year) hour_of_day (val Mins) (val Sec))"

definition N_mth_YYYY_HM_ampm_zone :: alt where
  "N_mth_YYYY_HM_ampm_zone cp =
    (both (with_ampm cp ''%d %[a-zA-Z] %d %d:%d %[apmAPM] %[^: ]'' [IntP Mday, CharP StrMon, IntP Year, IntP Hour, IntP Mins, CharP StrAmpm, CharP StrGmtoff]
        ''%d %[a-zA-Z] %d %d:%d %[^: ]'' [IntP Mday, CharP StrMon, IntP Year, IntP Hour, IntP Mins, CharP StrGmtoff])
       (both (scan_mon)
       (both scan_gmtoff got_zone)),
     assign (val Mday) (val Mon) (val Year) hour_of_day (val Mins) (const 0))"

definition N_mth_YYYY_HMS_ampm :: alt where
  "N_mth_YYYY_HMS_ampm cp =
    (both (with_ampm cp ''%d %[a-zA-Z] %d %d:%d:%d %[apmAPM]'' [IntP Mday, CharP StrMon, IntP Year, IntP Hour, IntP Mins, IntP Sec, CharP StrAmpm]
        ''%d %[a-zA-Z] %d %d:%d:%d'' [IntP Mday, CharP StrMon, IntP Year, IntP Hour, IntP Mins, IntP Sec])
       (scan_mon),
     assign (val Mday) (val Mon) (val Year) hour_of_day (val Mins) (val Sec))"

definition N_mth_YYYY_HM_ampm :: alt where
  "N_mth_YYYY_HM_ampm cp =
    (both (with_ampm cp ''%d %[a-zA-Z] %d %d:%d %[apmAPM]'' [IntP Mday, CharP StrMon, IntP Year, IntP Hour, IntP Mins, CharP StrAmpm]
        ''%d %[a-zA-Z] %d %d:%d'' [IntP Mday, CharP StrMon, IntP Year, IntP Hour, IntP Mins])
       (scan_mon),
     assign (val Mday) (val Mon) (val Year) hour_of_day (val Mins) (const 0))"

definition mdy_HMS :: alt where
  "mdy_HMS cp =
    (either (both (scans cp ''%d/%d/%d %d:%d:%d %[apmAPM] %[^: ]'' [IntP Mon, IntP Mday, IntP Year, IntP Hour, IntP Mins, IntP Sec, CharP StrAmpm, CharP StrGmtoff])
       (both (scan_gmtoff)
       (both (scan_ampm)
       (got_zone))))
       (either (both (scans cp ''%d/%d/%d %d:%d:%d %[apmAPM]'' [IntP Mon, IntP Mday, IntP Year, IntP Hour, IntP Mins, IntP Sec, CharP StrAmpm])
       (scan_ampm))
       (scans cp ''%d/%d/%d %d:%d:%d'' [IntP Mon, IntP Mday, IntP Year, IntP Hour, IntP Mins, IntP Sec])),
     assign (val Mday) (val Mon) (val Year) hour_of_day (val Mins) (val Sec))"

definition mdy_HM :: alt where
  "mdy_HM cp =
    (either (both (scans cp ''%d/%d/%d %d:%d %[apmAPM] %[^: ]'' [IntP Mon, IntP Mday, IntP Year, IntP Hour, IntP Mins, CharP StrAmpm, CharP StrGmtoff])
       (both (scan_gmtoff)
       (both (scan_ampm)
       (got_zone))))
       (either (both (scans cp ''%d/%d/%d %d:%d %[apmAPM]'' [IntP Mon, IntP Mday, IntP Year, IntP Hour, IntP Mins, CharP StrAmpm])
       (scan_ampm))
       (either (both (scans cp ''%d/%d/%d %d:%d %[^: ]'' [IntP Mon, IntP Mday, IntP Year, IntP Hour, IntP Mins, CharP StrGmtoff])
       (both (scan_gmtoff)
       (got_zone)))
       (scans cp ''%d/%d/%d %d:%d'' [IntP Mon, IntP Mday, IntP Year, IntP Hour, IntP Mins]))),
     assign (val Mday) fixed_mon (val Year) hour_of_day (val Mins) (const 0))"

definition ymd_HMS :: alt where
  "ymd_HMS cp =
    (either (both (scans cp ''%d-%d-%d %d:%d:%d %[apmAPM] %[^: ]'' [IntP Year, IntP Mon, IntP Mday, IntP Hour, IntP Mins, IntP Sec, CharP StrAmpm, CharP StrGmtoff])
       (both (scan_gmtoff)
       (both (scan_ampm)
       (got_zone))))
       (either (both (scans cp ''%d-%d-%d %d:%d:%d %[apmAPM]'' [IntP Year, IntP Mon, IntP Mday, IntP Hour, IntP Mins, IntP Sec, CharP StrAmpm])
       (scan_ampm))
       (either (both (scans cp ''%d-%d-%d %d:%d:%d %[^: ]'' [IntP Year, IntP Mon, IntP Mday, IntP Hour, IntP Mins, IntP Sec, CharP StrGmtoff])
       (both (scan_gmtoff)
       (got_zone)))
       (scans cp ''%d-%d-%d %d:%d:%d'' [IntP Year, IntP Mon, IntP Mday, IntP Hour, IntP Mins, IntP Sec]))),
     assign (val Mday) fixed_mon (val Year) hour_of_day (val Mins) (val Sec))"

definition ymd_HM :: alt where
  "ymd_HM cp =
    (either (both (scans cp ''%d-%d-%d %d:%d %[apmAPM] %[^: ]'' [IntP Year, IntP Mon, IntP Mday, IntP Hour, IntP Mins, CharP StrAmpm, CharP StrGmtoff])
       (both (scan_gmtoff)
       (both (scan_ampm)
       (got_zone))))
       (either (both (scans cp ''%d-%d-%d %d:%d %[apmAPM]'' [IntP Year, IntP Mon, IntP Mday, IntP Hour, IntP Mins, CharP StrAmpm])
       (scan_ampm))
       (either (both (scans cp ''%d-%d-%d %d:%d %[^: ]'' [IntP Year, IntP Mon, IntP Mday, IntP Hour, IntP Mins, CharP StrGmtoff])
       (both (scan_gmtoff)
       (got_zone)))
       (scans cp ''%d-%d-%d %d:%d'' [IntP Year, IntP Mon, IntP Mday, IntP Hour, IntP Mins]))),
     assign (val Mday) fixed_mon (val Year) hour_of_day (val Mins) (const 0))"

definition mdy :: alt where
  "mdy cp =
    (scans cp ''%d/%d/%d'' [IntP Mon, IntP Mday, IntP Year],
     assign (val Mday) fixed_mon (val Year) (const 0) (const 0) (const 0))"

definition ymd :: alt where
  "ymd cp =
    (scans cp ''%d-%d-%d'' [IntP Year, IntP Mon, IntP Mday],
     assign (val Mday) fixed_mon (val Year) (const 0) (const 0) (const 0))"

definition md_HM_ampm :: alt where
  "md_HM_ampm cp =
    (both (scans cp ''%d/%d %d:%d %[apmAPM]'' [IntP Mon, IntP Mday, IntP Hour, IntP Mins, CharP StrAmpm])
       (scan_ampm),
     assign (val Mday) fixed_mon this_year hour_of_day (const 0) (const 0))"

definition md_HM :: alt where
  "md_HM cp =
    (scans cp ''%d/%d %d:%d'' [IntP Mon, IntP Mday, IntP Hour, IntP Mins],
     assign (val Mday) fixed_mon this_year (val Hour) (val Mins) (const 0))"

definition md :: alt where
  "md cp =
    (scans cp ''%d/%d'' [IntP Mon, IntP Mday],
     assign (val Mday) fixed_mon this_year (const 0) (const 0) (const 0))"

definition HMS_ampm_zone_N_mth_YYYY :: alt where
  "HMS_ampm_zone_N_mth_YYYY cp =
    (both (with_ampm cp ''%d:%d:%d %[apmAPM] %[^: ] %d %[a-zA-Z] %d'' [IntP Hour, IntP Mins, IntP Sec, CharP StrAmpm, CharP StrGmtoff, IntP Mday, CharP StrMon, IntP Year]
        ''%d:%d:%d %[^: ] %d %[a-zA-Z] %d'' [IntP Hour, IntP Mins, IntP Sec, CharP StrGmtoff, IntP Mday, CharP StrMon, IntP Year])
       (both (scan_gmtoff)
       (scan_mon)),
     assign (val Mday) (val Mon) (val Year) hour_of_day (val Mins) (val Sec))"

definition HM_ampm_zone_N_mth_YYYY :: alt where
  "HM_ampm_zone_N_mth_YYYY cp =
    (both (with_ampm cp ''%d:%d %[apmAPM] %[^: ] %d %[a-zA-Z] %d'' [IntP Hour, IntP Mins, CharP StrAmpm, CharP StrGmtoff, IntP Mday, CharP StrMon, IntP Year]
        ''%d:%d %[^: ] %d %[a-zA-Z] %d'' [IntP Hour, IntP Mins, CharP StrGmtoff, IntP Mday, CharP StrMon, IntP Year])
       (both (scan_gmtoff)
       (scan_mon)),
     assign (val Mday) (val Mon) (val Year) hour_of_day (val Mins) (const 0))"

definition HMS_ampm_N_mth_YYYY :: alt where
  "HMS_ampm_N_mth_YYYY cp =
    (both (with_ampm cp ''%d:%d:%d %[apmAPM] %d %[a-zA-Z] %d'' [IntP Hour, IntP Mins, IntP Sec, CharP StrAmpm, IntP Mday, CharP StrMon, IntP Year]
        ''%d:%d:%d %d %[a-zA-Z] %d'' [IntP Hour, IntP Mins, IntP Sec, IntP Mday, CharP StrMon, IntP Year])
       (scan_mon),
     assign (val Mday) (val Mon) (val Year) hour_of_day (val Mins) (val Sec))"

definition HM_ampm_N_mth_YYYY :: alt where
  "HM_ampm_N_mth_YYYY cp =
    (both (with_ampm cp ''%d:%d %[apmAPM] %d %[a-zA-Z] %d'' [IntP Hour, IntP Mins, CharP StrAmpm, IntP Mday, CharP StrMon, IntP Year]
        ''%d:%d %d %[a-zA-Z] %d'' [IntP Hour, IntP Mins, IntP Mday, CharP StrMon, IntP Year])
       (scan_mon),
     assign (val Mday) (val Mon) (val Year) hour_of_day (val Mins) (const 0))"

definition wdy_N_mth_YYYY_HMS_ampm_zone :: alt where
  "wdy_N_mth_YYYY_HMS_ampm_zone cp =
    (both (with_ampm cp ''%[a-zA-Z], %d %[a-zA-Z] %d %d:%d:%d %[apmAPM] %[^: ]'' [CharP StrWday, IntP Mday, CharP StrMon, IntP Year, IntP Hour, IntP Mins, IntP Sec, CharP StrAmpm, CharP StrGmtoff]
        ''%[a-zA-Z], %d %[a-zA-Z] %d %d:%d:%d %[^: ]'' [CharP StrWday, IntP Mday, CharP StrMon, IntP Year, IntP Hour, IntP Mins, IntP Sec, CharP StrGmtoff])
       (both (scan_wday)
       (both (scan_mon)
       (both scan_gmtoff got_zone))),
     wdy_assign (assign (val Mday) (val Mon) (val Year) hour_of_day (val Mins) (val Sec)))"

definition wdy_N_mth_YYYY_HM_ampm_zone :: alt where
  "wdy_N_mth_YYYY_HM_ampm_zone cp =
    (both (with_ampm cp ''%[a-zA-Z], %d %[a-zA-Z] %d %d:%d %[apmAPM] %[^: ]'' [CharP StrWday, IntP Mday, CharP StrMon, IntP Year, IntP Hour, IntP Mins, CharP StrAmpm, CharP StrGmtoff]
        ''%[a-zA-Z], %d %[a-zA-Z] %d %d:%d %[^: ]'' [CharP StrWday, IntP Mday, CharP StrMon, IntP Year, IntP Hour, IntP Mins, CharP StrGmtoff])
       (both (scan_wday)
       (both (scan_mon)
       (both scan_gmtoff got_zone))),
     wdy_assign (assign (val Mday) (val Mon) (val Year) hour_of_day (val Mins) (const 0)))"

definition wdy_N_mth_YYYY_HMS_ampm :: alt where
  "wdy_N_mth_YYYY_HMS_ampm cp =
    (both (with_ampm cp ''%[a-zA-Z], %d %[a-zA-Z] %d %d:%d:%d %[apmAPM]'' [CharP StrWday, IntP Mday, CharP StrMon, IntP Year, IntP Hour, IntP Mins, IntP Sec, CharP StrAmpm]
        ''%[a-zA-Z], %d %[a-zA-Z] %d %d:%d:%d'' [CharP StrWday, IntP Mday, CharP StrMon, IntP Year, IntP Hour, IntP Mins, IntP Sec])
       (both (scan_wday)
       (scan_mon)),
     wdy_assign (assign (val Mday) (val Mon) (val Year) hour_of_day (val Mins) (val Sec)))"

definition wdy_N_mth_YYYY_HM_ampm :: alt where
  "wdy_N_mth_YYYY_HM_ampm cp =
    (both (with_ampm cp ''%[a-zA-Z], %d %[a-zA-Z] %d %d:%d %[apmAPM]'' [CharP StrWday, IntP Mday, CharP StrMon, IntP Year, IntP Hour, IntP Mins, CharP StrAmpm]
        ''%[a-zA-Z], %d %[a-zA-Z] %d %d:%d'' [CharP StrWday, IntP Mday, CharP StrMon, IntP Year, IntP Hour, IntP Mins])
       (both (scan_wday)
       (scan_mon)),
     wdy_assign (assign (val Mday) (val Mon) (val Year) hour_of_day (val Mins) (const 0)))"

definition wdy_mth_N_HMS_ampm_zone_YYYY :: alt where
  "wdy_mth_N_HMS_ampm_zone_YYYY cp =
    (both (with_ampm cp ''%[a-zA-Z] %[a-zA-Z] %d %d:%d:%d %[apmAPM] %[^: ] %d'' [CharP StrWday, CharP StrMon, IntP Mday, IntP Hour, IntP Mins, IntP Sec, CharP StrAmpm, CharP StrGmtoff, IntP Year]
        ''%[a-zA-Z] %[a-zA-Z] %d %d:%d:%d %[^: ] %d'' [CharP StrWday, CharP StrMon, IntP Mday, IntP Hour, IntP Mins, IntP Sec, CharP StrGmtoff, IntP Year])
       (both (scan_wday)
       (both (scan_mon)
       (both scan_gmtoff got_zone))),
     wdy_assign (assign (val Mday) (val Mon) (val Year) hour_of_day (val Mins) (val Sec)))"

definition wdy_mth_N_HM_ampm_zone_YYYY :: alt where
  "wdy_mth_N_HM_ampm_zone_YYYY cp =
    (both (with_ampm cp ''%[a-zA-Z] %[a-zA-Z] %d %d:%d %[apmAPM] %[^: ] %d'' [CharP StrWday, CharP StrMon, IntP Mday, IntP Hour, IntP Mins, CharP StrAmpm, CharP StrGmtoff, IntP Year]
        ''%[a-zA-Z] %[a-zA-Z] %d %d:%d %[^: ] %d'' [CharP StrWday, CharP StrMon, IntP Mday, IntP Hour, IntP Mins, CharP StrGmtoff, IntP Year])
       (both (scan_wday)
       (both (scan_mon)
       (both scan_gmtoff got_zone))),
     wdy_assign (assign (val Mday) (val Mon) (val Year) hour_of_day (val Mins) (const 0)))"

definition N_mth_YY :: alt where
  "N_mth_YY cp =
    (both (scans cp ''%d %[a-zA-Z] %d'' [IntP Mday, CharP StrMon, IntP Year])
       (scan_mon),
     assign (val Mday) (val Mon) (val Year) (const 0) (const 0) (const 0))"

definition mth_N_YY :: alt where
  "mth_N_YY cp =
    (both (either (scans cp ''%[a-zA-Z] %d %d'' [CharP StrMon, IntP Mday, IntP Year])
       (scans cp ''%[a-zA-Z] %d , %d'' [CharP StrMon, IntP Mday, IntP Year]))
       (scan_mon),
     assign (val Mday) (val Mon) (val Year) (const 0) (const 0) (const 0))"

definition mth_YY :: alt where
  "mth_YY cp =
    (both (either (scans cp ''%[a-zA-Z] %d'' [CharP StrMon, IntP Year])
       (scans cp ''%[a-zA-Z] , %d'' [CharP StrMon, IntP Year]))
       (scan_mon),
     assign (const 1) (val Mon) (val Year) (const 0) (const 0) (const 0))"

definition mth :: alt where
  "mth cp =
    (both (scans cp ''%[a-zA-Z]'' [CharP StrMon])
       (scan_mon),
     assign (const 1) (val Mon) this_year (const 0) (const 0) (const 0))"

definition HMS_ampm :: alt where
  "HMS_ampm cp =
    (with_ampm cp ''%d:%d:%d %[apmAPM]'' [IntP Hour, IntP Mins, IntP Sec, CharP StrAmpm]
        ''%d:%d:%d'' [IntP Hour, IntP Mins, IntP Sec],
     assign this_mday this_mon this_year hour_of_day (val Mins) (val Sec))"

definition HM_ampm :: alt where
  "HM_ampm cp =
    (with_ampm cp ''%d:%d %[apmAPM]'' [IntP Hour, IntP Mins, CharP StrAmpm]
        ''%d:%d'' [IntP Hour, IntP Mins],
     assign this_mday this_mon this_year hour_of_day (val Mins) (const 0))"

text \<open>Six or eight digits. The tests and the year use the number just read, the day and the month what an earlier format
  left in \<^verbatim>\<open>tm_mon\<close>.\<close>

definition looks_packed :: "bytes \<Rightarrow> nat \<Rightarrow> cond" where
  "looks_packed cp n l =
    (case l_int l Year of
       None \<Rightarrow> None
     | Some y \<Rightarrow> Some (c_rem y 100 > 0 \<and> c_rem y 100 \<le> 31 \<and> c_rem (c_quot y 100) 100 > 0 \<and> c_rem (c_quot y 100) 100 \<le> 12 \<and> length cp = n, l))"

definition packed_mday :: field where
  "packed_mday t l = map_option (\<lambda>m. c_rem m 100) (l_int l Mon)"

definition packed_mon :: field where
  "packed_mon t l = map_option (\<lambda>m. mm_fix (c_rem (c_quot m 100) 100)) (l_int l Mon)"

definition packed_year :: field where
  "packed_year t l = map_option (\<lambda>y. c_quot y 10000) (l_int l Year)"

definition yymmdd :: alt where
  "yymmdd cp =
    (both (scans cp ''%d'' [IntP Year]) (looks_packed cp 6),
     assign packed_mday packed_mon packed_year (const 0) (const 0) (const 0))"

definition yyyymmdd :: alt where
  "yyyymmdd cp =
    (both (scans cp ''%d'' [IntP Year]) (looks_packed cp 8),
     assign packed_mday packed_mon packed_year (const 0) (const 0) (const 0))"

section \<open>The parser\<close>

text \<open>The formats in the order they are tried, and the first whose condition holds.\<close>

definition formats :: "alt list" where
  "formats =
    [N_mth_YYYY_HMS_ampm_zone, N_mth_YYYY_HM_ampm_zone, N_mth_YYYY_HMS_ampm, N_mth_YYYY_HM_ampm,
     mdy_HMS, mdy_HM, ymd_HMS, ymd_HM, mdy, ymd, md_HM_ampm, md_HM, md,
     HMS_ampm_zone_N_mth_YYYY, HM_ampm_zone_N_mth_YYYY, HMS_ampm_N_mth_YYYY, HM_ampm_N_mth_YYYY,
     wdy_N_mth_YYYY_HMS_ampm_zone, wdy_N_mth_YYYY_HM_ampm_zone, wdy_N_mth_YYYY_HMS_ampm, wdy_N_mth_YYYY_HM_ampm,
     wdy_mth_N_HMS_ampm_zone_YYYY, wdy_mth_N_HM_ampm_zone_YYYY,
     N_mth_YY, mth_N_YY, mth_YY, mth, HMS_ampm, HM_ampm, yymmdd, yyyymmdd]"

fun first_format :: "alt list \<Rightarrow> bytes \<Rightarrow> tm \<Rightarrow> locals \<Rightarrow> (tm option \<times> locals) option" where
  "first_format [] cp t l = Some (None, l)"
| "first_format (a # as) cp t l =
    (case fst (a cp) l of
       None \<Rightarrow> None
     | Some (True, l) \<Rightarrow> map_option (\<lambda>t. (Some t, l)) (snd (a cp) t l)
     | Some (False, l) \<Rightarrow> first_format as cp t l)"

text \<open>A year of two digits is the one closest to now, where now is the time of the first call.\<close>

definition yk_low :: "int \<Rightarrow> int" where
  "yk_low first_year = c_rem (first_year + 50) 100"

definition yk_off :: "int \<Rightarrow> int" where
  "yk_off first_year = 100 * c_quot (first_year - 50) 100"

definition fix_year :: "int \<Rightarrow> int \<Rightarrow> int" where
  "fix_year first_year y =
    (if y > 1900 then y - 1900
     else (if y < yk_low first_year then y + 100 else y) + yk_off first_year)"

definition start_locals :: "int \<Rightarrow> locals" where
  "start_locals gmtoff = \<lparr>l_int = Map.empty, l_str = Map.empty, l_ampm = 0, l_gmtoff = gmtoff, l_zone = False\<rparr>"

definition date_parse :: "int \<Rightarrow> tm \<Rightarrow> int \<Rightarrow> (tm \<Rightarrow> int) \<Rightarrow> bytes \<Rightarrow> int option" where
  "date_parse first_year now local_gmtoff mktime s =
    (let cp = dropWhile (\<lambda>c. c = CHR '' '' \<or> c = CHR 0x09) s; t = now\<lparr>tm_wday := 0, tm_isdst := 0\<rparr> in
     if s = [] then Some 0
     else
       (case first_format formats cp t (start_locals local_gmtoff) of
          None \<Rightarrow> None
        | Some (None, l) \<Rightarrow> Some (- 1)
        | Some (Some t, l) \<Rightarrow>
            Some (mktime (t\<lparr>tm_year := fix_year first_year (tm_year t), tm_isdst := - 1\<rparr>) + (local_gmtoff - l_gmtoff l))))"

end
