(* ===== verification/TimeMacros.thy ===== *)
theory TimeMacros
  imports Dates Templates
begin

text \<open>
  The formatting of \<^verbatim>\<open>time.cpp\<close> and its macros.
\<close>

section \<open>Formatting\<close>

text \<open>The characters a directive takes, and its text; \<^const>\<open>None\<close> is a read outside the tables of names.\<close>

definition s_wdays :: "bytes list" where
  "s_wdays = [''Sunday'', ''Monday'', ''Tuesday'', ''Wednesday'', ''Thursday'', ''Friday'', ''Saturday'']"

definition s_wday3 :: "bytes list" where
  "s_wday3 = [''Sun'', ''Mon'', ''Tue'', ''Wed'', ''Thu'', ''Fri'', ''Sat'']"

definition s_mons :: "bytes list" where
  "s_mons = [''January'', ''February'', ''March'', ''April'', ''May'', ''June'', ''July'', ''August'', ''September'',
     ''October'', ''November'', ''December'']"

definition s_mon3 :: "bytes list" where
  "s_mon3 = [''Jan'', ''Feb'', ''Mar'', ''Apr'', ''May'', ''Jun'', ''Jul'', ''Aug'', ''Sep'', ''Oct'', ''Nov'', ''Dec'']"

definition table_at :: "bytes list \<Rightarrow> int \<Rightarrow> bytes option" where
  "table_at xs i = (if 0 \<le> i \<and> i < int (length xs) then Some (xs ! nat i) else None)"

definition padded :: "int \<Rightarrow> bytes" where
  "padded i = (if i < 10 then ''0'' else []) @ itoa i"

definition fmt_item :: "tm \<Rightarrow> bytes \<Rightarrow> (nat \<times> bytes option)" where
  "fmt_item t p =
    (let at = (\<lambda>i. if i < length p then p ! i else NUL);
         two = (\<lambda>c. at 1 = c); three = (\<lambda>c. two c \<and> at 2 = c); four = (\<lambda>c. three c \<and> at 3 = c);
         hour = (if c_rem (tm_hour t) 12 = 0 then 12 else c_rem (tm_hour t) 12)
     in
       if at 0 = CHR ''y'' \<and> two CHR ''y'' then
         (if at 2 = CHR ''y'' \<and> at 3 = CHR ''y'' then (4, Some (itoa (int32 (tm_year t + 1900))))
          else (2, Some ((if c_rem (tm_year t) 100 < 10 then ''0'' else []) @ itoa (c_rem (int32 (tm_year t + 1900)) 100))))
       else if at 0 = CHR ''h'' then (if two CHR ''h'' then (2, Some (padded hour)) else (1, Some (itoa hour)))
       else if at 0 = CHR ''H'' then (if two CHR ''H'' then (2, Some (padded (tm_hour t))) else (1, Some (itoa (tm_hour t))))
       else if at 0 = CHR ''n'' then (if two CHR ''n'' then (2, Some (padded (tm_min t))) else (1, Some (itoa (tm_min t))))
       else if at 0 = CHR ''m'' then
         (if four CHR ''m'' then (4, table_at s_mons (tm_mon t))
          else if three CHR ''m'' then (3, table_at s_mon3 (tm_mon t))
          else if two CHR ''m'' then (2, Some (padded (int32 (tm_mon t + 1))))
          else (1, Some (itoa (int32 (tm_mon t + 1)))))
       else if at 0 = CHR ''s'' then (if two CHR ''s'' then (2, Some (padded (tm_sec t))) else (1, Some (itoa (tm_sec t))))
       else if at 0 = CHR ''w'' then
         (if four CHR ''w'' then (4, table_at s_wdays (tm_wday t))
          else if three CHR ''w'' then (3, table_at s_wday3 (tm_wday t))
          else (if two CHR ''w'' then 2 else 1, Some (itoa (tm_wday t))))
       else if at 0 = CHR ''d'' then (if two CHR ''d'' then (2, Some (padded (tm_mday t))) else (1, Some (itoa (tm_mday t))))
       else if at 0 = CHR ''a'' then
         (if two CHR ''a'' then (2, Some (if tm_hour t > 11 then ''pm'' else ''am'')) else (1, Some (if tm_hour t > 11 then ''p'' else ''a'')))
       else if at 0 = CHR ''A'' then
         (if two CHR ''A'' then (2, Some (if tm_hour t > 11 then ''PM'' else ''AM'')) else (1, Some (if tm_hour t > 11 then ''P'' else ''A'')))
       else (1, Some (take 1 p)))"

lemma fmt_item_pos: "0 < fst (fmt_item t p)"
  by (simp add: fmt_item_def Let_def)

function FmtTime :: "tm \<Rightarrow> bytes \<Rightarrow> bytes option" where
  "FmtTime t p =
    (if p = [] then Some []
     else
       (case fmt_item t p of
          (n, Some s) \<Rightarrow> map_option (\<lambda>r. s @ r) (FmtTime t (drop n p))
        | (n, None) \<Rightarrow> None))"
  by pat_completeness auto
termination
proof (relation "measure (\<lambda>(t, p). length p)", goal_cases)
  case (2 t p n x s)
  then have "0 < n" using fmt_item_pos [of t p] by (metis fst_conv)
  with 2 show ?case by simp
qed simp

declare FmtTime.simps [simp del]

text \<open>\<^verbatim>\<open>ltoa\<close> on 64 bits.\<close>

definition int64 :: "int \<Rightarrow> int" where
  "int64 i = (i + 2 ^ 63) mod 2 ^ 64 - 2 ^ 63"

definition ltoa :: "int \<Rightarrow> bytes" where
  "ltoa num =
    (let neg = num < 0; n = (if neg then int64 (- num) else num)
     in (if neg then ''-'' else []) @ (if n = 0 then ''0'' else rev (itoa_loop n)))"

section \<open>Macros\<close>

text \<open>The clock and the conversions of the C library are parameters; a conversion may fail (\<^const>\<open>None\<close>).\<close>

definition put_time :: "ostream \<Rightarrow> tm option \<Rightarrow> bytes \<Rightarrow> unit run" where
  "put_time out tms p =
    (if p = [] then ret ()
     else (case Option.bind tms (\<lambda>t. FmtTime t p) of Some s \<Rightarrow> PutS out s | None \<Rightarrow> fail Crash))"

definition EvalTime :: "int \<Rightarrow> (int \<Rightarrow> tm option) \<Rightarrow> ostream \<Rightarrow> qargs \<Rightarrow> unit run" where
  "EvalTime now gmtime out args =
    (if Count args > 0 then put_time out (gmtime now) (cstr (GetAt args 0)) else PutN out (int32 now))"

definition EvalLocalTime :: "int \<Rightarrow> (int \<Rightarrow> tm option) \<Rightarrow> ostream \<Rightarrow> qargs \<Rightarrow> unit run" where
  "EvalLocalTime now localtime out args =
    (if Count args > 0 then put_time out (localtime now) (cstr (GetAt args 0)) else PutN out (int32 now))"

definition default_fmt :: bytes where
  "default_fmt = ''m/d/yy hh:nn aa''"

definition EvalFmtlTime :: "(int \<Rightarrow> tm option) \<Rightarrow> ostream \<Rightarrow> qargs \<Rightarrow> unit run" where
  "EvalFmtlTime localtime out args =
    (if Count args \<ge> 1 then
       (let tms = localtime (ParseInt (GetAt args 0)); p = (if Count args = 1 then default_fmt else GetAt args 1) in
        if p \<noteq> [] \<and> tms \<noteq> None then put_time out tms (cstr p) else ret ())
     else ret ())"

definition EvalFmtgTime :: "(int \<Rightarrow> tm option) \<Rightarrow> ostream \<Rightarrow> qargs \<Rightarrow> unit run" where
  "EvalFmtgTime gmtime out args =
    (if Count args \<ge> 1 then
       (let tms = gmtime (ParseInt (GetAt args 0)); p = (if Count args = 1 then default_fmt else GetAt args 1) in
        if p \<noteq> [] \<and> tms \<noteq> None then put_time out tms (cstr p) else ret ())
     else ret ())"

text \<open>\<^verbatim>\<open>mktime\<close> returns the time and the offset of the zone it used.\<close>

definition EvalMakeGTime :: "bool \<Rightarrow> (tm \<Rightarrow> int \<times> int) \<Rightarrow> ostream \<Rightarrow> qargs \<Rightarrow> unit run" where
  "EvalMakeGTime gtime mktime out args =
    (if Count args > 1 then
       (let at = (\<lambda>i. ParseInt (GetAt args i)); mon = at 1;
            (tmt, off) = mktime \<lparr>tm_sec = at 5, tm_min = at 4, tm_hour = at 3, tm_mday = at 2,
              tm_mon = (if mon \<noteq> 0 then int32 (mon - 1) else mon), tm_year = int32 (at 0 - 1900), tm_wday = 0, tm_isdst = - 1\<rparr>
        in PutS out (ltoa (if gtime \<and> tmt \<noteq> - 1 then tmt - off else tmt)))
     else ret ())"

definition EvalDparse :: "(bytes \<Rightarrow> int option) \<Rightarrow> ostream \<Rightarrow> qargs \<Rightarrow> unit run" where
  "EvalDparse parse out args =
    (case parse (cstr (GetAt args 0)) of
       None \<Rightarrow> fail Crash
     | Some t \<Rightarrow> if t = - 1 \<or> t = 0 then ret () else PutS out (ltoa t))"

end
