(* ===== verification/DateNames.thy ===== *)
theory DateNames
  imports Dates "HOL-Library.List_Lexorder"
begin

text \<open>
  The tables of names of the date parser: after the sort the binary search finds exactly the names of the table, whatever
  their case. The comparison of the C library is the lexicographic order of the characters in lower case.
\<close>

definition name_key :: "bytes \<Rightarrow> nat list" where
  "name_key s = map uc (fold_case s)"

lemma stricmp_chars_less:
  "NUL \<notin> set xs \<Longrightarrow> NUL \<notin> set ys \<Longrightarrow>
    stricmp_chars xs ys < 0 \<longleftrightarrow> map uc (map c_tolower xs) < map uc (map c_tolower ys)"
proof (induction xs ys rule: stricmp_chars.induct)
  case (3 b bs)
  then have "c_tolower b \<noteq> NUL" by auto
  then have "uc (c_tolower b) \<noteq> uc NUL" by (simp add: uc_inject)
  then show ?case by (simp add: uc_def)
qed (auto simp: uc_inject)

lemma stricmp_chars_flip: "stricmp_chars xs ys = - stricmp_chars ys xs"
  by (induction xs ys rule: stricmp_chars.induct) auto

lemma stricmp_less: "stricmp a b < 0 \<longleftrightarrow> name_key a < name_key b"
  by (simp add: stricmp_def name_key_def fold_case_def stricmp_chars_less del: map_map)

lemma stricmp_greater: "stricmp a b > 0 \<longleftrightarrow> name_key b < name_key a"
  using stricmp_less [of b a] stricmp_chars_flip [of "cstr a" "cstr b"] by (simp add: stricmp_def)

lemma name_key_eq: "name_key a = name_key b \<longleftrightarrow> fold_case a = fold_case b"
  by (auto simp: name_key_def inj_map_eq_map inj_def uc_inject)

section \<open>Sorting\<close>

abbreviation by_name :: "strint list \<Rightarrow> bool" where
  "by_name \<equiv> sorted_wrt (\<lambda>x y. name_key (fst x) \<le> name_key (fst y))"

lemma set_strint_insert: "set (strint_insert x ys) = insert x (set ys)"
  by (induction ys) auto

lemma by_name_insert: "by_name ys \<Longrightarrow> by_name (strint_insert x ys)"
proof (induction ys)
  case (Cons y ys)
  have "stricmp (fst x) (fst y) \<le> 0 \<longleftrightarrow> name_key (fst x) \<le> name_key (fst y)"
    using stricmp_greater [of "fst x" "fst y"] by (simp add: linorder_not_less [symmetric])
  then show ?case using Cons by (auto simp: set_strint_insert intro: order_trans)
qed simp

lemma strint_sort_facts: "set (strint_sort tab) = set tab \<and> by_name (strint_sort tab)"
  unfolding strint_sort_def by (induction tab) (auto simp: set_strint_insert by_name_insert)

lemma length_strint_sort [simp]: "length (strint_sort tab) = length tab"
proof -
  have "length (strint_insert x ys) = Suc (length ys)" for x ys by (induction ys) auto
  then show ?thesis unfolding strint_sort_def by (induction tab) auto
qed

section \<open>Searching\<close>

definition named :: "bytes \<Rightarrow> strint list \<Rightarrow> int set" where
  "named s tab = {i. \<exists>n. (n, i) \<in> set tab \<and> fold_case n = fold_case s}"

declare search_loop.simps [simp del]

lemma search_loop_finds:
  assumes "by_name tab"
  shows "0 \<le> l \<Longrightarrow> l \<le> h \<Longrightarrow> h < int (length tab) \<Longrightarrow>
    (\<forall>j < length tab. int j < l \<longrightarrow> name_key (fst (tab ! j)) < name_key s) \<Longrightarrow>
    (\<forall>j < length tab. h < int j \<longrightarrow> name_key s < name_key (fst (tab ! j))) \<Longrightarrow>
    (case search_loop s tab l h of Some i \<Rightarrow> i \<in> named s tab | None \<Rightarrow> named s tab = {})"
proof (induction "nat (h - l + 1)" arbitrary: l h rule: less_induct)
  case less
  let ?i = "(h + l) div 2"
  have i: "l \<le> ?i" "?i \<le> h" "nat ?i < length tab" using less.prems(1-3) by auto
  have mono: "j \<le> k \<Longrightarrow> k < length tab \<Longrightarrow> name_key (fst (tab ! j)) \<le> name_key (fst (tab ! k))" for j k
    using sorted_wrt_nth_less [OF assms, of j k] by (cases "j = k") auto
  have none: "named s tab = {}" if "\<forall>j < length tab. name_key (fst (tab ! j)) \<noteq> name_key s"
    using that by (auto simp: named_def in_set_conv_nth name_key_eq)
  consider "stricmp s (fst (tab ! nat ?i)) = 0" | "stricmp s (fst (tab ! nat ?i)) < 0" | "stricmp s (fst (tab ! nat ?i)) > 0"
    by linarith
  then show ?case
  proof cases
    case 1
    moreover have "snd (tab ! nat ?i) \<in> named s tab" using 1 i(3)
      unfolding named_def by (metis (mono_tags, lifting) mem_Collect_eq nth_mem prod.collapse stricmp_eq_0)
    ultimately show ?thesis by (subst search_loop.simps) (simp add: Let_def)
  next
    case 2
    then have lt: "name_key s < name_key (fst (tab ! nat ?i))" by (simp add: stricmp_less)
    have up: "\<forall>j < length tab. ?i - 1 < int j \<longrightarrow> name_key s < name_key (fst (tab ! j))"
      using lt mono by (metis int_one_le_iff_zero_less le_less_trans nat_le_iff not_le less_le_trans zle_diff1_eq)
    show ?thesis
    proof (cases "?i - 1 < l")
      case True
      then have "named s tab = {}" using up less.prems(4) none by (metis less_irrefl not_less order_less_le_trans)
      then show ?thesis using 2 True by (subst search_loop.simps) (simp add: Let_def)
    next
      case False
      then have "case search_loop s tab l (?i - 1) of Some i \<Rightarrow> i \<in> named s tab | None \<Rightarrow> named s tab = {}"
        using less.prems i up by (intro less.hyps) auto
      then show ?thesis using 2 False by (subst search_loop.simps) (simp add: Let_def)
    qed
  next
    case 3
    then have gt: "name_key (fst (tab ! nat ?i)) < name_key s" by (simp add: stricmp_greater)
    have low: "\<forall>j < length tab. int j < ?i + 1 \<longrightarrow> name_key (fst (tab ! j)) < name_key s"
    proof (intro allI impI)
      fix j assume "j < length tab" "int j < ?i + 1"
      then have "name_key (fst (tab ! j)) \<le> name_key (fst (tab ! nat ?i))" using i by (intro mono) auto
      then show "name_key (fst (tab ! j)) < name_key s" using gt by (rule le_less_trans)
    qed
    show ?thesis
    proof (cases "h < ?i + 1")
      case True
      then have "named s tab = {}" using low less.prems(5) none by (metis less_irrefl not_less order_less_le_trans)
      then show ?thesis using 3 True by (subst search_loop.simps) (simp add: Let_def)
    next
      case False
      then have "case search_loop s tab (?i + 1) h of Some i \<Rightarrow> i \<in> named s tab | None \<Rightarrow> named s tab = {}"
        using less.prems i low by (intro less.hyps) auto
      then show ?thesis using 3 False by (subst search_loop.simps) (simp add: Let_def)
    qed
  qed
qed

text \<open>C31: The search of a sorted table finds the value of a name of the table, and nothing only when the name is not there.\<close>

theorem names_are_found:
  assumes "tab \<noteq> []"
  shows "case strint_search s (strint_sort tab) of Some i \<Rightarrow> i \<in> named s tab | None \<Rightarrow> named s tab = {}"
proof -
  have n: "named s tab = named s (strint_sort tab)" using strint_sort_facts [of tab] by (simp add: named_def)
  show ?thesis unfolding n
    using search_loop_finds [of "strint_sort tab" 0 "int (length tab) - 1" s] strint_sort_facts [of tab] assms
    by (simp add: strint_search_def Suc_le_eq)
qed

theorem names_are_found_witness:
  "case strint_search ''Sept'' (strint_sort [(''sep'', 8), (''september'', 8)]) of
     Some i \<Rightarrow> i \<in> named ''Sept'' [(''sep'', 8), (''september'', 8)] | None \<Rightarrow> named ''Sept'' [(''sep'', 8), (''september'', 8)] = {}"
  by (rule names_are_found) simp

end
