(* ===== verification/DateFacts.thy ===== *)
theory DateFacts
  imports TimeMacros DateNames
begin

text \<open>
  What \<^verbatim>\<open>date_parse\<close> makes of formatted dates: the default format, the ISO one and six digits are read back, the American
  format with seconds is read as the month after. A text is scanned as the number it prints (\<^verbatim>\<open>reads_as\<close>), so that the
  formats tried before the right one are seen to fail by rewriting.
\<close>

section \<open>Scanning what was printed\<close>

definition reads_as :: "bytes \<Rightarrow> int \<Rightarrow> bool" where
  "reads_as s v \<longleftrightarrow> s \<noteq> [] \<and> (\<forall>c \<in> set s. c_isdigit c) \<and> digits_value 0 s = v \<and> 0 \<le> v \<and> v < 2 ^ 31"

named_theorems scan_simps

lemma reads_itoa: "0 \<le> n \<Longrightarrow> n < 2 ^ 31 \<Longrightarrow> reads_as (itoa n) n"
  using itoa_loop_digits [of n]
  by (cases "n = 0") (auto simp: reads_as_def itoa_def Let_def c_char itoa_loop.simps [of n])

lemma reads_zero: "reads_as s v \<Longrightarrow> reads_as (CHR ''0'' # s) v"
  by (simp add: reads_as_def c_char)

lemma reads_padded: "0 \<le> n \<Longrightarrow> n < 2 ^ 31 \<Longrightarrow> reads_as (padded n) n"
  by (simp add: padded_def reads_itoa reads_zero)

lemma reads_hd: "reads_as s v \<Longrightarrow> \<exists>c cs. s = c # cs \<and> c_isdigit c \<and> \<not> c_isspace c \<and> c \<noteq> CHR ''-'' \<and> c \<noteq> CHR ''+''"
  using digit_char_facts by (cases s) (auto simp: reads_as_def)

lemma reads_space: "reads_as s v \<Longrightarrow> dropWhile c_isspace (s @ r) = s @ r"
  by (auto dest!: reads_hd)

lemma scan_d_reads:
  assumes "reads_as s v" "r = [] \<or> \<not> c_isdigit (hd r)"
  shows "scan_d (s @ r) = Some (v, r)"
proof -
  obtain c cs where c: "s = c # cs" "c \<noteq> CHR ''-''" "c \<noteq> CHR ''+''"
    using reads_hd [OF assms(1)] by auto
  have t: "takeWhile c_isdigit (s @ r) = s"
    using assms by (cases r) (auto simp: reads_as_def takeWhile_append)
  have "clamp64 v = v" "int32 v = v"
    using assms(1) by (auto simp: reads_as_def clamp64_def int32_id)
  then show ?thesis
    using assms(1) c t reads_space [OF assms(1), of r]
    by (auto simp: scan_d_def Let_def reads_as_def)
qed

lemma scan_int [scan_simps]:
  "reads_as s v \<Longrightarrow> r = [] \<or> \<not> c_isdigit (hd r) \<Longrightarrow>
    sscanf_loop (CHR ''%'' # CHR ''d'' # fs) (IntP x # ts) (s @ r) k l = sscanf_loop fs ts r (k + 1) (l\<lparr>l_int := (l_int l)(x \<mapsto> v)\<rparr>)"
  by (simp add: scan_d_reads c_char sscanf_loop.simps)

lemma scan_int_last [scan_simps]:
  "reads_as s v \<Longrightarrow>
    sscanf_loop (CHR ''%'' # CHR ''d'' # fs) (IntP x # ts) s k l = sscanf_loop fs ts [] (k + 1) (l\<lparr>l_int := (l_int l)(x \<mapsto> v)\<rparr>)"
  using scan_int [of s v "[]"] by simp

lemma scan_int_none:
  "scan_d s = None \<Longrightarrow> sscanf_loop (CHR ''%'' # CHR ''d'' # fs) ts s k l = Some (k, l)"
  by (simp add: c_char sscanf_loop.simps)

lemma scan_int_char [scan_simps]:
  "\<not> c_isspace c \<Longrightarrow> \<not> c_isdigit c \<Longrightarrow> c \<noteq> CHR ''-'' \<Longrightarrow> c \<noteq> CHR ''+'' \<Longrightarrow>
    sscanf_loop (CHR ''%'' # CHR ''d'' # fs) ts (c # s) k l = Some (k, l)"
  by (rule scan_int_none) (simp add: scan_d_def)

lemma scan_int_end [scan_simps]: "sscanf_loop (CHR ''%'' # CHR ''d'' # fs) ts [] k l = Some (k, l)"
  by (rule scan_int_none) (simp add: scan_d_def)

lemma scan_space [scan_simps]:
  "sscanf_loop (CHR '' '' # fs) ts s k l = sscanf_loop fs ts (dropWhile c_isspace s) k l"
  by (simp add: c_char sscanf_loop.simps)

lemma scan_set [scan_simps]:
  "sscanf_loop (CHR ''%'' # CHR ''['' # fs) (CharP v # ts) s k l =
    (let body = takeWhile (\<lambda>c. c \<noteq> CHR '']'') fs; cs = takeWhile (set_matches body) s in
     if cs = [] then Some (k, l)
     else if length cs \<ge> 500 then None
     else sscanf_loop (drop (length body + 1) fs) ts (drop (length cs) s) (k + 1) (l\<lparr>l_str := (l_str l)(v \<mapsto> cs)\<rparr>))"
  by (simp add: c_char Let_def sscanf_loop.simps)

lemma scan_char [scan_simps]:
  "\<not> c_isspace f \<Longrightarrow> f \<noteq> CHR ''%'' \<Longrightarrow>
    sscanf_loop (f # fs) ts s k l = (if take 1 s = [f] then sscanf_loop fs ts (tl s) k l else Some (k, l))"
  by (simp add: sscanf_loop.simps)

lemma scan_done [scan_simps]: "sscanf_loop [] ts s k l = Some (k, l)"
  by (simp add: sscanf_loop.simps)

lemmas cond_simps = scans_def both_def either_def with_ampm_def scan_name_def scan_ampm_def scan_gmtoff_def scan_mon_def
  scan_wday_def got_zone_def

lemma am_pm: "strint_search ''am'' ampm_tab = Some 1" "strint_search ''pm'' ampm_tab = Some 2"
  by code_simp+

definition hour12 :: "int \<Rightarrow> int" where
  "hour12 h = (if c_rem h 12 = 0 then 12 else c_rem h 12)"

definition year2 :: "int \<Rightarrow> bytes" where
  "year2 y = (if c_rem y 100 < 10 then ''0'' else []) @ itoa (c_rem (int32 (y + 1900)) 100)"

lemma default_text:
  "FmtTime t default_fmt = Some (itoa (int32 (tm_mon t + 1)) @ ''/'' @ itoa (tm_mday t) @ ''/'' @ year2 (tm_year t) @ '' '' @
     padded (hour12 (tm_hour t)) @ '':'' @ padded (tm_min t) @ '' '' @ (if tm_hour t > 11 then ''pm'' else ''am''))"
  unfolding default_fmt_def year2_def hour12_def by (simp add: FmtTime.simps fmt_item_def Let_def)

lemma iso_text:
  "FmtTime t ''yyyy-mm-dd HH:nn:ss'' = Some (itoa (int32 (tm_year t + 1900)) @ ''-'' @ padded (int32 (tm_mon t + 1)) @ ''-'' @
     padded (tm_mday t) @ '' '' @ padded (tm_hour t) @ '':'' @ padded (tm_min t) @ '':'' @ padded (tm_sec t))"
  by (simp add: FmtTime.simps fmt_item_def Let_def)

lemma us_text:
  "FmtTime t ''m/d/yyyy HH:nn:ss'' = Some (itoa (int32 (tm_mon t + 1)) @ ''/'' @ itoa (tm_mday t) @ ''/'' @ itoa (int32 (tm_year t + 1900)) @ '' '' @
     padded (tm_hour t) @ '':'' @ padded (tm_min t) @ '':'' @ padded (tm_sec t))"
  by (simp add: FmtTime.simps fmt_item_def Let_def)

lemma reads_year2: "0 \<le> y \<Longrightarrow> y < 2 ^ 30 \<Longrightarrow> reads_as (year2 y) (y mod 100)"
proof -
  assume y: "0 \<le> y" "y < 2 ^ 30"
  have "(y + 1900) mod 100 = y mod 100" using mod_mult_self1 [of y 19 100] by simp
  then have "year2 y = (if y mod 100 < 10 then ''0'' else []) @ itoa (y mod 100)"
    using y by (simp add: year2_def c_rem_nonneg int32_id)
  then show ?thesis by (simp add: reads_itoa reads_zero)
qed

lemma ampm_fix_hour12:
  assumes h: "0 \<le> h" "h < 24"
  shows "ampm_fix (hour12 h) (if h > 11 then 2 else 1) = h"
proof -
  have "h mod 12 = (if h < 12 then h else h - 12)"
    using h minus_mod_self2 [of h 12] mod_pos_pos_trivial [of "h - 12" 12] by simp
  then show ?thesis using h by (auto simp: ampm_fix_def hour12_def c_rem_nonneg int32_id)
qed

text \<open>A year of two digits is the one within fifty years of the first call.\<close>

lemma fix_year_mod:
  assumes n: "50 \<le> n" "n < 1850" and y: "n - 50 \<le> y" "y < n + 50"
  shows "fix_year n (y mod 100) = y"
proof -
  define a b where ab: "a = (n - 50) div 100" "b = (n - 50) mod 100"
  have b: "0 \<le> b" "b < 100" "n - 50 = 100 * a + b" using ab by auto
  have "n + 50 = b + (a + 1) * 100" using b by simp
  then have low: "(n + 50) mod 100 = b" using b by (metis mod_mult_self1 mod_pos_pos_trivial)
  have "y mod 100 = (if y - 100 * a < 100 then y - 100 * a else y - 100 * a - 100)"
  proof (cases "y - 100 * a < 100")
    case True
    then have "(y - 100 * a) mod 100 = y - 100 * a" using b y by (intro mod_pos_pos_trivial) auto
    then show ?thesis using True mod_mult_self1 [of y "- a" 100] by (simp add: algebra_simps)
  next
    case False
    then have "(y - 100 * a - 100) mod 100 = y - 100 * a - 100" using b y by (intro mod_pos_pos_trivial) auto
    moreover have "(y - 100 * a - 100) mod 100 = y mod 100"
      using mod_mult_self1 [of y "- a - 1" 100] by (simp add: algebra_simps)
    ultimately show ?thesis using False by simp
  qed
  note m = this
  have "fix_year n z = (if z < b then z + 100 else z) + 100 * a" if "z \<le> 1900" for z
    using n that low by (simp add: fix_year_def yk_low_def yk_off_def c_rem_nonneg c_quot_nonneg ab(1))
  then have f: "fix_year n (y mod 100) = (if y mod 100 < b then y mod 100 + 100 else y mod 100) + 100 * a"
    using pos_mod_bound [of 100 y] by simp
  show ?thesis unfolding f unfolding m using y b by simp
qed

lemmas text_simps = reads_space scan_simps c_char set_matches_def Let_def

lemma first_four_fail:
  assumes "reads_as M m" "c = CHR ''/'' \<or> c = CHR ''-''"
  shows "first_format formats (M @ c # r) t (start_locals g) =
    first_format (drop 4 formats) (M @ c # r) t (start_locals g\<lparr>l_int := [Mday \<mapsto> m]\<rparr>)"
  using assms
  by (auto simp: formats_def N_mth_YYYY_HMS_ampm_zone_def N_mth_YYYY_HM_ampm_zone_def N_mth_YYYY_HMS_ampm_def N_mth_YYYY_HM_ampm_def
      cond_simps text_simps start_locals_def)

lemma start_locals_simps:
  "l_int (start_locals g) = Map.empty" "l_str (start_locals g) = Map.empty" "l_ampm (start_locals g) = 0" "l_gmtoff (start_locals g) = g"
  by (simp_all add: start_locals_def)

lemma four_formats: "drop 4 formats = mdy_HMS # mdy_HM # ymd_HMS # drop 7 formats"
  by (simp add: formats_def)

lemmas try_simps = mdy_HMS_def mdy_HM_def ymd_HMS_def cond_simps text_simps start_locals_simps am_pm assign_def val_def const_def
  fixed_mon_def hour_of_day_def

lemma default_scan:
  assumes "reads_as M m" "reads_as D d" "reads_as Y y" "reads_as H h" "reads_as N i"
  shows "\<exists>l. first_format formats (M @ ''/'' @ D @ ''/'' @ Y @ '' '' @ H @ '':'' @ N @ '' '' @ (if p then ''pm'' else ''am'')) t (start_locals g) =
    Some (Some (t\<lparr>tm_mday := d, tm_mon := mm_fix m, tm_year := y, tm_hour := ampm_fix h (if p then 2 else 1), tm_min := i, tm_sec := 0\<rparr>), l) \<and>
    l_gmtoff l = g"
  using assms by (cases p) (simp_all add: first_four_fail four_formats try_simps)

lemma iso_scan:
  assumes "reads_as Y y" "reads_as M m" "reads_as D d" "reads_as H h" "reads_as N i" "reads_as S s"
  shows "\<exists>l. first_format formats (Y @ ''-'' @ M @ ''-'' @ D @ '' '' @ H @ '':'' @ N @ '':'' @ S) t (start_locals g) =
    Some (Some (t\<lparr>tm_mday := d, tm_mon := mm_fix m, tm_year := y, tm_hour := h, tm_min := i, tm_sec := s\<rparr>), l) \<and> l_gmtoff l = g"
  using assms by (simp add: first_four_fail four_formats try_simps ampm_fix_def)

lemma us_scan:
  assumes "reads_as Y y" "reads_as M m" "reads_as D d" "reads_as H h" "reads_as N i" "reads_as S s"
  shows "\<exists>l. first_format formats (M @ ''/'' @ D @ ''/'' @ Y @ '' '' @ H @ '':'' @ N @ '':'' @ S) t (start_locals g) =
    Some (Some (t\<lparr>tm_mday := d, tm_mon := m, tm_year := y, tm_hour := h, tm_min := i, tm_sec := s\<rparr>), l) \<and> l_gmtoff l = g"
  using assms by (simp add: first_four_fail four_formats try_simps ampm_fix_def)

lemma date_parse_of:
  assumes "reads_as M m"
    and "\<exists>l. first_format formats (M @ r) (now\<lparr>tm_wday := 0, tm_isdst := 0\<rparr>) (start_locals off) = Some (Some t, l) \<and> l_gmtoff l = off"
  shows "date_parse n now off mktime (M @ r) = Some (mktime (t\<lparr>tm_year := fix_year n (tm_year t), tm_isdst := - 1\<rparr>))"
proof -
  have "dropWhile (\<lambda>c. c = CHR '' '' \<or> c = CHR 0x09) (M @ r) = M @ r" "M @ r \<noteq> []"
    using reads_hd [OF assms(1)] by (auto simp: c_char)
  then show ?thesis using assms(2) by (auto simp: date_parse_def Let_def)
qed

text \<open>What a broken-down time must satisfy to be printed.\<close>

definition printable :: "tm \<Rightarrow> bool" where
  "printable t \<longleftrightarrow> 0 \<le> tm_sec t \<and> tm_sec t < 62 \<and> 0 \<le> tm_min t \<and> tm_min t < 60 \<and> 0 \<le> tm_hour t \<and> tm_hour t < 24 \<and>
     1 \<le> tm_mday t \<and> tm_mday t \<le> 31 \<and> 0 \<le> tm_mon t \<and> tm_mon t < 12"

lemma printable_reads:
  assumes "printable t"
  shows "reads_as (itoa (int32 (tm_mon t + 1))) (tm_mon t + 1)" "reads_as (padded (int32 (tm_mon t + 1))) (tm_mon t + 1)"
    "reads_as (itoa (tm_mday t)) (tm_mday t)" "reads_as (padded (tm_mday t)) (tm_mday t)" "reads_as (padded (tm_hour t)) (tm_hour t)"
    "reads_as (padded (tm_min t)) (tm_min t)" "reads_as (padded (tm_sec t)) (tm_sec t)"
    "mm_fix (tm_mon t + 1) = tm_mon t" "reads_as (padded (hour12 (tm_hour t))) (hour12 (tm_hour t))"
proof -
  have "0 \<le> hour12 (tm_hour t) \<and> hour12 (tm_hour t) < 13"
    using assms by (auto simp: printable_def hour12_def c_rem_nonneg intro: order_less_le_trans [OF pos_mod_bound])
  then show "reads_as (padded (hour12 (tm_hour t))) (hour12 (tm_hour t))" by (intro reads_padded) auto
qed (use assms in \<open>auto simp: printable_def int32_id mm_fix_def intro!: reads_itoa reads_padded\<close>)

lemma reads_year4: "- 1900 \<le> y \<Longrightarrow> y < 10000 \<Longrightarrow> reads_as (itoa (int32 (y + 1900))) (y + 1900)"
  by (simp add: int32_id reads_itoa)

lemmas formats_defs = N_mth_YYYY_HMS_ampm_zone_def N_mth_YYYY_HM_ampm_zone_def N_mth_YYYY_HMS_ampm_def N_mth_YYYY_HM_ampm_def
  mdy_HMS_def mdy_HM_def ymd_HMS_def ymd_HM_def mdy_def ymd_def md_HM_ampm_def md_HM_def md_def
  HMS_ampm_zone_N_mth_YYYY_def HM_ampm_zone_N_mth_YYYY_def HMS_ampm_N_mth_YYYY_def HM_ampm_N_mth_YYYY_def
  wdy_N_mth_YYYY_HMS_ampm_zone_def wdy_N_mth_YYYY_HM_ampm_zone_def wdy_N_mth_YYYY_HMS_ampm_def wdy_N_mth_YYYY_HM_ampm_def
  wdy_mth_N_HMS_ampm_zone_YYYY_def wdy_mth_N_HM_ampm_zone_YYYY_def
  N_mth_YY_def mth_N_YY_def mth_YY_def mth_def HMS_ampm_def HM_ampm_def

lemma reads_set:
  assumes "reads_as P v"
  shows "takeWhile (set_matches ''a-zA-Z'') P = []" "takeWhile (set_matches ''apmAPM'') P = []"
proof -
  obtain c cs where P: "P = c # cs" and c: "c_isdigit c" using reads_hd [OF assms] by auto
  then have "\<not> set_matches ''a-zA-Z'' c" "\<not> set_matches ''apmAPM'' c"
    by (auto simp: set_matches_def c_char)
  then show "takeWhile (set_matches ''a-zA-Z'') P = []" "takeWhile (set_matches ''apmAPM'') P = []" by (simp_all add: P)
qed

lemma reads_space_last: "reads_as s v \<Longrightarrow> dropWhile c_isspace s = s"
  using reads_space [of s v "[]"] by simp

lemma all_but_packed_fail:
  assumes "reads_as P v"
  shows "first_format formats P t (start_locals g) =
    first_format [yymmdd, yyyymmdd] P t (start_locals g\<lparr>l_int := [Year \<mapsto> v, Mon \<mapsto> v, Mday \<mapsto> v, Hour \<mapsto> v]\<rparr>)"
  using assms
  by (simp add: formats_def formats_defs cond_simps reads_space_last scan_simps reads_set c_char Let_def start_locals_simps)

lemma digits_value_pair:
  "\<forall>c \<in> set ys. c_isdigit c \<Longrightarrow> digits_value v ys = v * 10 ^ length ys + digits_value 0 ys"
proof (induction ys rule: rev_induct)
  case (snoc y ys)
  then show ?case by (simp add: digits_value_append algebra_simps)
qed simp

lemma length_padded: "0 \<le> n \<Longrightarrow> n < 100 \<Longrightarrow> length (padded n) = 2"
proof -
  assume n: "0 \<le> n" "n < 100"
  have "itoa_loop n = (if n = 0 then [] else digit_char (n mod 10) # itoa_loop (n div 10))" if "0 \<le> n" for n
    using that by (subst itoa_loop.simps) (simp add: c_rem_nonneg c_quot_nonneg)
  note l = this
  have "n div 10 < 10" "n div 10 div 10 = 0" using n by auto
  then show ?thesis using n l [of n] l [of "n div 10"] l [of 0] by (auto simp: padded_def itoa_def Let_def)
qed

lemma reads_two_more:
  assumes "reads_as s v" "0 \<le> n" "n < 100" "v < 10 ^ 7"
  shows "reads_as (s @ padded n) (v * 100 + n)"
  using assms reads_padded [of n] length_padded [of n] digits_value_pair [of "padded n" v]
  by (auto simp: reads_as_def digits_value_append)

lemma packed_scan:
  assumes P: "reads_as P (y * 10000 + m * 100 + d)" "length P = 6"
    and "0 \<le> y" "1 \<le> m" "m \<le> 12" "1 \<le> d" "d \<le> 31"
  shows "\<exists>l. first_format formats P t (start_locals g) =
    Some (Some (t\<lparr>tm_mday := d, tm_mon := mm_fix m, tm_year := y, tm_hour := 0, tm_min := 0, tm_sec := 0\<rparr>), l) \<and> l_gmtoff l = g"
proof -
  let ?v = "y * 10000 + m * 100 + d"
  have v: "?v = d + (y * 100 + m) * 100" "?v = m * 100 + d + y * 10000" by simp_all
  have "?v mod 100 = d mod 100" "?v div 100 = (y * 100 + m) + d div 100"
    unfolding v(1) by (rule mod_mult_self1, rule div_mult_self1) simp
  then have "?v mod 100 = d" "?v div 100 = y * 100 + m" using assms by (simp_all add: div_pos_pos_trivial mod_pos_pos_trivial)
  moreover have "?v div 10000 = y + (m * 100 + d) div 10000" unfolding v(2) by (rule div_mult_self1) simp
  then have "?v div 10000 = y" using assms by (simp add: div_pos_pos_trivial)
  moreover have "(y * 100 + m) mod 100 = m" using assms by (simp add: mod_pos_pos_trivial)
  ultimately have "c_rem ?v 100 = d" "c_quot ?v 100 = y * 100 + m" "c_quot ?v 10000 = y" "c_rem (y * 100 + m) 100 = m"
    using assms by (simp_all add: c_rem_nonneg c_quot_nonneg)
  then show ?thesis
    using assms unfolding all_but_packed_fail [OF P(1)]
    by (simp add: yymmdd_def cond_simps scan_simps looks_packed_def assign_def packed_mday_def packed_mon_def packed_year_def const_def
        start_locals_simps)
qed

lemma packed_reads:
  assumes "printable t" "0 \<le> tm_year t" "tm_year t < 2 ^ 30"
  defines "P \<equiv> year2 (tm_year t) @ padded (tm_mon t + 1) @ padded (tm_mday t)"
  shows "reads_as P (tm_year t mod 100 * 10000 + (tm_mon t + 1) * 100 + tm_mday t)" "length P = 6"
proof -
  have y: "year2 (tm_year t) = padded (tm_year t mod 100)"
    using assms(2,3) mod_mult_self1 [of "tm_year t" 19 100] by (simp add: year2_def padded_def c_rem_nonneg int32_id)
  define a where "a = tm_year t mod 100"
  have a: "0 \<le> a" "a < 100" by (simp_all add: a_def)
  have r: "reads_as (year2 (tm_year t)) a" unfolding a_def by (rule reads_year2 [OF assms(2,3)])
  have r2: "reads_as (year2 (tm_year t) @ padded (tm_mon t + 1)) (a * 100 + (tm_mon t + 1))"
    using assms(1) a by (intro reads_two_more [OF r]) (auto simp: printable_def)
  have "reads_as ((year2 (tm_year t) @ padded (tm_mon t + 1)) @ padded (tm_mday t)) ((a * 100 + (tm_mon t + 1)) * 100 + tm_mday t)"
    using assms(1) a by (intro reads_two_more [OF r2]) (auto simp: printable_def)
  then show "reads_as P (tm_year t mod 100 * 10000 + (tm_mon t + 1) * 100 + tm_mday t)" "length P = 6"
    using a assms(1) by (simp_all add: P_def y length_padded printable_def a_def [symmetric] algebra_simps)
qed

section \<open>Properties\<close>

text \<open>C19: A date printed in the default format of \<^verbatim>\<open>fmtltime\<close> is read back by \<^verbatim>\<open>dparse\<close> up to its seconds, if it
  lies within fifty years of the first call.\<close>

theorem default_format_read_back:
  assumes t: "printable t" and n: "50 \<le> n" "n < 1850" and y: "n - 50 \<le> tm_year t" "tm_year t < n + 50"
  shows "\<exists>s. FmtTime t default_fmt = Some s \<and>
    date_parse n now off mktime s = Some (mktime (t\<lparr>tm_sec := 0, tm_wday := 0, tm_isdst := - 1\<rparr>))"
proof -
  have y2: "reads_as (year2 (tm_year t)) (tm_year t mod 100)" using n y by (intro reads_year2) auto
  have "ampm_fix (hour12 (tm_hour t)) (if tm_hour t > 11 then 2 else 1) = tm_hour t"
    using t by (intro ampm_fix_hour12) (auto simp: printable_def)
  then show ?thesis
    using date_parse_of [OF printable_reads(1) [OF t] default_scan [OF printable_reads(1,3) [OF t] y2 printable_reads(9,6) [OF t], of "tm_hour t > 11"],
        of n now off mktime] printable_reads(8) [OF t] fix_year_mod [OF n y]
    by (cases t; cases now) (simp add: default_text)
qed

theorem default_format_witness:
  "\<exists>s. FmtTime \<lparr>tm_sec = 7, tm_min = 5, tm_hour = 13, tm_mday = 9, tm_mon = 1, tm_year = 99, tm_wday = 2, tm_isdst = 0\<rparr> default_fmt = Some s \<and>
    date_parse 125 \<lparr>tm_sec = 1, tm_min = 2, tm_hour = 3, tm_mday = 4, tm_mon = 5, tm_year = 125, tm_wday = 3, tm_isdst = 0\<rparr> 0 tm_year s = Some 99"
  using default_format_read_back [of "\<lparr>tm_sec = 7, tm_min = 5, tm_hour = 13, tm_mday = 9, tm_mon = 1, tm_year = 99, tm_wday = 2, tm_isdst = 0\<rparr>" 125
      "\<lparr>tm_sec = 1, tm_min = 2, tm_hour = 3, tm_mday = 4, tm_mon = 5, tm_year = 125, tm_wday = 3, tm_isdst = 0\<rparr>" 0 tm_year]
  by (simp add: printable_def)

text \<open>With the year first everything is read back, in every year with four digits after 1900.\<close>

theorem iso_format_read_back:
  assumes t: "printable t" and y: "0 < tm_year t" "tm_year t < 8100"
  shows "\<exists>s. FmtTime t ''yyyy-mm-dd HH:nn:ss'' = Some s \<and>
    date_parse n now off mktime s = Some (mktime (t\<lparr>tm_wday := 0, tm_isdst := - 1\<rparr>))"
proof -
  have y4: "reads_as (itoa (int32 (tm_year t + 1900))) (tm_year t + 1900)" using y by (intro reads_year4) auto
  show ?thesis
    using date_parse_of [OF y4 iso_scan [OF y4 printable_reads(2,4,5,6,7) [OF t]], of n now off mktime] printable_reads(8) [OF t] y
    by (cases t; cases now) (simp add: iso_text fix_year_def)
qed

theorem iso_format_witness:
  "\<exists>s. FmtTime \<lparr>tm_sec = 7, tm_min = 5, tm_hour = 13, tm_mday = 9, tm_mon = 1, tm_year = 99, tm_wday = 2, tm_isdst = 0\<rparr> ''yyyy-mm-dd HH:nn:ss'' = Some s \<and>
    date_parse 125 \<lparr>tm_sec = 1, tm_min = 2, tm_hour = 3, tm_mday = 4, tm_mon = 5, tm_year = 125, tm_wday = 3, tm_isdst = 0\<rparr> 0 tm_sec s = Some 7"
  using iso_format_read_back [of "\<lparr>tm_sec = 7, tm_min = 5, tm_hour = 13, tm_mday = 9, tm_mon = 1, tm_year = 99, tm_wday = 2, tm_isdst = 0\<rparr>" 125
      "\<lparr>tm_sec = 1, tm_min = 2, tm_hour = 3, tm_mday = 4, tm_mon = 5, tm_year = 125, tm_wday = 3, tm_isdst = 0\<rparr>" 0 tm_sec]
  by (simp add: printable_def)

text \<open>C35: With the month first and seconds, the month that is read is the next one.\<close>

theorem us_format_month_after:
  assumes t: "printable t" and y: "0 < tm_year t" "tm_year t < 8100"
  shows "\<exists>s. FmtTime t ''m/d/yyyy HH:nn:ss'' = Some s \<and>
    date_parse n now off mktime s = Some (mktime (t\<lparr>tm_mon := tm_mon t + 1, tm_wday := 0, tm_isdst := - 1\<rparr>))"
proof -
  have y4: "reads_as (itoa (int32 (tm_year t + 1900))) (tm_year t + 1900)" using y by (intro reads_year4) auto
  show ?thesis
    using date_parse_of [OF printable_reads(1) [OF t] us_scan [OF y4 printable_reads(1,3,5,6,7) [OF t]], of n now off mktime] y
    by (cases t; cases now) (simp add: us_text fix_year_def)
qed

theorem us_format_witness:
  "\<exists>s. FmtTime \<lparr>tm_sec = 7, tm_min = 5, tm_hour = 13, tm_mday = 9, tm_mon = 1, tm_year = 99, tm_wday = 2, tm_isdst = 0\<rparr> ''m/d/yyyy HH:nn:ss'' = Some s \<and>
    date_parse 125 \<lparr>tm_sec = 1, tm_min = 2, tm_hour = 3, tm_mday = 4, tm_mon = 5, tm_year = 125, tm_wday = 3, tm_isdst = 0\<rparr> 0 tm_mon s = Some 2"
  using us_format_month_after [of "\<lparr>tm_sec = 7, tm_min = 5, tm_hour = 13, tm_mday = 9, tm_mon = 1, tm_year = 99, tm_wday = 2, tm_isdst = 0\<rparr>" 125
      "\<lparr>tm_sec = 1, tm_min = 2, tm_hour = 3, tm_mday = 4, tm_mon = 5, tm_year = 125, tm_wday = 3, tm_isdst = 0\<rparr>" 0 tm_mon]
  by (simp add: printable_def)

text \<open>Six digits are a date too: the day and the month are taken from the number an earlier format left behind.\<close>

theorem packed_format_read_back:
  assumes t: "printable t" and n: "50 \<le> n" "n < 1850" and y: "n - 50 \<le> tm_year t" "tm_year t < n + 50"
  shows "\<exists>s. FmtTime t ''yymmdd'' = Some s \<and>
    date_parse n now off mktime s = Some (mktime (t\<lparr>tm_hour := 0, tm_min := 0, tm_sec := 0, tm_wday := 0, tm_isdst := - 1\<rparr>))"
proof -
  let ?P = "year2 (tm_year t) @ padded (tm_mon t + 1) @ padded (tm_mday t)"
  have P: "reads_as ?P (tm_year t mod 100 * 10000 + (tm_mon t + 1) * 100 + tm_mday t)" "length ?P = 6"
    using packed_reads [OF t] n y by auto
  have "FmtTime t ''yymmdd'' = Some ?P"
    using t by (simp add: FmtTime.simps fmt_item_def Let_def year2_def printable_def int32_id)
  then show ?thesis
    using date_parse_of [OF P(1), of "[]" now off _ n mktime, unfolded append_Nil2, OF packed_scan [OF P]] t fix_year_mod [OF n y] printable_reads(8) [OF t]
    by (cases t; cases now) (simp add: printable_def)
qed

theorem packed_format_witness:
  "\<exists>s. FmtTime \<lparr>tm_sec = 7, tm_min = 5, tm_hour = 13, tm_mday = 9, tm_mon = 1, tm_year = 99, tm_wday = 2, tm_isdst = 0\<rparr> ''yymmdd'' = Some s \<and>
    date_parse 125 \<lparr>tm_sec = 1, tm_min = 2, tm_hour = 3, tm_mday = 4, tm_mon = 5, tm_year = 125, tm_wday = 3, tm_isdst = 0\<rparr> 0 tm_mday s = Some 9"
  using packed_format_read_back [of "\<lparr>tm_sec = 7, tm_min = 5, tm_hour = 13, tm_mday = 9, tm_mon = 1, tm_year = 99, tm_wday = 2, tm_isdst = 0\<rparr>" 125
      "\<lparr>tm_sec = 1, tm_min = 2, tm_hour = 3, tm_mday = 4, tm_mon = 5, tm_year = 125, tm_wday = 3, tm_isdst = 0\<rparr>" 0 tm_mday]
  by (simp add: printable_def)

end
